(* ===== verification/Prelude.thy ===== *)
theory Prelude
  imports Main "HOL-Library.Word"
begin

text \<open>
  What every component of the library shares: the outcome of C++ code that may throw or leave
  defined behaviour, characters as the code sees them (a signed \<open>char\<close> promoted to \<open>int\<close>), the
  functions of \<open><cctype>\<close> in the C locale, decimal printing (\<open>std::to_string\<close>) and reading
  (\<open>std::stoi\<close>), and a small action type for code that reads a stream, may throw and may loop.
\<close>

named_theorems act_simps \<open>unfolding of the sequencing of actions\<close>
named_theorems char_simps \<open>the character classes\<close>

section \<open>Outcomes\<close>

text \<open>
  A C++ call returns, throws, ends the process, trips an enabled \<open>MINET_ASSERT\<close>
  (\<open>__builtin_trap\<close>), or has no defined behaviour at all. The last is a value of its own, so a
  theorem can say that the code stays clear of it, or that it does not.
\<close>

datatype fault =
    InvalidArgument       \<comment> \<open>\<open>std::invalid_argument\<close>\<close>
  | OutOfRange            \<comment> \<open>\<open>std::out_of_range\<close>\<close>
  | RuntimeError string   \<comment> \<open>\<open>std::runtime_error\<close>\<close>
  | FutureError string    \<comment> \<open>\<open>std::future_error\<close>\<close>
  | OtherException string \<comment> \<open>any other \<open>std::exception\<close>\<close>
  | ForeignException string \<comment> \<open>a thrown object that is not a \<open>std::exception\<close>\<close>
  | Terminate             \<comment> \<open>\<open>std::terminate\<close>: the process ends\<close>
  | AssertFailed          \<comment> \<open>an enabled \<open>MINET_ASSERT\<close> that does not hold\<close>
  | Undefined string      \<comment> \<open>undefined behaviour\<close>

datatype 'a outcome = Ret 'a | Raise fault

fun outcome_bind :: "'a outcome \<Rightarrow> ('a \<Rightarrow> 'b outcome) \<Rightarrow> 'b outcome" where
  "outcome_bind (Ret x) f = f x"
| "outcome_bind (Raise e) f = Raise e"

lemma outcome_bind_assoc:
  "outcome_bind (outcome_bind m f) g = outcome_bind m (\<lambda>x. outcome_bind (f x) g)"
  by (cases m) simp_all

text \<open>\<open>catch (const std::exception&)\<close> sees the standard exceptions and nothing else.\<close>

fun is_exception :: "fault \<Rightarrow> bool" where
  "is_exception AssertFailed = False"
| "is_exception Terminate = False"
| "is_exception (ForeignException w) = False"
| "is_exception (Undefined w) = False"
| "is_exception e = True"

section \<open>Actions\<close>

text \<open>
  Code over a state that may throw and whose loops may not end: \<open>None\<close> is a run that never
  returns, \<open>Some (out, s)\<close> a run that ends with outcome \<open>out\<close> and leaves the state \<open>s\<close>.
\<close>

type_synonym ('s, 'a) action = "'s \<Rightarrow> ('a outcome \<times> 's) option"

definition ret :: "'a \<Rightarrow> ('s, 'a) action" where
  "ret x s = Some (Ret x, s)"

definition andThen :: "('s, 'a) action \<Rightarrow> ('a \<Rightarrow> ('s, 'b) action) \<Rightarrow> ('s, 'b) action" where
  "andThen m f s =
     (case m s of
        None \<Rightarrow> None
      | Some (Raise e, s') \<Rightarrow> Some (Raise e, s')
      | Some (Ret x, s') \<Rightarrow> f x s')"

lemma andThen_Ret [act_simps]: "m s = Some (Ret x, s') \<Longrightarrow> andThen m f s = f x s'"
  by (simp add: andThen_def)

lemma andThen_Raise [act_simps]: "m s = Some (Raise e, s') \<Longrightarrow> andThen m f s = Some (Raise e, s')"
  by (simp add: andThen_def)

lemma ret_run [act_simps]: "ret x s = Some (Ret x, s)"
  by (simp add: ret_def)

lemma andThen_total:
  assumes "\<exists>r. m s = Some r" and "\<And>x s'. m s = Some (Ret x, s') \<Longrightarrow> \<exists>r. f x s' = Some r"
  shows "\<exists>r. andThen m f s = Some r"
proof -
  from assms(1) obtain r where r: "m s = Some r" by blast
  then obtain oc s' where "r = (oc, s')" by (cases r)
  with r assms(2) show ?thesis by (cases oc) (auto simp: andThen_def)
qed

lemma andThen_SomeE:
  assumes "andThen m f s = Some r"
  obtains (raised) e s' where "m s = Some (Raise e, s')" and "r = (Raise e, s')"
  | (returned) x s' where "m s = Some (Ret x, s')" and "f x s' = Some r"
  using assms that by (auto simp: andThen_def split: option.splits outcome.splits)

text \<open>
  Total correctness: \<open>runs m s Q\<close> says that \<open>m\<close> returns when it is started in \<open>s\<close>, and that its outcome
  and final state satisfy \<open>Q\<close>.
\<close>

definition runs :: "('s, 'a) action \<Rightarrow> 's \<Rightarrow> ('a outcome \<Rightarrow> 's \<Rightarrow> bool) \<Rightarrow> bool" where
  "runs m s Q \<longleftrightarrow> (\<exists>oc s'. m s = Some (oc, s') \<and> Q oc s')"

lemma runsI: "m s = Some (oc, s') \<Longrightarrow> Q oc s' \<Longrightarrow> runs m s Q"
  by (auto simp: runs_def)

lemma runs_ret [simp]: "runs (ret x) s Q \<longleftrightarrow> Q (Ret x) s"
  by (simp add: runs_def ret_def)

lemma runs_andThen:
  assumes "runs m s R"
    and "\<And>x s'. R (Ret x) s' \<Longrightarrow> runs (f x) s' Q"
    and "\<And>e s'. R (Raise e) s' \<Longrightarrow> Q (Raise e) s'"
  shows "runs (andThen m f) s Q"
  using assms by (fastforce simp: runs_def andThen_def split: outcome.splits)

lemma runs_cond [simp]:
  "runs (\<lambda>s. if b s then m s else m' s) s Q \<longleftrightarrow> (if b s then runs m s Q else runs m' s Q)"
  by (simp add: runs_def)

lemma runs_let [simp]:
  "runs (\<lambda>s. let x = g s in m x s) s Q \<longleftrightarrow> runs (m (g s)) s Q"
  by (simp add: runs_def)

lemma runs_weaken: "runs m s R \<Longrightarrow> (\<And>oc s'. R oc s' \<Longrightarrow> Q oc s') \<Longrightarrow> runs m s Q"
  by (auto simp: runs_def)

section \<open>Characters\<close>

text \<open>
  \<open>char\<close> is signed on the targets of the library (Linux on x86): promoted to \<open>int\<close>, a byte from
  \<open>0x80\<close> up is negative. \<open>int_ch\<close> is the conversion back, \<open>static_cast<char>\<close>.
\<close>

definition ch_int :: "char \<Rightarrow> int" where
  "ch_int c = (let n = (of_char c :: int) in if n < 128 then n else n - 256)"

definition int_ch :: "int \<Rightarrow> char" where
  "int_ch i = char_of (i mod 256)"

definition is_ascii :: "char \<Rightarrow> bool" where
  "is_ascii c \<longleftrightarrow> 0 < ch_int c"

lemma of_char_less: "(of_char c :: int) < 256" and of_char_nonneg: "0 \<le> (of_char c :: int)"
proof -
  have "0 \<le> of_char c mod (256 :: int)" and "of_char c mod (256 :: int) < 256"
    by (rule pos_mod_sign pos_mod_bound, simp)+
  then show "(of_char c :: int) < 256" and "0 \<le> (of_char c :: int)"
    by (simp_all only: of_char_mod_256)
qed

lemma ch_int_bounds: "- 128 \<le> ch_int c" "ch_int c \<le> 127"
  using of_char_less [of c] of_char_nonneg [of c] by (simp_all add: ch_int_def Let_def)

lemma int_ch_ch_int [simp]: "int_ch (ch_int c) = c"
proof -
  have "ch_int c mod 256 = of_char c mod 256"
    by (simp add: ch_int_def Let_def minus_mod_self2)
  then show ?thesis by (simp only: int_ch_def char_of_mod_256) (simp add: int_ch_def ch_int_def Let_def)
qed

lemma ch_int_inject [simp]: "ch_int c = ch_int d \<longleftrightarrow> c = d"
  by (metis int_ch_ch_int)

section \<open>The C character classes\<close>

definition isdigit :: "char \<Rightarrow> bool" where
  "isdigit c \<longleftrightarrow> 48 \<le> ch_int c \<and> ch_int c \<le> 57"

definition isupper :: "char \<Rightarrow> bool" where
  "isupper c \<longleftrightarrow> 65 \<le> ch_int c \<and> ch_int c \<le> 90"

definition islower :: "char \<Rightarrow> bool" where
  "islower c \<longleftrightarrow> 97 \<le> ch_int c \<and> ch_int c \<le> 122"

definition isalpha :: "char \<Rightarrow> bool" where
  "isalpha c \<longleftrightarrow> isupper c \<or> islower c"

definition isalnum :: "char \<Rightarrow> bool" where
  "isalnum c \<longleftrightarrow> isalpha c \<or> isdigit c"

definition isspace :: "char \<Rightarrow> bool" where
  "isspace c \<longleftrightarrow> ch_int c = 32 \<or> (9 \<le> ch_int c \<and> ch_int c \<le> 13)"

definition tolower :: "char \<Rightarrow> char" where
  "tolower c = (if isupper c then int_ch (ch_int c + 32) else c)"

lemmas [char_simps] = isdigit_def isupper_def islower_def isalpha_def isalnum_def isspace_def
  is_ascii_def ch_int_def

text \<open>
  \<open>strchr(s, ch) != nullptr\<close> for a string literal: the search includes the terminating NUL, so
  it succeeds for \<open>ch = 0\<close> whatever the literal holds.
\<close>

definition strchr :: "string \<Rightarrow> int \<Rightarrow> bool" where
  "strchr lit ch \<longleftrightarrow> int_ch ch \<in> set lit \<or> int_ch ch = CHR 0x00"

lemma strchr_ch_int [simp]: "strchr lit (ch_int c) \<longleftrightarrow> c \<in> set lit \<or> c = CHR 0x00"
  by (simp add: strchr_def)

section \<open>Decimal numbers\<close>

definition digit_char :: "nat \<Rightarrow> char" where
  "digit_char d = char_of (48 + d)"

fun nat_string :: "nat \<Rightarrow> string" where
  "nat_string n = (if n < 10 then [digit_char n] else nat_string (n div 10) @ [digit_char (n mod 10)])"

declare nat_string.simps [simp del]

definition int_string :: "int \<Rightarrow> string" where
  \<comment> \<open>\<open>std::to_string(int)\<close> and \<open>std::ostream << int\<close>\<close>
  "int_string i = (if i < 0 then CHR ''-'' # nat_string (nat (- i)) else nat_string (nat i))"

definition digits_value :: "string \<Rightarrow> nat" where
  "digits_value ds = foldl (\<lambda>a c. 10 * a + (of_char c - 48)) 0 ds"

text \<open>
  \<open>std::stoi\<close> is \<open>strtol\<close> in base 10: leading white space, an optional sign, then the longest run of
  digits; the rest of the string is ignored. No digit is \<open>std::invalid_argument\<close>, a value outside
  \<open>int\<close> is \<open>std::out_of_range\<close>.
\<close>

definition INT_MIN :: int where "INT_MIN = - (2 ^ 31)"
definition INT_MAX :: int where "INT_MAX = 2 ^ 31 - 1"

fun split_sign :: "string \<Rightarrow> int \<times> string" where
  "split_sign [] = (1, [])"
| "split_sign (c # cs) =
     (if c = CHR ''-'' then (- 1, cs) else if c = CHR ''+'' then (1, cs) else (1, c # cs))"

definition stoi :: "string \<Rightarrow> int outcome" where
  "stoi str =
     (let (sg, rest) = split_sign (dropWhile isspace str);
          ds = takeWhile isdigit rest;
          v = sg * int (digits_value ds)
      in if ds = [] then Raise InvalidArgument
         else if v < INT_MIN \<or> INT_MAX < v then Raise OutOfRange
         else Ret v)"

lemma of_char_digit_char [simp]: "d < 10 \<Longrightarrow> (of_char (digit_char d) :: nat) = 48 + d"
  by (simp add: digit_char_def)

lemma ch_int_nat: "ch_int c = (let n = (of_char c :: nat) in if n < 128 then int n else int n - 256)"
proof -
  have "(of_char c :: int) = int (of_char c)" by (rule of_nat_of_char [symmetric])
  then show ?thesis by (simp only: ch_int_def Let_def) simp
qed

lemma ch_int_digit_char: "d < 10 \<Longrightarrow> ch_int (digit_char d) = 48 + int d"
  by (simp add: ch_int_nat Let_def)

lemma isdigit_digit_char [simp]: "d < 10 \<Longrightarrow> isdigit (digit_char d)"
  by (simp add: isdigit_def ch_int_digit_char)

lemma nat_string_not_Nil [simp]: "nat_string n \<noteq> []"
  by (subst nat_string.simps) simp

lemma nat_string_digits: "\<forall>c \<in> set (nat_string n). isdigit c"
proof (induction n rule: nat_string.induct)
  case (1 n)
  show ?case
  proof (cases "n < 10")
    case True
    then show ?thesis by (subst nat_string.simps) simp
  next
    case False
    with "1.IH" show ?thesis by (subst nat_string.simps) auto
  qed
qed

lemma digits_value_snoc: "digits_value (ds @ [c]) = 10 * digits_value ds + (of_char c - 48)"
  by (simp add: digits_value_def)

lemma digits_value_nat_string [simp]: "digits_value (nat_string n) = n"
proof (induction n rule: nat_string.induct)
  case (1 n)
  show ?case
  proof (cases "n < 10")
    case True
    then show ?thesis by (subst nat_string.simps) (simp add: digits_value_def)
  next
    case False
    with "1.IH" have "digits_value (nat_string (n div 10)) = n div 10" by simp
    with False show ?thesis
      by (subst nat_string.simps) (simp add: digits_value_snoc)
  qed
qed

lemma isdigit_not_isspace: "isdigit c \<Longrightarrow> \<not> isspace c"
  by (auto simp: isdigit_def isspace_def)

lemma isdigit_not_sign: "isdigit c \<Longrightarrow> c \<noteq> CHR ''-'' \<and> c \<noteq> CHR ''+''"
  by (auto simp: isdigit_def ch_int_def)

lemma takeWhile_isdigit_nat_string [simp]: "takeWhile isdigit (nat_string n) = nat_string n"
  using nat_string_digits by (simp add: takeWhile_eq_all_conv)

lemma split_sign_digit: "ds \<noteq> [] \<Longrightarrow> isdigit (hd ds) \<Longrightarrow> split_sign ds = (1, ds)"
  by (cases ds) (auto dest: isdigit_not_sign)

lemma stoi_nat_string:
  assumes "int n \<le> INT_MAX"
  shows "stoi (nat_string n) = Ret (int n)"
proof -
  have d: "isdigit (hd (nat_string n))"
    using nat_string_digits [of n] by (cases "nat_string n") auto
  have "dropWhile isspace (nat_string n) = nat_string n"
    using d by (cases "nat_string n") (auto dest: isdigit_not_isspace)
  then show ?thesis
    using assms d by (simp add: stoi_def split_sign_digit INT_MIN_def Let_def)
qed

lemma stoi_int_string: "0 \<le> i \<Longrightarrow> i \<le> INT_MAX \<Longrightarrow> stoi (int_string i) = Ret i"
  using stoi_nat_string [of "nat i"] by (simp add: int_string_def)

lemma stoi_bounds: "stoi s = Ret i \<Longrightarrow> INT_MIN \<le> i \<and> i \<le> INT_MAX"
  by (auto simp: stoi_def Let_def split: prod.splits if_splits)

end
