(* ===== verification/Http.thy ===== *)
theory Http
  imports Prelude
begin

text \<open>
  \<open>minet/include/minet/common/Http.h\<close> and \<open>minet/src/common/Http.cpp\<close>: methods, versions, status codes
  and the string tables between them and the wire.
\<close>

section \<open>Enumerations\<close>

datatype HttpMethod =
  GET | POST | PUT | DELETE | HEAD | OPTIONS | TRACE | PATCH | METHOD_INVALID

datatype HttpVersion = HTTP_1_0 | HTTP_1_1 | HTTP_2_0 | VERSION_INVALID

text \<open>The order of the enumerators, so that methods can be keys of the library's containers.\<close>

fun method_rank :: "HttpMethod \<Rightarrow> nat" where
  "method_rank GET = 0"
| "method_rank POST = 1"
| "method_rank PUT = 2"
| "method_rank DELETE = 3"
| "method_rank HEAD = 4"
| "method_rank OPTIONS = 5"
| "method_rank TRACE = 6"
| "method_rank PATCH = 7"
| "method_rank METHOD_INVALID = 8"

instantiation HttpMethod :: linorder
begin

definition less_eq_HttpMethod :: "HttpMethod \<Rightarrow> HttpMethod \<Rightarrow> bool" where
  "less_eq_HttpMethod a b \<longleftrightarrow> method_rank a \<le> method_rank b"

definition less_HttpMethod :: "HttpMethod \<Rightarrow> HttpMethod \<Rightarrow> bool" where
  "less_HttpMethod a b \<longleftrightarrow> method_rank a < method_rank b"

instance
proof
  fix a b :: HttpMethod
  show "a \<le> b \<Longrightarrow> b \<le> a \<Longrightarrow> a = b"
    by (cases a; cases b) (simp_all add: less_eq_HttpMethod_def)
qed (auto simp: less_eq_HttpMethod_def less_HttpMethod_def)

end

section \<open>Wire strings\<close>

definition CR :: char where "CR = CHR 0x0D"
definition LF :: char where "LF = CHR 0x0A"

text \<open>\<open>http::entities\<close>.\<close>

definition HTTP_VERSION :: string where "HTTP_VERSION = ''HTTP/1.1''"
definition SPACE :: string where "SPACE = '' ''"
definition COLON :: string where "COLON = '': ''"
definition NEW_LINE :: string where "NEW_LINE = [CR, LF]"
definition CONTENT_TYPE :: string where "CONTENT_TYPE = ''Content-Type''"
definition CONTENT_LENGTH :: string where "CONTENT_LENGTH = ''Content-Length''"

lemmas entities_def = HTTP_VERSION_def SPACE_def COLON_def NEW_LINE_def CONTENT_TYPE_def
  CONTENT_LENGTH_def

text \<open>\<open>http::status\<close>.\<close>

definition STATUS_OK :: int where "STATUS_OK = 200"
definition NO_CONTENT :: int where "NO_CONTENT = 204"
definition BAD_REQUEST :: int where "BAD_REQUEST = 400"
definition NOT_FOUND :: int where "NOT_FOUND = 404"
definition METHOD_NOT_ALLOWED :: int where "METHOD_NOT_ALLOWED = 405"
definition INTERNAL_SERVER_ERROR :: int where "INTERNAL_SERVER_ERROR = 500"

lemmas status_def = STATUS_OK_def NO_CONTENT_def BAD_REQUEST_def NOT_FOUND_def
  METHOD_NOT_ALLOWED_def INTERNAL_SERVER_ERROR_def

section \<open>Conversions\<close>

fun HttpMethodToString :: "HttpMethod \<Rightarrow> string" where
  "HttpMethodToString GET = ''GET''"
| "HttpMethodToString POST = ''POST''"
| "HttpMethodToString PUT = ''PUT''"
| "HttpMethodToString DELETE = ''DELETE''"
| "HttpMethodToString HEAD = ''HEAD''"
| "HttpMethodToString OPTIONS = ''OPTIONS''"
| "HttpMethodToString TRACE = ''TRACE''"
| "HttpMethodToString PATCH = ''PATCH''"
| "HttpMethodToString METHOD_INVALID = ''INVALID''"

definition HttpMethodFromString :: "string \<Rightarrow> HttpMethod" where
  "HttpMethodFromString m =
     (if m = ''GET'' then GET
      else if m = ''POST'' then POST
      else if m = ''PUT'' then PUT
      else if m = ''DELETE'' then DELETE
      else if m = ''HEAD'' then HEAD
      else if m = ''OPTIONS'' then OPTIONS
      else if m = ''TRACE'' then TRACE
      else if m = ''PATCH'' then PATCH
      else METHOD_INVALID)"

definition StatusCodeToDescription :: "int \<Rightarrow> string" where
  "StatusCodeToDescription code =
     (if code = STATUS_OK then ''OK''
      else if code = NO_CONTENT then ''No Content''
      else if code = BAD_REQUEST then ''Bad Request''
      else if code = NOT_FOUND then ''Not Found''
      else if code = METHOD_NOT_ALLOWED then ''Method Not Allowed''
      else if code = INTERNAL_SERVER_ERROR then ''Internal Server Error''
      else ''Unknown'')"

section \<open>Lemmas\<close>

lemma method_string_roundtrip [simp]: "HttpMethodFromString (HttpMethodToString m) = m"
  by (cases m) (simp_all add: HttpMethodFromString_def)

lemma HttpMethodFromString_valid:
  "HttpMethodFromString s \<noteq> METHOD_INVALID \<Longrightarrow> HttpMethodToString (HttpMethodFromString s) = s"
  by (auto simp: HttpMethodFromString_def)

lemma method_string_alpha: "\<forall>c \<in> set (HttpMethodToString m). isalpha c"
  by (cases m) (auto simp: char_simps)

lemma method_string_not_Nil [simp]: "HttpMethodToString m \<noteq> []"
  by (cases m) simp_all

text \<open>
  \<open>HttpMethodToString\<close> and \<open>HttpMethodFromString\<close> are inverse to each other on the eight methods
  (a string is the name of a method exactly when it reads back as one that prints as the string),
  and every other string reads as \<open>INVALID\<close>, the printed form \<open>"INVALID"\<close> included.
\<close>

theorem method_names_roundtrip:
  "HttpMethodFromString (HttpMethodToString m) = m \<and>
   (HttpMethodFromString s = METHOD_INVALID \<longleftrightarrow>
      (\<nexists>k. k \<noteq> METHOD_INVALID \<and> HttpMethodToString k = s))"
proof -
  have "HttpMethodFromString s = METHOD_INVALID"
    if "\<nexists>k. k \<noteq> METHOD_INVALID \<and> HttpMethodToString k = s"
    using that HttpMethodFromString_valid [of s] by blast
  then show ?thesis using method_string_roundtrip by metis
qed

end
