(* ===== verification/IO_Stream.thy ===== *)
theory IO_Stream
  imports Prelude
begin

text \<open>
  \<open>minet/src/io/Stream.h\<close> and \<open>Stream.cpp\<close>: the stream interface, the stream over a socket and the
  stream over a buffer. The interface is a pair of locales: what a reader may rely on
  (\<open>byte_source\<close>) and what a writer may rely on (\<open>byte_sink\<close>); both streams are shown to keep the
  contract. The operating system's \<open>recv\<close>, \<open>send\<close> and \<open>close\<close> are parameters (\<open>net_ops\<close>).
\<close>

section \<open>Status values and results\<close>

definition StreamStatus_Empty :: int where [simp]: "StreamStatus_Empty = 0"
definition StreamStatus_EndOfFile :: int where [simp]: "StreamStatus_EndOfFile = - 1"
definition StreamStatus_Again :: int where [simp]: "StreamStatus_Again = - 2"
definition StreamStatus_Error :: int where [simp]: "StreamStatus_Error = - 3"

text \<open>
  The result of \<open>Stream::Read(buffer, length)\<close>: a return value \<open>n \<ge> 0\<close> together with the \<open>n\<close> bytes
  stored at \<open>buffer\<close> is \<open>Bytes bs\<close> with \<open>length bs = n\<close>; a negative return value is \<open>Failed v\<close>.
\<close>

datatype io_read = Bytes string | Failed int

section \<open>The contracts\<close>

locale byte_source =
  fixes sread :: "'s \<Rightarrow> nat \<Rightarrow> io_read \<times> 's"
    and pending :: "'s \<Rightarrow> string"
    and sinv :: "'s \<Rightarrow> bool"
  assumes read_some: "sinv s \<Longrightarrow> 0 < n \<Longrightarrow> pending s \<noteq> [] \<Longrightarrow>
      \<exists>bs s'. sread s n = (Bytes bs, s') \<and> sinv s' \<and> bs \<noteq> [] \<and> length bs \<le> n \<and>
        pending s = bs @ pending s'"
    and read_none: "sinv s \<Longrightarrow> 0 < n \<Longrightarrow> pending s = [] \<Longrightarrow>
      \<exists>res s'. sread s n = (res, s') \<and> sinv s' \<and> pending s' = [] \<and>
        (res = Bytes [] \<or> (\<exists>e. res = Failed e \<and> e < 0 \<and> e \<noteq> StreamStatus_Again))"

locale byte_sink =
  fixes swrite :: "'s \<Rightarrow> string \<Rightarrow> int \<times> 's"
    and sent :: "'s \<Rightarrow> string"
    and winv :: "'s \<Rightarrow> bool"
  assumes write_all: "winv s \<Longrightarrow> bs \<noteq> [] \<Longrightarrow>
      \<exists>s'. swrite s bs = (int (length bs), s') \<and> winv s' \<and> sent s' = sent s @ bs"

section \<open>The system calls\<close>

datatype errno = EAGAIN | EWOULDBLOCK | ErrnoOther nat

datatype sys_read = SysBytes string | SysErr errno

record 'k net_ops =
  net_recv :: "'k \<Rightarrow> int \<Rightarrow> nat \<Rightarrow> sys_read \<times> 'k"
  net_send :: "'k \<Rightarrow> int \<Rightarrow> string \<Rightarrow> (errno + nat) \<times> 'k"
  net_close :: "'k \<Rightarrow> int \<Rightarrow> int \<times> 'k"

section \<open>Socket stream\<close>

record 'k SocketStream =
  ss_fd :: int
  ss_kernel :: 'k

definition SocketStream_new :: "int \<Rightarrow> 'k \<Rightarrow> 'k SocketStream" where
  "SocketStream_new fd k = \<lparr>ss_fd = fd, ss_kernel = k\<rparr>"

definition SocketStream_IsReadable :: "'k SocketStream \<Rightarrow> bool" where
  "SocketStream_IsReadable s \<longleftrightarrow> ss_fd s > 0"

definition SocketStream_IsWritable :: "'k SocketStream \<Rightarrow> bool" where
  "SocketStream_IsWritable s \<longleftrightarrow> ss_fd s > 0"

definition SocketStream_Read ::
    "'k net_ops \<Rightarrow> 'k SocketStream \<Rightarrow> nat \<Rightarrow> io_read \<times> 'k SocketStream" where
  "SocketStream_Read net s len =
     (if \<not> SocketStream_IsReadable s then (Failed StreamStatus_Error, s)
      else let (res, k) = net_recv net (ss_kernel s) (ss_fd s) len; s' = s\<lparr>ss_kernel := k\<rparr> in
        case res of
          SysErr e \<Rightarrow>
            if e = EAGAIN \<or> e = EWOULDBLOCK then (Failed StreamStatus_Again, s')
            else (Failed StreamStatus_Error, s')
        | SysBytes bs \<Rightarrow> (Bytes bs, s'))"

definition SocketStream_Write ::
    "'k net_ops \<Rightarrow> 'k SocketStream \<Rightarrow> string \<Rightarrow> int \<times> 'k SocketStream" where
  "SocketStream_Write net s bs =
     (if \<not> SocketStream_IsWritable s then (StreamStatus_Error, s)
      else let (res, k) = net_send net (ss_kernel s) (ss_fd s) bs; s' = s\<lparr>ss_kernel := k\<rparr> in
        case res of
          Inl e \<Rightarrow>
            if e = EAGAIN \<or> e = EWOULDBLOCK then (StreamStatus_Again, s')
            else (StreamStatus_Error, s')
        | Inr n \<Rightarrow> (int n, s'))"

definition SocketStream_Close :: "'k net_ops \<Rightarrow> 'k SocketStream \<Rightarrow> int \<times> 'k SocketStream" where
  "SocketStream_Close net s =
     (if ss_fd s > 0
      then let (r, k) = net_close net (ss_kernel s) (ss_fd s) in
        (r, s\<lparr>ss_kernel := k, ss_fd := 0\<rparr>)
      else (0, s))"

section \<open>Buffer input stream\<close>

record BufferInputStream =
  bis_buffer :: string
  bis_offset :: nat
  bis_closed :: bool

definition BufferInputStream_new :: "string \<Rightarrow> BufferInputStream" where
  "BufferInputStream_new bs = \<lparr>bis_buffer = bs, bis_offset = 0, bis_closed = False\<rparr>"

definition BufferInputStream_IsReadable :: "BufferInputStream \<Rightarrow> bool" where
  "BufferInputStream_IsReadable s \<longleftrightarrow> \<not> bis_closed s"

definition BufferInputStream_IsWritable :: "BufferInputStream \<Rightarrow> bool" where
  "BufferInputStream_IsWritable s \<longleftrightarrow> False"

definition BufferInputStream_Read ::
    "BufferInputStream \<Rightarrow> nat \<Rightarrow> io_read \<times> BufferInputStream" where
  "BufferInputStream_Read s len =
     (if \<not> BufferInputStream_IsReadable s then (Failed StreamStatus_Error, s)
      else if bis_offset s \<ge> length (bis_buffer s) then (Failed StreamStatus_Error, s)
      else let sz = min len (length (bis_buffer s) - bis_offset s) in
        (Bytes (take sz (drop (bis_offset s) (bis_buffer s))),
         s\<lparr>bis_offset := bis_offset s + sz\<rparr>))"

definition BufferInputStream_Write ::
    "BufferInputStream \<Rightarrow> string \<Rightarrow> int \<times> BufferInputStream" where
  "BufferInputStream_Write s bs = (StreamStatus_Error, s)"

definition BufferInputStream_Close :: "BufferInputStream \<Rightarrow> int \<times> BufferInputStream" where
  "BufferInputStream_Close s = (0, s\<lparr>bis_closed := True\<rparr>)"

definition bis_pending :: "BufferInputStream \<Rightarrow> string" where
  "bis_pending s = drop (bis_offset s) (bis_buffer s)"

definition bis_inv :: "BufferInputStream \<Rightarrow> bool" where
  "bis_inv s \<longleftrightarrow> \<not> bis_closed s \<and> bis_offset s \<le> length (bis_buffer s)"

lemma bis_new [simp]:
  "bis_pending (BufferInputStream_new bs) = bs" "bis_inv (BufferInputStream_new bs)"
  by (simp_all add: bis_pending_def bis_inv_def BufferInputStream_new_def)

lemma BufferInputStream_Read_some:
  assumes "bis_inv s" and "pending = bis_pending s" and "pending \<noteq> []"
  shows "BufferInputStream_Read s n =
    (Bytes (take n pending), s\<lparr>bis_offset := bis_offset s + min n (length pending)\<rparr>)"
  using assms
  by (auto simp: BufferInputStream_Read_def BufferInputStream_IsReadable_def bis_inv_def
      bis_pending_def Let_def min_def)

lemma BufferInputStream_Read_none:
  assumes "bis_inv s" and "bis_pending s = []"
  shows "BufferInputStream_Read s n = (Failed StreamStatus_Error, s)"
  using assms
  by (auto simp: BufferInputStream_Read_def BufferInputStream_IsReadable_def bis_inv_def
      bis_pending_def)

interpretation bis: byte_source BufferInputStream_Read bis_pending bis_inv
proof
  fix s :: BufferInputStream and n :: nat
  assume inv: "bis_inv s" and n: "0 < n" and p: "bis_pending s \<noteq> []"
  let ?s' = "s\<lparr>bis_offset := bis_offset s + min n (length (bis_pending s))\<rparr>"
  have "bis_inv ?s'" and "bis_pending ?s' = drop n (bis_pending s)"
    using inv by (auto simp: bis_inv_def bis_pending_def min_def add.commute)
  then show "\<exists>bs s'. BufferInputStream_Read s n = (Bytes bs, s') \<and> bis_inv s' \<and> bs \<noteq> [] \<and>
      length bs \<le> n \<and> bis_pending s = bs @ bis_pending s'"
    using BufferInputStream_Read_some [OF inv refl p, of n] n p by auto
next
  fix s :: BufferInputStream and n :: nat
  assume "bis_inv s" and "0 < n" and "bis_pending s = []"
  then show "\<exists>res s'. BufferInputStream_Read s n = (res, s') \<and> bis_inv s' \<and> bis_pending s' = [] \<and>
      (res = Bytes [] \<or> (\<exists>e. res = Failed e \<and> e < 0 \<and> e \<noteq> StreamStatus_Again))"
    using BufferInputStream_Read_none by simp
qed

section \<open>A scripted peer\<close>

text \<open>
  A concrete instance of the system calls, for the interpretations and the witnesses: a blocking
  connected socket whose peer delivers the segments \<open>inbound\<close> and then shuts down its side, and takes
  everything that is sent. A \<open>recv\<close> returns at most one segment, and at most what was asked for.
\<close>

record peer =
  inbound :: "string list"
  outbound :: string
  closed_fds :: "int list"

definition peer_recv :: "peer \<Rightarrow> int \<Rightarrow> nat \<Rightarrow> sys_read \<times> peer" where
  "peer_recv k fd n =
     (case inbound k of
        [] \<Rightarrow> (SysBytes [], k)
      | c # cs \<Rightarrow>
          if length c \<le> n then (SysBytes c, k\<lparr>inbound := cs\<rparr>)
          else (SysBytes (take n c), k\<lparr>inbound := drop n c # cs\<rparr>))"

definition peer_send :: "peer \<Rightarrow> int \<Rightarrow> string \<Rightarrow> (errno + nat) \<times> peer" where
  "peer_send k fd bs = (Inr (length bs), k\<lparr>outbound := outbound k @ bs\<rparr>)"

definition peer_close :: "peer \<Rightarrow> int \<Rightarrow> int \<times> peer" where
  "peer_close k fd = (0, k\<lparr>closed_fds := fd # closed_fds k\<rparr>)"

definition peer_net :: "peer net_ops" where
  "peer_net = \<lparr>net_recv = peer_recv, net_send = peer_send, net_close = peer_close\<rparr>"

definition peer_new :: "string list \<Rightarrow> peer" where
  "peer_new segs = \<lparr>inbound = segs, outbound = [], closed_fds = []\<rparr>"

definition sock_pending :: "peer SocketStream \<Rightarrow> string" where
  "sock_pending s = concat (inbound (ss_kernel s))"

definition sock_sent :: "peer SocketStream \<Rightarrow> string" where
  "sock_sent s = outbound (ss_kernel s)"

definition sock_inv :: "peer SocketStream \<Rightarrow> bool" where
  "sock_inv s \<longleftrightarrow> ss_fd s > 0 \<and> [] \<notin> set (inbound (ss_kernel s))"

lemmas sock_defs = SocketStream_Read_def SocketStream_Write_def SocketStream_IsReadable_def
  SocketStream_IsWritable_def peer_net_def peer_recv_def peer_send_def sock_pending_def sock_inv_def
  sock_sent_def

interpretation sock: byte_source "SocketStream_Read peer_net" sock_pending sock_inv
proof
  fix s :: "peer SocketStream" and n :: nat
  assume inv: "sock_inv s" and n: "0 < n" and p: "sock_pending s \<noteq> []"
  then obtain c cs where c: "inbound (ss_kernel s) = c # cs"
    by (cases "inbound (ss_kernel s)") (auto simp: sock_pending_def)
  show "\<exists>bs s'. SocketStream_Read peer_net s n = (Bytes bs, s') \<and> sock_inv s' \<and> bs \<noteq> [] \<and>
      length bs \<le> n \<and> sock_pending s = bs @ sock_pending s'"
    using inv n c by (cases "length c \<le> n") (auto simp: sock_defs)
next
  fix s :: "peer SocketStream" and n :: nat
  assume inv: "sock_inv s" and "0 < n" and p: "sock_pending s = []"
  then have "inbound (ss_kernel s) = []"
    by (cases "inbound (ss_kernel s)") (auto simp: sock_pending_def sock_inv_def)
  then show "\<exists>res s'. SocketStream_Read peer_net s n = (res, s') \<and> sock_inv s' \<and>
      sock_pending s' = [] \<and>
      (res = Bytes [] \<or> (\<exists>e. res = Failed e \<and> e < 0 \<and> e \<noteq> StreamStatus_Again))"
    using inv by (auto simp: sock_defs)
qed

interpretation sock: byte_sink "SocketStream_Write peer_net" sock_sent sock_inv
  by unfold_locales (auto simp: sock_defs)

lemma SocketStream_double_close:
  assumes "SocketStream_Close net s = (r, s')"
  shows "SocketStream_Close net s' = (0, s')"
  using assms by (auto simp: SocketStream_Close_def Let_def split: prod.splits if_splits)

end
