(* ===== verification/IO_Reader.thy ===== *)
theory IO_Reader
  imports IO_Stream
begin

text \<open>
  \<open>minet/src/io/StreamReader.h\<close> and \<open>StreamReader.cpp\<close>: the reader interface the parsers use (the
  locale \<open>char_reader\<close>) and the buffered reader that implements it over any stream that keeps the
  contract \<open>byte_source\<close>. The virtual \<open>Stream::Read\<close> is the argument \<open>sread\<close> of the operations.
\<close>

section \<open>State\<close>

text \<open>
  \<open>_buffer\<close> is the part of the 1024 bytes that has been written so far; \<open>_head\<close> and \<open>_tail\<close> are
  offsets into it.
\<close>

record 's BufferedStreamReader =
  br_stream :: 's
  br_buffer :: string
  br_head :: nat
  br_tail :: nat
  br_eof :: bool

definition reader_sBufferSize :: nat where "reader_sBufferSize = 1024"

definition BufferedStreamReader_new :: "'s \<Rightarrow> 's BufferedStreamReader" where
  "BufferedStreamReader_new s =
     \<lparr>br_stream = s, br_buffer = [], br_head = 0, br_tail = 0, br_eof = False\<rparr>"

definition reader_BufferSize :: "'s BufferedStreamReader \<Rightarrow> nat" where
  "reader_BufferSize r = br_tail r - br_head r"

definition reader_IsEmpty :: "'s BufferedStreamReader \<Rightarrow> bool" where
  "reader_IsEmpty r \<longleftrightarrow> br_head r = br_tail r"

definition reader_IsEof :: "'s BufferedStreamReader \<Rightarrow> bool" where
  "reader_IsEof r \<longleftrightarrow> br_eof r"

section \<open>Operations\<close>

text \<open>
  \<open>_Flush\<close> resets \<open>_head\<close> before it reads. When the stream answers \<open>Again\<close> nothing else is done:
  \<open>_tail\<close> still points behind the bytes of the previous read.
\<close>

definition reader_Flush ::
    "('s \<Rightarrow> nat \<Rightarrow> io_read \<times> 's) \<Rightarrow> 's BufferedStreamReader \<Rightarrow> 's BufferedStreamReader" where
  "reader_Flush sread r =
     (if br_head r \<noteq> br_tail r then r
      else
        let (res, st) = sread (br_stream r) reader_sBufferSize;
            r1 = r\<lparr>br_head := 0, br_stream := st\<rparr>
        in case res of
          Bytes bs \<Rightarrow>
            r1\<lparr>br_buffer := bs @ drop (length bs) (br_buffer r), br_tail := length bs,
               br_eof := (bs = [])\<rparr>
        | Failed e \<Rightarrow> if e = StreamStatus_Again then r1 else r1\<lparr>br_eof := True\<rparr>)"

definition reader_Read ::
    "('s \<Rightarrow> nat \<Rightarrow> io_read \<times> 's) \<Rightarrow> 's BufferedStreamReader \<Rightarrow> int \<times> 's BufferedStreamReader" where
  "reader_Read sread r =
     (let r1 = reader_Flush sread r in
      if reader_IsEof r1 then (StreamStatus_EndOfFile, r1)
      else if reader_IsEmpty r1 then (StreamStatus_Empty, r1)
      else (ch_int (br_buffer r1 ! br_head r1), r1\<lparr>br_head := Suc (br_head r1)\<rparr>))"

text \<open>
  The loop of \<open>Read(char* buffer, size_t length)\<close>; \<open>acc\<close> is what has been stored at the caller's
  buffer, which has room for \<open>length\<close> bytes. Each round copies \<open>min(length, _BufferSize())\<close> bytes,
  not \<open>min(remaining, _BufferSize())\<close>: a copy of more than \<open>remaining\<close> bytes writes past the end of
  the caller's buffer.
\<close>

function reader_ReadLoop ::
    "('s \<Rightarrow> nat \<Rightarrow> io_read \<times> 's) \<Rightarrow> nat \<Rightarrow> nat \<Rightarrow> string \<Rightarrow> 's BufferedStreamReader \<Rightarrow>
     (nat \<times> string) outcome \<times> 's BufferedStreamReader" where
  "reader_ReadLoop sread len remaining acc r =
     (if remaining > 0 \<and> \<not> reader_IsEof r
      then
        let r1 = reader_Flush sread r; sz = min len (reader_BufferSize r1) in
        if sz = 0 then (Ret (remaining, acc), r1)
        else if sz > remaining then (Raise (Undefined ''memcpy past the end of the buffer''), r1)
        else reader_ReadLoop sread len (remaining - sz)
               (acc @ take sz (drop (br_head r1) (br_buffer r1)))
               (r1\<lparr>br_head := br_head r1 + sz\<rparr>)
      else (Ret (remaining, acc), r))"
  by pat_completeness auto
termination
  by (relation "measure (\<lambda>(sread, len, remaining, acc, r). remaining)") auto

declare reader_ReadLoop.simps [simp del]

definition reader_ReadBlock ::
    "('s \<Rightarrow> nat \<Rightarrow> io_read \<times> 's) \<Rightarrow> 's BufferedStreamReader \<Rightarrow> nat \<Rightarrow>
     (int \<times> string) outcome \<times> 's BufferedStreamReader" where
  "reader_ReadBlock sread r len =
     (if reader_IsEof r then (Ret (StreamStatus_EndOfFile, []), r)
      else case reader_ReadLoop sread len len [] r of
          (Raise e, r1) \<Rightarrow> (Raise e, r1)
        | (Ret (remaining, acc), r1) \<Rightarrow> (Ret (int (len - remaining), acc), r1))"

lemmas reader_query_defs = reader_IsEof_def reader_IsEmpty_def reader_BufferSize_def

section \<open>What the parsers rely on\<close>

text \<open>
  \<open>StreamReader::Read()\<close> hands out the unread characters one by one and then \<open>-1\<close>. A character is
  promoted from a signed \<open>char\<close>, so the byte \<open>0xFF\<close> and the end of the stream give the same value.
\<close>

locale char_reader =
  fixes rd :: "'r \<Rightarrow> int \<times> 'r"
    and unread :: "'r \<Rightarrow> string"
    and rinv :: "'r \<Rightarrow> bool"
  assumes rd_cons: "rinv r \<Longrightarrow> unread r = c # cs \<Longrightarrow>
      \<exists>r'. rd r = (ch_int c, r') \<and> rinv r' \<and> unread r' = cs"
    and rd_nil: "rinv r \<Longrightarrow> unread r = [] \<Longrightarrow>
      \<exists>r'. rd r = (StreamStatus_EndOfFile, r') \<and> rinv r' \<and> unread r' = []"

section \<open>The buffered reader keeps the contract\<close>

definition reader_unread :: "('s \<Rightarrow> string) \<Rightarrow> 's BufferedStreamReader \<Rightarrow> string" where
  "reader_unread pending r =
     (if br_eof r then []
      else drop (br_head r) (take (br_tail r) (br_buffer r)) @ pending (br_stream r))"

definition reader_inv ::
    "('s \<Rightarrow> string) \<Rightarrow> ('s \<Rightarrow> bool) \<Rightarrow> 's BufferedStreamReader \<Rightarrow> bool" where
  "reader_inv pending sinv r \<longleftrightarrow>
     br_head r \<le> br_tail r \<and> br_tail r \<le> length (br_buffer r) \<and> sinv (br_stream r) \<and>
     (br_eof r \<longrightarrow> pending (br_stream r) = [])"

lemma reader_new [simp]:
  "reader_unread pending (BufferedStreamReader_new s) = pending s"
  "reader_inv pending sinv (BufferedStreamReader_new s) \<longleftrightarrow> sinv s"
  "br_eof (BufferedStreamReader_new s) = False"
  by (auto simp: reader_unread_def reader_inv_def BufferedStreamReader_new_def)

context byte_source
begin

lemma flush_cases:
  assumes "reader_inv pending sinv r"
  obtains (buffered) "br_head r < br_tail r" and "reader_Flush sread r = r"
  | (refilled) bs st where "br_head r = br_tail r" and "bs \<noteq> []"
      and "length bs \<le> reader_sBufferSize" and "sinv st"
      and "pending (br_stream r) = bs @ pending st"
      and "reader_Flush sread r = r\<lparr>br_stream := st, br_buffer := bs @ drop (length bs) (br_buffer r),
             br_head := 0, br_tail := length bs, br_eof := False\<rparr>"
  | (ended) st buf t where "br_head r = br_tail r" and "pending (br_stream r) = []"
      and "sinv st" and "pending st = []" and "t \<le> length buf"
      and "reader_Flush sread r = r\<lparr>br_stream := st, br_buffer := buf, br_head := 0, br_tail := t,
             br_eof := True\<rparr>"
proof (cases "br_head r = br_tail r")
  case False
  then show ?thesis
    using assms buffered by (auto simp: reader_inv_def reader_Flush_def)
next
  case True
  have inv: "sinv (br_stream r)" and t: "br_tail r \<le> length (br_buffer r)"
    using assms by (auto simp: reader_inv_def)
  have pos: "0 < reader_sBufferSize" by (simp add: reader_sBufferSize_def)
  show ?thesis
  proof (cases "pending (br_stream r) = []")
    case False
    with read_some [OF inv pos] obtain bs st where
      "sread (br_stream r) reader_sBufferSize = (Bytes bs, st)" "sinv st" "bs \<noteq> []"
      "length bs \<le> reader_sBufferSize" "pending (br_stream r) = bs @ pending st" by blast
    with True show ?thesis
      by (intro refilled [of bs st]) (auto simp: reader_Flush_def)
  next
    case pend: True
    obtain res st where res: "sread (br_stream r) reader_sBufferSize = (res, st)" "sinv st"
        "pending st = []" "res = Bytes [] \<or> (\<exists>e. res = Failed e \<and> e < 0 \<and> e \<noteq> StreamStatus_Again)"
      using read_none [OF inv pos pend] by blast
    from res(4) show ?thesis
    proof
      assume "res = Bytes []"
      with res True pend show ?thesis
        by (intro ended [of st 0 "br_buffer r"]) (auto simp: reader_Flush_def)
    next
      assume "\<exists>e. res = Failed e \<and> e < 0 \<and> e \<noteq> StreamStatus_Again"
      with res True pend t show ?thesis
        by (intro ended [of st "br_tail r" "br_buffer r"]) (auto simp: reader_Flush_def)
    qed
  qed
qed

lemma flush_inv:
  assumes "reader_inv pending sinv r"
  shows "reader_inv pending sinv (reader_Flush sread r) \<and>
    (br_eof r \<or> reader_unread pending (reader_Flush sread r) = reader_unread pending r)"
  by (rule flush_cases [OF assms]) (use assms in \<open>auto simp: reader_inv_def reader_unread_def\<close>)

lemma reader_Read_cons:
  assumes inv: "reader_inv pending sinv r" and u: "reader_unread pending r = c # cs"
  shows "\<exists>r'. reader_Read sread r = (ch_int c, r') \<and> reader_inv pending sinv r' \<and>
    reader_unread pending r' = cs"
proof -
  let ?r1 = "reader_Flush sread r"
  have eof: "\<not> br_eof r" using u by (auto simp: reader_unread_def)
  have i1: "reader_inv pending sinv ?r1" and u1: "reader_unread pending ?r1 = c # cs"
    using flush_inv [OF inv] eof u by auto
  have lt: "br_head ?r1 < br_tail ?r1 \<and> \<not> br_eof ?r1"
    by (rule flush_cases [OF inv]) (use eof u1 in \<open>auto simp: reader_unread_def\<close>)
  then have "drop (br_head ?r1) (take (br_tail ?r1) (br_buffer ?r1)) =
      br_buffer ?r1 ! br_head ?r1 # drop (Suc (br_head ?r1)) (take (br_tail ?r1) (br_buffer ?r1))"
    using i1 by (simp add: reader_inv_def Cons_nth_drop_Suc [symmetric])
  then show ?thesis
    using lt i1 u1
    by (auto simp: reader_Read_def Let_def reader_query_defs reader_inv_def reader_unread_def)
qed

lemma reader_Read_nil:
  assumes inv: "reader_inv pending sinv r" and u: "reader_unread pending r = []"
  shows "\<exists>r'. reader_Read sread r = (StreamStatus_EndOfFile, r') \<and> reader_inv pending sinv r' \<and>
    reader_unread pending r' = []"
proof -
  have "br_eof (reader_Flush sread r)"
    using inv
  proof (cases r rule: flush_cases)
    case buffered
    then show ?thesis using u inv by (auto simp: reader_unread_def reader_inv_def split: if_splits)
  next
    case (refilled bs st)
    then show ?thesis using u inv by (auto simp: reader_unread_def reader_inv_def split: if_splits)
  qed simp
  then show ?thesis
    using flush_inv [OF inv]
    by (auto simp: reader_Read_def Let_def reader_query_defs reader_unread_def)
qed

end

sublocale byte_source \<subseteq> chars: char_reader "reader_Read sread" "reader_unread pending" "reader_inv pending sinv"
  by unfold_locales (rule reader_Read_cons reader_Read_nil; assumption)+

section \<open>Reading character by character\<close>

text \<open>\<open>n\<close> calls of \<open>Read()\<close> in a row.\<close>

fun read_times :: "('r \<Rightarrow> int \<times> 'r) \<Rightarrow> nat \<Rightarrow> 'r \<Rightarrow> int list \<times> 'r" where
  "read_times rd 0 r = ([], r)"
| "read_times rd (Suc n) r =
     (let (ch, r1) = rd r; (chs, r2) = read_times rd n r1 in (ch # chs, r2))"

context char_reader
begin

lemma read_times_unread:
  "rinv r \<Longrightarrow> fst (read_times rd n r) =
     map ch_int (take n (unread r)) @ replicate (n - length (unread r)) StreamStatus_EndOfFile"
proof (induction n arbitrary: r)
  case 0
  then show ?case by simp
next
  case (Suc n)
  show ?case
  proof (cases "unread r")
    case Nil
    from rd_nil [OF Suc.prems Nil] obtain r' where
      "rd r = (StreamStatus_EndOfFile, r')" "rinv r'" "unread r' = []" by blast
    with Suc.IH [of r'] Nil show ?thesis by (simp add: case_prod_beta Let_def)
  next
    case (Cons c cs)
    from rd_cons [OF Suc.prems Cons] obtain r' where
      "rd r = (ch_int c, r')" "rinv r'" "unread r' = cs" by blast
    with Suc.IH [of r'] Cons show ?thesis by (simp add: case_prod_beta Let_def)
  qed
qed

end

section \<open>Reading blocks\<close>

lemma window_split:
  assumes "sz \<le> t - h"
  shows "drop h (take t b) = take sz (drop h b) @ drop (h + sz) (take t b)"
proof -
  have "drop h (take t b) = take sz (drop h (take t b)) @ drop sz (drop h (take t b))"
    by (rule append_take_drop_id [symmetric])
  also have "take sz (drop h (take t b)) = take sz (drop h b)"
    using assms by (simp add: drop_take min_def)
  also have "drop sz (drop h (take t b)) = drop (h + sz) (take t b)"
    by (simp add: add.commute)
  finally show ?thesis .
qed

lemma take_drop_prefix:
  assumes "length xs \<le> n"
  shows "take n (xs @ ys) = xs @ take (n - length xs) ys"
    and "drop n (xs @ ys) = drop (n - length xs) ys"
  using assms by simp_all

context byte_source
begin

lemma split_at_head:
  assumes "reader_inv pending sinv r" and "\<not> br_eof r" and "sz \<le> reader_BufferSize r"
  shows "reader_unread pending r = take sz (drop (br_head r) (br_buffer r)) @
      reader_unread pending (r\<lparr>br_head := br_head r + sz\<rparr>)"
  using assms window_split [of sz "br_tail r" "br_head r" "br_buffer r"]
  by (simp add: reader_BufferSize_def reader_unread_def)

lemma read_loop_enough:
  assumes "reader_inv pending sinv r" and "\<not> br_eof r" and "remaining \<le> length (reader_unread pending r)"
    and "remaining \<le> len"
  shows "(\<exists>r'. reader_ReadLoop sread len remaining acc r =
            (Ret (0, acc @ take remaining (reader_unread pending r)), r') \<and>
            reader_inv pending sinv r' \<and>
            reader_unread pending r' = drop remaining (reader_unread pending r)) \<or>
         (remaining < length (reader_unread pending r) \<and> (\<exists>r'. reader_ReadLoop sread len remaining acc r =
            (Raise (Undefined ''memcpy past the end of the buffer''), r')))"
  using assms
proof (induction remaining arbitrary: acc r rule: less_induct)
  case (less remaining)
  let ?u = "reader_unread pending r" and ?r1 = "reader_Flush sread r"
  let ?sz = "min len (reader_BufferSize ?r1)"
  show ?case
  proof (cases "remaining = 0")
    case True
    with less.prems show ?thesis by (subst (1 2) reader_ReadLoop.simps) auto
  next
    case False
    have step: "\<not> br_eof ?r1 \<and> 0 < reader_BufferSize ?r1"
      by (rule flush_cases [OF less.prems(1)])
        (use less.prems False in \<open>auto simp: reader_BufferSize_def reader_unread_def\<close>)
    have inv1: "reader_inv pending sinv ?r1" and u1: "reader_unread pending ?r1 = ?u"
      using flush_inv [OF less.prems(1)] less.prems(2) by auto
    let ?bs = "take ?sz (drop (br_head ?r1) (br_buffer ?r1))"
    let ?r2 = "?r1\<lparr>br_head := br_head ?r1 + ?sz\<rparr>"
    have u: "?u = ?bs @ reader_unread pending ?r2"
      using split_at_head [OF inv1, of ?sz] step u1 by simp
    have inv2: "reader_inv pending sinv ?r2" and len: "length ?bs = ?sz" and eof2: "\<not> br_eof ?r2"
      using step inv1 by (auto simp: reader_inv_def reader_BufferSize_def)
    have loop: "reader_ReadLoop sread len remaining acc r =
        (if ?sz > remaining then (Raise (Undefined ''memcpy past the end of the buffer''), ?r1)
         else reader_ReadLoop sread len (remaining - ?sz) (acc @ ?bs) ?r2)"
      using False less.prems step
      by (subst reader_ReadLoop.simps) (auto simp: Let_def reader_IsEof_def min_def)
    show ?thesis
    proof (cases "?sz > remaining")
      case True
      have "?sz \<le> length ?u" using u len by simp
      with True loop show ?thesis by auto
    next
      case small: False
      have lt: "remaining - ?sz < remaining" using False step less.prems(4) by auto
      have ulen: "length ?u = ?sz + length (reader_unread pending ?r2)"
        using u len by (metis length_append)
      then have le: "remaining - ?sz \<le> length (reader_unread pending ?r2)"
        using less.prems(3) by linarith
      have le2: "remaining - ?sz \<le> len" using less.prems(4) by simp
      note less.IH [OF lt inv2 eof2 le le2, of "acc @ ?bs"]
      moreover have "take remaining ?u = ?bs @ take (remaining - ?sz) (reader_unread pending ?r2)"
        and "drop remaining ?u = drop (remaining - ?sz) (reader_unread pending ?r2)"
        using take_drop_prefix [of ?bs remaining "reader_unread pending ?r2"] small
        by (simp_all only: len u [symmetric] not_less)
      ultimately show ?thesis using loop small ulen by auto
    qed
  qed
qed

lemma read_block_enough:
  assumes "reader_inv pending sinv r" and "\<not> br_eof r" and "len \<le> length (reader_unread pending r)"
  shows "(\<exists>r'. reader_ReadBlock sread r len = (Ret (int len, take len (reader_unread pending r)), r') \<and>
            reader_inv pending sinv r' \<and>
            reader_unread pending r' = drop len (reader_unread pending r)) \<or>
         (len < length (reader_unread pending r) \<and> (\<exists>r'. reader_ReadBlock sread r len =
            (Raise (Undefined ''memcpy past the end of the buffer''), r')))"
  using read_loop_enough [OF assms order_refl, of "[]"] assms(2)
  by (auto simp: reader_ReadBlock_def reader_IsEof_def)

end

text \<open>
  What the parsers rely on beyond \<open>char_reader\<close>: a block that is there is read as a whole, or, when more input
  follows it, the caller's buffer overflows.
\<close>

locale block_reader = char_reader rd unread rinv
  for rd :: "'r \<Rightarrow> int \<times> 'r" and unread :: "'r \<Rightarrow> string" and rinv :: "'r \<Rightarrow> bool" +
  fixes rblk :: "'r \<Rightarrow> nat \<Rightarrow> (int \<times> string) outcome \<times> 'r"
  assumes rblk_enough: "rinv r \<Longrightarrow> 0 < len \<Longrightarrow> len \<le> length (unread r) \<Longrightarrow>
      (\<exists>r'. rblk r len = (Ret (int len, take len (unread r)), r') \<and> rinv r') \<or>
      (len < length (unread r) \<and> (\<exists>r'. rblk r len = (Raise (Undefined ''memcpy past the end of the buffer''), r')))"
begin

lemma rblk_rest:
  assumes "rinv r" and "unread r = bs" and "bs \<noteq> []"
  shows "\<exists>r'. rblk r (length bs) = (Ret (int (length bs), bs), r') \<and> rinv r'"
  using rblk_enough [OF assms(1), of "length bs"] assms(2,3) by simp

end

sublocale byte_source \<subseteq> blocks: block_reader "reader_Read sread" "reader_unread pending"
    "reader_inv pending sinv" "reader_ReadBlock sread"
proof unfold_locales
  fix r :: "'s BufferedStreamReader" and len :: nat
  assume inv: "reader_inv pending sinv r" and ne: "0 < len" and len: "len \<le> length (reader_unread pending r)"
  then have "\<not> br_eof r" by (auto simp: reader_unread_def)
  from read_block_enough [OF inv this len]
  show "(\<exists>r'. reader_ReadBlock sread r len = (Ret (int len, take len (reader_unread pending r)), r') \<and>
        reader_inv pending sinv r') \<or>
      (len < length (reader_unread pending r) \<and>
       (\<exists>r'. reader_ReadBlock sread r len = (Raise (Undefined ''memcpy past the end of the buffer''), r')))"
    by blast
qed

lemma bis_flush:
  assumes "bis_inv (br_stream r)" and "br_head r = br_tail r" and "bis_pending (br_stream r) \<noteq> []"
  shows "\<exists>st buf. reader_Flush BufferInputStream_Read r =
      r\<lparr>br_head := 0, br_stream := st, br_buffer := buf,
        br_tail := min 1024 (length (bis_pending (br_stream r))), br_eof := False\<rparr> \<and>
      bis_inv st \<and> bis_pending st = drop 1024 (bis_pending (br_stream r)) \<and>
      min 1024 (length (bis_pending (br_stream r))) \<le> length buf"
proof -
  let ?p = "bis_pending (br_stream r)"
  let ?st = "(br_stream r)\<lparr>bis_offset := bis_offset (br_stream r) + min 1024 (length ?p)\<rparr>"
  have "bis_inv ?st" and "bis_pending ?st = drop 1024 ?p"
    using assms(1) by (auto simp: bis_inv_def bis_pending_def min_def add.commute)
  then show ?thesis
    using BufferInputStream_Read_some [OF assms(1) refl assms(3), of reader_sBufferSize] assms(2,3)
    by (intro exI [of _ ?st] exI [of _ "take 1024 ?p @ drop (min 1024 (length ?p)) (br_buffer r)"])
      (auto simp: reader_Flush_def reader_sBufferSize_def min_def)
qed

lemma bis_loop_overflow:
  assumes "bis_inv (br_stream r)" and "br_head r = br_tail r" and "\<not> br_eof r"
    and "n = length (bis_pending (br_stream r))" and "remaining \<le> n"
    and "remaining = len \<or> (1024 < len \<and> remaining < len)"
  shows "(\<exists>e r'. reader_ReadLoop BufferInputStream_Read len remaining acc r = (Raise e, r')) \<longleftrightarrow>
    1024 < len \<and> remaining mod 1024 \<noteq> 0 \<and> remaining < n"
  using assms
proof (induction remaining arbitrary: n acc r rule: less_induct)
  case (less remaining)
  show ?case
  proof (cases "remaining = 0")
    case True
    then show ?thesis by (subst reader_ReadLoop.simps) simp
  next
    case False
    let ?r1 = "reader_Flush BufferInputStream_Read r"
    let ?sz = "min len (reader_BufferSize ?r1)"
    let ?r2 = "?r1\<lparr>br_head := br_head ?r1 + ?sz\<rparr>"
    let ?acc = "acc @ take ?sz (drop (br_head ?r1) (br_buffer ?r1))"
    have ne: "bis_pending (br_stream r) \<noteq> []" using less.prems(4,5) False by auto
    obtain st buf where fl: "?r1 = r\<lparr>br_head := 0, br_stream := st, br_buffer := buf,
        br_tail := min 1024 n, br_eof := False\<rparr>" and st: "bis_inv st"
        "bis_pending st = drop 1024 (bis_pending (br_stream r))"
      using bis_flush [OF less.prems(1,2) ne] less.prems(4) by auto
    have size: "reader_BufferSize ?r1 = min 1024 n" by (simp add: fl reader_BufferSize_def)
    have loop: "reader_ReadLoop BufferInputStream_Read len remaining acc r =
        (if ?sz > remaining then (Raise (Undefined ''memcpy past the end of the buffer''), ?r1)
         else reader_ReadLoop BufferInputStream_Read len (remaining - ?sz) ?acc ?r2)"
      using False less.prems size
      by (subst reader_ReadLoop.simps) (auto simp: Let_def reader_IsEof_def min_def)
    show ?thesis
    proof (cases "1024 < len \<and> 1024 \<le> remaining")
      case True
      then have sz: "?sz = 1024" using less.prems size by simp
      have "(\<exists>e r'. reader_ReadLoop BufferInputStream_Read len (remaining - 1024) ?acc ?r2 = (Raise e, r'))
          \<longleftrightarrow> 1024 < len \<and> (remaining - 1024) mod 1024 \<noteq> 0 \<and> remaining - 1024 < n - 1024"
        by (rule less.IH) (use True less.prems sz fl st in auto)
      moreover have "(remaining - 1024) mod 1024 = remaining mod 1024"
        using True by (simp add: le_mod_geq)
      ultimately show ?thesis using loop sz True less.prems by auto
    next
      case small: False
      show ?thesis
      proof (cases "?sz > remaining")
        case True
        then show ?thesis using loop size small less.prems False by (auto simp: min_def split: if_splits)
      next
        case le: False
        then have "remaining = ?sz" using size small less.prems by (auto simp: min_def split: if_splits)
        then have "fst (reader_ReadLoop BufferInputStream_Read len remaining acc r) = Ret (0, ?acc)"
          using loop by (simp add: reader_ReadLoop.simps)
        then show ?thesis
          using size small less.prems le by (auto simp: min_def split: if_splits)
      qed
    qed
  qed
qed

section \<open>Properties\<close>

lemma take_append_replicate:
  "take n (xs @ replicate n e) = take n xs @ replicate (n - length xs) e"
  by simp

text \<open>
  C23: a buffered reader over a connected socket hands out exactly the bytes of the peer, in order and
  each once, then end-of-file for ever, however the network cuts them into segments; over a buffer
  stream it hands out the buffer. The result does not depend on the 1024 byte buffer.
\<close>

theorem reader_delivers_bytes:
  assumes "0 < fd" and "[] \<notin> set segs"
  shows "fst (read_times (reader_Read (SocketStream_Read peer_net)) n
           (BufferedStreamReader_new (SocketStream_new fd (peer_new segs)))) =
         take n (map ch_int (concat segs) @ replicate n StreamStatus_EndOfFile) \<and>
         fst (read_times (reader_Read BufferInputStream_Read) n
           (BufferedStreamReader_new (BufferInputStream_new bs))) =
         take n (map ch_int bs @ replicate n StreamStatus_EndOfFile)"
proof -
  let ?s = "SocketStream_new fd (peer_new segs)"
  have s: "sock_inv ?s" "sock_pending ?s = concat segs"
    using assms by (simp_all add: sock_inv_def sock_pending_def SocketStream_new_def peer_new_def)
  have "fst (read_times (reader_Read (SocketStream_Read peer_net)) n (BufferedStreamReader_new ?s)) =
      map ch_int (take n (concat segs)) @
      replicate (n - length (concat segs)) StreamStatus_EndOfFile"
    using sock.chars.read_times_unread [of "BufferedStreamReader_new ?s" n] s by simp
  moreover have "fst (read_times (reader_Read BufferInputStream_Read) n
        (BufferedStreamReader_new (BufferInputStream_new bs))) =
      map ch_int (take n bs) @ replicate (n - length bs) StreamStatus_EndOfFile"
    using bis.chars.read_times_unread [of "BufferedStreamReader_new (BufferInputStream_new bs)" n]
    by simp
  ultimately show ?thesis by (simp only: take_append_replicate take_map length_map)
qed

lemma reader_delivers_bytes_witness:
  "fst (read_times (reader_Read (SocketStream_Read peer_net)) 4
     (BufferedStreamReader_new (SocketStream_new 7 (peer_new [''ab'', ''c''])))) = [97, 98, 99, - 1] \<and>
   fst (read_times (reader_Read BufferInputStream_Read) 4
     (BufferedStreamReader_new (BufferInputStream_new ''z''))) = [122, - 1, - 1, - 1]"
  using reader_delivers_bytes [of 7 "[''ab'', ''c'']" 4 "''z''"]
  by (simp add: ch_int_def numeral_eq_Suc)

text \<open>
  \<open>Read(buffer, length)\<close> on a socket whose remaining bytes are exactly the \<open>length\<close> asked for (a
  request body that ends the stream) stores all of them and returns \<open>length\<close>, for every segmentation.
\<close>

theorem block_read_to_the_end:
  assumes "0 < fd" and "[] \<notin> set segs"
  shows "fst (reader_ReadBlock (SocketStream_Read peer_net)
           (BufferedStreamReader_new (SocketStream_new fd (peer_new segs))) (length (concat segs))) =
         Ret (int (length (concat segs)), concat segs)"
proof -
  let ?s = "SocketStream_new fd (peer_new segs)"
  have s: "sock_inv ?s" "sock_pending ?s = concat segs"
    using assms by (simp_all add: sock_inv_def sock_pending_def SocketStream_new_def peer_new_def)
  then show ?thesis
    using sock.read_block_enough [of "BufferedStreamReader_new ?s" "length (concat segs)"] by auto
qed

lemma block_read_to_the_end_witness:
  "fst (reader_ReadBlock (SocketStream_Read peer_net)
     (BufferedStreamReader_new (SocketStream_new 7 (peer_new [''ab'', ''c'']))) 3) = Ret (3, ''abc'')"
  using block_read_to_the_end [of 7 "[''ab'', ''c'']"] by (simp add: numeral_eq_Suc)

text \<open>
  The turns of a block read over any stream: the reader before its \<open>n\<close>-th flush, when every turn before has handed out all
  that was in the buffer, and what the flush makes available.
\<close>

fun refill :: "('s \<Rightarrow> nat \<Rightarrow> io_read \<times> 's) \<Rightarrow> 's BufferedStreamReader \<Rightarrow> nat \<Rightarrow> 's BufferedStreamReader" where
  "refill sread r 0 = r"
| "refill sread r (Suc n) = (let q = reader_Flush sread (refill sread r n) in q\<lparr>br_head := br_tail q\<rparr>)"

definition refill_bytes :: "('s \<Rightarrow> nat \<Rightarrow> io_read \<times> 's) \<Rightarrow> 's BufferedStreamReader \<Rightarrow> nat \<Rightarrow> string" where
  "refill_bytes sread r n = (let q = reader_Flush sread (refill sread r n) in drop (br_head q) (take (br_tail q) (br_buffer q)))"

definition refills :: "('s \<Rightarrow> nat \<Rightarrow> io_read \<times> 's) \<Rightarrow> 's BufferedStreamReader \<Rightarrow> nat \<Rightarrow> string" where
  "refills sread r n = concat (map (refill_bytes sread r) [0..<n])"

text \<open>The loop gets to the end of its \<open>n\<close>-th turn, if the length that was asked for lets it.\<close>

definition refilled :: "('s \<Rightarrow> nat \<Rightarrow> io_read \<times> 's) \<Rightarrow> 's BufferedStreamReader \<Rightarrow> nat \<Rightarrow> bool" where
  "refilled sread r n \<longleftrightarrow> (\<forall>i < n. \<not> br_eof (refill sread r i) \<and> refill_bytes sread r i \<noteq> [])"

definition pointers_ok :: "'s BufferedStreamReader \<Rightarrow> bool" where
  "pointers_ok r \<longleftrightarrow> br_head r \<le> br_tail r \<and> br_tail r \<le> length (br_buffer r)"

lemma pointers_Flush: "pointers_ok r \<Longrightarrow> pointers_ok (reader_Flush sread r)"
  by (auto simp: pointers_ok_def reader_Flush_def Let_def split: prod.splits io_read.splits)

lemma pointers_refill: "pointers_ok r \<Longrightarrow> pointers_ok (refill sread r n)"
proof (induction n)
  case (Suc n)
  from pointers_Flush [OF Suc.IH [OF Suc.prems], of sread] show ?case by (simp add: pointers_ok_def Let_def)
qed simp

lemma refills_Suc [simp]:
  "refills sread r 0 = []" "refills sread r (Suc n) = refills sread r n @ refill_bytes sread r n"
  by (simp_all add: refills_def)

lemma refilled_Suc: "refilled sread r (Suc n) \<longleftrightarrow>
    refilled sread r n \<and> \<not> br_eof (refill sread r n) \<and> refill_bytes sread r n \<noteq> []"
  by (auto simp: refilled_def less_Suc_eq)

lemma refilled_mono: "refilled sread r n \<Longrightarrow> m \<le> n \<Longrightarrow> refilled sread r m"
  by (simp add: refilled_def)

lemma refilled_length:
  assumes "refilled sread r n" and "m \<le> n"
  shows "length (refills sread r m) \<le> length (refills sread r n)"
  using assms by (induction n) (auto simp: refilled_Suc le_Suc_eq simp del: refills_Suc, simp)

text \<open>The loop from its \<open>n\<close>-th turn on.\<close>

definition overruns :: "('s \<Rightarrow> nat \<Rightarrow> io_read \<times> 's) \<Rightarrow> 's BufferedStreamReader \<Rightarrow> nat \<Rightarrow> bool" where
  "overruns sread r len \<longleftrightarrow> (\<exists>k > 0. refilled sread r (Suc k) \<and>
     length (refills sread r k) < len \<and> len < length (refills sread r (Suc k)))"

definition block_served :: "('s \<Rightarrow> nat \<Rightarrow> io_read \<times> 's) \<Rightarrow> 's BufferedStreamReader \<Rightarrow> nat \<Rightarrow> string \<Rightarrow> bool" where
  "block_served sread r len bs \<longleftrightarrow> (\<exists>k. refilled sread r k \<and> bs = take len (refills sread r k) \<and>
     (k \<le> 1 \<or> length (refills sread r k) \<le> len) \<and>
     (len \<le> length (refills sread r k) \<or> br_eof (refill sread r k) \<or> refill_bytes sread r k = []))"

lemma ReadLoop_refills:
  assumes "pointers_ok r" and "length (refills sread r n) \<le> len" and "refilled sread r n"
  shows "case fst (reader_ReadLoop sread len (len - length (refills sread r n)) (refills sread r n) (refill sread r n)) of
      Raise e \<Rightarrow> e = Undefined ''memcpy past the end of the buffer'' \<and> overruns sread r len
    | Ret (m, bs) \<Rightarrow> block_served sread r len bs \<and> m = len - length bs"
  using assms(2,3)
proof (induction "len - length (refills sread r n)" arbitrary: n rule: less_induct)
  case less
  let ?rem = "len - length (refills sread r n)" and ?r = "refill sread r n"
  let ?q = "reader_Flush sread ?r" and ?b = "refill_bytes sread r n"
  note ok = pointers_Flush [OF pointers_refill [OF assms(1)], of sread sread n, unfolded pointers_ok_def]
  then have size: "reader_BufferSize ?q = length ?b" "br_head ?q + length ?b = br_tail ?q"
    by (simp_all add: refill_bytes_def reader_BufferSize_def Let_def)
  have tk: "take m (drop (br_head ?q) (br_buffer ?q)) = take m ?b" if "m \<le> length ?b" for m
    using that size by (simp add: refill_bytes_def reader_BufferSize_def Let_def drop_take min_absorb1)
  show ?case
  proof (cases "?rem = 0 \<or> br_eof ?r \<or> ?b = []")
    case True
    then have "fst (reader_ReadLoop sread len ?rem (refills sread r n) ?r) = Ret (?rem, refills sread r n)"
      by (subst reader_ReadLoop.simps) (auto simp: reader_IsEof_def size Let_def)
    moreover have "block_served sread r len (refills sread r n)"
      unfolding block_served_def using True less.prems by (intro exI [of _ n]) auto
    ultimately show ?thesis by simp
  next
    case False
    then have pos: "0 < ?rem" "\<not> br_eof ?r" "?b \<noteq> []" by simp_all
    with less.prems(2) have next_ok: "refilled sread r (Suc n)" by (simp add: refilled_Suc)
    consider (whole) "length ?b \<le> ?rem" | (first) "n = 0" "?rem < length ?b" | (later) "0 < n" "?rem < length ?b"
      by linarith
    then show ?thesis
    proof cases
      case whole
      then have "reader_ReadLoop sread len ?rem (refills sread r n) ?r =
          reader_ReadLoop sread len (len - length (refills sread r (Suc n))) (refills sread r (Suc n)) (refill sread r (Suc n))"
        using pos less.prems tk [of "length ?b"] size
        by (subst reader_ReadLoop.simps) (simp add: reader_IsEof_def Let_def min_absorb2)
      moreover have "len - length (refills sread r (Suc n)) < ?rem" "length (refills sread r (Suc n)) \<le> len"
        using pos whole less.prems by (cases ?b, simp_all)
      ultimately show ?thesis using less.hyps [of "Suc n"] next_ok by simp
    next
      case first
      then have "fst (reader_ReadLoop sread len ?rem (refills sread r n) ?r) = Ret (0, take len ?b)"
        using pos tk [of len] size
        by (subst reader_ReadLoop.simps) (simp add: reader_IsEof_def Let_def min_absorb1 reader_ReadLoop.simps)
      moreover have "block_served sread r len (take len ?b)"
        unfolding block_served_def using first next_ok by (intro exI [of _ "Suc 0"]) auto
      ultimately show ?thesis using first by simp
    next
      case later
      then have "0 < length (refills sread r n)"
        using less.prems(2) by (cases n) (auto simp: refilled_Suc)
      then have "fst (reader_ReadLoop sread len ?rem (refills sread r n) ?r) = Raise (Undefined ''memcpy past the end of the buffer'')"
        using pos later size less.prems by (subst reader_ReadLoop.simps) (auto simp: reader_IsEof_def Let_def min_def)
      moreover have "overruns sread r len"
        unfolding overruns_def using later pos next_ok by (intro exI [of _ n]) auto
      ultimately show ?thesis by simp
    qed
  qed
qed

lemma served_no_overrun:
  assumes "block_served sread r len bs"
  shows "\<not> overruns sread r len"
proof
  assume "overruns sread r len"
  then obtain k' where k': "0 < k'" "refilled sread r (Suc k')" "length (refills sread r k') < len"
    "len < length (refills sread r (Suc k'))" by (auto simp: overruns_def)
  obtain k where k: "refilled sread r k" "k \<le> 1 \<or> length (refills sread r k) \<le> len"
    "len \<le> length (refills sread r k) \<or> br_eof (refill sread r k) \<or> refill_bytes sread r k = []"
    using assms by (auto simp: block_served_def)
  show False
  proof (cases "k \<le> k'")
    case True
    with k'(2) have "\<not> br_eof (refill sread r k)" "refill_bytes sread r k \<noteq> []" by (auto simp: refilled_def)
    moreover have "length (refills sread r k) \<le> length (refills sread r k')"
      by (rule refilled_length [OF refilled_mono [OF k'(2)] True]) simp
    ultimately show False using k(3) k'(3) by simp
  next
    case False
    with refilled_length [OF k(1), of "Suc k'"] k'(1,4) k(2) show False by simp
  qed
qed

lemma block_read_overflow_buffer:
  assumes "len \<le> length bs"
  shows "fst (reader_ReadBlock BufferInputStream_Read
           (BufferedStreamReader_new (BufferInputStream_new bs)) len) =
         (if 1024 < len \<and> len mod 1024 \<noteq> 0 \<and> len < length bs
          then Raise (Undefined ''memcpy past the end of the buffer'')
          else Ret (int len, take len bs))"
proof -
  let ?r = "BufferedStreamReader_new (BufferInputStream_new bs)"
  have new: "br_stream ?r = BufferInputStream_new bs" "br_head ?r = br_tail ?r" "\<not> br_eof ?r"
    by (simp_all add: BufferedStreamReader_new_def)
  have "(\<exists>e r'. reader_ReadLoop BufferInputStream_Read len len [] ?r = (Raise e, r')) \<longleftrightarrow>
      1024 < len \<and> len mod 1024 \<noteq> 0 \<and> len < length bs"
    by (rule bis_loop_overflow) (use new assms in auto)
  moreover have "(\<exists>e r'. reader_ReadBlock BufferInputStream_Read ?r len = (Raise e, r')) \<longleftrightarrow>
      (\<exists>e r'. reader_ReadLoop BufferInputStream_Read len len [] ?r = (Raise e, r'))"
    using new by (auto simp: reader_ReadBlock_def reader_IsEof_def split: prod.splits outcome.splits)
  ultimately show ?thesis
    using bis.read_block_enough [of ?r len] assms by fastforce
qed

text \<open>
  C33: exactly when \<open>Read(buffer, length)\<close> writes past the caller's buffer, over any stream and for a reader in any state that is not at
  the end. The call is served by the buffer as it is and by the refills that follow. It writes past the end exactly when the length ends
  inside a refill, not at its end, that is not the first: there \<open>memcpy\<close> copies the whole refill (or \<open>length\<close> bytes of it), because its size is the
  minimum with \<open>length\<close> and not with \<open>remaining\<close>. Otherwise it returns the first \<open>length\<close> bytes of what the refills give up to
  the end of the stream, an error of it, or a refill that is empty; where the stream gives an error, the last refill is the old buffer.
\<close>

theorem block_read_overflow_exact:
  assumes "br_head r \<le> br_tail r" and "br_tail r \<le> length (br_buffer r)" and "\<not> br_eof r"
  shows "if overruns sread r len
    then fst (reader_ReadBlock sread r len) = Raise (Undefined ''memcpy past the end of the buffer'')
    else \<exists>bs. fst (reader_ReadBlock sread r len) = Ret (int (length bs), bs) \<and> block_served sread r len bs"
proof -
  have "pointers_ok r" using assms(1,2) by (simp add: pointers_ok_def)
  from ReadLoop_refills [OF this, of sread 0 len]
  have loop: "case fst (reader_ReadLoop sread len len [] r) of
      Raise e \<Rightarrow> e = Undefined ''memcpy past the end of the buffer'' \<and> overruns sread r len
    | Ret (m, bs) \<Rightarrow> block_served sread r len bs \<and> m = len - length bs" by (simp add: refilled_def)
  show ?thesis
  proof (cases "fst (reader_ReadLoop sread len len [] r)")
    case (Raise e)
    with loop assms(3) show ?thesis
      by (auto simp: reader_ReadBlock_def reader_IsEof_def split: prod.splits)
  next
    case (Ret p)
    obtain m bs where p: "p = (m, bs)" by (cases p)
    with Ret loop have served: "block_served sread r len bs" "m = len - length bs" by simp_all
    then have "length bs \<le> len" by (auto simp: block_served_def)
    with served(2) Ret p assms(3) have "fst (reader_ReadBlock sread r len) = Ret (int (length bs), bs)"
      by (auto simp: reader_ReadBlock_def reader_IsEof_def split: prod.splits)
    with served_no_overrun [OF served(1)] served(1) show ?thesis by auto
  qed
qed

text \<open>A peer sends two segments, of two and of four bytes: a read of three bytes writes past its buffer.\<close>

lemma block_read_overflow_exact_witness:
  "fst (reader_ReadBlock (SocketStream_Read peer_net)
     (BufferedStreamReader_new (SocketStream_new 7 (peer_new [''ab'', ''cdef'']))) 3) =
   Raise (Undefined ''memcpy past the end of the buffer'')"
proof -
  let ?rd = "SocketStream_Read peer_net" and ?r = "BufferedStreamReader_new (SocketStream_new 7 (peer_new [''ab'', ''cdef'']))"
  have "refill_bytes ?rd ?r 0 = ''ab'' \<and> refill_bytes ?rd ?r 1 = ''cdef'' \<and> \<not> br_eof (refill ?rd ?r 0) \<and> \<not> br_eof (refill ?rd ?r 1)"
    by code_simp
  moreover have "refilled ?rd ?r 0" by (simp add: refilled_def)
  ultimately have "refilled ?rd ?r (Suc (Suc 0)) \<and> refills ?rd ?r (Suc 0) = ''ab'' \<and> refills ?rd ?r (Suc (Suc 0)) = ''abcdef''"
    by (simp add: refilled_Suc del: refill.simps)
  then have "overruns ?rd ?r 3" unfolding overruns_def
    by (intro exI [of _ "Suc 0"]) (simp del: refills_Suc refill.simps)
  with block_read_overflow_exact [of ?r ?rd 3] show ?thesis by (simp add: BufferedStreamReader_new_def)
qed

text \<open>
  Reading past the end replays old bytes. A buffer stream reports its end as an error, and after an
  error \<open>_Flush\<close> leaves \<open>_head = _buffer\<close> with the old \<open>_tail\<close>; the block loop does not look at the
  end-of-file flag before it copies. Asked for at least twice the (at most 1024) bytes there are,
  \<open>Read\<close> returns them twice and reports twice their number.
\<close>

theorem block_read_past_end_replays:
  assumes "bs \<noteq> []" and "length bs \<le> 1024" and "2 * length bs \<le> len"
  shows "fst (reader_ReadBlock BufferInputStream_Read
           (BufferedStreamReader_new (BufferInputStream_new bs)) len) =
         Ret (int (2 * length bs), bs @ bs)"
proof -
  let ?rd = "BufferInputStream_Read" and ?n = "length bs"
  let ?st = "(BufferInputStream_new bs)\<lparr>bis_offset := ?n\<rparr>"
  let ?r1 = "\<lparr>br_stream = ?st, br_buffer = bs, br_head = ?n, br_tail = ?n, br_eof = False\<rparr>"
  have pos: "0 < ?n" using assms(1) by simp
  with assms(3) have lt: "?n < len" by linarith
  have fl: "reader_Flush ?rd (BufferedStreamReader_new (BufferInputStream_new bs)) =
      ?r1\<lparr>br_head := 0\<rparr>"
    using assms(1,2) by (simp add: reader_Flush_def BufferedStreamReader_new_def reader_sBufferSize_def
      BufferInputStream_Read_def BufferInputStream_IsReadable_def BufferInputStream_new_def)
  have l1: "reader_ReadLoop ?rd len len [] (BufferedStreamReader_new (BufferInputStream_new bs)) =
      reader_ReadLoop ?rd len (len - ?n) bs ?r1"
    using assms lt fl by (subst reader_ReadLoop.simps) (auto simp: reader_query_defs min_def Let_def)
  have fl2: "reader_Flush ?rd ?r1 = ?r1\<lparr>br_head := 0, br_eof := True\<rparr>"
    by (simp add: reader_Flush_def BufferInputStream_Read_def BufferInputStream_IsReadable_def
        BufferInputStream_new_def)
  have "fst (reader_ReadLoop ?rd len (len - ?n) bs ?r1) = Ret (len - ?n - ?n, bs @ bs)"
    using assms lt fl2
    by (subst reader_ReadLoop.simps) (auto simp: reader_query_defs min_def Let_def reader_ReadLoop.simps)
  then show ?thesis
    using l1 assms(3)
    by (auto simp: reader_ReadBlock_def reader_IsEof_def split: prod.splits outcome.splits)
qed

lemma block_read_past_end_replays_witness:
  "fst (reader_ReadBlock BufferInputStream_Read
     (BufferedStreamReader_new (BufferInputStream_new ''abc'')) 6) = Ret (6, ''abcabc'')"
  using block_read_past_end_replays [of "''abc''" 6] by simp

text \<open>
  An \<open>Again\<close> from the stream does not mean "nothing new yet": once the buffer has been used up,
  \<open>_Flush\<close> has moved \<open>_head\<close> back to the start, and the next \<open>Read()\<close> returns the first byte of the
  buffer a second time, for every stream.
\<close>

theorem reader_again_replays:
  assumes "br_head r = br_tail r" and "0 < br_tail r" and "\<not> br_eof r"
    and "sread (br_stream r) 1024 = (Failed StreamStatus_Again, st)"
  shows "reader_Read sread r =
    (ch_int (br_buffer r ! 0), r\<lparr>br_stream := st, br_head := 1\<rparr>)"
  using assms
  by (simp add: reader_Read_def reader_Flush_def reader_sBufferSize_def reader_query_defs Let_def)

text \<open>A kernel whose non-blocking socket has nothing to deliver: \<open>recv\<close> fails with \<open>EAGAIN\<close>.\<close>

definition idle_net :: "unit net_ops" where
  "idle_net = \<lparr>net_recv = (\<lambda>k fd n. (SysErr EAGAIN, k)), net_send = (\<lambda>k fd bs. (Inl EAGAIN, k)),
     net_close = (\<lambda>k fd. (0, k))\<rparr>"

lemma reader_again_replays_witness:
  "reader_Read (SocketStream_Read idle_net)
     \<lparr>br_stream = SocketStream_new 7 (), br_buffer = ''GET'', br_head = 3, br_tail = 3, br_eof = False\<rparr> =
   (71, \<lparr>br_stream = SocketStream_new 7 (), br_buffer = ''GET'', br_head = 1, br_tail = 3, br_eof = False\<rparr>)"
  using reader_again_replays [of
      "\<lparr>br_stream = SocketStream_new 7 (), br_buffer = ''GET'', br_head = 3, br_tail = 3, br_eof = False\<rparr>"
      "SocketStream_Read idle_net" "SocketStream_new 7 ()"]
  by (simp add: SocketStream_Read_def SocketStream_IsReadable_def SocketStream_new_def idle_net_def
      ch_int_def)

end
