(* ===== verification/IO_Writer.thy ===== *)
theory IO_Writer
  imports IO_Stream
begin

text \<open>
  \<open>minet/src/io/StreamWriter.h\<close> and \<open>StreamWriter.cpp\<close>: the buffered writer over any stream that keeps
  the contract \<open>byte_sink\<close>. The virtual \<open>Stream::Write\<close> is the argument \<open>swrite\<close> of the operations.
\<close>

section \<open>State and operations\<close>

text \<open>\<open>bw_buffer\<close> is the content between \<open>_buffer\<close> and \<open>_tail\<close>.\<close>

record 's BufferedStreamWriter =
  bw_stream :: 's
  bw_buffer :: string

definition writer_sBufferSize :: nat where "writer_sBufferSize = 1024"

definition BufferedStreamWriter_new :: "'s \<Rightarrow> 's BufferedStreamWriter" where
  "BufferedStreamWriter_new s = \<lparr>bw_stream = s, bw_buffer = []\<rparr>"

definition writer_BufferSize :: "'s BufferedStreamWriter \<Rightarrow> nat" where
  "writer_BufferSize w = length (bw_buffer w)"

text \<open>
  \<open>Flush\<close>: after a successful write the buffer is emptied, and control falls through to the final
  \<open>return StreamStatus::Error\<close>. A short write trips the assertion.
\<close>

definition writer_Flush ::
    "('s \<Rightarrow> string \<Rightarrow> int \<times> 's) \<Rightarrow> 's BufferedStreamWriter \<Rightarrow> int outcome \<times> 's BufferedStreamWriter" where
  "writer_Flush swrite w =
     (if writer_BufferSize w = 0 then (Ret 0, w)
      else
        let (r, st) = swrite (bw_stream w) (bw_buffer w); w1 = w\<lparr>bw_stream := st\<rparr> in
        if r \<ge> 0 then
          if r \<noteq> int (writer_BufferSize w) then (Raise AssertFailed, w1)
          else (Ret StreamStatus_Error, w1\<lparr>bw_buffer := []\<rparr>)
        else if r = StreamStatus_Again then (Ret StreamStatus_Again, w1)
        else (Ret StreamStatus_Error, w1))"

definition writer_WriteChar ::
    "('s \<Rightarrow> string \<Rightarrow> int \<times> 's) \<Rightarrow> 's BufferedStreamWriter \<Rightarrow> char \<Rightarrow>
     int outcome \<times> 's BufferedStreamWriter" where
  "writer_WriteChar swrite w ch =
     (if writer_BufferSize w = writer_sBufferSize
      then case writer_Flush swrite w of
          (Raise e, w1) \<Rightarrow> (Raise e, w1)
        | (Ret r, w1) \<Rightarrow>
            if r < 0 then (Ret r, w1) else (Ret 1, w1\<lparr>bw_buffer := bw_buffer w1 @ [ch]\<rparr>)
      else (Ret 1, w\<lparr>bw_buffer := bw_buffer w @ [ch]\<rparr>))"

lemma writer_Flush_negative:
  "bw_buffer w \<noteq> [] \<Longrightarrow> writer_Flush swrite w = (Ret r, w') \<Longrightarrow> r < 0"
  by (auto simp: writer_Flush_def writer_BufferSize_def Let_def split: prod.splits if_splits)

text \<open>
  The loop of \<open>Write(const char* buffer, size_t length)\<close> over the bytes still to be written. The
  bytes of a round are copied behind \<open>_tail\<close> before the flush, and \<open>_tail\<close> advances after it; when
  the buffer is full there is no room, so a round that flushes copies nothing. The result is the
  number of bytes not written.
\<close>

function writer_WriteLoop ::
    "('s \<Rightarrow> string \<Rightarrow> int \<times> 's) \<Rightarrow> string \<Rightarrow> 's BufferedStreamWriter \<Rightarrow>
     nat outcome \<times> 's BufferedStreamWriter" where
  "writer_WriteLoop swrite bs w =
     (if bs = [] then (Ret 0, w)
      else
        let sz = min (length bs) (writer_sBufferSize - writer_BufferSize w) in
        if writer_BufferSize w = writer_sBufferSize
        then case writer_Flush swrite w of
            (Raise e, w1) \<Rightarrow> (Raise e, w1)
          | (Ret r, w1) \<Rightarrow>
              if r < 0 then (Ret (length bs), w1)
              else writer_WriteLoop swrite (drop sz bs)
                     (w1\<lparr>bw_buffer := bw_buffer w1 @ take sz bs\<rparr>)
        else if writer_BufferSize w > writer_sBufferSize
        then (Raise (Undefined ''size_t underflow''), w)
        else writer_WriteLoop swrite (drop sz bs) (w\<lparr>bw_buffer := bw_buffer w @ take sz bs\<rparr>))"
  by pat_completeness auto
termination
proof (relation "measure (\<lambda>(swrite, bs, w). length bs)", goal_cases)
  case (2 swrite bs w sz res w1 r)
  then have "bw_buffer w \<noteq> []"
    by (auto simp: writer_BufferSize_def writer_sBufferSize_def)
  with 2 show ?case using writer_Flush_negative [of w swrite r w1] by auto
qed (auto simp: writer_sBufferSize_def)

declare writer_WriteLoop.simps [simp del]

definition writer_Write ::
    "('s \<Rightarrow> string \<Rightarrow> int \<times> 's) \<Rightarrow> 's BufferedStreamWriter \<Rightarrow> string \<Rightarrow>
     int outcome \<times> 's BufferedStreamWriter" where
  "writer_Write swrite w bs =
     (case writer_WriteLoop swrite bs w of
        (Raise e, w1) \<Rightarrow> (Raise e, w1)
      | (Ret remaining, w1) \<Rightarrow> (Ret (int (length bs - remaining)), w1))"

text \<open>\<open>StreamWriter::Write(const char*)\<close> measures a C string with \<open>strlen\<close>.\<close>

definition c_str :: "string \<Rightarrow> string" where
  "c_str s = takeWhile (\<lambda>c. c \<noteq> CHR 0x00) s"

definition writer_WriteCString ::
    "('s \<Rightarrow> string \<Rightarrow> int \<times> 's) \<Rightarrow> 's BufferedStreamWriter \<Rightarrow> string \<Rightarrow>
     int outcome \<times> 's BufferedStreamWriter" where
  "writer_WriteCString swrite w s = writer_Write swrite w (c_str s)"

text \<open>The destructor flushes and ignores the result.\<close>

definition writer_delete ::
    "('s \<Rightarrow> string \<Rightarrow> int \<times> 's) \<Rightarrow> 's BufferedStreamWriter \<Rightarrow> unit outcome \<times> 's" where
  "writer_delete swrite w =
     (case writer_Flush swrite w of
        (Raise e, w1) \<Rightarrow> (Raise e, bw_stream w1)
      | (Ret r, w1) \<Rightarrow> (Ret (), bw_stream w1))"

section \<open>A sequence of writes\<close>

text \<open>
  The way the library uses a writer: a number of \<open>Write\<close> calls whose results are ignored, then the
  destructor.
\<close>

fun write_all ::
    "('s \<Rightarrow> string \<Rightarrow> int \<times> 's) \<Rightarrow> 's BufferedStreamWriter \<Rightarrow> string list \<Rightarrow> unit outcome \<times> 's" where
  "write_all swrite w [] = writer_delete swrite w"
| "write_all swrite w (c # cs) =
     (case writer_Write swrite w c of
        (Raise e, w1) \<Rightarrow> (Raise e, bw_stream w1)
      | (Ret n, w1) \<Rightarrow> write_all swrite w1 cs)"

text \<open>
  Which bytes reach the stream, as a function of the chunks alone: \<open>u\<close> is the fill of the buffer. A
  chunk that does not fit is cut at the end of the buffer, and the rest of that chunk is lost.
\<close>

fun surviving :: "nat \<Rightarrow> string list \<Rightarrow> string" where
  "surviving u [] = []"
| "surviving u (c # cs) =
     (if u + length c \<le> writer_sBufferSize then c @ surviving (u + length c) cs
      else take (writer_sBufferSize - u) c @ surviving 0 cs)"

lemma surviving_all: "u + length (concat cs) \<le> writer_sBufferSize \<Longrightarrow> surviving u cs = concat cs"
  by (induction cs arbitrary: u) (auto simp: add.assoc)

lemma surviving_length: "length (surviving u cs) \<le> length (concat cs)"
proof (induction cs arbitrary: u)
  case (Cons c cs)
  have "length (surviving (u + length c) cs) \<le> length (concat cs)"
    "length (surviving 0 cs) \<le> length (concat cs)" by (rule Cons.IH)+
  then show ?case by (auto simp: min_def)
qed simp

lemma surviving_loss:
  "u \<le> writer_sBufferSize \<Longrightarrow> writer_sBufferSize < u + length (concat cs) \<Longrightarrow>
   length (surviving u cs) < length (concat cs)"
proof (induction cs arbitrary: u)
  case (Cons c cs)
  show ?case
  proof (cases "u + length c \<le> writer_sBufferSize")
    case True
    with Cons.IH [of "u + length c"] Cons.prems show ?thesis by (simp add: add.assoc)
  next
    case False
    with Cons.prems(1) have "length (take (writer_sBufferSize - u) c) < length c" by auto
    with False surviving_length [of 0 cs] show ?thesis by simp
  qed
qed simp

context byte_sink
begin

lemma flush_sends:
  assumes "winv (bw_stream w)" and "bw_buffer w \<noteq> []"
  shows "\<exists>st. writer_Flush swrite w = (Ret StreamStatus_Error, \<lparr>bw_stream = st, bw_buffer = []\<rparr>) \<and>
    winv st \<and> sent st = sent (bw_stream w) @ bw_buffer w"
  using write_all [OF assms] assms(2)
  by (cases w) (auto simp: writer_Flush_def writer_BufferSize_def)

lemma write_fits:
  assumes "length (bw_buffer w) + length bs \<le> writer_sBufferSize"
  shows "writer_Write swrite w bs = (Ret (int (length bs)), w\<lparr>bw_buffer := bw_buffer w @ bs\<rparr>)"
proof -
  have "writer_WriteLoop swrite bs w = (Ret 0, w\<lparr>bw_buffer := bw_buffer w @ bs\<rparr>)"
  proof (cases "bs = []")
    case True
    then show ?thesis by (simp add: writer_WriteLoop.simps)
  next
    case False
    with assms show ?thesis
      by (subst writer_WriteLoop.simps)
        (auto simp: writer_BufferSize_def Let_def min_def writer_WriteLoop.simps)
  qed
  then show ?thesis by (simp add: writer_Write_def)
qed

lemma write_full:
  assumes "winv (bw_stream w)" and "length (bw_buffer w) = writer_sBufferSize" and "bs \<noteq> []"
  shows "\<exists>st. writer_WriteLoop swrite bs w = (Ret (length bs), \<lparr>bw_stream = st, bw_buffer = []\<rparr>) \<and>
    winv st \<and> sent st = sent (bw_stream w) @ bw_buffer w"
proof -
  have "bw_buffer w \<noteq> []" using assms(2) by (auto simp: writer_sBufferSize_def)
  from flush_sends [OF assms(1) this] assms(2,3) show ?thesis
    by (subst writer_WriteLoop.simps) (auto simp: writer_BufferSize_def)
qed

lemma write_overflows:
  assumes "winv (bw_stream w)" and "length (bw_buffer w) \<le> writer_sBufferSize"
    and "writer_sBufferSize < length (bw_buffer w) + length bs"
  shows "\<exists>st. writer_Write swrite w bs =
      (Ret (int (writer_sBufferSize - length (bw_buffer w))), \<lparr>bw_stream = st, bw_buffer = []\<rparr>) \<and>
    winv st \<and>
    sent st = sent (bw_stream w) @ bw_buffer w @ take (writer_sBufferSize - length (bw_buffer w)) bs"
proof -
  let ?room = "writer_sBufferSize - length (bw_buffer w)"
  let ?w1 = "w\<lparr>bw_buffer := bw_buffer w @ take ?room bs\<rparr>"
  have w1: "winv (bw_stream ?w1)" "length (bw_buffer ?w1) = writer_sBufferSize" "drop ?room bs \<noteq> []"
    using assms by auto
  have "writer_WriteLoop swrite bs w = writer_WriteLoop swrite (drop ?room bs) ?w1"
  proof (cases "?room = 0")
    case True
    then show ?thesis by simp
  next
    case False
    with assms show ?thesis
      by (subst writer_WriteLoop.simps) (auto simp: writer_BufferSize_def Let_def min_def)
  qed
  with write_full [OF w1] assms(2,3) show ?thesis
    by (auto simp: writer_Write_def)
qed

lemma write_all_surviving:
  assumes "winv (bw_stream w)" and "length (bw_buffer w) \<le> writer_sBufferSize"
  shows "\<exists>st. write_all swrite w cs = (Ret (), st) \<and> winv st \<and>
    sent st = sent (bw_stream w) @ bw_buffer w @ surviving (length (bw_buffer w)) cs"
  using assms
proof (induction cs arbitrary: w)
  case Nil
  show ?case
  proof (cases "bw_buffer w = []")
    case True
    with Nil show ?thesis by (auto simp: writer_delete_def writer_Flush_def writer_BufferSize_def)
  next
    case False
    with flush_sends [OF Nil(1) False] show ?thesis by (auto simp: writer_delete_def)
  qed
next
  case (Cons c cs)
  show ?case
  proof (cases "length (bw_buffer w) + length c \<le> writer_sBufferSize")
    case True
    with Cons.IH [of "w\<lparr>bw_buffer := bw_buffer w @ c\<rparr>"] Cons.prems show ?thesis
      by (simp add: write_fits)
  next
    case False
    then obtain st where st: "writer_Write swrite w c =
        (Ret (int (writer_sBufferSize - length (bw_buffer w))), \<lparr>bw_stream = st, bw_buffer = []\<rparr>)"
      "winv st" "sent st = sent (bw_stream w) @ bw_buffer w @
         take (writer_sBufferSize - length (bw_buffer w)) c"
      using write_overflows [OF Cons.prems, of c] by auto
    with Cons.IH [of "\<lparr>bw_stream = st, bw_buffer = []\<rparr>"] False show ?thesis by auto
  qed
qed

end

section \<open>Properties\<close>

text \<open>
  \<open>Flush\<close> never reports success: whatever the stream does, with a non-empty buffer it returns a
  negative status (or trips the assertion), also when every byte has been written and the buffer has
  been emptied. So \<open>Write(char)\<close> on a full buffer never stores its character.
\<close>

theorem flush_never_succeeds:
  assumes "bw_buffer w \<noteq> []"
  shows "(\<forall>r w'. writer_Flush swrite w = (Ret r, w') \<longrightarrow> r < 0) \<and>
    (writer_BufferSize w = writer_sBufferSize \<longrightarrow>
       (\<forall>r w'. writer_WriteChar swrite w ch = (Ret r, w') \<longrightarrow>
          r < 0 \<and> (bw_buffer w' = bw_buffer w \<or> bw_buffer w' = [])))"
proof -
  have "bw_buffer w' = bw_buffer w \<or> bw_buffer w' = []" if "writer_Flush swrite w = (oc, w')" for oc w'
    using that by (auto simp: writer_Flush_def Let_def split: prod.splits if_splits)
  with writer_Flush_negative [OF assms, of swrite] show ?thesis
    by (fastforce simp: writer_WriteChar_def split: prod.splits outcome.splits if_splits)
qed

lemma flush_never_succeeds_witness:
  "\<exists>w'. writer_Flush (SocketStream_Write peer_net)
      \<lparr>bw_stream = SocketStream_new 7 (peer_new []), bw_buffer = ''ok''\<rparr> = (Ret (- 3), w') \<and>
    sock_sent (bw_stream w') = ''ok'' \<and> (- 3 :: int) < 0"
proof -
  let ?w = "\<lparr>bw_stream = SocketStream_new 7 (peer_new []), bw_buffer = ''ok''\<rparr>"
  obtain r w' where f: "writer_Flush (SocketStream_Write peer_net) ?w = (Ret r, w')"
    and r: "r = - 3" and s: "sock_sent (bw_stream w') = ''ok''"
    by (simp add: writer_Flush_def writer_BufferSize_def sock_defs SocketStream_new_def peer_new_def)
  from flush_never_succeeds [of ?w "SocketStream_Write peer_net" undefined] f have "r < 0" by simp
  with f r s show ?thesis by blast
qed

text \<open>
  C24: what a connected client receives from a writer: the chunks arrive unchanged exactly when they
  come to at most 1024 bytes in total. Beyond that, the chunk that hits the end of the buffer loses
  its rest (the bytes \<open>surviving\<close> describes), because the \<open>Flush\<close> in the middle of the write reports
  an error.
\<close>

theorem writer_delivers_iff_small:
  assumes "0 < fd"
  shows "\<exists>st. write_all (SocketStream_Write peer_net)
      (BufferedStreamWriter_new (SocketStream_new fd (peer_new []))) cs = (Ret (), st) \<and>
    sock_sent st = surviving 0 cs \<and>
    (sock_sent st = concat cs \<longleftrightarrow> length (concat cs) \<le> 1024)"
proof -
  let ?s = "SocketStream_new fd (peer_new [])"
  have s: "sock_inv ?s" "sock_sent ?s = []"
    using assms by (simp_all add: sock_defs SocketStream_new_def peer_new_def)
  have "surviving 0 cs = concat cs \<longleftrightarrow> length (concat cs) \<le> writer_sBufferSize"
    using surviving_all [of 0 cs] surviving_loss [of 0 cs] by (metis add_0 le0 less_irrefl not_le)
  with sock.write_all_surviving [of "BufferedStreamWriter_new ?s" cs] s show ?thesis
    by (auto simp: BufferedStreamWriter_new_def writer_sBufferSize_def)
qed

lemma writer_delivers_iff_small_witness:
  "\<exists>st. write_all (SocketStream_Write peer_net)
      (BufferedStreamWriter_new (SocketStream_new 7 (peer_new []))) [''pong''] = (Ret (), st) \<and>
    sock_sent st = ''pong''"
  using writer_delivers_iff_small [of 7 "[''pong'']"] by (auto simp: writer_sBufferSize_def)

end
