(* ===== verification/Network.thy ===== *)
theory Network
  imports IO_Stream
begin

text \<open>
  \<open>minet/src/utils/Network.h\<close> and \<open>Network.cpp\<close>: opening, accepting and closing sockets, and the text form
  of an address. The system calls are parameters (\<open>sock_ops\<close>); what the code relies on is the locale
  \<open>socket_os\<close>, which keeps account of the descriptors the process owns. A scripted kernel interprets it.
\<close>

unbundle bit_operations_syntax

section \<open>The system calls\<close>

record 'k sock_ops =
  os_socket :: "'k \<Rightarrow> int \<times> 'k"
  os_setsockopt_reuseaddr :: "'k \<Rightarrow> int \<Rightarrow> int \<times> 'k"
  os_bind :: "'k \<Rightarrow> int \<Rightarrow> 16 word \<Rightarrow> int \<times> 'k"
  os_listen :: "'k \<Rightarrow> int \<Rightarrow> nat \<Rightarrow> int \<times> 'k"
  os_getfl :: "'k \<Rightarrow> int \<Rightarrow> int \<times> 'k"
  os_setfl :: "'k \<Rightarrow> int \<Rightarrow> int \<Rightarrow> int \<times> 'k"
  os_accept :: "'k \<Rightarrow> int \<Rightarrow> (int \<times> 32 word \<times> 16 word) \<times> 'k"
  os_close :: "'k \<Rightarrow> int \<Rightarrow> int \<times> 'k"

definition O_NONBLOCK :: int where "O_NONBLOCK = 2048"

text \<open>\<open>MINET_TRY\<close> and \<open>MINET_TRY_WITH_ACTION\<close>: a negative result runs the action and is returned.\<close>

definition TRY_WITH_ACTION ::
    "int \<times> 'k \<Rightarrow> ('k \<Rightarrow> 'k) \<Rightarrow> ('k \<Rightarrow> int outcome \<times> 'k) \<Rightarrow> int outcome \<times> 'k" where
  "TRY_WITH_ACTION call act rest =
     (let (r, k) = call in if r < 0 then (Ret r, act k) else rest k)"

section \<open>Sockets\<close>

definition MakeNonBlockingSocket :: "'k sock_ops \<Rightarrow> int \<Rightarrow> 'k \<Rightarrow> int outcome \<times> 'k" where
  "MakeNonBlockingSocket os fd k =
     (if \<not> fd > 0 then (Raise AssertFailed, k)
      else let (flag, k1) = os_getfl os k fd in
        if flag < 0 then (Ret flag, k1)
        else TRY_WITH_ACTION (os_setfl os k1 fd (flag OR O_NONBLOCK)) (\<lambda>k. k) (\<lambda>k. (Ret 0, k)))"

definition htons :: "16 word \<Rightarrow> 16 word" where
  \<comment> \<open>little-endian host\<close>
  "htons p = push_bit 8 p OR drop_bit 8 p"

definition OpenSocket :: "'k sock_ops \<Rightarrow> 16 word \<Rightarrow> bool \<Rightarrow> 'k \<Rightarrow> int outcome \<times> 'k" where
  "OpenSocket os port block k =
     (let (fd, k0) = os_socket os k; close = (\<lambda>k. snd (os_close os k fd)) in
      if fd < 0 then (Ret fd, k0)
      else
        TRY_WITH_ACTION (os_setsockopt_reuseaddr os k0 fd) close (\<lambda>k1.
        TRY_WITH_ACTION (os_bind os k1 fd (htons port)) close (\<lambda>k2.
        TRY_WITH_ACTION (os_listen os k2 fd 2048) close (\<lambda>k3.
          if \<not> block
          then case MakeNonBlockingSocket os fd k3 of
              (Raise e, k4) \<Rightarrow> (Raise e, k4)
            | (Ret r, k4) \<Rightarrow> if r < 0 then (Ret r, close k4) else (Ret fd, k4)
          else (Ret fd, k3)))))"

definition CloseSocket :: "'k sock_ops \<Rightarrow> int \<Rightarrow> 'k \<Rightarrow> int \<times> 'k" where
  "CloseSocket os fd k = os_close os k fd"

record AcceptData =
  SocketFd :: int
  sin_addr :: "32 word"
  sin_port :: "16 word"

definition AcceptSocket :: "'k sock_ops \<Rightarrow> int \<Rightarrow> 'k \<Rightarrow> bool \<times> AcceptData \<times> 'k" where
  "AcceptSocket os fd k =
     (let ((sfd, a, p), k1) = os_accept os k fd in
      (sfd > 0, \<lparr>SocketFd = sfd, sin_addr = a, sin_port = p\<rparr>, k1))"

section \<open>Addresses\<close>

text \<open>Addresses and ports are held in network byte order; the host is little-endian.\<close>

definition htonl :: "32 word \<Rightarrow> 32 word" where
  "htonl a =
     push_bit 24 (a AND 255) OR push_bit 8 (a AND 0xFF00) OR
     (drop_bit 8 a AND 0xFF00) OR (drop_bit 24 a AND 255)"

definition AddressToHost :: "32 word \<Rightarrow> 16 word \<Rightarrow> string" where
  "AddressToHost addr port =
     (let address = htonl addr;
          host = nat_string (unat (drop_bit 24 address AND 255)) @ ''.'' @
                 nat_string (unat (drop_bit 16 address AND 255)) @ ''.'' @
                 nat_string (unat (drop_bit 8 address AND 255)) @ ''.'' @
                 nat_string (unat (address AND 255))
      in if port \<noteq> 0 \<and> port \<noteq> 80 then host @ '':'' @ nat_string (unat port) else host)"

text \<open>The address with the bytes \<open>a.b.c.d\<close>, as the kernel stores it in memory.\<close>

definition s_addr :: "8 word \<Rightarrow> 8 word \<Rightarrow> 8 word \<Rightarrow> 8 word \<Rightarrow> 32 word" where
  "s_addr a b c d = ucast a OR push_bit 8 (ucast b) OR push_bit 16 (ucast c) OR push_bit 24 (ucast d)"

lemma byte_masks:
  "(255 :: 32 word) = mask 8" "(0xFF00 :: 32 word) = push_bit 8 (mask 8)"
  by (simp_all add: mask_eq_exp_minus_1 push_bit_eq_mult)

lemma bit_byte: "bit (w AND 255 :: 32 word) n \<longleftrightarrow> n < 8 \<and> bit w n"
  unfolding byte_masks by (auto simp: bit_simps)

lemma bit_byte1: "bit (w AND 0xFF00 :: 32 word) n \<longleftrightarrow> 8 \<le> n \<and> n < 16 \<and> bit w n"
  unfolding byte_masks by (auto simp: bit_simps)

lemma bit_ucast_byte: "bit (ucast (a :: 8 word) :: 32 word) n \<longleftrightarrow> n < 8 \<and> bit a n"
  by (auto simp: bit_simps dest: bit_imp_le_length)

lemma bit_s_addr:
  "bit (s_addr a b c d) n \<longleftrightarrow> n < 8 \<and> bit a n \<or> 8 \<le> n \<and> n < 16 \<and> bit b (n - 8) \<or>
    16 \<le> n \<and> n < 24 \<and> bit c (n - 16) \<or> 24 \<le> n \<and> n < 32 \<and> bit d (n - 24)"
  unfolding s_addr_def by (auto simp: bit_or_iff bit_push_bit_iff bit_ucast_byte)

lemma bit_htonl:
  "bit (htonl w) n \<longleftrightarrow> n < 8 \<and> bit w (24 + n) \<or> 8 \<le> n \<and> n < 16 \<and> bit w (8 + n) \<or>
    16 \<le> n \<and> n < 24 \<and> bit w (n - 8) \<or> 24 \<le> n \<and> n < 32 \<and> bit w (n - 24)"
  unfolding htonl_def bit_or_iff bit_push_bit_iff bit_drop_bit_eq o_apply bit_byte bit_byte1
  by (auto simp: add.commute)

lemma s_addr_bytes:
  "drop_bit 24 (htonl (s_addr a b c d)) AND 255 = ucast a"
  "drop_bit 16 (htonl (s_addr a b c d)) AND 255 = ucast b"
  "drop_bit 8 (htonl (s_addr a b c d)) AND 255 = ucast c"
  "htonl (s_addr a b c d) AND 255 = ucast d"
  by (rule bit_eqI, simp only: bit_byte bit_ucast_byte bit_drop_bit_eq o_apply bit_htonl bit_s_addr,
      auto simp: add.commute)+

section \<open>Ownership of descriptors\<close>

locale socket_os =
  fixes os :: "'k sock_ops" and owned :: "'k \<Rightarrow> int set"
  assumes socket_new: "os_socket os k = (fd, k') \<Longrightarrow>
      if fd < 0 then owned k' = owned k else fd \<notin> owned k \<and> owned k' = insert fd (owned k)"
    and accept_new: "os_accept os k lfd = ((fd, a), k') \<Longrightarrow>
      if fd < 0 then owned k' = owned k else fd \<notin> owned k \<and> owned k' = insert fd (owned k)"
    and close_gone: "owned (snd (os_close os k fd)) = owned k - {fd}"
    and keeps: "owned (snd (os_setsockopt_reuseaddr os k fd)) = owned k"
      "owned (snd (os_bind os k fd p)) = owned k" "owned (snd (os_listen os k fd n)) = owned k"
      "owned (snd (os_getfl os k fd)) = owned k" "owned (snd (os_setfl os k fd i)) = owned k"
begin

lemma TRY_owned:
  assumes "TRY_WITH_ACTION call act rest = (Ret r, k')"
  obtains (failed) "fst call < 0" "r = fst call" "k' = act (snd call)"
  | (went_on) "0 \<le> fst call" "rest (snd call) = (Ret r, k')"
  using assms by (auto simp: TRY_WITH_ACTION_def split: prod.splits if_splits)

lemma MakeNonBlocking_owned:
  assumes "MakeNonBlockingSocket os fd k = (oc, k')"
  shows "owned k' = owned k"
  using assms keeps(4) [of k fd] keeps(5) [of "snd (os_getfl os k fd)" fd]
  by (auto simp: MakeNonBlockingSocket_def TRY_WITH_ACTION_def split: prod.splits if_splits)
    (metis snd_conv keeps(5))+

lemma OpenSocket_owned:
  assumes "OpenSocket os port block k = (Ret r, k')"
  shows "if r < 0 then owned k' = owned k else r \<notin> owned k \<and> owned k' = insert r (owned k)"
proof -
  obtain fd k0 where s: "os_socket os k = (fd, k0)" by (cases "os_socket os k")
  note new = socket_new [OF s]
  show ?thesis
  proof (cases "fd < 0")
    case True
    with s assms new show ?thesis by (auto simp: OpenSocket_def)
  next
    case False
    then have k0: "fd \<notin> owned k" "owned k0 = insert fd (owned k)" using new by auto
    have cl: "owned (snd (os_close os k1 fd)) = owned k" if "owned k1 = owned k0" for k1
      using that k0 close_gone [of k1 fd] by auto
    show ?thesis
      using assms s False k0
      by (auto simp: OpenSocket_def Let_def keeps cl elim!: TRY_owned
          split: outcome.splits prod.splits if_splits dest!: MakeNonBlocking_owned)
  qed
qed

end

section \<open>A scripted kernel\<close>

text \<open>
  A concrete kernel: it hands out descriptors in order and answers every call that can fail with the
  next value of a script (0 when the script is over).
\<close>

record kernel =
  k_open :: "int list"
  k_script :: "int list"

definition k_answer :: "kernel \<Rightarrow> int \<times> kernel" where
  "k_answer k = (case k_script k of [] \<Rightarrow> (0, k) | r # rs \<Rightarrow> (r, k\<lparr>k_script := rs\<rparr>))"

definition k_new_fd :: "kernel \<Rightarrow> int \<times> kernel" where
  "k_new_fd k =
     (let (r, k1) = k_answer k; fd = foldr max (k_open k1) 2 + 1 in
      if r < 0 then (r, k1) else (fd, k1\<lparr>k_open := fd # k_open k1\<rparr>))"

definition kernel_ops :: "kernel sock_ops" where
  "kernel_ops = \<lparr>os_socket = k_new_fd,
     os_setsockopt_reuseaddr = (\<lambda>k fd. k_answer k),
     os_bind = (\<lambda>k fd p. k_answer k),
     os_listen = (\<lambda>k fd n. k_answer k),
     os_getfl = (\<lambda>k fd. k_answer k),
     os_setfl = (\<lambda>k fd i. k_answer k),
     os_accept = (\<lambda>k fd. let (sfd, k1) = k_new_fd k in ((sfd, 0x0100007F, 0), k1)),
     os_close = (\<lambda>k fd. (0, k\<lparr>k_open := removeAll fd (k_open k)\<rparr>))\<rparr>"

definition k_owned :: "kernel \<Rightarrow> int set" where
  "k_owned k = set (k_open k)"

definition kernel_new :: "int list \<Rightarrow> kernel" where
  "kernel_new script = \<lparr>k_open = [], k_script = script\<rparr>"

lemma foldr_max_ge: "x \<in> set xs \<Longrightarrow> x \<le> foldr max xs (n :: int)"
  by (induction xs) auto

lemma k_answer_open [simp]: "k_open (snd (k_answer k)) = k_open k"
  by (simp add: k_answer_def split: list.splits)

lemma foldr_max_base: "(n :: int) \<le> foldr max xs n"
  by (induction xs) auto

lemma k_new_fd_owned:
  assumes "k_new_fd k = (fd, k')"
  shows "if fd < 0 then k_owned k' = k_owned k else fd \<notin> k_owned k \<and> k_owned k' = insert fd (k_owned k)"
proof -
  obtain r k1 where a: "k_answer k = (r, k1)" by (cases "k_answer k")
  then have o: "k_open k1 = k_open k" using k_answer_open [of k] by simp
  let ?fd = "foldr max (k_open k) 2 + 1"
  have "?fd \<notin> set (k_open k)" using foldr_max_ge [of ?fd "k_open k" 2] by auto
  moreover have "\<not> ?fd < 0" using foldr_max_base [of 2 "k_open k"] by simp
  ultimately show ?thesis using assms a o by (auto simp: k_new_fd_def k_owned_def Let_def split: if_splits)
qed

interpretation kern: socket_os kernel_ops k_owned
proof
  fix k :: kernel and fd k'
  assume "os_socket kernel_ops k = (fd, k')"
  then show "if fd < 0 then k_owned k' = k_owned k else fd \<notin> k_owned k \<and> k_owned k' = insert fd (k_owned k)"
    by (simp add: kernel_ops_def k_new_fd_owned)
next
  fix k :: kernel and lfd fd a k'
  assume "os_accept kernel_ops k lfd = ((fd, a), k')"
  then have "k_new_fd k = (fd, k')" by (auto simp: kernel_ops_def split: prod.splits)
  then show "if fd < 0 then k_owned k' = k_owned k else fd \<notin> k_owned k \<and> k_owned k' = insert fd (k_owned k)"
    by (rule k_new_fd_owned)
qed (auto simp: kernel_ops_def k_owned_def)

section \<open>Properties\<close>

text \<open>
  C30: \<open>OpenSocket\<close> does not leak. When it returns an error, whichever call failed, the descriptor that
  \<open>socket\<close> made has been closed and the process owns what it owned before; when it succeeds, the result is
  a new descriptor and the only one that was added.
\<close>

theorem open_socket_no_leak:
  assumes "socket_os os owned" and "OpenSocket os port block k = (Ret r, k')"
  shows "if r < 0 then owned k' = owned k else r \<notin> owned k \<and> owned k' = insert r (owned k)"
  by (rule socket_os.OpenSocket_owned [OF assms])

lemma open_socket_no_leak_witness:
  "OpenSocket kernel_ops 80 False (kernel_new [0, 0, - 98]) = (Ret (- 98), kernel_new []) \<and>
   k_owned (kernel_new []) = k_owned (kernel_new [0, 0, - 98])"
proof -
  have "OpenSocket kernel_ops 80 False (kernel_new [0, 0, - 98]) = (Ret (- 98), kernel_new [])"
    by code_simp
  with open_socket_no_leak [OF kern.socket_os_axioms this] show ?thesis by simp
qed

lemma unat_htons: "unat (htons p) = 256 * (unat p mod 256) + unat p div 256"
proof -
  have "push_bit 8 p OR drop_bit 8 p = push_bit 8 p + drop_bit 8 p"
    by (rule disjunctive_add [symmetric]) (auto simp: bit_simps dest: bit_imp_le_length)
  moreover have "unat (push_bit 8 p) = 256 * (unat p mod 256)"
    using mult_mod_right [of 256 "unat p" 256]
    by (simp add: push_bit_eq_mult unat_word_ariths mult.commute)
  moreover have "unat (drop_bit 8 p) = unat p div 256"
    by (simp add: drop_bit_eq_div unat_div)
  moreover have "unat p < 65536" using unsigned_less [of p] by simp
  ultimately show ?thesis by (simp add: htons_def unat_word_ariths)
qed

text \<open>
  The text of an address. An address with the bytes \<open>a.b.c.d\<close> is printed in dotted decimal, followed
  by the port unless it is 0 or 80. The port is printed as the number it is given: the callers hand over
  \<open>sin_port\<close> as the kernel stores it, so a client's port \<open>p\<close> is printed with its two bytes exchanged, and
  the port that is left out as the default one is 20480.
\<close>

theorem address_to_host_format:
  "AddressToHost (s_addr a b c d) (htons p) =
    nat_string (unat a) @ ''.'' @ nat_string (unat b) @ ''.'' @
    nat_string (unat c) @ ''.'' @ nat_string (unat d) @
    (if p = 0 \<or> p = 20480 then [] else '':'' @ nat_string (256 * (unat p mod 256) + unat p div 256))"
proof -
  have less: "unat p < 65536" using unsigned_less [of p] by simp
  have zero: "htons p = 0 \<longleftrightarrow> p = 0"
    using less by (auto simp: unat_eq_0 [symmetric] unat_htons simp del: unat_eq_0 unat_eq_zero)
  have eighty: "htons p = 80 \<longleftrightarrow> p = 20480"
  proof -
    define q r where "q = unat p div 256" and "r = unat p mod 256"
    have qr: "unat p = q * 256 + r" "r < 256" by (simp_all add: q_def r_def)
    have "256 * r + q = 80 \<longleftrightarrow> unat p = 20480"
    proof
      assume a: "256 * r + q = 80"
      then have "r = 0" by (cases r) simp_all
      with a qr show "unat p = 20480" by simp
    next
      assume "unat p = 20480"
      then have "q = 80" "r = 0" by (simp_all add: q_def r_def)
      then show "256 * r + q = 80" by simp
    qed
    then show ?thesis by (simp add: word_unat_eq_iff unat_htons q_def r_def)
  qed
  have ucast: "unat (ucast (x :: 8 word) :: 32 word) = unat x" for x
  proof -
    have "unat x < 2 ^ LENGTH(8)" by (rule unsigned_less)
    then show ?thesis by (simp add: unsigned_ucast_eq take_bit_nat_eq_self)
  qed
  show ?thesis
    by (simp add: AddressToHost_def Let_def s_addr_bytes ucast zero eighty unat_htons)
qed

end
