(* ===== verification/Http_Message.thy ===== *)
theory Http_Message
  imports Http "HOL-Library.AList" "HOL-Library.Multiset"
begin

text \<open>
  The data of \<open>minet/include/minet/core/HttpContext.h\<close> and the printers of
  \<open>minet/src/core/HttpContext.cpp\<close>: requests and responses without their streams, which the operations
  that use them carry separately.
\<close>

section \<open>Headers\<close>

text \<open>
  \<open>HeaderCollection\<close> is an \<open>unordered_map\<close>: one value per key, and an iteration order the language
  does not fix. It is an association list with distinct keys, \<open>headers[k] = v\<close> is \<open>AList.update\<close>, and
  code that iterates takes the order as an argument \<open>iter\<close>, of which it may use only that it is a
  permutation (\<open>iteration iter\<close>).
\<close>

type_synonym headers = "(string \<times> string) list"

definition headers_set :: "string \<Rightarrow> string \<Rightarrow> headers \<Rightarrow> headers" where
  "headers_set k v hs = AList.update k v hs"

definition headers_get :: "headers \<Rightarrow> string \<Rightarrow> string option" where
  "headers_get hs = map_of hs"

definition iteration :: "(headers \<Rightarrow> headers) \<Rightarrow> bool" where
  "iteration iter \<longleftrightarrow> (\<forall>hs. mset (iter hs) = mset hs)"

lemma headers_get_set [simp]: "headers_get (headers_set k v hs) = (headers_get hs)(k \<mapsto> v)"
  by (simp add: headers_get_def headers_set_def update_conv')

lemma headers_set_distinct: "distinct (map fst hs) \<Longrightarrow> distinct (map fst (headers_set k v hs))"
  by (simp add: headers_set_def distinct_update)

lemma headers_set_fresh: "k \<notin> fst ` set hs \<Longrightarrow> headers_set k v hs = hs @ [(k, v)]"
  by (induction hs) (auto simp: headers_set_def)

lemma iteration_set: "iteration iter \<Longrightarrow> set (iter hs) = set hs"
  by (metis iteration_def mset_eq_setD)

lemma iteration_distinct:
  "iteration iter \<Longrightarrow> distinct (map fst (iter hs)) \<longleftrightarrow> distinct (map fst hs)"
  by (metis iteration_def mset_eq_imp_distinct_iff mset_map)

lemma iteration_get:
  assumes "iteration iter" and "distinct (map fst hs)"
  shows "headers_get (iter hs) = headers_get hs"
  using map_of_inject_set [of "iter hs" hs] iteration_set [OF assms(1)] iteration_distinct [OF assms(1)]
    assms(2) by (simp add: headers_get_def)

lemma iteration_id [simp]: "iteration (\<lambda>hs. hs)"
  by (simp add: iteration_def)

section \<open>Requests and responses\<close>

record HttpRequest =
  Method :: HttpMethod
  Version :: HttpVersion
  ContentLength :: int
  Path :: string
  Host :: string
  ContentType :: string
  Headers :: headers
  Body :: string

text \<open>\<open>make_shared<HttpContext>()\<close> value-initialises: every scalar is zero, every string empty.\<close>

definition HttpRequest_zero :: HttpRequest where
  "HttpRequest_zero = \<lparr>Method = GET, Version = HTTP_1_0, ContentLength = 0, Path = [], Host = [],
     ContentType = [], Headers = [], Body = []\<rparr>"

record HttpResponse =
  StatusCode :: int
  rContentLength :: int
  rContentType :: string
  rHeaders :: headers
  rBody :: string

definition HttpResponse_zero :: HttpResponse where
  "HttpResponse_zero =
     \<lparr>StatusCode = 0, rContentLength = 0, rContentType = [], rHeaders = [], rBody = []\<rparr>"

section \<open>Printing\<close>

definition header_line :: "string \<Rightarrow> string \<Rightarrow> string" where
  "header_line k v = k @ COLON @ v @ NEW_LINE"

definition header_lines :: "headers \<Rightarrow> string" where
  "header_lines hs = concat (map (\<lambda>(k, v). header_line k v) hs)"

definition HttpRequest_ToString :: "(headers \<Rightarrow> headers) \<Rightarrow> HttpRequest \<Rightarrow> string" where
  "HttpRequest_ToString iter r =
     HttpMethodToString (Method r) @ SPACE @
     Path r @ SPACE @
     HTTP_VERSION @ NEW_LINE @
     (if ContentType r \<noteq> [] then header_line ''Content-Type'' (ContentType r) else []) @
     (if ContentLength r > 0 then header_line ''Content-Length'' (int_string (ContentLength r)) else []) @
     (if Host r \<noteq> [] then header_line ''Host'' (Host r) else []) @
     header_lines (iter (Headers r)) @
     NEW_LINE @
     (if ContentLength r > 0 then Body r else [])"

definition HttpResponse_ToString :: "(headers \<Rightarrow> headers) \<Rightarrow> HttpResponse \<Rightarrow> string" where
  "HttpResponse_ToString iter r =
     HTTP_VERSION @ SPACE @
     int_string (StatusCode r) @ SPACE @
     StatusCodeToDescription (StatusCode r) @ NEW_LINE @
     (if rContentType r \<noteq> [] then header_line ''Content-Type'' (rContentType r) else []) @
     (if rContentLength r > 0 then header_line ''Content-Length'' (int_string (rContentLength r)) else []) @
     header_lines (iter (rHeaders r)) @
     NEW_LINE @
     (if rContentLength r > 0 then rBody r else [])"

lemma header_lines_simps [simp]:
  "header_lines [] = []"
  "header_lines ((k, v) # hs) = header_line k v @ header_lines hs"
  by (simp_all add: header_lines_def)

section \<open>The header fields of a message\<close>

text \<open>
  The lines of a request between the start line and the empty line, as key/value pairs: the three
  special fields in the order \<open>ToString\<close> prints them, then the others.
\<close>

definition request_fields :: "(headers \<Rightarrow> headers) \<Rightarrow> HttpRequest \<Rightarrow> headers" where
  "request_fields iter r =
     (if ContentType r \<noteq> [] then [(''Content-Type'', ContentType r)] else []) @
     (if ContentLength r > 0 then [(''Content-Length'', int_string (ContentLength r))] else []) @
     (if Host r \<noteq> [] then [(''Host'', Host r)] else []) @
     iter (Headers r)"

lemma header_lines_append [simp]: "header_lines (xs @ ys) = header_lines xs @ header_lines ys"
  by (simp add: header_lines_def)

lemma ToString_fields:
  "HttpRequest_ToString iter r =
     HttpMethodToString (Method r) @ SPACE @ Path r @ SPACE @ HTTP_VERSION @ NEW_LINE @
     header_lines (request_fields iter r) @ NEW_LINE @
     (if ContentLength r > 0 then Body r else [])"
  by (simp add: HttpRequest_ToString_def request_fields_def)

text \<open>
  How a parser stores a field, as both parsers do it: the special keys go to their members, every
  other key to the header map; \<open>Content-Length\<close> may throw.
\<close>

definition store_field :: "string \<Rightarrow> string \<Rightarrow> HttpRequest \<Rightarrow> HttpRequest outcome" where
  "store_field k v r =
     (if k = ''Content-Length''
      then outcome_bind (stoi v) (\<lambda>n. Ret (r\<lparr>ContentLength := n\<rparr>))
      else if k = ''Content-Type'' then Ret (r\<lparr>ContentType := v\<rparr>)
      else if k = ''Host'' then Ret (r\<lparr>Host := v\<rparr>)
      else Ret (r\<lparr>Headers := headers_set k v (Headers r)\<rparr>))"

fun store_fields :: "headers \<Rightarrow> HttpRequest \<Rightarrow> HttpRequest outcome" where
  "store_fields [] r = Ret r"
| "store_fields ((k, v) # hs) r = outcome_bind (store_field k v r) (store_fields hs)"

definition special_keys :: "string set" where
  "special_keys = {''Content-Length'', ''Content-Type'', ''Host''}"

lemma store_field_plain:
  "k \<notin> special_keys \<Longrightarrow> store_field k v r = Ret (r\<lparr>Headers := headers_set k v (Headers r)\<rparr>)"
  by (simp add: store_field_def special_keys_def)

lemma store_fields_append:
  "store_fields (xs @ ys) r = outcome_bind (store_fields xs r) (store_fields ys)"
proof (induction xs r rule: store_fields.induct)
  case (2 k v hs r)
  then show ?case by (cases "store_field k v r") auto
qed simp

lemma store_fields_plain:
  assumes "distinct (map fst hs)" and "fst ` set hs \<inter> special_keys = {}"
    and "fst ` set hs \<inter> fst ` set (Headers r) = {}"
  shows "store_fields hs r = Ret (r\<lparr>Headers := Headers r @ hs\<rparr>)"
  using assms
proof (induction hs arbitrary: r)
  case Nil
  then show ?case by simp
next
  case (Cons h hs)
  obtain k v where h: "h = (k, v)" by (cases h)
  with Cons.prems have "store_field k v r = Ret (r\<lparr>Headers := Headers r @ [(k, v)]\<rparr>)"
    by (auto simp: store_field_plain headers_set_fresh)
  with Cons.IH [of "r\<lparr>Headers := Headers r @ [(k, v)]\<rparr>"] Cons.prems h show ?case by auto
qed

text \<open>What a request must satisfy for its fields to be stored back as they are.\<close>

definition fields_ok :: "HttpRequest \<Rightarrow> bool" where
  "fields_ok r \<longleftrightarrow>
     0 \<le> ContentLength r \<and> ContentLength r \<le> INT_MAX \<and>
     distinct (map fst (Headers r)) \<and> fst ` set (Headers r) \<inter> special_keys = {}"

lemma store_request_fields:
  assumes "fields_ok r" and "iteration iter" and "Headers r0 = []"
    and "ContentType r0 = []" and "ContentLength r0 = 0"
  shows "store_fields (request_fields iter r) r0 =
    Ret (r0\<lparr>ContentType := ContentType r, ContentLength := ContentLength r,
      Host := (if Host r = [] then Host r0 else Host r), Headers := iter (Headers r)\<rparr>)"
proof -
  have "distinct (map fst (iter (Headers r)))" "fst ` set (iter (Headers r)) \<inter> special_keys = {}"
    using assms(1,2) iteration_distinct iteration_set by (auto simp: fields_ok_def)
  then have plain: "store_fields (iter (Headers r)) s = Ret (s\<lparr>Headers := iter (Headers r)\<rparr>)"
    if "Headers s = []" for s :: HttpRequest
    using that by (subst store_fields_plain) auto
  show ?thesis
    using assms plain
    by (auto simp: request_fields_def store_fields_append store_field_def stoi_int_string fields_ok_def)
qed

end
