(* ===== verification/Parser_Async.thy ===== *)
theory Parser_Async
  imports Http_Message
begin

text \<open>
  \<open>class AsyncHttpRequestParser\<close> of \<open>minet/include/minet/utils/Parser.h\<close> and
  \<open>minet/src/utils/AsyncParser.cpp\<close>: the incremental parser of the Mayhem server. One definition per
  handler; the member function pointer \<open>_handler\<close> is a value of \<open>State\<close>.
\<close>

section \<open>Character classes\<close>

definition EXTRA_PATH_CHARS :: string where
  "EXTRA_PATH_CHARS = ''-._~:/?#[]@!$&'' @ [CHR 0x27] @ ''()*+,;=''"

definition IsPathChar :: "char \<Rightarrow> bool" where
  "IsPathChar ch \<longleftrightarrow> isalnum ch \<or> strchr EXTRA_PATH_CHARS (ch_int ch)"

definition IsHeaderKeyChar :: "char \<Rightarrow> bool" where
  "IsHeaderKeyChar ch \<longleftrightarrow> isalnum ch \<or> ch = CHR ''-''"

definition IsHeaderValueChar :: "char \<Rightarrow> bool" where
  "IsHeaderValueChar ch \<longleftrightarrow>
     (33 \<le> ch_int ch \<and> ch_int ch \<le> 126) \<or> ch = CHR 0x09 \<or> ch = CHR '' ''"

section \<open>State\<close>

datatype State =
  S_Start | S_Method | S_Space1 | S_Path | S_Space2 | S_Version | S_NewLine | S_HeaderKey |
  S_Colon | S_Space3 | S_HeaderValue | S_HeaderNewLine | S_EndLine | S_Body | S_Done | S_Error

fun state_code :: "State \<Rightarrow> int" where
  "state_code S_Start = 10"
| "state_code S_Method = 11"
| "state_code S_Space1 = 12"
| "state_code S_Path = 13"
| "state_code S_Space2 = 14"
| "state_code S_Version = 15"
| "state_code S_NewLine = 16"
| "state_code S_HeaderKey = 17"
| "state_code S_Colon = 18"
| "state_code S_Space3 = 19"
| "state_code S_HeaderValue = 20"
| "state_code S_HeaderNewLine = 21"
| "state_code S_EndLine = 22"
| "state_code S_Body = 23"
| "state_code S_Done = 24"
| "state_code S_Error = 25"

text \<open>
  \<open>_error\<close> is not initialised by the constructor; it is read in the error state only, whose entry
  sets it. The model starts it at 0.
\<close>

record AsyncHttpRequestParser =
  ap_handler :: State
  ap_token :: string
  ap_key :: string
  ap_request :: HttpRequest
  ap_error :: int

definition AsyncHttpRequestParser_new :: "HttpRequest \<Rightarrow> AsyncHttpRequestParser" where
  "AsyncHttpRequestParser_new r =
     \<lparr>ap_handler = S_Start, ap_token = [], ap_key = [],
      ap_request = r\<lparr>ContentLength := 0\<rparr>, ap_error = 0\<rparr>"

text \<open>A call of \<open>Feed\<close>: the return value, or the exception of \<open>std::stoi\<close>, and the new state.\<close>

type_synonym feed_result = "int outcome \<times> AsyncHttpRequestParser"

definition TRANSIT :: "State \<Rightarrow> AsyncHttpRequestParser \<Rightarrow> AsyncHttpRequestParser" where
  "TRANSIT st p = p\<lparr>ap_handler := st\<rparr>"

definition CONTINUE :: "AsyncHttpRequestParser \<Rightarrow> feed_result" where
  "CONTINUE p = (Ret 0, p)"

definition ACCEPT :: "AsyncHttpRequestParser \<Rightarrow> feed_result" where
  "ACCEPT p = (Ret 1, p)"

definition REJECT :: "AsyncHttpRequestParser \<Rightarrow> feed_result" where
  "REJECT p = (Ret (ap_error p), p)"

definition RAISE_ERROR :: "State \<Rightarrow> AsyncHttpRequestParser \<Rightarrow> feed_result" where
  "RAISE_ERROR st p = REJECT (TRANSIT S_Error p\<lparr>ap_error := state_code st\<rparr>)"

definition push_token :: "char \<Rightarrow> AsyncHttpRequestParser \<Rightarrow> AsyncHttpRequestParser" where
  "push_token ch p = p\<lparr>ap_token := ap_token p @ [ch]\<rparr>"

definition clear_token :: "AsyncHttpRequestParser \<Rightarrow> AsyncHttpRequestParser" where
  "clear_token p = p\<lparr>ap_token := []\<rparr>"

definition upd_request :: "(HttpRequest \<Rightarrow> HttpRequest) \<Rightarrow> AsyncHttpRequestParser \<Rightarrow> AsyncHttpRequestParser" where
  "upd_request f p = p\<lparr>ap_request := f (ap_request p)\<rparr>"

lemmas macro_defs = TRANSIT_def CONTINUE_def ACCEPT_def REJECT_def RAISE_ERROR_def push_token_def
  clear_token_def upd_request_def

text \<open>\<open>static_cast<size_t>\<close> of an \<open>int\<close>, on 64 bits.\<close>

definition size_t_of_int :: "int \<Rightarrow> nat" where
  "size_t_of_int i = nat (i mod 2 ^ 64)"

section \<open>The handlers\<close>

definition ParseStart :: "char \<Rightarrow> AsyncHttpRequestParser \<Rightarrow> feed_result" where
  "ParseStart ch p =
     (if isalpha ch then CONTINUE (TRANSIT S_Method (push_token ch p))
      else RAISE_ERROR S_Start p)"

definition ParseMethod :: "char \<Rightarrow> AsyncHttpRequestParser \<Rightarrow> feed_result" where
  "ParseMethod ch p =
     (if isalpha ch then CONTINUE (push_token ch p)
      else if ch = CHR '' '' then
        let m = HttpMethodFromString (ap_token p);
            p1 = clear_token (upd_request (\<lambda>r. r\<lparr>Method := m\<rparr>) p)
        in if m = METHOD_INVALID then RAISE_ERROR S_Method p1
           else CONTINUE (TRANSIT S_Space1 p1)
      else RAISE_ERROR S_Method p)"

definition ParseSpace1 :: "char \<Rightarrow> AsyncHttpRequestParser \<Rightarrow> feed_result" where
  "ParseSpace1 ch p =
     (if ch = CHR ''/'' then CONTINUE (TRANSIT S_Path (push_token ch p))
      else RAISE_ERROR S_Space1 p)"

definition ParsePath :: "char \<Rightarrow> AsyncHttpRequestParser \<Rightarrow> feed_result" where
  "ParsePath ch p =
     (if ch = CHR '' '' then
        CONTINUE (TRANSIT S_Space2 (clear_token (upd_request (\<lambda>r. r\<lparr>Path := ap_token p\<rparr>) p)))
      else if IsPathChar ch then CONTINUE (push_token ch p)
      else RAISE_ERROR S_Path p)"

definition ParseSpace2 :: "char \<Rightarrow> AsyncHttpRequestParser \<Rightarrow> feed_result" where
  "ParseSpace2 ch p =
     (if ch = CHR ''H'' then CONTINUE (TRANSIT S_Version (push_token ch p))
      else RAISE_ERROR S_Space2 p)"

definition expect_version :: "char \<Rightarrow> char \<Rightarrow> AsyncHttpRequestParser \<Rightarrow> feed_result" where
  "expect_version c ch p =
     (if ch = c then CONTINUE (push_token ch p) else RAISE_ERROR S_Version p)"

definition ParseVersion :: "char \<Rightarrow> AsyncHttpRequestParser \<Rightarrow> feed_result" where
  "ParseVersion ch p =
     (let len = length (ap_token p) in
      if len = 1 \<or> len = 2 then expect_version CHR ''T'' ch p
      else if len = 3 then expect_version CHR ''P'' ch p
      else if len = 4 then expect_version CHR ''/'' ch p
      else if len = 5 then expect_version CHR ''1'' ch p
      else if len = 6 then expect_version CHR ''.'' ch p
      else if len = 7 then expect_version CHR ''1'' ch p
      else if len = 8 then
        if ch = CR then
          CONTINUE (TRANSIT S_NewLine (clear_token (upd_request (\<lambda>r. r\<lparr>Version := HTTP_1_1\<rparr>) p)))
        else RAISE_ERROR S_Version p
      else RAISE_ERROR S_Version p)"

definition ParseNewLine :: "char \<Rightarrow> AsyncHttpRequestParser \<Rightarrow> feed_result" where
  "ParseNewLine ch p =
     (if ch = LF then CONTINUE (TRANSIT S_HeaderKey p) else RAISE_ERROR S_NewLine p)"

definition ParseHeaderKey :: "char \<Rightarrow> AsyncHttpRequestParser \<Rightarrow> feed_result" where
  "ParseHeaderKey ch p =
     (if ch = CR then CONTINUE (TRANSIT S_EndLine p)
      else if IsHeaderKeyChar ch then CONTINUE (push_token ch p)
      else if ch = CHR '':'' then
        CONTINUE (TRANSIT S_Colon (clear_token (p\<lparr>ap_key := ap_token p\<rparr>)))
      else RAISE_ERROR S_HeaderKey p)"

definition ParseColon :: "char \<Rightarrow> AsyncHttpRequestParser \<Rightarrow> feed_result" where
  "ParseColon ch p =
     (if ch = CHR '' '' then CONTINUE (TRANSIT S_Space3 p) else RAISE_ERROR S_Colon p)"

definition ParseSpace3 :: "char \<Rightarrow> AsyncHttpRequestParser \<Rightarrow> feed_result" where
  "ParseSpace3 ch p =
     (if IsHeaderValueChar ch then CONTINUE (TRANSIT S_HeaderValue (push_token ch p))
      else RAISE_ERROR S_Space3 p)"

definition ParseHeaderValue :: "char \<Rightarrow> AsyncHttpRequestParser \<Rightarrow> feed_result" where
  "ParseHeaderValue ch p =
     (if IsHeaderValueChar ch then CONTINUE (push_token ch p)
      else if ch = CR then
        (case (if ap_key p = ''Content-Length'' then
                 outcome_bind (stoi (ap_token p))
                   (\<lambda>n. Ret (upd_request (\<lambda>r. r\<lparr>ContentLength := n\<rparr>) p))
               else if ap_key p = ''Content-Type'' then
                 Ret (upd_request (\<lambda>r. r\<lparr>ContentType := ap_token p\<rparr>) p)
               else if ap_key p = ''Host'' then
                 Ret (upd_request (\<lambda>r. r\<lparr>Host := ap_token p\<rparr>) p)
               else
                 Ret (upd_request (\<lambda>r. r\<lparr>Headers := headers_set (ap_key p) (ap_token p) (Headers r)\<rparr>) p)) of
           Raise e \<Rightarrow> (Raise e, p)
         | Ret p1 \<Rightarrow> CONTINUE (TRANSIT S_HeaderNewLine (clear_token p1)))
      else RAISE_ERROR S_HeaderValue p)"

definition ParseHeaderNewLine :: "char \<Rightarrow> AsyncHttpRequestParser \<Rightarrow> feed_result" where
  "ParseHeaderNewLine ch p =
     (if ch = LF then CONTINUE (TRANSIT S_HeaderKey p) else RAISE_ERROR S_HeaderNewLine p)"

definition ParseEndLine :: "char \<Rightarrow> AsyncHttpRequestParser \<Rightarrow> feed_result" where
  "ParseEndLine ch p =
     (if ch = LF then
        if ContentLength (ap_request p) = 0 then ACCEPT (TRANSIT S_Done p)
        else CONTINUE (TRANSIT S_Body p)
      else RAISE_ERROR S_EndLine p)"

definition ParseBody :: "char \<Rightarrow> AsyncHttpRequestParser \<Rightarrow> feed_result" where
  "ParseBody ch p =
     (if length (Body (ap_request p)) < size_t_of_int (ContentLength (ap_request p)) then
        let p1 = upd_request (\<lambda>r. r\<lparr>Body := Body r @ [ch]\<rparr>) p in
        if length (Body (ap_request p1)) = size_t_of_int (ContentLength (ap_request p1))
        then ACCEPT (TRANSIT S_Done p1)
        else CONTINUE p1
      else RAISE_ERROR S_Body p)"

definition ParseDone :: "char \<Rightarrow> AsyncHttpRequestParser \<Rightarrow> feed_result" where
  "ParseDone ch p = ACCEPT p"

definition ParseError :: "char \<Rightarrow> AsyncHttpRequestParser \<Rightarrow> feed_result" where
  "ParseError ch p = REJECT p"

definition Feed :: "AsyncHttpRequestParser \<Rightarrow> char \<Rightarrow> feed_result" where
  "Feed p ch =
     (case ap_handler p of
        S_Start \<Rightarrow> ParseStart ch p
      | S_Method \<Rightarrow> ParseMethod ch p
      | S_Space1 \<Rightarrow> ParseSpace1 ch p
      | S_Path \<Rightarrow> ParsePath ch p
      | S_Space2 \<Rightarrow> ParseSpace2 ch p
      | S_Version \<Rightarrow> ParseVersion ch p
      | S_NewLine \<Rightarrow> ParseNewLine ch p
      | S_HeaderKey \<Rightarrow> ParseHeaderKey ch p
      | S_Colon \<Rightarrow> ParseColon ch p
      | S_Space3 \<Rightarrow> ParseSpace3 ch p
      | S_HeaderValue \<Rightarrow> ParseHeaderValue ch p
      | S_HeaderNewLine \<Rightarrow> ParseHeaderNewLine ch p
      | S_EndLine \<Rightarrow> ParseEndLine ch p
      | S_Body \<Rightarrow> ParseBody ch p
      | S_Done \<Rightarrow> ParseDone ch p
      | S_Error \<Rightarrow> ParseError ch p)"

lemmas handler_defs = ParseStart_def ParseMethod_def ParseSpace1_def ParsePath_def ParseSpace2_def
  ParseVersion_def expect_version_def ParseNewLine_def ParseHeaderKey_def ParseColon_def
  ParseSpace3_def ParseHeaderValue_def ParseHeaderNewLine_def ParseEndLine_def ParseBody_def
  ParseDone_def ParseError_def

section \<open>Runs\<close>

text \<open>
  Feeding the characters of a text until the return value is negative or 1, or there is an exception; the third
  component is what has not been fed. The loop of the program, in \<open>AsyncHttpContextBuilder::Parse\<close>, also stops at a byte
  that is not positive: \<open>builder_loop\<close> of \<open>Http_Context\<close> is its model, and \<open>builder_parse_exact\<close> there relates the two.
\<close>

fun feed_string :: "AsyncHttpRequestParser \<Rightarrow> string \<Rightarrow> int outcome \<times> AsyncHttpRequestParser \<times> string" where
  "feed_string p [] = (Ret 0, p, [])"
| "feed_string p (c # cs) =
     (case Feed p c of
        (Raise e, p1) \<Rightarrow> (Raise e, p1, cs)
      | (Ret v, p1) \<Rightarrow> if v < 0 then (Ret v, p1, cs)
                      else if v = 1 then (Ret 1, p1, cs)
                      else feed_string p1 cs)"

inductive feed_step :: "AsyncHttpRequestParser \<Rightarrow> AsyncHttpRequestParser \<Rightarrow> bool" where
  fed: "Feed p ch = (oc, p1) \<Longrightarrow> feed_step p p1"

text \<open>The states a parser can be in: the constructor on a fresh request, then any calls of \<open>Feed\<close>.\<close>

inductive parser_reachable :: "AsyncHttpRequestParser \<Rightarrow> bool" where
  start: "Body r = [] \<Longrightarrow> parser_reachable (AsyncHttpRequestParser_new r)"
| step: "parser_reachable p \<Longrightarrow> feed_step p p1 \<Longrightarrow> parser_reachable p1"

inductive_cases feed_stepE [elim!]: "feed_step p p1"

lemma feed_string_append:
  "feed_string p xs = (Ret 0, p1, []) \<Longrightarrow> feed_string p (xs @ ys) = feed_string p1 ys"
proof (induction xs arbitrary: p)
  case (Cons x xs)
  then show ?case by (auto split: prod.splits outcome.splits if_splits)
qed simp

lemma feed_stopped:
  "feed_string p xs = (oc, p1, rest) \<Longrightarrow> oc \<noteq> Ret 0 \<Longrightarrow> feed_string p (xs @ ys) = (oc, p1, rest @ ys)"
proof (induction xs arbitrary: p)
  case (Cons x xs)
  then show ?case by (auto split: prod.splits outcome.splits if_splits)
qed simp

section \<open>The parser's invariant\<close>

text \<open>
  What the fields of the request and the token are while the parser is in each state. A state is past
  another when its code is larger; the error state keeps nothing but its code.
\<close>

definition past :: "State \<Rightarrow> State \<Rightarrow> bool" where
  "past st h \<longleftrightarrow> state_code st < state_code h \<and> h \<noteq> S_Error"

definition path_ok :: "string \<Rightarrow> bool" where
  "path_ok s \<longleftrightarrow> s \<noteq> [] \<and> hd s = CHR ''/'' \<and> (\<forall>c \<in> set s. IsPathChar c)"

definition version_prefixes :: "string set" where
  "version_prefixes =
     {''H'', ''HT'', ''HTT'', ''HTTP'', ''HTTP/'', ''HTTP/1'', ''HTTP/1.'', ''HTTP/1.1''}"

definition ap_inv :: "AsyncHttpRequestParser \<Rightarrow> bool" where
  "ap_inv p \<longleftrightarrow>
     (ap_handler p = S_Error \<longrightarrow> 10 \<le> ap_error p \<and> ap_error p < 23) \<and>
     INT_MIN \<le> ContentLength (ap_request p) \<and> ContentLength (ap_request p) \<le> INT_MAX \<and>
     (past S_Method (ap_handler p) \<longrightarrow> Method (ap_request p) \<noteq> METHOD_INVALID) \<and>
     (ap_handler p = S_Path \<longrightarrow> path_ok (ap_token p)) \<and>
     (past S_Path (ap_handler p) \<longrightarrow> path_ok (Path (ap_request p))) \<and>
     (ap_handler p = S_Space2 \<longrightarrow> ap_token p = []) \<and>
     (ap_handler p = S_Version \<longrightarrow>
        ap_token p \<in> version_prefixes) \<and>
     (past S_Version (ap_handler p) \<longrightarrow> Version (ap_request p) = HTTP_1_1) \<and>
     (ap_handler p = S_Space1 \<longrightarrow> ap_token p = []) \<and>
     (\<not> past S_EndLine (ap_handler p) \<and> ap_handler p \<noteq> S_Error \<longrightarrow> Body (ap_request p) = []) \<and>
     (ap_handler p = S_Body \<longrightarrow>
        length (Body (ap_request p)) < size_t_of_int (ContentLength (ap_request p))) \<and>
     (ap_handler p = S_Done \<longrightarrow>
        length (Body (ap_request p)) = size_t_of_int (ContentLength (ap_request p)))"

lemma size_t_of_int_pos:
  assumes "INT_MIN \<le> i" and "i \<le> INT_MAX" and "i \<noteq> 0"
  shows "0 < size_t_of_int i"
proof (cases "0 \<le> i")
  case True
  with assms show ?thesis by (simp add: size_t_of_int_def INT_MAX_def)
next
  case False
  have "i mod 2 ^ 64 = (i + 2 ^ 64) mod 2 ^ 64" by simp
  also have "\<dots> = i + 2 ^ 64"
    using False assms(1) by (intro mod_pos_pos_trivial) (auto simp: INT_MIN_def)
  finally show ?thesis using assms(1) by (simp add: size_t_of_int_def INT_MIN_def)
qed

lemma size_t_of_int_nonneg: "0 \<le> i \<Longrightarrow> i \<le> INT_MAX \<Longrightarrow> size_t_of_int i = nat i"
  by (simp add: size_t_of_int_def INT_MAX_def)

lemma ap_inv_new: "Body r = [] \<Longrightarrow> ap_inv (AsyncHttpRequestParser_new r)"
  by (simp add: ap_inv_def AsyncHttpRequestParser_new_def past_def INT_MIN_def INT_MAX_def)

lemma IsPathChar_slash: "IsPathChar CHR ''/''"
  by (simp add: IsPathChar_def EXTRA_PATH_CHARS_def)

lemma path_ok_push: "path_ok s \<Longrightarrow> IsPathChar c \<Longrightarrow> path_ok (s @ [c])"
  by (auto simp: path_ok_def)

lemma path_ok_slash: "path_ok ''/''"
  by (simp add: path_ok_def IsPathChar_slash)

lemma ParseVersion_next:
  assumes "ap_token p \<in> version_prefixes"
  shows "ParseVersion ch p =
    (if ap_token p = ''HTTP/1.1'' \<and> ch = CR
     then CONTINUE (TRANSIT S_NewLine (clear_token (upd_request (\<lambda>r. r\<lparr>Version := HTTP_1_1\<rparr>) p)))
     else if ap_token p @ [ch] \<in> version_prefixes then CONTINUE (push_token ch p)
     else RAISE_ERROR S_Version p)"
  using assms unfolding version_prefixes_def insert_iff empty_iff
  by (elim disjE) (simp_all add: ParseVersion_def expect_version_def)

lemma not_value_CR [simp]: "\<not> IsHeaderValueChar CR"
  by (simp add: IsHeaderValueChar_def CR_def ch_int_def)

lemma ParseHeaderValue_stores:
  "ParseHeaderValue CR p =
    (case store_field (ap_key p) (ap_token p) (ap_request p) of
       Raise e \<Rightarrow> (Raise e, p)
     | Ret r \<Rightarrow> CONTINUE (TRANSIT S_HeaderNewLine (clear_token (p\<lparr>ap_request := r\<rparr>))))"
  by (cases "stoi (ap_token p)") (simp_all add: ParseHeaderValue_def store_field_def upd_request_def)

lemma store_field_frame:
  assumes "store_field k v r = Ret r1"
  shows "Method r1 = Method r \<and> Path r1 = Path r \<and> Version r1 = Version r \<and> Body r1 = Body r \<and>
    (ContentLength r1 = ContentLength r \<or>
     INT_MIN \<le> ContentLength r1 \<and> ContentLength r1 \<le> INT_MAX)"
  using assms stoi_bounds
  by (cases "stoi v") (auto simp: store_field_def split: if_splits)

lemma Feed_inv:
  assumes "ap_inv p" and "Feed p ch = (oc, p1)"
  shows "ap_inv p1"
proof (cases "ap_handler p")
  case S_HeaderValue
  show ?thesis
  proof (cases "IsHeaderValueChar ch \<or> ch \<noteq> CR")
    case True
    with assms S_HeaderValue show ?thesis
      by (auto simp: Feed_def ParseHeaderValue_def macro_defs ap_inv_def past_def split: if_splits)
  next
    case False
    then have CR: "ch = CR" by simp
    show ?thesis
    proof (cases "store_field (ap_key p) (ap_token p) (ap_request p)")
      case (Ret r)
      note frame = store_field_frame [OF Ret]
      show ?thesis
        using CR Ret frame assms S_HeaderValue
        by (auto simp: Feed_def ParseHeaderValue_stores TRANSIT_def CONTINUE_def clear_token_def
            ap_inv_def past_def)
    next
      case (Raise e)
      with CR assms S_HeaderValue show ?thesis
        by (simp add: Feed_def ParseHeaderValue_stores)
    qed
  qed
next
  case S_EndLine
  with assms size_t_of_int_pos show ?thesis
    by (auto simp: Feed_def ParseEndLine_def macro_defs ap_inv_def past_def size_t_of_int_def
        split: if_splits)
next
  case S_Version
  with assms have "ap_token p \<in> version_prefixes" by (simp add: ap_inv_def)
  with assms S_Version show ?thesis
    by (auto simp: Feed_def ParseVersion_next macro_defs ap_inv_def past_def split: if_splits)
next
  case S_Space2
  with assms show ?thesis
    by (auto simp: Feed_def ParseSpace2_def macro_defs ap_inv_def past_def version_prefixes_def
        split: if_splits)
qed (use assms in \<open>auto simp: Feed_def handler_defs macro_defs ap_inv_def past_def Let_def
      path_ok_push path_ok_slash split: if_splits\<close>)

lemma reachable_inv: "parser_reachable p \<Longrightarrow> ap_inv p"
  by (induction rule: parser_reachable.induct) (auto intro: ap_inv_new Feed_inv)

section \<open>Parsing what \<open>ToString\<close> prints\<close>

lemma feed_push:
  assumes "\<And>q c. ap_handler q = h \<Longrightarrow> c \<in> set xs \<Longrightarrow> Feed q c = CONTINUE (push_token c q)"
    and "ap_handler p = h"
  shows "feed_string p (xs @ ys) = feed_string (p\<lparr>ap_token := ap_token p @ xs\<rparr>) ys"
  using assms
proof (induction xs arbitrary: p)
  case (Cons x xs)
  from Cons.prems have "Feed p x = CONTINUE (push_token x p)" by simp
  with Cons.IH [of "push_token x p"] Cons.prems show ?case
    by (simp add: CONTINUE_def push_token_def)
qed simp

lemma space_classes [simp]: "\<not> isalpha CHR '' ''" "\<not> IsPathChar CHR '' ''"
  by (simp_all add: isalpha_def isupper_def islower_def IsPathChar_def isalnum_def isdigit_def
      EXTRA_PATH_CHARS_def) (simp_all add: ch_int_def)

lemma key_classes [simp]: "\<not> IsHeaderKeyChar CHR '':''" "\<not> IsHeaderKeyChar CR"
  by (simp_all add: IsHeaderKeyChar_def char_simps CR_def)

lemma colon_not_CR [simp]: "CHR '':'' \<noteq> CR" "LF \<noteq> CR" "CR \<noteq> LF"
  by (simp_all add: CR_def LF_def)

lemma key_not_CR: "IsHeaderKeyChar c \<Longrightarrow> c \<noteq> CR" "IsHeaderKeyChar c \<Longrightarrow> c \<noteq> CHR '':''"
  by (auto simp: key_classes)

lemma seg_method:
  assumes "ap_handler p = S_Start" and "ap_token p = []" and "m \<noteq> METHOD_INVALID"
  shows "feed_string p (HttpMethodToString m @ CHR '' '' # ys) =
    feed_string (p\<lparr>ap_handler := S_Space1, ap_token := [],
      ap_request := (ap_request p)\<lparr>Method := m\<rparr>\<rparr>) ys"
proof -
  obtain c cs where m: "HttpMethodToString m = c # cs" by (cases "HttpMethodToString m") auto
  then have alpha: "isalpha c" "\<forall>d \<in> set cs. isalpha d" using method_string_alpha [of m] by auto
  let ?p1 = "p\<lparr>ap_handler := S_Method, ap_token := [c]\<rparr>"
  have "feed_string p (c # cs @ CHR '' '' # ys) = feed_string ?p1 (cs @ CHR '' '' # ys)"
    using assms alpha by (cases p) (simp add: Feed_def ParseStart_def macro_defs)
  also have "\<dots> = feed_string (?p1\<lparr>ap_token := c # cs\<rparr>) (CHR '' '' # ys)"
    by (subst feed_push [where h = S_Method]) (use alpha in \<open>auto simp: Feed_def ParseMethod_def\<close>)
  also have "\<dots> = feed_string (p\<lparr>ap_handler := S_Space1, ap_token := [],
      ap_request := (ap_request p)\<lparr>Method := m\<rparr>\<rparr>) ys"
    using assms(3) method_string_roundtrip [of m] m
    by (cases p) (simp add: Feed_def ParseMethod_def macro_defs Let_def)
  finally show ?thesis using m by simp
qed

lemma seg_path:
  assumes "ap_handler p = S_Space1" and "ap_token p = []" and "path_ok path"
  shows "feed_string p (path @ CHR '' '' # ys) =
    feed_string (p\<lparr>ap_handler := S_Space2, ap_token := [],
      ap_request := (ap_request p)\<lparr>Path := path\<rparr>\<rparr>) ys"
proof -
  obtain cs where path: "path = CHR ''/'' # cs" using assms(3) by (cases path) (auto simp: path_ok_def)
  then have cs: "\<forall>d \<in> set cs. IsPathChar d" using assms(3) by (auto simp: path_ok_def)
  let ?p1 = "p\<lparr>ap_handler := S_Path, ap_token := ''/''\<rparr>"
  have "feed_string p (path @ CHR '' '' # ys) = feed_string ?p1 (cs @ CHR '' '' # ys)"
    using assms path by (cases p) (simp add: Feed_def ParseSpace1_def macro_defs)
  also have "\<dots> = feed_string (?p1\<lparr>ap_token := path\<rparr>) (CHR '' '' # ys)"
    by (subst feed_push [where h = S_Path])
      (use cs path space_classes in \<open>auto simp: Feed_def ParsePath_def\<close>)
  also have "\<dots> = feed_string (p\<lparr>ap_handler := S_Space2, ap_token := [],
      ap_request := (ap_request p)\<lparr>Path := path\<rparr>\<rparr>) ys"
    by (cases p) (simp add: Feed_def ParsePath_def macro_defs)
  finally show ?thesis .
qed

lemma seg_version:
  assumes "ap_handler p = S_Space2" and "ap_token p = []"
  shows "feed_string p (HTTP_VERSION @ NEW_LINE @ ys) =
    feed_string (p\<lparr>ap_handler := S_HeaderKey, ap_token := [],
      ap_request := (ap_request p)\<lparr>Version := HTTP_1_1\<rparr>\<rparr>) ys"
  using assms
  by (cases p) (simp add: HTTP_VERSION_def NEW_LINE_def Feed_def ParseSpace2_def ParseVersion_def
      expect_version_def ParseNewLine_def macro_defs Let_def)

definition header_ok :: "string \<times> string \<Rightarrow> bool" where
  "header_ok h \<longleftrightarrow> (\<forall>c \<in> set (fst h). IsHeaderKeyChar c) \<and> snd h \<noteq> [] \<and>
     (\<forall>c \<in> set (snd h). IsHeaderValueChar c)"

lemma seg_header:
  assumes "ap_handler p = S_HeaderKey" and "ap_token p = []" and "header_ok (k, v)"
    and "store_field k v (ap_request p) = Ret r"
  shows "feed_string p (header_line k v @ ys) =
    feed_string (p\<lparr>ap_key := k, ap_request := r\<rparr>) ys"
proof -
  obtain d ds where v: "v = d # ds" using assms(3) by (cases v) (auto simp: header_ok_def)
  have kc: "\<forall>c \<in> set k. IsHeaderKeyChar c" and vc: "IsHeaderValueChar d" "\<forall>c \<in> set ds. IsHeaderValueChar c"
    using assms(3) v by (auto simp: header_ok_def)
  let ?p1 = "p\<lparr>ap_token := k\<rparr>"
  let ?p2 = "p\<lparr>ap_handler := S_HeaderValue, ap_key := k, ap_token := [d]\<rparr>"
  have "feed_string p (header_line k v @ ys) = feed_string ?p1 ('': '' @ v @ CR # LF # ys)"
    unfolding header_line_def COLON_def NEW_LINE_def append_assoc
    by (subst feed_push [where h = S_HeaderKey])
      (use kc key_not_CR assms(1,2) in \<open>auto simp: Feed_def ParseHeaderKey_def\<close>)
  also have "\<dots> = feed_string ?p2 (ds @ CR # LF # ys)"
    using assms(1) v vc
    by (cases p) (simp add: Feed_def ParseHeaderKey_def ParseColon_def ParseSpace3_def macro_defs)
  also have "\<dots> = feed_string (?p2\<lparr>ap_token := v\<rparr>) (CR # LF # ys)"
    by (subst feed_push [where h = S_HeaderValue])
      (use vc v in \<open>auto simp: Feed_def ParseHeaderValue_def\<close>)
  also have "\<dots> = feed_string (p\<lparr>ap_key := k, ap_request := r\<rparr>) ys"
    using assms by (cases p) (simp add: Feed_def ParseHeaderValue_stores ParseHeaderNewLine_def macro_defs)
  finally show ?thesis .
qed

lemma seg_fields:
  assumes "ap_handler p = S_HeaderKey" and "ap_token p = []" and "\<forall>h \<in> set hs. header_ok h"
    and "store_fields hs (ap_request p) = Ret r"
  shows "\<exists>k. feed_string p (header_lines hs @ ys) =
    feed_string (p\<lparr>ap_key := k, ap_request := r\<rparr>) ys"
  using assms
proof (induction hs arbitrary: p)
  case Nil
  then have "p = p\<lparr>ap_key := ap_key p, ap_request := r\<rparr>" by simp
  then show ?case by (metis append_Nil header_lines_simps(1))
next
  case (Cons h hs)
  obtain k v where h: "h = (k, v)" by (cases h)
  with Cons.prems obtain r1 where r1: "store_field k v (ap_request p) = Ret r1"
    by (cases "store_field k v (ap_request p)") auto
  let ?p1 = "p\<lparr>ap_key := k, ap_request := r1\<rparr>"
  have "feed_string p (header_lines (h # hs) @ ys) = feed_string ?p1 (header_lines hs @ ys)"
    using seg_header [of p k v r1 "header_lines hs @ ys"] Cons.prems h r1 by simp
  with Cons.IH [of ?p1] Cons.prems h r1 show ?case by auto
qed

lemma seg_body:
  assumes "ap_handler p = S_Body" and "body \<noteq> []"
    and "length (Body (ap_request p)) + length body = size_t_of_int (ContentLength (ap_request p))"
  shows "feed_string p body = (Ret 1, p\<lparr>ap_handler := S_Done,
      ap_request := (ap_request p)\<lparr>Body := Body (ap_request p) @ body\<rparr>\<rparr>, [])"
  using assms
proof (induction body arbitrary: p)
  case (Cons c body)
  show ?case
  proof (cases "body = []")
    case True
    with Cons.prems show ?thesis by (cases p) (simp add: Feed_def ParseBody_def macro_defs Let_def)
  next
    case False
    let ?p1 = "p\<lparr>ap_request := (ap_request p)\<lparr>Body := Body (ap_request p) @ [c]\<rparr>\<rparr>"
    have "Suc (length (Body (ap_request p))) < size_t_of_int (ContentLength (ap_request p))"
      using Cons.prems(3) False by (cases body) auto
    then have "Feed p c = (Ret 0, ?p1)"
      using Cons.prems False by (auto simp: Feed_def ParseBody_def macro_defs Let_def)
    with Cons.IH [of ?p1] Cons.prems False show ?thesis by simp
  qed
qed simp

text \<open>The requests whose printed form this parser reads back.\<close>

definition async_printable :: "HttpRequest \<Rightarrow> bool" where
  "async_printable r \<longleftrightarrow>
     fields_ok r \<and> Method r \<noteq> METHOD_INVALID \<and> Version r = HTTP_1_1 \<and> path_ok (Path r) \<and>
     (\<forall>c \<in> set (ContentType r) \<union> set (Host r). IsHeaderValueChar c) \<and>
     (\<forall>h \<in> set (Headers r). header_ok h) \<and>
     length (Body r) = nat (ContentLength r)"

lemma isdigit_value_char: "isdigit c \<Longrightarrow> IsHeaderValueChar c"
  by (auto simp: isdigit_def IsHeaderValueChar_def)

lemma isalpha_key_char: "isalpha c \<Longrightarrow> IsHeaderKeyChar c"
  by (simp add: IsHeaderKeyChar_def isalnum_def)

lemma special_header_ok:
  "\<forall>c \<in> set v. IsHeaderValueChar c \<Longrightarrow> v \<noteq> [] \<Longrightarrow> k \<in> special_keys \<Longrightarrow> header_ok (k, v)"
  by (auto simp: header_ok_def special_keys_def IsHeaderKeyChar_def char_simps)

lemma request_fields_ok:
  assumes "async_printable r" and "iteration iter"
  shows "\<forall>h \<in> set (request_fields iter r). header_ok h"
proof -
  have "header_ok (''Content-Length'', int_string (ContentLength r))"
    using assms(1) nat_string_digits isdigit_value_char
    by (intro special_header_ok)
      (auto simp: int_string_def special_keys_def async_printable_def fields_ok_def)
  then show ?thesis
    using assms special_header_ok iteration_set [OF assms(2), of "Headers r"]
    by (auto simp: request_fields_def async_printable_def special_keys_def)
qed

lemma async_roundtrip_gen:
  assumes "async_printable r" and "iteration iter"
    and r0: "Headers r0 = []" "Body r0 = []" "ContentType r0 = []"
  shows "\<exists>p. feed_string (AsyncHttpRequestParser_new r0) (HttpRequest_ToString iter r) = (Ret 1, p, []) \<and>
    ap_handler p = S_Done \<and>
    ap_request p = r\<lparr>Host := (if Host r = [] then Host r0 else Host r), Headers := iter (Headers r)\<rparr>"
proof -
  let ?r1 = "r0\<lparr>ContentLength := 0, Method := Method r, Path := Path r, Version := HTTP_1_1\<rparr>"
  let ?r2 = "?r1\<lparr>ContentType := ContentType r, ContentLength := ContentLength r,
      Host := (if Host r = [] then Host r0 else Host r), Headers := iter (Headers r)\<rparr>"
  let ?res = "r\<lparr>Host := (if Host r = [] then Host r0 else Host r), Headers := iter (Headers r)\<rparr>"
  let ?p1 = "(AsyncHttpRequestParser_new r0)\<lparr>ap_handler := S_HeaderKey, ap_request := ?r1\<rparr>"
  let ?tail = "NEW_LINE @ (if ContentLength r > 0 then Body r else [])"
  have wf: "fields_ok r" "Version r = HTTP_1_1" "length (Body r) = nat (ContentLength r)"
    "Method r \<noteq> METHOD_INVALID" "path_ok (Path r)"
    using assms(1) by (simp_all add: async_printable_def)
  have res: "?r2\<lparr>Body := Body r\<rparr> = ?res"
    using wf(2) by (cases r; cases r0) simp
  have "store_fields (request_fields iter r) ?r1 = Ret ?r2"
    using store_request_fields [OF wf(1) assms(2), of ?r1] r0 by simp
  then obtain k where fields: "feed_string ?p1 (header_lines (request_fields iter r) @ ?tail) =
      feed_string (?p1\<lparr>ap_key := k, ap_request := ?r2\<rparr>) ?tail"
    using seg_fields [of ?p1 "request_fields iter r" ?r2 ?tail] request_fields_ok [OF assms(1,2)]
    by (auto simp: AsyncHttpRequestParser_new_def)
  let ?p2 = "?p1\<lparr>ap_key := k, ap_request := ?r2\<rparr>"
  have "feed_string (AsyncHttpRequestParser_new r0) (HttpRequest_ToString iter r) =
      feed_string ?p1 (header_lines (request_fields iter r) @ ?tail)"
    using wf
    by (simp add: ToString_fields SPACE_def seg_method seg_path seg_version
        AsyncHttpRequestParser_new_def)
  also have "\<dots> = feed_string ?p2 ?tail" by (rule fields)
  finally have run: "feed_string (AsyncHttpRequestParser_new r0) (HttpRequest_ToString iter r) =
      feed_string ?p2 ?tail" .
  show ?thesis
  proof (cases "ContentLength r = 0")
    case True
    then have "Body r = []" using wf by simp
    then have "?r2 = ?res" using res r0 by (cases r0) simp
    with True show ?thesis
      by (simp add: run NEW_LINE_def Feed_def ParseHeaderKey_def ParseEndLine_def macro_defs)
  next
    case False
    let ?p3 = "?p2\<lparr>ap_handler := S_Body\<rparr>"
    have body: "0 < ContentLength r" "Body r \<noteq> []"
      "length (Body r) = size_t_of_int (ContentLength r)"
      using False wf by (auto simp: fields_ok_def size_t_of_int_nonneg)
    have "feed_string ?p2 ?tail = feed_string ?p3 (Body r)"
      using body by (cases "AsyncHttpRequestParser_new r0")
        (simp add: NEW_LINE_def Feed_def ParseHeaderKey_def ParseEndLine_def macro_defs)
    also have "\<dots> = (Ret 1, ?p3\<lparr>ap_handler := S_Done, ap_request := ?r2\<lparr>Body := Body r\<rparr>\<rparr>, [])"
      using seg_body [of ?p3 "Body r"] body r0(2) by simp
    finally show ?thesis using run res by simp
  qed
qed

section \<open>Return values\<close>

lemma Feed_result:
  assumes "ap_inv p" and "Feed p ch = (Ret v, p1)"
  shows "(v = 0 \<and> ap_handler p1 \<notin> {S_Done, S_Error}) \<or> (v = 1 \<and> ap_handler p1 = S_Done) \<or>
    (10 \<le> v \<and> v < 23 \<and> ap_handler p1 = S_Error \<and> ap_error p1 = v)"
proof (cases "ap_handler p")
  case S_Version
  with assms have "ap_token p \<in> version_prefixes" by (simp add: ap_inv_def)
  with assms S_Version show ?thesis
    by (auto simp: Feed_def ParseVersion_next macro_defs split: if_splits)
next
  case S_HeaderValue
  show ?thesis
  proof (cases "ch = CR")
    case True
    with assms S_HeaderValue show ?thesis
      by (cases "store_field (ap_key p) (ap_token p) (ap_request p)")
        (auto simp: Feed_def ParseHeaderValue_stores macro_defs)
  next
    case False
    with assms S_HeaderValue show ?thesis
      by (auto simp: Feed_def ParseHeaderValue_def macro_defs split: if_splits)
  qed
next
  case S_Body
  with assms have "length (Body (ap_request p)) < size_t_of_int (ContentLength (ap_request p))"
    by (simp add: ap_inv_def)
  with assms S_Body show ?thesis
    by (auto simp: Feed_def ParseBody_def macro_defs Let_def split: if_splits)
next
  case S_Error
  with assms show ?thesis by (auto simp: Feed_def ParseError_def macro_defs ap_inv_def)
qed (use assms in \<open>auto simp: Feed_def handler_defs macro_defs Let_def split: if_splits\<close>)

lemma feed_string_reachable:
  "parser_reachable p \<Longrightarrow> feed_string p cs = (oc, p1, rest) \<Longrightarrow> parser_reachable p1"
proof (induction cs arbitrary: p)
  case (Cons c cs)
  obtain oc1 q where f: "Feed p c = (oc1, q)" by (cases "Feed p c")
  with Cons.prems(1) have "parser_reachable q" by (blast intro: parser_reachable.step feed_step.fed)
  with Cons f show ?case by (auto split: outcome.splits if_splits)
qed simp

section \<open>Properties\<close>

text \<open>
  C11: the asynchronous parser reads back what \<open>HttpRequest::ToString\<close> prints. Fed the printed form of
  any well-formed request, in whatever order the header map is iterated, it accepts on the last
  character, and the request it has built equals the printed one (the header map included).
\<close>

theorem async_parse_print_roundtrip:
  assumes "async_printable r" and "iteration iter"
    and "Headers r0 = []" and "Body r0 = []" and "ContentType r0 = []" and "Host r \<noteq> []"
  shows "\<exists>p. feed_string (AsyncHttpRequestParser_new r0) (HttpRequest_ToString iter r) = (Ret 1, p, []) \<and>
    ap_request p = r\<lparr>Headers := Headers (ap_request p)\<rparr> \<and>
    headers_get (Headers (ap_request p)) = headers_get (Headers r)"
proof -
  have d: "distinct (map fst (Headers r))" using assms(1) by (simp add: async_printable_def fields_ok_def)
  obtain p where "feed_string (AsyncHttpRequestParser_new r0) (HttpRequest_ToString iter r) = (Ret 1, p, [])"
    and "ap_request p = r\<lparr>Host := Host r, Headers := iter (Headers r)\<rparr>"
    using async_roundtrip_gen [OF assms(1,2,3,4,5)] assms(6) by auto
  then show ?thesis
    using iteration_get [OF assms(2) d] by (intro exI [of _ p]) (cases r; simp)
qed

definition sample_post :: HttpRequest where
  "sample_post = \<lparr>Method = POST, Version = HTTP_1_1, ContentLength = 5, Path = ''/echo'',
     Host = ''localhost:8080'', ContentType = ''text/plain'', Headers = [(''Accept'', ''*'')],
     Body = ''hello''\<rparr>"

lemma sample_post_printable: "async_printable sample_post"
  by code_simp

lemma async_parse_print_roundtrip_witness:
  "\<exists>p. feed_string (AsyncHttpRequestParser_new HttpRequest_zero)
      (HttpRequest_ToString rev sample_post) = (Ret 1, p, []) \<and>
    Body (ap_request p) = ''hello'' \<and> Host sample_post \<noteq> []"
proof -
  have "iteration rev" by (simp add: iteration_def)
  with sample_post_printable obtain p where
    "feed_string (AsyncHttpRequestParser_new HttpRequest_zero)
      (HttpRequest_ToString rev sample_post) = (Ret 1, p, [])"
    "ap_request p = sample_post\<lparr>Headers := Headers (ap_request p)\<rparr>"
    using async_parse_print_roundtrip [of sample_post rev HttpRequest_zero]
    by (auto simp: HttpRequest_zero_def sample_post_def)
  then show ?thesis by (metis (no_types, lifting) HttpRequest.select_convs(8) HttpRequest.update_convs(7)
        HttpRequest.select_convs(5) sample_post_def list.discI)
qed

text \<open>
  Feeding is incremental: how a request is cut into pieces does not matter. Feeding \<open>xs @ ys\<close>
  gives what feeding \<open>xs\<close> and then \<open>ys\<close> gives; if the parser has stopped inside \<open>xs\<close>, the rest of
  \<open>xs\<close> and all of \<open>ys\<close> are left.
\<close>

theorem feed_incremental:
  "feed_string p (xs @ ys) =
    (case feed_string p xs of (oc, p1, rest) \<Rightarrow>
       if oc = Ret 0 then feed_string p1 ys else (oc, p1, rest @ ys))"
proof (induction xs arbitrary: p)
  case (Cons x xs)
  show ?case
    by (cases "Feed p x") (auto split: outcome.splits prod.splits simp: Cons.IH)
qed simp

text \<open>
  A parser that has accepted holds a complete request: a known method, version 1.1, a path that
  starts with a slash and has path characters only, and a body of exactly \<open>Content-Length\<close> bytes.
\<close>

theorem async_done_complete:
  assumes "parser_reachable p" and "ap_handler p = S_Done"
  shows "Method (ap_request p) \<noteq> METHOD_INVALID \<and> Version (ap_request p) = HTTP_1_1 \<and>
    Path (ap_request p) \<noteq> [] \<and> hd (Path (ap_request p)) = CHR ''/'' \<and>
    (\<forall>c \<in> set (Path (ap_request p)). IsPathChar c) \<and>
    length (Body (ap_request p)) = size_t_of_int (ContentLength (ap_request p))"
  using reachable_inv [OF assms(1)] assms(2) by (simp add: ap_inv_def past_def path_ok_def)

definition sample_get :: string where
  "sample_get = ''GET /a HTTP/1.1'' @ [CR, LF, CR, LF]"

lemma async_done_complete_witness:
  "\<exists>p. feed_string (AsyncHttpRequestParser_new HttpRequest_zero) sample_get = (Ret 1, p, []) \<and>
    parser_reachable p \<and> ap_handler p = S_Done \<and> Method (ap_request p) = GET \<and>
    hd (Path (ap_request p)) = CHR ''/''"
proof -
  have run: "fst (feed_string (AsyncHttpRequestParser_new HttpRequest_zero) sample_get) = Ret 1 \<and>
      snd (snd (feed_string (AsyncHttpRequestParser_new HttpRequest_zero) sample_get)) = [] \<and>
      ap_handler (fst (snd (feed_string (AsyncHttpRequestParser_new HttpRequest_zero) sample_get))) = S_Done \<and>
      Method (ap_request (fst (snd (feed_string (AsyncHttpRequestParser_new HttpRequest_zero) sample_get)))) = GET"
    by code_simp
  obtain oc p rest where f: "feed_string (AsyncHttpRequestParser_new HttpRequest_zero) sample_get = (oc, p, rest)"
    by (cases "feed_string (AsyncHttpRequestParser_new HttpRequest_zero) sample_get")
  have "parser_reachable (AsyncHttpRequestParser_new HttpRequest_zero)"
    by (rule parser_reachable.start) (simp add: HttpRequest_zero_def)
  then have r: "parser_reachable p" using f by (rule feed_string_reachable)
  have "hd (Path (ap_request p)) = CHR ''/''"
    using async_done_complete [OF r] run f by simp
  with run f r show ?thesis by auto
qed

text \<open>
  The return values of \<open>Feed\<close>. It returns 0 while the request is in progress, 1 exactly when the
  request is complete, and on a malformed character the number of the failing state, which is positive
  (10 to 22): the negative error value of its documentation never occurs, and a full body never
  raises the "too much body" error 23.
\<close>

theorem feed_return_values:
  assumes "parser_reachable p" and "Feed p ch = (Ret v, p1)"
  shows "(v = 0 \<and> ap_handler p1 \<notin> {S_Done, S_Error}) \<or> (v = 1 \<and> ap_handler p1 = S_Done) \<or>
    (10 \<le> v \<and> v \<le> 22 \<and> ap_handler p1 = S_Error \<and> ap_error p1 = v)"
  using Feed_result [OF reachable_inv [OF assms(1)] assms(2)] by auto

lemma feed_return_values_witness:
  "\<exists>p1. Feed (AsyncHttpRequestParser_new HttpRequest_zero) CHR ''?'' = (Ret 10, p1) \<and>
    ap_handler p1 = S_Error"
proof -
  let ?p = "AsyncHttpRequestParser_new HttpRequest_zero"
  have r: "parser_reachable ?p" by (rule parser_reachable.start) (simp add: HttpRequest_zero_def)
  obtain p1 where f: "Feed ?p CHR ''?'' = (Ret 10, p1)"
    by (simp add: Feed_def AsyncHttpRequestParser_new_def ParseStart_def char_simps macro_defs)
  with feed_return_values [OF r f] show ?thesis by auto
qed

lemma feed_error_stays:
  assumes "ap_handler p = S_Error" and "10 \<le> ap_error p"
  shows "feed_string p cs = (Ret 0, p, [])"
  using assms by (induction cs) (simp_all add: Feed_def ParseError_def REJECT_def)

text \<open>
  The one way \<open>Feed\<close> throws: at the end of a \<open>Content-Length\<close> line whose value \<open>std::stoi\<close> refuses;
  the parser is left as it was, in the middle of that line.
\<close>

theorem feed_throws_iff:
  "Feed p ch = (Raise e, p1) \<longleftrightarrow>
    ap_handler p = S_HeaderValue \<and> ch = CR \<and> ap_key p = ''Content-Length'' \<and>
    stoi (ap_token p) = Raise e \<and> p1 = p"
proof (cases "ap_handler p = S_HeaderValue \<and> ch = CR")
  case True
  then show ?thesis
    by (cases "stoi (ap_token p)")
      (auto simp: Feed_def ParseHeaderValue_stores store_field_def CONTINUE_def)
next
  case False
  then show ?thesis
    by (cases "ap_handler p") (auto simp: Feed_def handler_defs macro_defs Let_def split: if_splits)
qed

end
