(* ===== verification/Parser_Sync.thy ===== *)
theory Parser_Sync
  imports Http_Message IO_Reader
begin

text \<open>
  \<open>minet/src/utils/Parser.cpp\<close>: \<open>CleanPath\<close> and the recursive-descent \<open>RequestParser\<close> behind
  \<open>ParseHttpRequest\<close>. The reader's virtual \<open>Read()\<close> and \<open>Read(buffer, length)\<close> are the arguments
  \<open>rd\<close> and \<open>rblk\<close>; the parser's loops are \<open>partial_function\<close>s, and that they end is proved over every
  reader that keeps \<open>char_reader\<close>.
\<close>

section \<open>\<open>CleanPath\<close>\<close>

text \<open>
  \<open>front()\<close> and \<open>back()\<close> of an empty string are undefined. \<open>strip_back\<close> is the second loop, on the
  reversed string.
\<close>

fun strip_back :: "string \<Rightarrow> string outcome" where
  "strip_back [] = Raise (Undefined ''back() of an empty string'')"
| "strip_back (c # cs) = (if c = CHR ''/'' then strip_back cs else Ret (rev (c # cs)))"

definition CleanPath :: "string \<Rightarrow> string outcome" where
  "CleanPath path =
     (case path of
        [] \<Rightarrow> Raise (Undefined ''front() of an empty string'')
      | c # cs \<Rightarrow> strip_back (rev (if c \<noteq> CHR ''/'' then CHR ''/'' # path else path)))"

section \<open>State\<close>

datatype RequestTokenType = T_Invalid | T_String | T_Space | T_Colon | T_NewLine | T_End

record 'r RequestParser =
  rp_reader :: 'r
  rp_request :: HttpRequest
  rp_type :: RequestTokenType
  rp_value :: string
  rp_next :: char

definition RequestParser_new :: "'r \<Rightarrow> HttpRequest \<Rightarrow> 'r RequestParser" where
  "RequestParser_new reader request =
     \<lparr>rp_reader = reader, rp_request = request, rp_type = T_Invalid, rp_value = [], rp_next = CHR 0x00\<rparr>"

datatype ParseStatus = P_Ok | P_NotMatch | P_Error

section \<open>Tokens\<close>

definition rp_Next :: "('r \<Rightarrow> int \<times> 'r) \<Rightarrow> 'r RequestParser \<Rightarrow> int \<times> 'r RequestParser" where
  "rp_Next rd p =
     (if rp_next p = CHR 0x00
      then let (ch, r) = rd (rp_reader p) in (ch, p\<lparr>rp_reader := r\<rparr>)
      else (ch_int (rp_next p), p\<lparr>rp_next := CHR 0x00\<rparr>))"

definition rp_Rewind :: "char \<Rightarrow> ('r RequestParser, unit) action" where
  "rp_Rewind ch p =
     (if rp_next p = CHR 0x00 then Some (Ret (), p\<lparr>rp_next := ch\<rparr>) else Some (Raise AssertFailed, p))"

definition set_type :: "RequestTokenType \<Rightarrow> ('r RequestParser, unit) action" where
  "set_type t p = Some (Ret (), p\<lparr>rp_type := t\<rparr>)"

text \<open>The loop that collects a string, and the rewind behind it.\<close>

partial_function (option) string_loop ::
    "('r \<Rightarrow> int \<times> 'r) \<Rightarrow> string \<Rightarrow> int \<Rightarrow> ('r RequestParser, int) action" where
  "string_loop rd delimiters ch p =
     (if ch \<noteq> - 1 \<and> \<not> strchr delimiters ch
      then case rp_Next rd (p\<lparr>rp_value := rp_value p @ [int_ch ch]\<rparr>) of
          (ch', p') \<Rightarrow> string_loop rd delimiters ch' p'
      else Some (Ret ch, p))"

definition string_token ::
    "('r \<Rightarrow> int \<times> 'r) \<Rightarrow> string \<Rightarrow> int \<Rightarrow> ('r RequestParser, unit) action" where
  "string_token rd delimiters ch p =
     andThen (string_loop rd delimiters ch)
       (\<lambda>ch'. if ch' \<noteq> - 1 then rp_Rewind (int_ch ch') else ret ())
       (p\<lparr>rp_type := T_String, rp_value := []\<rparr>)"

definition new_line_token :: "('r \<Rightarrow> int \<times> 'r) \<Rightarrow> ('r RequestParser, unit) action" where
  "new_line_token rd p =
     (let (ch, p') = rp_Next rd p in
      set_type (if ch = ch_int LF then T_NewLine else T_Invalid) p')"

definition rp_NextToken :: "('r \<Rightarrow> int \<times> 'r) \<Rightarrow> ('r RequestParser, unit) action" where
  "rp_NextToken rd p =
     (let (ch, p') = rp_Next rd p in
      if ch = - 1 then set_type T_End p'
      else if ch = ch_int CHR '' '' then set_type T_Space p'
      else if ch = ch_int CHR '':'' then set_type T_Colon p'
      else if ch = ch_int CR then new_line_token rd p'
      else string_token rd [CHR '' '', CHR '':'', CR, LF] ch p')"

partial_function (option) skip_spaces :: "('r \<Rightarrow> int \<times> 'r) \<Rightarrow> int \<Rightarrow> ('r RequestParser, int) action" where
  "skip_spaces rd ch p =
     (if ch = ch_int CHR '' '' then case rp_Next rd p of (ch', p') \<Rightarrow> skip_spaces rd ch' p'
      else Some (Ret ch, p))"

definition rp_NextString :: "('r \<Rightarrow> int \<times> 'r) \<Rightarrow> ('r RequestParser, unit) action" where
  "rp_NextString rd p =
     (let (ch, p') = rp_Next rd p in
      if ch = - 1 then set_type T_End p'
      else andThen (skip_spaces rd ch)
        (\<lambda>ch. if ch = - 1 then set_type T_End
              else if ch = ch_int CR then new_line_token rd
              else string_token rd [CR, LF] ch) p')"

section \<open>The grammar\<close>

text \<open>
  Reading a token and testing its type: \<open>expect\<close> is the recurring \<open>_NextToken(); if (_currentToken.Type
  != t) return ParseStatus::Error;\<close>. \<open>set_request\<close> is an assignment to a member of \<open>*_request\<close>, computed
  from \<open>_currentToken.Value\<close>.
\<close>

definition expect ::
    "('r RequestParser, unit) action \<Rightarrow> RequestTokenType \<Rightarrow>
     ('r RequestParser, ParseStatus) action \<Rightarrow> ('r RequestParser, ParseStatus) action" where
  "expect tok t rest =
     andThen tok (\<lambda>_ p. if rp_type p \<noteq> t then ret P_Error p else rest p)"

definition set_request ::
    "(string \<Rightarrow> HttpRequest \<Rightarrow> HttpRequest outcome) \<Rightarrow> ('r RequestParser, ParseStatus) action \<Rightarrow>
     ('r RequestParser, ParseStatus) action" where
  "set_request f rest p =
     (case f (rp_value p) (rp_request p) of
        Raise e \<Rightarrow> Some (Raise e, p)
      | Ret r \<Rightarrow> rest (p\<lparr>rp_request := r\<rparr>))"

definition rp_ParsePreamble :: "('r RequestParser, unit) action" where
  "rp_ParsePreamble p =
     Some (Ret (), p\<lparr>rp_request := (rp_request p)\<lparr>ContentLength := 0, ContentType := []\<rparr>\<rparr>)"

definition rp_ParseStartLine :: "('r \<Rightarrow> int \<times> 'r) \<Rightarrow> ('r RequestParser, ParseStatus) action" where
  "rp_ParseStartLine rd =
     expect (rp_NextToken rd) T_String (\<lambda>p.
       if rp_value p \<noteq> ''GET'' \<and> rp_value p \<noteq> ''POST'' then ret P_Error p
       else
         set_request (\<lambda>v r. Ret (r\<lparr>Method := (if v = ''GET'' then GET else POST)\<rparr>))
        (expect (rp_NextToken rd) T_Space
        (expect (rp_NextToken rd) T_String
        (set_request (\<lambda>v r. outcome_bind (CleanPath v) (\<lambda>path. Ret (r\<lparr>Path := path\<rparr>)))
        (expect (rp_NextToken rd) T_Space
        (expect (rp_NextToken rd) T_String (\<lambda>p.
           if rp_value p \<noteq> ''HTTP/1.1'' then ret P_Error p
           else
             set_request (\<lambda>v r. Ret (r\<lparr>Version := HTTP_1_1\<rparr>))
            (expect (rp_NextToken rd) T_NewLine (ret P_Ok)) p)))))) p)"

definition rp_ParseHeader :: "('r \<Rightarrow> int \<times> 'r) \<Rightarrow> ('r RequestParser, ParseStatus) action" where
  "rp_ParseHeader rd =
     andThen (rp_NextToken rd) (\<lambda>_ p.
       if rp_type p \<noteq> T_String
       then (if rp_type p = T_NewLine then ret P_NotMatch p else ret P_Error p)
       else let key = rp_value p in
         expect (rp_NextToken rd) T_Colon
        (expect (rp_NextToken rd) T_Space
        (expect (rp_NextString rd) T_String
        (set_request (store_field key)
        (expect (rp_NextToken rd) T_NewLine (ret P_Ok))))) p)"

text \<open>
  \<open>Body.resize(length)\<close> and the block read into \<open>Body.data()\<close>: the bytes read replace the first ones
  of the resized body.
\<close>

definition rp_ParseBody ::
    "('r \<Rightarrow> nat \<Rightarrow> (int \<times> string) outcome \<times> 'r) \<Rightarrow> ('r RequestParser, ParseStatus) action" where
  "rp_ParseBody rblk p =
     (let len = nat (ContentLength (rp_request p));
          body = take len (Body (rp_request p) @ replicate len (CHR 0x00));
          (res, r) = rblk (rp_reader p) len
      in case res of
          Raise e \<Rightarrow> Some (Raise e, p\<lparr>rp_reader := r\<rparr>)
        | Ret (sz, bs) \<Rightarrow>
            Some (Ret (if sz \<noteq> int len then P_Error else P_Ok),
              p\<lparr>rp_reader := r,
                rp_request := (rp_request p)\<lparr>Body := bs @ drop (length bs) body\<rparr>\<rparr>))"

text \<open>The loop over the header lines, from the status of the line before.\<close>

partial_function (option) header_loop ::
    "('r \<Rightarrow> int \<times> 'r) \<Rightarrow> ParseStatus \<Rightarrow> ('r RequestParser, ParseStatus) action" where
  "header_loop rd status p =
     (if status = P_Ok
      then case rp_ParseHeader rd p of
          None \<Rightarrow> None
        | Some (Raise e, p') \<Rightarrow> Some (Raise e, p')
        | Some (Ret st, p') \<Rightarrow> header_loop rd st p'
      else Some (Ret status, p))"

definition rp_Parse ::
    "('r \<Rightarrow> int \<times> 'r) \<Rightarrow> ('r \<Rightarrow> nat \<Rightarrow> (int \<times> string) outcome \<times> 'r) \<Rightarrow>
     ('r RequestParser, int) action" where
  "rp_Parse rd rblk =
     andThen (rp_ParseStartLine rd) (\<lambda>st.
       if st \<noteq> P_Ok then ret 2
       else andThen (andThen (rp_ParseHeader rd) (header_loop rd)) (\<lambda>status.
         if status = P_Error then ret 3
         else (\<lambda>p.
           if ContentLength (rp_request p) > 0
           then if ContentLength (rp_request p) > 4096 then ret 4 p
             else andThen (rp_ParseBody rblk) (\<lambda>st. if st \<noteq> P_Ok then ret 5 else ret 0) p
           else ret 0 p)))"

text \<open>\<open>ParseHttpRequest\<close>: a new buffered reader over the request's stream.\<close>

definition ParseHttpRequest ::
    "('s \<Rightarrow> nat \<Rightarrow> io_read \<times> 's) \<Rightarrow> 's \<Rightarrow> HttpRequest \<Rightarrow> (int outcome \<times> 's \<times> HttpRequest) option" where
  "ParseHttpRequest sread stream request =
     (case rp_Parse (reader_Read sread) (reader_ReadBlock sread)
             (RequestParser_new (BufferedStreamReader_new stream) request) of
        None \<Rightarrow> None
      | Some (res, p) \<Rightarrow> Some (res, br_stream (rp_reader p), rp_request p))"

section \<open>Runs of the tokenizer\<close>

text \<open>
  What the parser has not consumed yet: the rewound character, if there is one, and the rest of the
  reader. A rewound NUL is lost, because 0 marks the empty slot.
\<close>

definition parser_unread :: "('r \<Rightarrow> string) \<Rightarrow> 'r RequestParser \<Rightarrow> string" where
  "parser_unread unread p =
     (if rp_next p = CHR 0x00 then [] else [rp_next p]) @ unread (rp_reader p)"

lemma parser_unread_upd [simp]:
  "parser_unread unread (p\<lparr>rp_request := r\<rparr>) = parser_unread unread p"
  "parser_unread unread (p\<lparr>rp_type := t\<rparr>) = parser_unread unread p"
  "parser_unread unread (p\<lparr>rp_value := v\<rparr>) = parser_unread unread p"
  by (simp_all add: parser_unread_def)

text \<open>\<open>expects\<close> of a run is decided token by token.\<close>

lemma runs_expect:
  assumes "runs tok p R"
    and "\<And>p'. R (Ret ()) p' \<Longrightarrow> rp_type p' = t \<Longrightarrow> runs rest p' Q"
    and "\<And>p'. R (Ret ()) p' \<Longrightarrow> rp_type p' \<noteq> t \<Longrightarrow> Q (Ret P_Error) p'"
    and "\<And>e p'. R (Raise e) p' \<Longrightarrow> Q (Raise e) p'"
  shows "runs (expect tok t rest) p Q"
  unfolding expect_def by (rule runs_andThen [OF assms(1)]) (use assms(2-4) in auto)

lemma runs_set_request:
  assumes "\<And>r. f (rp_value p) (rp_request p) = Ret r \<Longrightarrow> runs rest (p\<lparr>rp_request := r\<rparr>) Q"
    and "\<And>e. f (rp_value p) (rp_request p) = Raise e \<Longrightarrow> Q (Raise e) p"
  shows "runs (set_request f rest) p Q"
  using assms by (cases "f (rp_value p) (rp_request p)") (auto simp: set_request_def runs_def)

lemma set_type_runs: "runs (set_type t) p Q \<longleftrightarrow> Q (Ret ()) (p\<lparr>rp_type := t\<rparr>)"
  by (auto simp: set_type_def runs_def)

definition token_chars :: string where
  "token_chars = [CHR '' '', CHR '':'', CR, LF]"

definition line_chars :: string where
  "line_chars = [CR, LF]"

text \<open>A character that a string token takes: no delimiter, not NUL (\<open>strchr\<close> finds the terminator of
  the literal) and not \<open>0xFF\<close> (which the reader returns as \<open>-1\<close>).\<close>

definition plain :: "string \<Rightarrow> char \<Rightarrow> bool" where
  "plain ds c \<longleftrightarrow> c \<notin> set ds \<and> c \<noteq> CHR 0x00 \<and> c \<noteq> CHR 0xFF"

lemma ch_int_m1 [simp]: "ch_int c = - 1 \<longleftrightarrow> c = CHR 0xFF"
proof -
  have "ch_int (CHR 0xFF) = - 1" by (simp add: ch_int_def)
  then show ?thesis by (metis ch_int_inject)
qed

text \<open>
  The text of a string token: its value, and one NUL or \<open>0xFF\<close> that ends it and is dropped. (\<open>strchr\<close> takes NUL
  for a delimiter, and \<open>_Rewind\<close> of NUL leaves the slot empty; \<open>0xFF\<close> is \<open>-1\<close>.) An empty value needs the NUL.
\<close>

definition string_text :: "string \<Rightarrow> string \<times> string \<Rightarrow> bool" where
  "string_text ds = (\<lambda>(v, j).
     (\<forall>c \<in> set v. plain ds c) \<and> j \<in> {[], [CHR 0x00], [CHR 0xFF]} \<and> (v = [] \<longrightarrow> j = [CHR 0x00]))"

text \<open>The text \<open>us\<close> starts with the string \<open>v\<close>, and \<open>rest\<close> is left. Before a line feed the string can be empty.\<close>

definition string_lexed :: "string \<Rightarrow> string \<Rightarrow> string \<Rightarrow> string \<Rightarrow> bool" where
  "string_lexed ds v us rest \<longleftrightarrow>
     (\<exists>j. us = v @ j @ rest \<and> (string_text ds (v, j) \<or> v = [] \<and> j = [] \<and> (\<exists>vs. rest = LF # vs)) \<and>
       (j = [] \<longrightarrow> (rest = [] \<and> v \<noteq> [] \<or> (\<exists>d vs. rest = d # vs \<and> d \<in> set ds))))"

fun lexed :: "string \<Rightarrow> RequestTokenType \<Rightarrow> string \<Rightarrow> string \<Rightarrow> string \<Rightarrow> bool" where
  "lexed ds T_End v us rest \<longleftrightarrow> us = [] \<and> rest = [] \<or> us = CHR 0xFF # rest"
| "lexed ds T_Space v us rest \<longleftrightarrow> us = CHR '' '' # rest"
| "lexed ds T_Colon v us rest \<longleftrightarrow> us = CHR '':'' # rest"
| "lexed ds T_NewLine v us rest \<longleftrightarrow> us = CR # LF # rest"
| "lexed ds T_String v us rest \<longleftrightarrow> string_lexed ds v us rest"
| "lexed ds T_Invalid v us rest \<longleftrightarrow> us = [CR] \<and> rest = [] \<or> (\<exists>c. us = CR # c # rest \<and> c \<noteq> LF)"

lemma lexed_shorter:
  assumes "lexed ds t v us rest"
  shows "length rest \<le> length us" and "t \<in> {T_Colon, T_Space, T_NewLine} \<Longrightarrow> length rest < length us"
  using assms by (cases t; auto simp: string_lexed_def)+

lemma string_lexed_unique:
  assumes "string_lexed ds v' us rest'" and "us = v @ j @ rest" and "string_text ds (v, j)"
    and "j = [] \<longrightarrow> rest = [] \<or> hd rest \<in> set ds" and "CHR 0x00 \<notin> set ds" and "CHR 0xFF \<notin> set ds"
  shows "v' = v" and "rest' = rest"
proof -
  have tw: "takeWhile (plain ds) (w @ i @ vs) = w \<and> dropWhile (plain ds) (w @ i @ vs) = i @ vs"
    if "\<forall>c \<in> set w. plain ds c" "i \<in> {[], [CHR 0x00], [CHR 0xFF]}" "i = [] \<longrightarrow> vs = [] \<or> hd vs \<in> set ds" for w i vs
  proof -
    have "i @ vs = [] \<or> \<not> plain ds (hd (i @ vs))" using that(2,3) by (auto simp: plain_def)
    then have "takeWhile (plain ds) (i @ vs) = [] \<and> dropWhile (plain ds) (i @ vs) = i @ vs"
      by (cases "i @ vs") auto
    with that(1) show ?thesis by simp
  qed
  obtain j' where j': "us = v' @ j' @ rest'" "string_text ds (v', j') \<or> v' = [] \<and> j' = []"
    "j' = [] \<longrightarrow> rest' = [] \<and> v' \<noteq> [] \<or> (\<exists>d vs. rest' = d # vs \<and> d \<in> set ds)"
    using assms(1) by (auto simp: string_lexed_def)
  have "takeWhile (plain ds) us = v \<and> dropWhile (plain ds) us = j @ rest"
    unfolding assms(2) using tw [of v j rest] assms(3,4) by (auto simp: string_text_def)
  moreover have "takeWhile (plain ds) us = v' \<and> dropWhile (plain ds) us = j' @ rest'"
    unfolding j'(1) using tw [of v' j' rest'] j'(2,3) by (fastforce simp: string_text_def)
  ultimately have eq: "v' = v" "j @ rest = j' @ rest'" by auto
  then show "v' = v" by simp
  have cut: "i @ r = i' @ r' \<Longrightarrow> r = r'"
    if "i \<in> {[], [CHR 0x00], [CHR 0xFF]}" "i' \<in> {[], [CHR 0x00], [CHR 0xFF]}"
      "i = [] \<longrightarrow> r = [] \<or> hd r \<notin> {CHR 0x00, CHR 0xFF}" "i' = [] \<longrightarrow> r' = [] \<or> hd r' \<notin> {CHR 0x00, CHR 0xFF}"
    for i i' r r' :: string
    using that by (cases "i = []"; cases "i' = []") auto
  show "rest' = rest"
  proof (rule cut [OF _ _ _ _ eq(2), symmetric])
    show "j \<in> {[], [CHR 0x00], [CHR 0xFF]}" "j' \<in> {[], [CHR 0x00], [CHR 0xFF]}"
      using assms(3) j'(2) by (auto simp: string_text_def)
    show "j = [] \<longrightarrow> rest = [] \<or> hd rest \<notin> {CHR 0x00, CHR 0xFF}" using assms(4-6) by auto
    show "j' = [] \<longrightarrow> rest' = [] \<or> hd rest' \<notin> {CHR 0x00, CHR 0xFF}" using assms(5,6) j'(3) by auto
  qed
qed

context char_reader
begin

abbreviation left :: "'r RequestParser \<Rightarrow> string" where
  "left \<equiv> parser_unread unread"

definition token_read ::
    "'r RequestParser \<Rightarrow> RequestTokenType \<Rightarrow> string \<Rightarrow> string \<Rightarrow> unit outcome \<Rightarrow> 'r RequestParser \<Rightarrow> bool" where
  "token_read p t v us oc p' \<longleftrightarrow>
     oc = Ret () \<and> rinv (rp_reader p') \<and> left p' = us \<and> rp_type p' = t \<and> rp_value p' = v \<and>
     rp_request p' = rp_request p \<and> (t \<noteq> T_String \<longrightarrow> rp_next p' = CHR 0x00)"

lemma next_cons:
  assumes "rinv (rp_reader p)" and "left p = c # cs"
  shows "\<exists>r'. rp_Next rd p = (ch_int c, p\<lparr>rp_reader := r', rp_next := CHR 0x00\<rparr>) \<and> rinv r' \<and> unread r' = cs"
proof (cases "rp_next p = CHR 0x00")
  case True
  with assms(2) have "unread (rp_reader p) = c # cs" by (simp add: parser_unread_def)
  from rd_cons [OF assms(1) this] True show ?thesis
    by (cases p) (auto simp: rp_Next_def)
next
  case False
  with assms show ?thesis
    by (cases p) (auto simp: rp_Next_def parser_unread_def)
qed

lemma next_nil:
  assumes "rinv (rp_reader p)" and "left p = []"
  shows "\<exists>r'. rp_Next rd p = (- 1, p\<lparr>rp_reader := r', rp_next := CHR 0x00\<rparr>) \<and> rinv r' \<and> unread r' = []"
proof -
  have "rp_next p = CHR 0x00" "unread (rp_reader p) = []"
    using assms(2) by (auto simp: parser_unread_def split: if_splits)
  with rd_nil [OF assms(1)] show ?thesis by (cases p) (auto simp: rp_Next_def)
qed

lemma next_step:
  assumes "rinv (rp_reader p)"
  obtains (ended) p' where "rp_Next rd p = (- 1, p')" "rinv (rp_reader p')" "left p' = []" "left p = []"
      "rp_next p' = CHR 0x00" "rp_type p' = rp_type p" "rp_request p' = rp_request p" "rp_value p' = rp_value p"
  | (some) c p' where "rp_Next rd p = (ch_int c, p')" "rinv (rp_reader p')" "left p = c # left p'"
      "rp_next p' = CHR 0x00" "rp_type p' = rp_type p" "rp_request p' = rp_request p" "rp_value p' = rp_value p"
proof (cases "left p")
  case Nil
  from next_nil [OF assms Nil] ended Nil show ?thesis by (auto simp: parser_unread_def)
next
  case (Cons c cs)
  from next_cons [OF assms Cons] some Cons show ?thesis by (auto simp: parser_unread_def)
qed


text \<open>What a token reads, exactly.\<close>

definition token_text ::
    "string \<Rightarrow> 'r RequestParser \<Rightarrow> string \<Rightarrow> unit outcome \<Rightarrow> 'r RequestParser \<Rightarrow> bool" where
  "token_text ds p us oc p' \<longleftrightarrow>
     oc = Ret () \<and> rinv (rp_reader p') \<and> rp_request p' = rp_request p \<and>
     lexed ds (rp_type p') (rp_value p') us (left p') \<and>
     (rp_type p' \<noteq> T_String \<longrightarrow> rp_next p' = CHR 0x00 \<and> rp_value p' = rp_value p)"

lemma string_loop_text:
  assumes "rinv (rp_reader p)" and "rp_next p = CHR 0x00"
  shows "runs (string_loop rd ds (ch_int c)) p (\<lambda>oc p'.
    rinv (rp_reader p') \<and> rp_next p' = CHR 0x00 \<and> rp_type p' = rp_type p \<and> rp_request p' = rp_request p \<and>
    (\<exists>xs. rp_value p' = rp_value p @ xs \<and> (\<forall>x \<in> set xs. plain ds x) \<and>
      (oc = Ret (- 1) \<and> (c # left p = xs \<and> left p' = [] \<or> c # left p = xs @ CHR 0xFF # left p') \<or>
       (\<exists>d. oc = Ret (ch_int d) \<and> (d \<in> set ds \<or> d = CHR 0x00) \<and> c # left p = xs @ d # left p'))))"
  using assms
proof (induction "length (left p)" arbitrary: p c rule: less_induct)
  case less
  let ?p = "p\<lparr>rp_value := rp_value p @ [c]\<rparr>"
  have inv: "rinv (rp_reader ?p)" using less.prems by simp
  show ?case
  proof (cases "plain ds c")
    case False
    with less.prems show ?thesis by (auto simp: runs_def string_loop.simps [of rd ds "ch_int c"] plain_def)
  next
    case True
    then have go: "string_loop rd ds (ch_int c) p = (case rp_Next rd ?p of (ch', p') \<Rightarrow> string_loop rd ds ch' p')"
      by (subst string_loop.simps) (auto simp: plain_def)
    from inv show ?thesis
    proof (cases rule: next_step)
      case (ended p')
      with True less.prems show ?thesis
        by (auto simp: runs_def go string_loop.simps [of rd ds "- 1"])
    next
      case (some x p')
      from some less.prems True have "runs (string_loop rd ds (ch_int x)) p' (\<lambda>oc p''.
          rinv (rp_reader p'') \<and> rp_next p'' = CHR 0x00 \<and> rp_type p'' = rp_type p \<and> rp_request p'' = rp_request p \<and>
          (\<exists>xs. rp_value p'' = rp_value p @ xs \<and> (\<forall>x \<in> set xs. plain ds x) \<and>
            (oc = Ret (- 1) \<and> (c # left p = xs \<and> left p'' = [] \<or> c # left p = xs @ CHR 0xFF # left p'') \<or>
             (\<exists>d. oc = Ret (ch_int d) \<and> (d \<in> set ds \<or> d = CHR 0x00) \<and> c # left p = xs @ d # left p''))))"
        by (intro runs_weaken [OF less.hyps]) (auto intro: exI [of _ "c # _"])
      then show ?thesis by (simp add: runs_def go some(1))
    qed
  qed
qed

lemma string_token_text:
  assumes "rinv (rp_reader p)" and "rp_next p = CHR 0x00" and "c \<noteq> CHR 0xFF"
    and "c \<in> set ds \<Longrightarrow> c = LF" and "CHR 0x00 \<notin> set ds" and "CHR 0xFF \<notin> set ds"
  shows "runs (string_token rd ds (ch_int c)) p (\<lambda>oc p'. oc = Ret () \<and> rinv (rp_reader p') \<and>
    rp_request p' = rp_request p \<and> rp_type p' = T_String \<and> string_lexed ds (rp_value p') (c # left p) (left p'))"
proof -
  let ?p = "p\<lparr>rp_type := T_String, rp_value := []\<rparr>"
  have "runs (andThen (string_loop rd ds (ch_int c))
      (\<lambda>ch'. if ch' \<noteq> - 1 then rp_Rewind (int_ch ch') else ret ())) ?p (\<lambda>oc p'. oc = Ret () \<and> rinv (rp_reader p') \<and>
    rp_request p' = rp_request p \<and> rp_type p' = T_String \<and> string_lexed ds (rp_value p') (c # left p) (left p'))"
  proof (rule runs_andThen [OF string_loop_text], goal_cases)
    case (3 ch p')
    then obtain xs where p': "rinv (rp_reader p')" "rp_next p' = CHR 0x00" "rp_type p' = T_String"
      "rp_request p' = rp_request p" "rp_value p' = xs" "\<forall>x \<in> set xs. plain ds x"
      and "ch = - 1 \<and> (c # left p = xs \<and> left p' = [] \<or> c # left p = xs @ CHR 0xFF # left p') \<or>
        (\<exists>d. ch = ch_int d \<and> (d \<in> set ds \<or> d = CHR 0x00) \<and> c # left p = xs @ d # left p')" by auto
    then consider (ended) "ch = - 1" "c # left p = xs" "left p' = []"
      | (cut) "ch = - 1" "c # left p = xs @ [CHR 0xFF] @ left p'"
      | (nul) "ch = ch_int (CHR 0x00)" "c # left p = xs @ [CHR 0x00] @ left p'"
      | (stop) d where "ch = ch_int d" "d \<in> set ds" "c # left p = xs @ d # left p'" by auto
    then show ?case
    proof cases
      case ended
      with p' show ?thesis by (auto simp: string_lexed_def string_text_def)
    next
      case cut
      then have "xs \<noteq> []" using assms(3) by auto
      with cut p' show ?thesis by (auto simp: string_lexed_def string_text_def)
    next
      case nul
      with p' show ?thesis
        by (auto simp: runs_def rp_Rewind_def parser_unread_def string_lexed_def string_text_def)
    next
      case stop
      with assms(5,6) have "d \<noteq> CHR 0x00" "d \<noteq> CHR 0xFF" by auto
      moreover have "xs = [] \<Longrightarrow> d = LF" using stop(2,3) assms(4) by simp
      ultimately show ?thesis using stop p'
        by (auto simp: runs_def rp_Rewind_def parser_unread_def string_lexed_def string_text_def)
    qed
  qed (use assms in auto)
  then show ?thesis by (simp add: string_token_def runs_def)
qed

lemma new_line_token_text:
  assumes "rinv (rp_reader p)"
  shows "runs (new_line_token rd) p (\<lambda>oc p'. oc = Ret () \<and> rinv (rp_reader p') \<and> rp_next p' = CHR 0x00 \<and>
    rp_request p' = rp_request p \<and> rp_value p' = rp_value p \<and> lexed ds (rp_type p') v (CR # left p) (left p') \<and>
    rp_type p' \<in> {T_NewLine, T_Invalid})"
  using assms
proof (cases rule: next_step)
  case (ended p')
  then show ?thesis by (simp add: runs_def new_line_token_def set_type_def LF_def ch_int_def)
next
  case (some x p')
  then show ?thesis by (auto simp: runs_def new_line_token_def set_type_def)
qed

lemma NextToken_text:
  assumes "rinv (rp_reader p)"
  shows "runs (rp_NextToken rd) p (token_text token_chars p (left p))"
  using assms
proof (cases rule: next_step)
  case (ended p')
  then show ?thesis by (simp add: runs_def rp_NextToken_def set_type_def token_text_def)
next
  case (some c p1)
  consider "c = CHR '' ''" | "c = CHR '':''" | "c = CR" | "c = CHR 0xFF" | "c \<notin> {CHR '' '', CHR '':'', CR, CHR 0xFF}"
    by blast
  then show ?thesis
  proof cases
    case 3
    have "runs (new_line_token rd) p1 (token_text token_chars p (left p))"
      by (rule runs_weaken [OF new_line_token_text [OF some(2)]]) (use some 3 in \<open>auto simp: token_text_def\<close>)
    with some(1) 3 show ?thesis by (simp add: runs_def rp_NextToken_def CR_def)
  next
    case 5
    have "runs (string_token rd token_chars (ch_int c)) p1 (token_text token_chars p (left p))"
      by (rule runs_weaken [OF string_token_text [OF some(2,4)]])
        (use some 5 in \<open>auto simp: token_text_def token_chars_def CR_def LF_def\<close>)
    with some(1) 5 show ?thesis by (simp add: runs_def rp_NextToken_def token_chars_def)
  qed (use some in \<open>auto simp: runs_def rp_NextToken_def set_type_def token_text_def\<close>)
qed

text \<open>The blanks before a value are skipped.\<close>

lemma skip_spaces_text:
  assumes "rinv (rp_reader p)" and "rp_next p = CHR 0x00"
  shows "runs (skip_spaces rd (ch_int c)) p (\<lambda>oc p'.
    rinv (rp_reader p') \<and> rp_next p' = CHR 0x00 \<and> rp_request p' = rp_request p \<and> rp_value p' = rp_value p \<and>
    (\<exists>n. oc = Ret (- 1) \<and> c # left p = replicate n (CHR '' '') \<and> left p' = [] \<or>
      (\<exists>d. oc = Ret (ch_int d) \<and> d \<noteq> CHR '' '' \<and> c # left p = replicate n (CHR '' '') @ d # left p')))"
  using assms
proof (induction "length (left p)" arbitrary: p c rule: less_induct)
  case less
  have eof: "(- 1 :: int) \<noteq> ch_int CHR '' ''" by (simp add: ch_int_def)
  show ?case
  proof (cases "c = CHR '' ''")
    case False
    then show ?thesis using less.prems
      by (auto simp: runs_def skip_spaces.simps [of rd "ch_int c"] intro: exI [of _ 0])
  next
    case True
    from less.prems(1) show ?thesis
    proof (cases rule: next_step)
      case (ended p')
      then show ?thesis
        by (auto simp: runs_def True skip_spaces.simps [of rd "ch_int CHR '' ''"] skip_spaces.simps [of rd "- 1"] eof
            intro: exI [of _ "Suc 0"])
    next
      case (some x p')
      from some less.prems have "runs (skip_spaces rd (ch_int x)) p' (\<lambda>oc p''.
          rinv (rp_reader p'') \<and> rp_next p'' = CHR 0x00 \<and> rp_request p'' = rp_request p \<and> rp_value p'' = rp_value p \<and>
          (\<exists>n. oc = Ret (- 1) \<and> c # left p = replicate n (CHR '' '') \<and> left p'' = [] \<or>
            (\<exists>d. oc = Ret (ch_int d) \<and> d \<noteq> CHR '' '' \<and> c # left p = replicate n (CHR '' '') @ d # left p'')))"
        by (intro runs_weaken [OF less.hyps]) (auto simp: True intro: exI [of _ "Suc _"])
      then show ?thesis by (simp add: runs_def True skip_spaces.simps [of rd "ch_int CHR '' ''"] some(1))
    qed
  qed
qed

lemma NextString_text:
  assumes "rinv (rp_reader p)"
  shows "runs (rp_NextString rd) p (\<lambda>oc p'. \<exists>n us. left p = replicate n (CHR '' '') @ us \<and>
    (us \<noteq> [] \<longrightarrow> hd us \<noteq> CHR '' '') \<and> token_text line_chars p us oc p' \<and> rp_type p' \<notin> {T_Space, T_Colon})"
    (is "runs _ _ ?Q")
  using assms
proof (cases rule: next_step)
  case (ended p')
  then show ?thesis by (simp add: runs_def rp_NextString_def set_type_def token_text_def)
next
  case (some c p1)
  have "runs (andThen (skip_spaces rd (ch_int c))
        (\<lambda>ch. if ch = - 1 then set_type T_End
              else if ch = ch_int CR then new_line_token rd
              else string_token rd [CR, LF] ch)) p1 ?Q"
  proof (rule runs_andThen [OF skip_spaces_text [OF some(2,4)]], goal_cases)
    case (1 ch p2)
    note p2 = this
    then consider (ended) n where "ch = - 1" "left p = replicate n (CHR '' '')" "left p2 = []"
      | (stop) n d where "ch = ch_int d" "d \<noteq> CHR '' ''" "left p = replicate n (CHR '' '') @ d # left p2"
      using some(3) by auto
    then show ?case
    proof cases
      case ended
      with p2 some show ?thesis
        by (auto simp: set_type_runs token_text_def intro: exI [of _ n])
    next
      case stop
      have intro: "runs m p2 ?Q" if "runs m p2 (\<lambda>oc p'. token_text line_chars p (d # left p2) oc p' \<and>
          rp_type p' \<notin> {T_Space, T_Colon})" for m
        by (rule runs_weaken [OF that]) (use stop in \<open>auto intro!: exI [of _ n]\<close>)
      consider "d = CR" | "d = CHR 0xFF" | "d \<noteq> CR" "d \<noteq> CHR 0xFF" by blast
      then show ?thesis
      proof cases
        case 1
        have "runs (new_line_token rd) p2 ?Q"
          by (rule intro, rule runs_weaken [OF new_line_token_text]) (use p2 some 1 in \<open>auto simp: token_text_def\<close>)
        with stop(1) 1 show ?thesis by (simp add: CR_def ch_int_def)
      next
        case 2
        have "runs (set_type T_End) p2 ?Q"
          by (rule intro) (use p2 some 2 in \<open>auto simp: set_type_runs token_text_def\<close>)
        with stop(1) 2 show ?thesis by simp
      next
        case 3
        have "runs (string_token rd line_chars (ch_int d)) p2 ?Q"
          by (rule intro, rule runs_weaken [OF string_token_text [OF _ _ 3(2)]])
            (use p2 some 3(1) in \<open>auto simp: token_text_def line_chars_def CR_def LF_def\<close>)
        with stop(1) 3 show ?thesis by (simp add: line_chars_def)
      qed
    qed
  qed auto
  with some show ?thesis
  proof (cases "c = CHR 0xFF")
    case True
    with some show ?thesis
      by (auto simp: runs_def rp_NextString_def set_type_def token_text_def intro!: exI [of _ 0])
  qed (simp add: runs_def rp_NextString_def)
qed

text \<open>A token whose text is known.\<close>

lemma NextToken_cut:
  assumes "rinv (rp_reader p)" and "left p = v @ j @ us" and "string_text token_chars (v, j)"
    and "j = [] \<longrightarrow> us = [] \<or> hd us \<in> set token_chars"
  shows "runs (rp_NextToken rd) p (token_read p T_String v us)"
proof (rule runs_weaken [OF NextToken_text [OF assms(1)]])
  fix oc p'
  assume t: "token_text token_chars p (left p) oc p'"
  have hd: "left p \<noteq> []" "hd (left p) \<notin> {CHR '' '', CHR '':'', CR, CHR 0xFF}"
    using assms(2,3) by (cases v; auto simp: string_text_def plain_def token_chars_def CR_def)+
  then have "rp_type p' = T_String" using t by (cases "rp_type p'") (auto simp: token_text_def)
  with t string_lexed_unique [OF _ assms(2-4)] show "token_read p T_String v us oc p'"
    by (auto simp: token_text_def token_read_def token_chars_def CR_def LF_def)
qed

lemma NextToken_string:
  assumes "rinv (rp_reader p)" and "left p = xs @ d # ys" and "xs \<noteq> []"
    and "\<forall>x \<in> set xs. plain token_chars x" and "d \<in> set token_chars"
  shows "runs (rp_NextToken rd) p (token_read p T_String xs (d # ys))"
  by (rule NextToken_cut [where j = "[]"]) (use assms in \<open>auto simp: string_text_def\<close>)

lemma NextToken_space:
  assumes "rinv (rp_reader p)" and "left p = CHR '' '' # ys"
  shows "runs (rp_NextToken rd) p (token_read p T_Space (rp_value p) ys)"
  using next_cons [OF assms]
  by (auto simp: rp_NextToken_def set_type_runs [unfolded runs_def] runs_def token_read_def parser_unread_def set_type_def)

lemma NextToken_colon:
  assumes "rinv (rp_reader p)" and "left p = CHR '':'' # ys"
  shows "runs (rp_NextToken rd) p (token_read p T_Colon (rp_value p) ys)"
  using next_cons [OF assms]
  by (auto simp: rp_NextToken_def runs_def token_read_def parser_unread_def set_type_def)

lemma NextToken_newline:
  assumes "rinv (rp_reader p)" and "left p = CR # LF # ys"
  shows "runs (rp_NextToken rd) p (token_read p T_NewLine (rp_value p) ys)"
proof -
  from next_cons [OF assms] obtain r' where n:
    "rp_Next rd p = (ch_int CR, p\<lparr>rp_reader := r', rp_next := CHR 0x00\<rparr>)" "rinv r'" "unread r' = LF # ys"
    by blast
  let ?p = "p\<lparr>rp_reader := r', rp_next := CHR 0x00\<rparr>"
  have "left ?p = LF # ys" "rinv (rp_reader ?p)" using n by (simp_all add: parser_unread_def)
  from next_cons [OF this(2,1)] n show ?thesis
    by (auto simp: rp_NextToken_def new_line_token_def runs_def token_read_def parser_unread_def
        set_type_def CR_def)
qed

lemma NextString_cut:
  assumes "rinv (rp_reader p)" and "left p = replicate n (CHR '' '') @ v @ j @ us" and "string_text line_chars (v, j)"
    and "v \<noteq> [] \<longrightarrow> hd v \<noteq> CHR '' ''" and "j = [] \<longrightarrow> us = [] \<or> hd us \<in> set line_chars"
  shows "runs (rp_NextString rd) p (token_read p T_String v us)"
proof (rule runs_weaken [OF NextString_text [OF assms(1)]])
  fix oc p'
  assume "\<exists>n us. left p = replicate n (CHR '' '') @ us \<and> (us \<noteq> [] \<longrightarrow> hd us \<noteq> CHR '' '') \<and>
    token_text line_chars p us oc p' \<and> rp_type p' \<notin> {T_Space, T_Colon}"
  then obtain n' us' where l: "left p = replicate n' (CHR '' '') @ us'" "us' \<noteq> [] \<longrightarrow> hd us' \<noteq> CHR '' ''"
    and t: "token_text line_chars p us' oc p'" "rp_type p' \<notin> {T_Space, T_Colon}" by blast
  have hd: "v @ j @ us \<noteq> []" "hd (v @ j @ us) \<notin> {CHR '' '', CR, CHR 0xFF}"
    using assms(3,4) by (cases v; auto simp: string_text_def plain_def line_chars_def CR_def)+
  have drop_blanks: "dropWhile (\<lambda>c. c = CHR '' '') (replicate m (CHR '' '') @ w) = w"
    if "w \<noteq> [] \<longrightarrow> hd w \<noteq> CHR '' ''" for m w
    using that by (induction m) (cases w; simp)+
  have us': "us' = v @ j @ us" using drop_blanks [of us' n'] drop_blanks [of "v @ j @ us" n] l assms(2) hd by auto
  then have "rp_type p' = T_String" using t hd by (cases "rp_type p'") (auto simp: token_text_def)
  with t string_lexed_unique [OF _ us' assms(3,5)] show "token_read p T_String v us oc p'"
    by (auto simp: token_text_def token_read_def line_chars_def CR_def LF_def)
qed

end

section \<open>\<open>CleanPath\<close>\<close>

lemma strip_back_append:
  "\<forall>c \<in> set xs. c = CHR ''/'' \<Longrightarrow> strip_back (xs @ ys) = strip_back ys"
  by (induction xs) auto

lemma strip_back_split:
  "strip_back xs = (if \<forall>c \<in> set xs. c = CHR ''/'' then Raise (Undefined ''back() of an empty string'')
    else Ret (rev (dropWhile (\<lambda>c. c = CHR ''/'') xs)))"
  by (induction xs) auto

lemma CleanPath_cases:
  "CleanPath path =
     (if path = [] then Raise (Undefined ''front() of an empty string'')
      else if \<forall>c \<in> set path. c = CHR ''/'' then Raise (Undefined ''back() of an empty string'')
      else Ret (rev (dropWhile (\<lambda>c. c = CHR ''/'')
             (rev (if hd path = CHR ''/'' then path else CHR ''/'' # path)))))"
  by (cases path) (auto simp: CleanPath_def strip_back_split)

lemma dropWhile_last:
  assumes "dropWhile P xs \<noteq> []"
  shows "last (rev (dropWhile P xs)) = hd (dropWhile P xs) \<and> \<not> P (hd (dropWhile P xs))"
  using assms hd_dropWhile [of P xs] by (simp add: last_rev)

lemma CleanPath_Ret:
  assumes "CleanPath path = Ret q"
  shows "q \<noteq> []" and "hd q = CHR ''/''" and "last q \<noteq> CHR ''/''"
    and "\<exists>n. q @ replicate n (CHR ''/'') = (if hd path = CHR ''/'' then path else CHR ''/'' # path)"
proof -
  let ?s = "\<lambda>c. c = CHR ''/''"
  define pp where "pp = (if hd path = CHR ''/'' then path else CHR ''/'' # path)"
  from assms have ne: "path \<noteq> []" and nall: "\<not> (\<forall>c \<in> set path. ?s c)"
    and q: "q = rev (dropWhile ?s (rev pp))"
    by (auto simp: CleanPath_cases pp_def split: if_splits)
  from nall have "dropWhile ?s (rev pp) \<noteq> []" by (auto simp: dropWhile_eq_Nil_conv pp_def)
  with q dropWhile_last [of ?s "rev pp"] show qne: "q \<noteq> []" and "last q \<noteq> CHR ''/''" by auto
  have p: "pp = q @ rev (takeWhile ?s (rev pp))"
    by (simp add: q rev_append [symmetric] del: rev_append)
  have "rev (takeWhile ?s (rev pp)) = replicate (length (takeWhile ?s (rev pp))) (CHR ''/'')"
    by (rule replicate_eqI) (auto dest: set_takeWhileD)
  with p have "q @ replicate (length (takeWhile ?s (rev pp))) (CHR ''/'') = pp" by simp
  then show "\<exists>n. q @ replicate n (CHR ''/'') = (if hd path = CHR ''/'' then path else CHR ''/'' # path)"
    unfolding pp_def by blast
  have "hd pp = CHR ''/''" by (simp add: pp_def)
  then show "hd q = CHR ''/''" using p qne by (metis hd_append2)
qed

lemma CleanPath_fixed:
  assumes "hd q = CHR ''/''" and "last q \<noteq> CHR ''/''" and "q \<noteq> []"
  shows "CleanPath q = Ret q"
proof -
  have nall: "\<not> (\<forall>c \<in> set q. c = CHR ''/'')" using assms last_in_set by blast
  obtain c cs where c: "rev q = c # cs" using assms(3) by (cases "rev q") auto
  then have "c = last q" by (metis hd_rev list.sel(1))
  with assms(2) have "c \<noteq> CHR ''/''" by simp
  then have "dropWhile (\<lambda>c. c = CHR ''/'') (rev q) = rev q" unfolding c by simp
  with nall show ?thesis using assms by (simp add: CleanPath_cases)
qed

section \<open>Properties of \<open>CleanPath\<close>\<close>

text \<open>
  \<open>CleanPath\<close>. Where it is defined, the result starts with a slash, does not end with one, is a
  fixed point, and only a leading slash is added and only trailing slashes are removed.
\<close>

theorem clean_path_correct:
  assumes "CleanPath path = Ret q"
  shows "hd q = CHR ''/'' \<and> last q \<noteq> CHR ''/'' \<and> q \<noteq> [] \<and> CleanPath q = Ret q \<and>
    (\<exists>n. q @ replicate n (CHR ''/'') = (if hd path = CHR ''/'' then path else CHR ''/'' # path))"
  using CleanPath_Ret [OF assms] CleanPath_fixed by blast

lemma clean_path_correct_witness:
  "CleanPath ''abc//'' = Ret ''/abc'' \<and> CleanPath ''/abc'' = Ret ''/abc''"
proof -
  have "CleanPath ''abc//'' = Ret ''/abc''" by code_simp
  with clean_path_correct [OF this] show ?thesis by simp
qed

text \<open>\<open>CleanPath\<close> is undefined exactly on the paths that consist of slashes only, the empty one included.\<close>

theorem clean_path_defined_iff:
  "(\<exists>q. CleanPath path = Ret q) \<longleftrightarrow> (\<exists>c \<in> set path. c \<noteq> CHR ''/'')"
  by (auto simp: CleanPath_cases)

end
