(* ===== verification/Sync_Runs.thy ===== *)
theory Sync_Runs
  imports Parser_Sync
begin

text \<open>
  What \<open>RequestParser\<close> does with a text: the runs of the start line and the header lines, that every run ends, and
  \<open>ParseHttpRequest\<close> over any stream that keeps the stream contract.
\<close>

section \<open>Runs of the grammar\<close>

text \<open>The requests this parser reads back from their printed form.\<close>

definition sync_header_ok :: "string \<times> string \<Rightarrow> bool" where
  "sync_header_ok h \<longleftrightarrow>
     fst h \<noteq> [] \<and> (\<forall>c \<in> set (fst h). plain token_chars c) \<and>
     snd h \<noteq> [] \<and> hd (snd h) \<noteq> CHR '' '' \<and> (\<forall>c \<in> set (snd h). plain line_chars c)"

definition sync_printable :: "HttpRequest \<Rightarrow> bool" where
  "sync_printable r \<longleftrightarrow>
     fields_ok r \<and> Method r \<in> {GET, POST} \<and> Version r = HTTP_1_1 \<and> ContentLength r \<le> 4096 \<and>
     CleanPath (Path r) = Ret (Path r) \<and> (\<forall>c \<in> set (Path r). plain token_chars c) \<and>
     (\<forall>h \<in> set (request_fields (\<lambda>hs. hs) r). sync_header_ok h) \<and>
     length (Body r) = nat (ContentLength r)"

text \<open>A header line as the parser takes it: a NUL or \<open>0xFF\<close> may follow the key and the value, blanks may precede the value.\<close>

type_synonym padded_header = "(string \<times> string) \<times> nat \<times> string \<times> string"

definition padded_line :: "padded_header \<Rightarrow> string" where
  "padded_line = (\<lambda>((k, j), n, v, i). k @ j @ COLON @ replicate n (CHR '' '') @ v @ i @ NEW_LINE)"

definition padded_ok :: "padded_header \<Rightarrow> bool" where
  "padded_ok = (\<lambda>(k, n, v). string_text token_chars k \<and> string_text line_chars v \<and>
     (fst v \<noteq> [] \<longrightarrow> hd (fst v) \<noteq> CHR '' ''))"

definition padded_field :: "padded_header \<Rightarrow> string \<times> string" where
  "padded_field = (\<lambda>(k, n, v). (fst k, fst v))"

definition unpadded :: "string \<times> string \<Rightarrow> padded_header" where
  "unpadded h = ((fst h, []), 0, snd h, [])"

text \<open>The start line, with what may follow the method, the path and the version.\<close>

definition padded_start :: "HttpMethod \<Rightarrow> string \<Rightarrow> string \<times> string \<times> string \<Rightarrow> string" where
  "padded_start m path = (\<lambda>(i, j, k).
     HttpMethodToString m @ i @ SPACE @ path @ j @ SPACE @ HTTP_VERSION @ k @ NEW_LINE)"

definition padded_start_ok :: "HttpMethod \<Rightarrow> string \<Rightarrow> string \<times> string \<times> string \<Rightarrow> bool" where
  "padded_start_ok m path = (\<lambda>(i, j, k). string_text token_chars (HttpMethodToString m, i) \<and>
     string_text token_chars (path, j) \<and> string_text token_chars (HTTP_VERSION, k))"

lemma padded_unpadded [simp]:
  "padded_field (unpadded h) = h"
  "padded_line (unpadded h) = header_line (fst h) (snd h)"
  "padded_ok (unpadded h) = sync_header_ok h"
  by (auto simp: unpadded_def padded_field_def padded_line_def header_line_def padded_ok_def sync_header_ok_def
      string_text_def)

lemma padded_lines_unpadded: "concat (map padded_line (map unpadded hs)) = header_lines hs"
  by (induction hs) (auto simp: header_lines_def)

lemma words_text:
  "string_text token_chars (HttpMethodToString GET, [])" "string_text token_chars (HttpMethodToString POST, [])"
  "string_text token_chars (HTTP_VERSION, [])"
  by code_simp+

context char_reader
begin

definition line_read ::
    "ParseStatus \<Rightarrow> HttpRequest \<Rightarrow> string \<Rightarrow> ParseStatus outcome \<Rightarrow> 'r RequestParser \<Rightarrow> bool" where
  "line_read st r us oc p' \<longleftrightarrow>
     oc = Ret st \<and> rinv (rp_reader p') \<and> left p' = us \<and> rp_request p' = r \<and>
     rp_next p' = CHR 0x00"

text \<open>One step, as a rule: the token is there, go on behind it.\<close>

lemma expect_step:
  assumes "runs tok p (token_read p t v us)"
    and "\<And>p'. rinv (rp_reader p') \<Longrightarrow> left p' = us \<Longrightarrow> rp_value p' = v \<Longrightarrow>
      rp_request p' = rp_request p \<Longrightarrow> t \<noteq> T_String \<longrightarrow> rp_next p' = CHR 0x00 \<Longrightarrow> runs rest p' Q"
  shows "runs (expect tok t rest) p Q"
  by (rule runs_expect [OF assms(1)]) (auto simp: token_read_def intro: assms(2))

lemmas expect_string = expect_step [OF NextToken_string]
lemmas expect_cut = expect_step [OF NextToken_cut]
lemmas expect_space = expect_step [OF NextToken_space]
lemmas expect_newline = expect_step [OF NextToken_newline]

text \<open>A header line is stored, or the exception of storing it is the result.\<close>

lemma ParseHeader_stores:
  assumes "rinv (rp_reader p)" and "left p = padded_line h @ ys" and "padded_ok h" and "padded_field h = (k, v)"
  shows "runs (rp_ParseHeader rd) p (\<lambda>oc p'.
    case store_field k v (rp_request p) of Ret r \<Rightarrow> line_read P_Ok r ys oc p' | Raise e \<Rightarrow> oc = Raise e)"
    (is "runs _ _ ?Q")
proof -
  obtain j n i where h: "h = ((k, j), n, v, i)" using assms(4) by (cases h) (auto simp: padded_field_def)
  have ok: "string_text token_chars (k, j)" "string_text line_chars (v, i)" "v \<noteq> [] \<longrightarrow> hd v \<noteq> CHR '' ''"
    using assms(3) by (auto simp: padded_ok_def h)
  let ?val = "replicate n (CHR '' '') @ v @ i @ CR # LF # ys"
  have l: "left p = k @ j @ CHR '':'' # CHR '' '' # ?val"
    using assms(2) by (simp add: padded_line_def entities_def h)
  show ?thesis
    unfolding rp_ParseHeader_def
  proof (rule runs_andThen [OF NextToken_cut [OF assms(1) l ok(1)]], goal_cases)
    case (2 x p1)
    then have p1: "rinv (rp_reader p1)" "left p1 = CHR '':'' # CHR '' '' # ?val"
      "rp_type p1 = T_String" "rp_value p1 = k" "rp_request p1 = rp_request p"
      by (auto simp: token_read_def)
    have "runs (expect (rp_NextToken rd) T_Colon
        (expect (rp_NextToken rd) T_Space
        (expect (rp_NextString rd) T_String
        (set_request (store_field k)
        (expect (rp_NextToken rd) T_NewLine (ret P_Ok)))))) p1 ?Q"
    proof (rule expect_step [OF NextToken_colon [OF p1(1,2)]], rule expect_step [OF NextToken_space [where ys = ?val]], goal_cases)
      case (3 p2 p3)
      show ?case
      proof (rule expect_step [OF NextString_cut [OF 3(6,7) ok(2,3)]], goal_cases)
        case (2 p4)
        then have p4: "rinv (rp_reader p4)" "left p4 = CR # LF # ys" "rp_value p4 = v" "rp_request p4 = rp_request p"
          using 3 p1(5) by simp_all
        show ?case
        proof (rule runs_set_request)
          fix r
          assume r: "store_field k (rp_value p4) (rp_request p4) = Ret r"
          have p5: "rinv (rp_reader (p4\<lparr>rp_request := r\<rparr>))" "left (p4\<lparr>rp_request := r\<rparr>) = CR # LF # ys"
            using p4 by simp_all
          show "runs (expect (rp_NextToken rd) T_NewLine (ret P_Ok)) (p4\<lparr>rp_request := r\<rparr>) ?Q"
            by (rule runs_expect [OF NextToken_newline [OF p5]])
              (use r p4 in \<open>auto simp: token_read_def line_read_def\<close>)
        qed (use p4 in simp)
      qed (simp add: line_chars_def)
    qed
    then show ?case unfolding runs_cond runs_let p1 by simp
  qed (auto simp: token_read_def token_chars_def)
qed

lemma ParseHeader_line:
  assumes "rinv (rp_reader p)" and "left p = padded_line h @ ys" and "padded_ok h" and "padded_field h = (k, v)"
    and "store_field k v (rp_request p) = Ret r"
  shows "runs (rp_ParseHeader rd) p (line_read P_Ok r ys)"
  using ParseHeader_stores [OF assms(1-4)] assms(5) by simp

lemma ParseHeader_blank:
  assumes "rinv (rp_reader p)" and "left p = NEW_LINE @ ys"
  shows "runs (rp_ParseHeader rd) p (line_read P_NotMatch (rp_request p) ys)"
  unfolding rp_ParseHeader_def
  by (rule runs_andThen [OF NextToken_newline [OF assms(1)]])
    (use assms(2) in \<open>auto simp: token_read_def line_read_def NEW_LINE_def\<close>)

lemma header_loop_Ok: "header_loop rd P_Ok = andThen (rp_ParseHeader rd) (header_loop rd)"
  by (rule ext, subst header_loop.simps) (auto simp: andThen_def split: option.splits outcome.splits)

lemma header_loop_done: "st \<noteq> P_Ok \<Longrightarrow> header_loop rd st p = Some (Ret st, p)"
  by (subst header_loop.simps) simp

lemma header_loop_padded:
  assumes "rinv (rp_reader p)" and "left p = concat (map padded_line hs) @ NEW_LINE @ ys"
    and "\<forall>h \<in> set hs. padded_ok h" and "store_fields (map padded_field hs) (rp_request p) = Ret r"
  shows "runs (andThen (rp_ParseHeader rd) (header_loop rd)) p (line_read P_NotMatch r ys)"
  using assms
proof (induction hs arbitrary: p)
  case Nil
  then show ?case
    by (intro runs_andThen [OF ParseHeader_blank])
      (auto simp: line_read_def runs_def header_loop_done)
next
  case (Cons h hs)
  let ?ys = "concat (map padded_line hs) @ NEW_LINE @ ys"
  obtain k v where h: "padded_field h = (k, v)" by (cases "padded_field h")
  with Cons.prems obtain r1 where r1: "store_field k v (rp_request p) = Ret r1"
    "store_fields (map padded_field hs) r1 = Ret r" by (cases "store_field k v (rp_request p)") auto
  show ?case
  proof (rule runs_andThen [OF ParseHeader_line [OF Cons.prems(1) _ _ h r1(1), where ys = ?ys]], goal_cases)
    case (3 st p1)
    then have "st = P_Ok" "rinv (rp_reader p1)" "left p1 = ?ys" "rp_request p1 = r1" by (auto simp: line_read_def)
    with Cons.IH [of p1] Cons.prems r1 show ?case
      by (simp add: header_loop_Ok)
  qed (use Cons.prems in \<open>auto simp: line_read_def\<close>)
qed

lemma header_loop_fields:
  assumes "rinv (rp_reader p)" and "left p = header_lines hs @ NEW_LINE @ ys"
    and "\<forall>h \<in> set hs. sync_header_ok h" and "store_fields hs (rp_request p) = Ret r"
  shows "runs (andThen (rp_ParseHeader rd) (header_loop rd)) p (line_read P_NotMatch r ys)"
proof (rule header_loop_padded)
  show "left p = concat (map padded_line (map unpadded hs)) @ NEW_LINE @ ys"
    using assms(2) by (simp only: padded_lines_unpadded)
qed (use assms in \<open>auto simp: comp_def\<close>)

lemma runs_set_Ret:
  "f (rp_value p) (rp_request p) = Ret r \<Longrightarrow>
    runs (set_request f rest) p Q \<longleftrightarrow> runs rest (p\<lparr>rp_request := r\<rparr>) Q"
  by (simp add: runs_def set_request_def)

abbreviation (input) version_part :: "('r RequestParser, ParseStatus) action" where
  "version_part \<equiv>
     expect (rp_NextToken rd) T_Space
    (expect (rp_NextToken rd) T_String (\<lambda>p.
       if rp_value p \<noteq> ''HTTP/1.1'' then ret P_Error p
       else
         set_request (\<lambda>v r. Ret (r\<lparr>Version := HTTP_1_1\<rparr>))
        (expect (rp_NextToken rd) T_NewLine (ret P_Ok)) p))"

abbreviation (input) path_part :: "('r RequestParser, ParseStatus) action" where
  "path_part \<equiv>
     expect (rp_NextToken rd) T_Space
    (expect (rp_NextToken rd) T_String
    (set_request (\<lambda>v r. outcome_bind (CleanPath v) (\<lambda>path. Ret (r\<lparr>Path := path\<rparr>))) version_part))"

lemma version_line:
  assumes "rinv (rp_reader p)" and "left p = CHR '' '' # ''HTTP/1.1'' @ j @ CR # LF # ys"
    and "string_text token_chars (''HTTP/1.1'', j)"
  shows "runs version_part p (line_read P_Ok ((rp_request p)\<lparr>Version := HTTP_1_1\<rparr>) ys)"
proof (rule expect_space [OF assms(1,2)])
  fix p1
  assume p1: "rinv (rp_reader p1)" "left p1 = ''HTTP/1.1'' @ j @ CR # LF # ys" "rp_request p1 = rp_request p"
  show "runs (expect (rp_NextToken rd) T_String (\<lambda>p.
         if rp_value p \<noteq> ''HTTP/1.1'' then ret P_Error p
         else
           set_request (\<lambda>v r. Ret (r\<lparr>Version := HTTP_1_1\<rparr>))
          (expect (rp_NextToken rd) T_NewLine (ret P_Ok)) p)) p1
    (line_read P_Ok ((rp_request p)\<lparr>Version := HTTP_1_1\<rparr>) ys)"
  proof (rule expect_cut [OF p1(1,2) assms(3)])
    fix p2
    assume p2: "rinv (rp_reader p2)" "left p2 = CR # LF # ys" "rp_value p2 = ''HTTP/1.1''"
      "rp_request p2 = rp_request p1"
    have "runs (expect (rp_NextToken rd) T_NewLine (ret P_Ok))
        (p2\<lparr>rp_request := (rp_request p)\<lparr>Version := HTTP_1_1\<rparr>\<rparr>)
        (line_read P_Ok ((rp_request p)\<lparr>Version := HTTP_1_1\<rparr>) ys)"
      by (rule expect_newline) (use p2 in \<open>auto simp: line_read_def\<close>)
    then show "runs (\<lambda>p. if rp_value p \<noteq> ''HTTP/1.1'' then ret P_Error p
        else set_request (\<lambda>v r. Ret (r\<lparr>Version := HTTP_1_1\<rparr>))
          (expect (rp_NextToken rd) T_NewLine (ret P_Ok)) p) p2
        (line_read P_Ok ((rp_request p)\<lparr>Version := HTTP_1_1\<rparr>) ys)"
      using p2 p1 by (simp add: runs_set_Ret)
  qed (simp add: token_chars_def)
qed

lemma ParseStartLine_padded:
  assumes p: "rinv (rp_reader p)" and m: "m \<in> {GET, POST}"
    and l: "left p = padded_start m path j @ ys" and ok: "padded_start_ok m path j" and clean: "CleanPath path = Ret q"
  shows "runs (rp_ParseStartLine rd) p
    (line_read P_Ok ((rp_request p)\<lparr>Method := m, Path := q, Version := HTTP_1_1\<rparr>) ys)"
proof -
  obtain i1 i2 i3 where j: "j = (i1, i2, i3)" by (cases j)
  have ok: "string_text token_chars (HttpMethodToString m, i1)" "string_text token_chars (path, i2)"
    "string_text token_chars (''HTTP/1.1'', i3)"
    using ok by (auto simp: padded_start_ok_def j entities_def)
  let ?version = "CHR '' '' # ''HTTP/1.1'' @ i3 @ CR # LF # ys"
  have l: "left p = HttpMethodToString m @ i1 @ CHR '' '' # path @ i2 @ ?version"
    using l by (simp add: padded_start_def j entities_def)
  show ?thesis
    unfolding rp_ParseStartLine_def
  proof (rule expect_cut [OF p l ok(1)], goal_cases)
    case (2 p1)
    let ?p1 = "p1\<lparr>rp_request := (rp_request p)\<lparr>Method := m\<rparr>\<rparr>"
    have v: "rp_value p1 = ''GET'' \<and> m = GET \<or> rp_value p1 = ''POST'' \<and> m = POST" using 2 m by auto
    have "runs path_part ?p1 (line_read P_Ok ((rp_request p)\<lparr>Method := m, Path := q, Version := HTTP_1_1\<rparr>) ys)"
    proof (rule expect_space [where us = "path @ i2 @ ?version"], goal_cases)
      case (3 p2)
      show ?case
      proof (rule expect_cut [OF 3(1,2) ok(2)], goal_cases)
        case (2 p3)
        have "rp_request p3 = (rp_request p)\<lparr>Method := m\<rparr>" using 2 3 by simp
        with 2 clean version_line [OF _ _ ok(3), of "p3\<lparr>rp_request := (rp_request p)\<lparr>Method := m, Path := q\<rparr>\<rparr>" ys]
        show ?case by (simp add: runs_set_Ret)
      qed (simp add: token_chars_def)
    qed (use 2 in auto)
    with v 2 show ?case by (auto simp: runs_set_Ret)
  qed (simp add: token_chars_def)
qed

lemma ParseStartLine_line:
  assumes p: "rinv (rp_reader p)" and m: "m \<in> {GET, POST}"
    and l: "left p = HttpMethodToString m @ SPACE @ path @ SPACE @ HTTP_VERSION @ NEW_LINE @ ys"
    and path: "path \<noteq> []" "\<forall>c \<in> set path. plain token_chars c" and clean: "CleanPath path = Ret q"
  shows "runs (rp_ParseStartLine rd) p
    (line_read P_Ok ((rp_request p)\<lparr>Method := m, Path := q, Version := HTTP_1_1\<rparr>) ys)"
proof (rule ParseStartLine_padded [OF p m _ _ clean])
  show "left p = padded_start m path ([], [], []) @ ys" using l by (simp add: padded_start_def)
  show "padded_start_ok m path ([], [], [])"
    using m path words_text by (auto simp: padded_start_ok_def string_text_def)
qed

text \<open>The start line up to the path, and what follows it.\<close>

lemma ParseStartLine_path:
  assumes p: "rinv (rp_reader p)" and m: "m \<in> {GET, POST}"
    and l: "left p = HttpMethodToString m @ SPACE @ path @ c # ys" and c: "c \<in> set token_chars"
    and path: "path \<noteq> []" "\<forall>c \<in> set path. plain token_chars c"
    and bad: "\<And>e. CleanPath path = Raise e \<Longrightarrow> oc = Raise e"
    and good: "\<And>q. CleanPath path = Ret q \<Longrightarrow> c = CHR '':'' \<and> oc = Ret P_Error"
  shows "runs (rp_ParseStartLine rd) p (\<lambda>oc' p'. oc' = oc)"
  unfolding rp_ParseStartLine_def
proof (rule expect_string [OF p, where v = "HttpMethodToString m" and d = "CHR '' ''" and
      ys = "path @ c # ys"], goal_cases)
  case (5 p1)
  let ?p1 = "p1\<lparr>rp_request := (rp_request p)\<lparr>Method := m\<rparr>\<rparr>"
  have v: "rp_value p1 = ''GET'' \<and> m = GET \<or> rp_value p1 = ''POST'' \<and> m = POST" using 5 m by auto
  have "runs (expect (rp_NextToken rd) T_Space
      (expect (rp_NextToken rd) T_String
      (set_request (\<lambda>v r. outcome_bind (CleanPath v) (\<lambda>path. Ret (r\<lparr>Path := path\<rparr>)))
      (expect (rp_NextToken rd) T_Space rest)))) ?p1 (\<lambda>oc' p'. oc' = oc)" for rest
  proof (rule expect_space [where us = "path @ c # ys"], goal_cases)
    case (3 p2)
    show ?case
    proof (rule expect_string [OF _ _ path c, where ys = ys], goal_cases)
      case (3 p3)
      show ?case
      proof (rule runs_set_request, goal_cases)
        case (1 r)
        then obtain q where "CleanPath path = Ret q" using 3 by (cases "CleanPath path") auto
        with good have g: "c = CHR '':''" "oc = Ret P_Error" by auto
        with 3 have "rinv (rp_reader (p3\<lparr>rp_request := r\<rparr>))" "left (p3\<lparr>rp_request := r\<rparr>) = CHR '':'' # ys"
          by simp_all
        from NextToken_colon [OF this] show ?case
          by (rule runs_expect) (use g in \<open>auto simp: token_read_def\<close>)
      next
        case (2 e)
        then show ?case using 3 bad by (cases "CleanPath path") auto
      qed
    qed (use 3 in auto)
  qed (use 5 in \<open>auto simp: entities_def\<close>)
  with v 5 show ?case by (auto simp: runs_set_Ret)
qed (use m l in \<open>auto simp: plain_def token_chars_def CR_def LF_def entities_def\<close>)

end

lemma sync_printable_fields:
  assumes "sync_printable r" and "iteration iter"
  shows "\<forall>h \<in> set (request_fields iter r). sync_header_ok h"
  using assms iteration_set [OF assms(2), of "Headers r"]
  by (simp add: sync_printable_def request_fields_def)

context block_reader
begin

lemma ParseBody_rest:
  assumes "rinv (rp_reader p)" and "unread (rp_reader p) = bs" and "bs \<noteq> []"
    and "ContentLength (rp_request p) = int (length bs)"
  shows "runs (rp_ParseBody rblk) p
    (\<lambda>oc p'. oc = Ret P_Ok \<and> rp_request p' = (rp_request p)\<lparr>Body := bs\<rparr>)"
  using rblk_rest [OF assms(1-3)] assms(4) by (auto simp: rp_ParseBody_def runs_def)

lemma parse_printed:
  assumes "rinv r" and "unread r = HttpRequest_ToString iter q" and ok: "sync_printable q"
    and it: "iteration iter" and r0: "Headers r0 = []" "ContentType r0 = []" "ContentLength r0 = 0" "Body r0 = []"
  shows "runs (rp_Parse rd rblk) (RequestParser_new r r0) (\<lambda>oc p. oc = Ret 0 \<and>
    rp_request p = q\<lparr>Host := (if Host q = [] then Host r0 else Host q), Headers := iter (Headers q)\<rparr>)"
proof -
  let ?p = "RequestParser_new r r0"
  let ?q1 = "r0\<lparr>Method := Method q, Path := Path q, Version := HTTP_1_1\<rparr>"
  let ?q2 = "?q1\<lparr>ContentType := ContentType q, ContentLength := ContentLength q,
      Host := (if Host q = [] then Host r0 else Host q), Headers := iter (Headers q)\<rparr>"
  let ?res = "q\<lparr>Host := (if Host q = [] then Host r0 else Host q), Headers := iter (Headers q)\<rparr>"
  let ?hd = "header_lines (request_fields iter q)"
  let ?body = "if ContentLength q > 0 then Body q else []"
  have wf: "fields_ok q" "Method q \<in> {GET, POST}" "Version q = HTTP_1_1" "ContentLength q \<le> 4096"
    "CleanPath (Path q) = Ret (Path q)" "\<forall>c \<in> set (Path q). plain token_chars c"
    "length (Body q) = nat (ContentLength q)"
    using ok by (auto simp: sync_printable_def)
  have res: "?q2\<lparr>Body := Body q\<rparr> = ?res" using wf(3) by (cases q; cases r0) simp
  have p: "rinv (rp_reader ?p)"
    "left ?p = HttpMethodToString (Method q) @ SPACE @ Path q @ SPACE @ HTTP_VERSION @ NEW_LINE @ ?hd @ NEW_LINE @ ?body"
    using assms(1,2) by (simp_all add: RequestParser_new_def parser_unread_def ToString_fields)
  have pne: "Path q \<noteq> []" using CleanPath_Ret(1) [OF wf(5)] .
  have store: "store_fields (request_fields iter q) ?q1 = Ret ?q2"
    using store_request_fields [OF wf(1) it, of ?q1] r0 by simp
  show ?thesis
    unfolding rp_Parse_def
  proof (rule runs_andThen [OF ParseStartLine_line [OF p(1) wf(2) p(2) pne wf(6,5)]], goal_cases)
    case (1 st p1)
    then have p1: "st = P_Ok" "rinv (rp_reader p1)" "left p1 = ?hd @ NEW_LINE @ ?body" "rp_request p1 = ?q1"
      by (auto simp: line_read_def RequestParser_new_def)
    have loop: "runs (andThen (rp_ParseHeader rd) (header_loop rd)) p1 (line_read P_NotMatch ?q2 ?body)"
      using header_loop_fields [OF p1(2,3) sync_printable_fields [OF ok it]] p1(4) store by simp
    show ?case
    proof (simp only: p1(1) simp_thms if_False, rule runs_andThen [OF loop], goal_cases)
      case (1 st p2)
      then have p2: "st = P_NotMatch" "rinv (rp_reader p2)" "unread (rp_reader p2) = ?body" "rp_request p2 = ?q2"
        by (auto simp: line_read_def parser_unread_def)
      show ?case
      proof (cases "ContentLength q > 0")
        case True
        then have "runs (rp_ParseBody rblk) p2
            (\<lambda>oc p'. oc = Ret P_Ok \<and> rp_request p' = ?res)"
          using ParseBody_rest [OF p2(2,3)] p2(4) wf(7) res by (cases "Body q = []") auto
        then show ?thesis
          using True p2 wf(4) by (auto intro: runs_andThen)
      next
        case False
        then have "Body q = []" "ContentLength q = 0" using wf(1,7) by (auto simp: fields_ok_def)
        moreover from this have "?q2 = ?res" using res r0(4) by (cases r0) simp
        ultimately show ?thesis using False p2 by simp
      qed
    qed (auto simp: line_read_def)
  qed (auto simp: line_read_def)
qed

end

section \<open>Every run ends\<close>

text \<open>
  \<open>parse_step\<close>: what every operation keeps and how much input it takes. \<open>drops\<close> marks the results that
  need at least one character.
\<close>

definition path_faults :: "fault set" where
  "path_faults = {Undefined ''front() of an empty string'', Undefined ''back() of an empty string''}"

definition stoi_faults :: "fault set" where
  "stoi_faults = {InvalidArgument, OutOfRange}"

lemma CleanPath_faults: "CleanPath v = Raise e \<Longrightarrow> e \<in> path_faults"
  by (auto simp: CleanPath_cases path_faults_def split: if_splits)

lemma store_field_faults: "store_field k v r = Raise e \<Longrightarrow> e \<in> stoi_faults"
  by (auto simp: store_field_def stoi_def Let_def stoi_faults_def split: if_splits prod.splits)

lemma CleanPath_set_faults:
  "outcome_bind (CleanPath v) (\<lambda>path. Ret (g path)) = Raise e \<Longrightarrow> e \<in> path_faults"
  by (cases "CleanPath v") (auto dest: CleanPath_faults)

context char_reader
begin

definition parse_step ::
    "'r RequestParser \<Rightarrow> ('a outcome \<Rightarrow> 'r RequestParser \<Rightarrow> bool) \<Rightarrow> fault set \<Rightarrow>
     'a outcome \<Rightarrow> 'r RequestParser \<Rightarrow> bool" where
  "parse_step p drops faults oc p' \<longleftrightarrow>
     rinv (rp_reader p') \<and> length (left p') \<le> length (left p) \<and>
     (drops oc p' \<longrightarrow> length (left p') < length (left p)) \<and>
     (\<forall>e. oc = Raise e \<longrightarrow> e \<in> faults)"

text \<open>A token: the assertion in \<open>_Rewind\<close> holds, nothing is raised.\<close>

abbreviation token_step :: "'r RequestParser \<Rightarrow> unit outcome \<Rightarrow> 'r RequestParser \<Rightarrow> bool" where
  "token_step p \<equiv> parse_step p (\<lambda>oc p'. rp_type p' \<in> {T_Colon, T_Space, T_NewLine}) {}"

lemma NextToken_ends:
  assumes "rinv (rp_reader p)"
  shows "runs (rp_NextToken rd) p (token_step p)"
  by (rule runs_weaken [OF NextToken_text [OF assms]])
    (auto simp: token_text_def parse_step_def dest: lexed_shorter)

lemma NextString_ends:
  assumes "rinv (rp_reader p)"
  shows "runs (rp_NextString rd) p (token_step p)"
  by (rule runs_weaken [OF NextString_text [OF assms]])
    (fastforce simp: token_text_def parse_step_def dest: lexed_shorter)

text \<open>The grammar: \<open>expect\<close> after a token, for any later part that takes no more input than it gets.\<close>

lemma expect_ends:
  assumes "runs tok p (token_step p)"
    and "\<And>p'. rinv (rp_reader p') \<Longrightarrow> length (left p') \<le> length (left p) \<Longrightarrow>
      (t \<in> {T_Colon, T_Space, T_NewLine} \<Longrightarrow> length (left p') < length (left p)) \<Longrightarrow>
      runs rest p' (parse_step p D F)"
    and "\<And>p'. \<not> D (Ret P_Error) p'"
  shows "runs (expect tok t rest) p (parse_step p D F)"
  by (rule runs_expect [OF assms(1)]) (use assms(2,3) in \<open>auto simp: parse_step_def\<close>)

lemma set_request_ends:
  assumes "\<And>r. runs rest (p\<lparr>rp_request := r\<rparr>) (parse_step p0 D F)"
    and "rinv (rp_reader p)" and "length (left p) \<le> length (left p0)"
    and "\<And>e. f (rp_value p) (rp_request p) = Raise e \<Longrightarrow> e \<in> F" and "\<And>e p'. \<not> D (Raise e) p'"
  shows "runs (set_request f rest) p (parse_step p0 D F)"
  by (rule runs_set_request) (use assms in \<open>auto simp: parse_step_def\<close>)

abbreviation within :: "'r RequestParser \<Rightarrow> fault set \<Rightarrow> 'a outcome \<Rightarrow> 'r RequestParser \<Rightarrow> bool" where
  "within p F \<equiv> parse_step p (\<lambda>oc p'. False) F"

lemma cond_ends:
  assumes "rinv (rp_reader p)" and "length (left p) \<le> length (left p0)" and "runs m p (within p0 F)"
  shows "runs (\<lambda>p. if b p then ret st p else m p) p (within p0 F)"
  using assms by (simp add: parse_step_def)

lemma expect_within:
  assumes "runs tok p (token_step p)" and "length (left p) \<le> length (left p0)"
    and "\<And>p'. rinv (rp_reader p') \<Longrightarrow> length (left p') \<le> length (left p0) \<Longrightarrow> runs rest p' (within p0 F)"
  shows "runs (expect tok t rest) p (within p0 F)"
  by (rule runs_expect [OF assms(1)]) (use assms(2,3) in \<open>auto simp: parse_step_def\<close>)

lemma set_request_within:
  assumes "rinv (rp_reader p)" and "length (left p) \<le> length (left p0)"
    and "\<And>v r e. f v r = Raise e \<Longrightarrow> e \<in> F"
    and "\<And>p'. rinv (rp_reader p') \<Longrightarrow> length (left p') \<le> length (left p0) \<Longrightarrow> runs rest p' (within p0 F)"
  shows "runs (set_request f rest) p (within p0 F)"
  by (rule runs_set_request) (use assms in \<open>auto simp: parse_step_def\<close>)

lemma ret_within:
  "rinv (rp_reader p) \<Longrightarrow> length (left p) \<le> length (left p0) \<Longrightarrow> runs (ret x) p (within p0 F)"
  by (simp add: parse_step_def)

lemma ParseStartLine_ends:
  assumes "rinv (rp_reader p)"
  shows "runs (rp_ParseStartLine rd) p (within p path_faults)"
  unfolding rp_ParseStartLine_def
  by (rule expect_within cond_ends set_request_within ret_within NextToken_ends assms order_refl |
      assumption | erule CleanPath_set_faults outcome.distinct(1) [THEN notE])+

lemma ParseHeader_ends:
  assumes "rinv (rp_reader p)"
  shows "runs (rp_ParseHeader rd) p (parse_step p (\<lambda>oc p'. oc = Ret P_Ok) stoi_faults)"
  unfolding rp_ParseHeader_def
proof (rule runs_andThen [OF NextToken_ends [OF assms]], goal_cases)
  case (1 x p1)
  then have p1: "rinv (rp_reader p1)" "length (left p1) \<le> length (left p)" by (auto simp: parse_step_def)
  have "runs (expect (rp_NextToken rd) T_Colon
        (expect (rp_NextToken rd) T_Space
        (expect (rp_NextString rd) T_String
        (set_request (store_field (rp_value p1))
        (expect (rp_NextToken rd) T_NewLine (ret P_Ok)))))) p1
      (parse_step p (\<lambda>oc p'. oc = Ret P_Ok) stoi_faults)"
  proof (rule runs_expect [OF NextToken_ends [OF p1(1)]], goal_cases)
    case (1 p2)
    then have p2: "rinv (rp_reader p2)" "length (left p2) < length (left p)"
      using p1 by (auto simp: parse_step_def)
    have "runs (expect (rp_NextToken rd) T_Space
        (expect (rp_NextString rd) T_String
        (set_request (store_field (rp_value p1))
        (expect (rp_NextToken rd) T_NewLine (ret P_Ok))))) p2 (within p2 stoi_faults)"
      by (rule expect_within cond_ends set_request_within ret_within NextToken_ends NextString_ends p2(1)
          order_refl store_field_faults | assumption)+
    then show ?case by (rule runs_weaken) (use p2 in \<open>auto simp: parse_step_def\<close>)
  qed (use p1 in \<open>auto simp: parse_step_def\<close>)
  then show ?case unfolding runs_cond runs_let using p1 by (simp add: parse_step_def)
qed (auto simp: parse_step_def)

lemma header_loop_ends:
  assumes "rinv (rp_reader p)"
  shows "runs (header_loop rd st) p (\<lambda>oc p'. within p stoi_faults oc p' \<and> oc \<noteq> Ret P_Ok)"
  using assms
proof (induction "length (left p)" arbitrary: p st rule: less_induct)
  case less
  show ?case
  proof (cases "st = P_Ok")
    case True
    show ?thesis unfolding True header_loop_Ok
    proof (rule runs_andThen [OF ParseHeader_ends [OF less.prems]], goal_cases)
      case (1 st p1)
      show ?case
      proof (cases "st = P_Ok")
        case True
        with 1 have "rinv (rp_reader p1)" "length (left p1) < length (left p)" by (auto simp: parse_step_def)
        with less.hyps [of p1 st] show ?thesis by (auto simp: parse_step_def elim: runs_weaken)
      next
        case False
        with 1 show ?thesis by (auto simp: runs_def header_loop_done parse_step_def)
      qed
    qed (auto simp: parse_step_def)
  next
    case False
    with less.prems show ?thesis by (simp add: runs_def header_loop_done parse_step_def)
  qed
qed

text \<open>The whole parse, over any block read.\<close>

lemma Parse_ends:
  assumes "rinv r"
  shows "runs (rp_Parse rd rblk) (RequestParser_new r r0) (\<lambda>oc p.
    oc \<in> Ret ` {0, 2, 3, 4, 5} \<or>
    (\<exists>e. oc = Raise e \<and> (e \<in> path_faults \<union> stoi_faults \<or> (\<exists>r n r'. rblk r n = (Raise e, r')))))"
    (is "runs _ _ ?Q")
proof -
  let ?p = "RequestParser_new r r0"
  have p: "rinv (rp_reader ?p)" using assms by (simp add: RequestParser_new_def)
  have body: "runs (rp_ParseBody rblk) q (\<lambda>oc p. oc \<in> Ret ` {P_Ok, P_Error} \<or>
      (\<exists>e. oc = Raise e \<and> (\<exists>r n r'. rblk r n = (Raise e, r'))))" for q
    by (auto simp: runs_def rp_ParseBody_def Let_def split: prod.splits outcome.splits)
  have hdr: "runs (andThen (rp_ParseHeader rd) (header_loop rd)) q
      (\<lambda>oc p'. within q stoi_faults oc p' \<and> oc \<noteq> Ret P_Ok)" if "rinv (rp_reader q)" for q
    using header_loop_ends [OF that, of P_Ok] by (simp add: header_loop_Ok)
  have after: "runs (\<lambda>p. if ContentLength (rp_request p) > 0
           then if ContentLength (rp_request p) > 4096 then ret 4 p
             else andThen (rp_ParseBody rblk) (\<lambda>st. if st \<noteq> P_Ok then ret 5 else ret 0) p
           else ret 0 p) q ?Q" for q
    by (auto intro: runs_andThen [OF body])
  show ?thesis
    unfolding rp_Parse_def
  proof (rule runs_andThen [OF ParseStartLine_ends [OF p]], goal_cases)
    case (1 st p1)
    then have p1: "rinv (rp_reader p1)" by (simp add: parse_step_def)
    have "runs (andThen (andThen (rp_ParseHeader rd) (header_loop rd)) (\<lambda>status.
         if status = P_Error then ret 3
         else (\<lambda>p.
           if ContentLength (rp_request p) > 0
           then if ContentLength (rp_request p) > 4096 then ret 4 p
             else andThen (rp_ParseBody rblk) (\<lambda>st. if st \<noteq> P_Ok then ret 5 else ret 0) p
           else ret 0 p))) p1 ?Q"
    proof (rule runs_andThen [OF hdr [OF p1]], goal_cases)
      case (1 status p2)
      show ?case
      proof (cases "status = P_Error")
        case False
        with after [of p2] show ?thesis by (simp only: if_False)
      qed simp
    qed (auto simp: parse_step_def)
    then show ?case by (cases "st = P_Ok") simp_all
  qed (auto simp: parse_step_def)
qed

text \<open>An exception in the first header line is the result of the parse.\<close>

lemma parse_header_throws:
  assumes "rinv (rp_reader p)" and m: "m \<in> {GET, POST}" and clean: "CleanPath path = Ret q"
    and path: "path \<noteq> []" "\<forall>c \<in> set path. plain token_chars c"
    and l: "left p = HttpMethodToString m @ SPACE @ path @ SPACE @ HTTP_VERSION @ NEW_LINE @ header_line k v @ ys"
    and ok: "sync_header_ok (k, v)" and throws: "\<And>r. store_field k v r = Raise e"
  shows "runs (rp_Parse rd rblk) p (\<lambda>oc p'. oc = Raise e)"
  unfolding rp_Parse_def
proof (rule runs_andThen [OF ParseStartLine_line [OF assms(1) m l path clean]], goal_cases)
  case (1 st p1)
  then have p1: "st = P_Ok" "rinv (rp_reader p1)" "left p1 = header_line k v @ ys"
    by (auto simp: line_read_def)
  have "runs (andThen (rp_ParseHeader rd) (header_loop rd)) p1 (\<lambda>oc p'. oc = Raise e)"
    by (rule runs_andThen [OF ParseHeader_stores [OF p1(2), of "unpadded (k, v)" ys k v]]) (simp_all add: throws p1(3) ok)
  then show ?case
    unfolding p1(1) by (simp, rule runs_andThen) simp_all
qed (auto simp: line_read_def)

end

lemma reader_ReadLoop_faults:
  "reader_ReadLoop sread len remaining acc r = (Raise e, r') \<Longrightarrow>
    e = Undefined ''memcpy past the end of the buffer''"
proof (induction sread len remaining acc r rule: reader_ReadLoop.induct)
  case (1 sread len remaining acc r)
  then show ?case
    by (subst (asm) reader_ReadLoop.simps) (auto simp: Let_def split: if_splits)
qed

lemma reader_ReadBlock_faults:
  "reader_ReadBlock sread r len = (Raise e, r') \<Longrightarrow> e = Undefined ''memcpy past the end of the buffer''"
  by (auto simp: reader_ReadBlock_def dest: reader_ReadLoop_faults split: if_splits prod.splits outcome.splits)

section \<open>\<open>ParseHttpRequest\<close> over a stream\<close>

lemma ParseHttpRequest_runs:
  assumes "runs (rp_Parse (reader_Read sread) (reader_ReadBlock sread))
      (RequestParser_new (BufferedStreamReader_new s) r0) (\<lambda>oc p. Q oc (rp_request p))"
  shows "\<exists>oc s' r. ParseHttpRequest sread s r0 = Some (oc, s', r) \<and> Q oc r"
  using assms by (auto simp: runs_def ParseHttpRequest_def)

context byte_source
begin

lemma parse_http_total:
  assumes "sinv s"
  shows "\<exists>oc s' r. ParseHttpRequest sread s r0 = Some (oc, s', r) \<and>
    (oc \<in> Ret ` {0, 2, 3, 4, 5} \<or>
     oc \<in> Raise ` (stoi_faults \<union> path_faults \<union> {Undefined ''memcpy past the end of the buffer''}))"
proof (rule ParseHttpRequest_runs, rule runs_weaken)
  show "runs (rp_Parse (reader_Read sread) (reader_ReadBlock sread))
      (RequestParser_new (BufferedStreamReader_new s) r0) (\<lambda>oc p.
    oc \<in> Ret ` {0, 2, 3, 4, 5} \<or> (\<exists>e. oc = Raise e \<and> (e \<in> path_faults \<union> stoi_faults \<or>
      (\<exists>r n r'. reader_ReadBlock sread r n = (Raise e, r')))))"
    by (rule chars.Parse_ends) (use assms in simp)
qed (auto dest: reader_ReadBlock_faults)

lemma parse_http_printed:
  assumes "sinv s" and "pending s = HttpRequest_ToString iter q" and "sync_printable q" and "iteration iter"
    and "Headers r0 = []" "ContentType r0 = []" "ContentLength r0 = 0" "Body r0 = []"
  shows "\<exists>s'. ParseHttpRequest sread s r0 = Some (Ret 0, s',
    q\<lparr>Host := (if Host q = [] then Host r0 else Host q), Headers := iter (Headers q)\<rparr>)"
  using ParseHttpRequest_runs [OF blocks.parse_printed [of "BufferedStreamReader_new s" iter q r0]] assms
  by auto

lemma parse_http_throws:
  assumes "sinv s" and "m \<in> {GET, POST}" and "CleanPath path = Ret q"
    and "path \<noteq> []" "\<forall>c \<in> set path. plain token_chars c"
    and "pending s = HttpMethodToString m @ SPACE @ path @ SPACE @ HTTP_VERSION @ NEW_LINE @ header_line k v @ ys"
    and "sync_header_ok (k, v)" and "\<And>r. store_field k v r = Raise e"
  shows "\<exists>s' r. ParseHttpRequest sread s r0 = Some (Raise e, s', r)"
proof -
  let ?p = "RequestParser_new (BufferedStreamReader_new s) r0"
  have p: "reader_inv pending sinv (rp_reader ?p)"
    "chars.left ?p = HttpMethodToString m @ SPACE @ path @ SPACE @ HTTP_VERSION @ NEW_LINE @ header_line k v @ ys"
    using assms by (simp_all add: RequestParser_new_def parser_unread_def)
  from ParseHttpRequest_runs [OF chars.parse_header_throws [OF p(1) assms(2-5) p(2) assms(7,8)]]
  show ?thesis by blast
qed

lemma parse_http_path:
  assumes "sinv s" and m: "m \<in> {GET, POST}"
    and l: "pending s = HttpMethodToString m @ SPACE @ path @ c # ys" and c: "c \<in> set token_chars"
    and path: "path \<noteq> []" "\<forall>c \<in> set path. plain token_chars c"
  shows "CleanPath path = Raise e \<Longrightarrow>
      \<exists>s' r. ParseHttpRequest sread s r0 = Some (Raise e, s', r)"
    and "CleanPath path = Ret q \<Longrightarrow> c = CHR '':'' \<Longrightarrow>
      \<exists>s' r. ParseHttpRequest sread s r0 = Some (Ret 2, s', r)"
proof -
  let ?p = "RequestParser_new (BufferedStreamReader_new s) r0"
  have p: "reader_inv pending sinv (rp_reader ?p)"
    "chars.left ?p = HttpMethodToString m @ SPACE @ path @ c # ys"
    using assms by (simp_all add: RequestParser_new_def parser_unread_def)
  note start = chars.ParseStartLine_path [OF p(1) m p(2) c path]
  show "\<exists>s' r. ParseHttpRequest sread s r0 = Some (Raise e, s', r)" if "CleanPath path = Raise e"
    using ParseHttpRequest_runs [of sread s r0 "\<lambda>oc r. oc = Raise e"] start [of "Raise e"] that
    unfolding rp_Parse_def by (force intro: runs_andThen)
  show "\<exists>s' r. ParseHttpRequest sread s r0 = Some (Ret 2, s', r)"
    if "CleanPath path = Ret q" and "c = CHR '':''"
    using ParseHttpRequest_runs [of sread s r0 "\<lambda>oc r. oc = Ret 2"] start [of "Ret P_Error"] that
    unfolding rp_Parse_def by (force intro: runs_andThen)
qed

end

section \<open>Properties\<close>



text \<open>
  C12: parse after print. A request in the parser's grammar (method GET or POST, a clean path without
  blanks and colons, header values that do not start with a blank, a body of at most 4096 bytes that ends
  the stream), printed by \<open>HttpRequest::ToString\<close> with the header map in any order, is read back with
  code 0 and every member as it was; only the order of the header map and, when the request names no host,
  the default host differ.
\<close>

theorem sync_parse_print_roundtrip:
  assumes "byte_source sread pending sinv" and "sinv s" and "pending s = HttpRequest_ToString iter q"
    and "sync_printable q" and "iteration iter"
  shows "\<exists>s'. ParseHttpRequest sread s (HttpRequest_zero\<lparr>Host := h\<rparr>) = Some (Ret 0, s',
    q\<lparr>Host := (if Host q = [] then h else Host q), Headers := iter (Headers q)\<rparr>)"
  using byte_source.parse_http_printed [OF assms, of "HttpRequest_zero\<lparr>Host := h\<rparr>"]
  by (cases "Host q = []") (simp_all add: HttpRequest_zero_def)

definition sample_sync :: HttpRequest where
  "sample_sync = \<lparr>Method = POST, Version = HTTP_1_1, ContentLength = 5, Path = ''/echo'',
     Host = ''localhost:8080'', ContentType = ''text/plain'', Headers = [(''Accept'', ''*'')],
     Body = ''hello''\<rparr>"

lemma sync_parse_print_roundtrip_witness:
  "\<exists>s'. ParseHttpRequest BufferInputStream_Read
      (BufferInputStream_new (HttpRequest_ToString (\<lambda>hs. hs) sample_sync)) HttpRequest_zero =
    Some (Ret 0, s', sample_sync)"
proof -
  have "sync_printable sample_sync" by code_simp
  from sync_parse_print_roundtrip [OF bis.byte_source_axioms _ _ this iteration_id,
      of "BufferInputStream_new (HttpRequest_ToString (\<lambda>hs. hs) sample_sync)" "[]"]
  show ?thesis by (simp add: HttpRequest_zero_def sample_sync_def)
qed

text \<open>
  A request for the root path has no defined behaviour. For every stream that starts with
  \<open>GET /\<close> (or \<open>POST //\<close>, any number of slashes) and a blank, whatever follows, the parser calls
  \<open>CleanPath\<close>, whose second loop removes the last slash and then asks for \<open>back()\<close> of the empty string.
\<close>

theorem root_request_undefined:
  assumes "byte_source sread pending sinv" and "sinv s" and "m \<in> {GET, POST}" and "0 < n"
    and "pending s = HttpMethodToString m @ SPACE @ replicate n (CHR ''/'') @ SPACE @ rest"
  shows "\<exists>s' r. ParseHttpRequest sread s r0 = Some (Raise (Undefined ''back() of an empty string''), s', r)"
proof -
  have "CleanPath (replicate n (CHR ''/'')) = Raise (Undefined ''back() of an empty string'')"
    using assms(4) by (auto simp: CleanPath_cases)
  then show ?thesis
    using byte_source.parse_http_path(1) [OF assms(1-3), of "replicate n (CHR ''/'')" "CHR '' ''" rest] assms(4,5)
    by (auto simp: SPACE_def plain_def token_chars_def CR_def LF_def)
qed

lemma root_request_undefined_witness:
  "\<exists>s' r. ParseHttpRequest BufferInputStream_Read
      (BufferInputStream_new (''GET / HTTP/1.1'' @ [CR, LF, CR, LF])) HttpRequest_zero =
    Some (Raise (Undefined ''back() of an empty string''), s', r)"
  using root_request_undefined [OF bis.byte_source_axioms, of "BufferInputStream_new (''GET / HTTP/1.1'' @ [CR, LF, CR, LF])"
      GET 1 "''HTTP/1.1'' @ [CR, LF, CR, LF]"] by (simp add: SPACE_def)

end
