(* ===== verification/Http_Context.thy ===== *)
theory Http_Context
  imports Parser_Async Sync_Runs Network
begin

text \<open>
  The constructors of \<open>minet/src/core/HttpContext.cpp\<close>: \<open>CreateHttpContext\<close> over a socket,
  \<open>DestroyHttpContext\<close> and \<open>AsyncHttpContextBuilder\<close>, which feeds the asynchronous parser from a
  buffered reader. A context's two \<open>BodyStream\<close> references are the same object in every constructor; the
  model carries it once.
\<close>

section \<open>Contexts\<close>

record 's HttpContext =
  Request :: HttpRequest
  Response :: HttpResponse
  BodyStream :: 's

definition HttpContext_new :: "string \<Rightarrow> 's \<Rightarrow> 's HttpContext" where
  "HttpContext_new host stream =
     \<lparr>Request = HttpRequest_zero\<lparr>Host := host\<rparr>, Response = HttpResponse_zero\<lparr>StatusCode := 200\<rparr>,
      BodyStream = stream\<rparr>"

text \<open>
  \<open>CreateHttpContext\<close>: the result of the parse and, when it is 0, the context. On every other result the
  context is dropped; the stream object has no destructor, so its descriptor stays open.
\<close>

definition create_context ::
    "'k net_ops \<Rightarrow> string \<Rightarrow> int \<Rightarrow> 'k \<Rightarrow> (int outcome \<times> 'k SocketStream HttpContext option \<times> 'k) option" where
  "create_context net host fd k =
     (let ctx = HttpContext_new host (SocketStream_new fd k) in
      case ParseHttpRequest (SocketStream_Read net) (BodyStream ctx) (Request ctx) of
        None \<Rightarrow> None
      | Some (res, stream, request) \<Rightarrow>
          Some (res, if res = Ret 0 then Some (ctx\<lparr>Request := request, BodyStream := stream\<rparr>) else None,
            ss_kernel stream))"

definition CreateHttpContext_data ::
    "'k net_ops \<Rightarrow> AcceptData \<Rightarrow> 'k \<Rightarrow> (int outcome \<times> 'k SocketStream HttpContext option \<times> 'k) option" where
  "CreateHttpContext_data net data = create_context net (AddressToHost (sin_addr data) (sin_port data)) (SocketFd data)"

definition CreateHttpContext_fd ::
    "'k net_ops \<Rightarrow> int \<Rightarrow> 'k \<Rightarrow> (int outcome \<times> 'k SocketStream HttpContext option \<times> 'k) option" where
  "CreateHttpContext_fd net fd = create_context net ''unknown'' fd"

text \<open>Both references are closed; \<open>close\<close> is the stream's own \<open>Close\<close>.\<close>

definition DestroyHttpContext :: "('s \<Rightarrow> int \<times> 's) \<Rightarrow> 's HttpContext \<Rightarrow> int \<times> 's HttpContext" where
  "DestroyHttpContext close ctx =
     (let (r1, s1) = close (BodyStream ctx); (r2, s2) = close s1 in
      (if r1 = 0 \<and> r2 = 0 then 1 else 0, ctx\<lparr>BodyStream := s2\<rparr>))"

section \<open>The asynchronous builder\<close>

text \<open>The parser works on the request of the context (\<open>_parser(&(_context->Request))\<close>), the reader on its stream.\<close>

record 'k AsyncHttpContextBuilder =
  cb_parser :: AsyncHttpRequestParser
  cb_response :: HttpResponse
  cb_reader :: "'k SocketStream BufferedStreamReader"

definition AsyncHttpContextBuilder_new :: "AcceptData \<Rightarrow> 'k \<Rightarrow> 'k AsyncHttpContextBuilder" where
  "AsyncHttpContextBuilder_new data k =
     \<lparr>cb_parser = AsyncHttpRequestParser_new
        (HttpRequest_zero\<lparr>Host := AddressToHost (sin_addr data) (sin_port data)\<rparr>),
      cb_response = HttpResponse_zero\<lparr>StatusCode := 200\<rparr>,
      cb_reader = BufferedStreamReader_new (SocketStream_new (SocketFd data) k)\<rparr>"

definition builder_GetContext :: "'k AsyncHttpContextBuilder \<Rightarrow> 'k SocketStream HttpContext" where
  "builder_GetContext b =
     \<lparr>Request = ap_request (cb_parser b), Response = cb_response b, BodyStream = br_stream (cb_reader b)\<rparr>"

text \<open>The loop, over any reader: the last character read and its state with the parser's.\<close>

partial_function (option) builder_loop ::
    "('r \<Rightarrow> int \<times> 'r) \<Rightarrow> int \<Rightarrow> (AsyncHttpRequestParser \<times> 'r, int) action" where
  "builder_loop rd ch s =
     (if ch > 0
      then case Feed (fst s) (int_ch ch) of
          (Raise e, p) \<Rightarrow> Some (Raise e, (p, snd s))
        | (Ret r, p) \<Rightarrow>
            if r < 0 then Some (Ret r, (p, snd s))
            else if r = 1 then Some (Ret 1, (p, snd s))
            else case rd (snd s) of (ch', rdr) \<Rightarrow> builder_loop rd ch' (p, rdr)
      else if ch = StreamStatus_EndOfFile then Some (Ret StreamStatus_EndOfFile, s)
      else if ch = StreamStatus_Error then Some (Ret StreamStatus_Error, s)
      else Some (Ret 0, s))"

definition builder_Parse ::
    "'k net_ops \<Rightarrow> 'k AsyncHttpContextBuilder \<Rightarrow> (int outcome \<times> 'k AsyncHttpContextBuilder) option" where
  "builder_Parse net b =
     (let (ch, rdr) = reader_Read (SocketStream_Read net) (cb_reader b) in
      case builder_loop (reader_Read (SocketStream_Read net)) ch (cb_parser b, rdr) of
        None \<Rightarrow> None
      | Some (res, p, rdr') \<Rightarrow> Some (res, b\<lparr>cb_parser := p, cb_reader := rdr'\<rparr>))"

section \<open>What the builder does with its input\<close>

text \<open>
  The loop stops at the first character that is not positive. Two such bytes have the value of a stream
  status: \<open>0xFF\<close> is the end of the stream, \<open>0xFD\<close> is \<open>StreamStatus::Error\<close>; every other one is
  "not completed yet". The byte itself is gone.
\<close>

fun stop_code :: "string \<Rightarrow> int" where
  "stop_code [] = StreamStatus_EndOfFile"
| "stop_code (c # cs) =
     (if c = CHR 0xFF then StreamStatus_EndOfFile
      else if c = CHR 0xFD then StreamStatus_Error else 0)"

definition builder_result :: "AsyncHttpRequestParser \<Rightarrow> string \<Rightarrow> int outcome \<times> AsyncHttpRequestParser \<times> string" where
  "builder_result p us =
     (case feed_string p (takeWhile is_ascii us) of
        (oc, p1, rest) \<Rightarrow>
          if oc \<noteq> Ret 0 then (oc, p1, rest @ dropWhile is_ascii us)
          else (Ret (stop_code (dropWhile is_ascii us)), p1, tl (dropWhile is_ascii us)))"

lemma ch_int_m3: "ch_int c = - 3 \<longleftrightarrow> c = CHR 0xFD"
proof -
  have "ch_int (CHR 0xFD) = - 3" by (simp add: ch_int_def)
  then show ?thesis by (metis ch_int_inject)
qed

lemma builder_result_stop:
  "\<not> is_ascii c \<Longrightarrow> builder_result p (c # us) = (Ret (stop_code (c # us)), p, us)"
  by (simp add: builder_result_def)

lemma builder_result_ascii:
  "is_ascii c \<Longrightarrow> builder_result p (c # us) =
    (case Feed p c of
        (Raise e, p1) \<Rightarrow> (Raise e, p1, us)
      | (Ret v, p1) \<Rightarrow> if v < 0 then (Ret v, p1, us) else if v = 1 then (Ret 1, p1, us)
          else builder_result p1 us)"
  by (auto simp: builder_result_def split: prod.splits outcome.splits)

context char_reader
begin

lemma builder_loop_result:
  assumes "rinv r" and "rd r = (ch, r1)" and "builder_result p (unread r) = (oc, p', rest)"
  shows "\<exists>r'. builder_loop rd ch (p, r1) = Some (oc, (p', r')) \<and> rinv r' \<and> unread r' = rest"
  using assms
proof (induction "unread r" arbitrary: r r1 ch p)
  case Nil
  with rd_nil [of r] show ?case
    by (auto simp: builder_loop.simps [of rd "- 1"] builder_result_def)
next
  case (Cons c us)
  from rd_cons [OF Cons.prems(1) Cons.hyps(2) [symmetric]] Cons.prems(2)
  have r1: "ch = ch_int c" "rinv r1" "unread r1 = us" by auto
  note res = Cons.prems(3) [folded Cons.hyps(2)]
  show ?case
  proof (cases "is_ascii c")
    case False
    then have "ch_int c \<noteq> 0 \<longrightarrow> ch_int c < 0" "\<not> ch_int c > 0" by (simp_all add: is_ascii_def)
    with False res r1 ch_int_m3 [of c] show ?thesis
      by (auto simp: builder_loop.simps [of rd "ch_int c"] builder_result_stop)
  next
    case True
    obtain oc1 p1 where f: "Feed p c = (oc1, p1)" by (cases "Feed p c")
    obtain ch2 r2 where n: "rd r1 = (ch2, r2)" by (cases "rd r1")
    from True have pos: "ch_int c > 0" by (simp add: is_ascii_def)
    show ?thesis
    proof (cases "\<exists>v. oc1 = Ret v \<and> \<not> v < 0 \<and> v \<noteq> 1")
      case True
      then obtain v where v: "oc1 = Ret v" "\<not> v < 0" "v \<noteq> 1" by blast
      have "builder_result p1 (unread r1) = (oc, p', rest)"
        using res \<open>is_ascii c\<close> f v r1 by (simp add: builder_result_ascii)
      from Cons.hyps(1) [OF r1(3) [symmetric] r1(2) n this] f v pos r1(1) n show ?thesis
        by (simp add: builder_loop.simps [of rd "ch_int c"])
    next
      case False
      with res \<open>is_ascii c\<close> f r1 pos show ?thesis
        by (cases oc1) (auto simp: builder_result_ascii builder_loop.simps [of rd "ch_int c"] split: if_splits)
    qed
  qed
qed

end

context byte_source
begin

lemma builder_reader_result:
  assumes "reader_inv pending sinv r" and "builder_result p (reader_unread pending r) = (oc, p', rest)"
    and "reader_Read sread r = (ch, r1)"
  shows "\<exists>r'. builder_loop (reader_Read sread) ch (p, r1) = Some (oc, (p', r')) \<and>
    reader_inv pending sinv r' \<and> reader_unread pending r' = rest"
  by (rule chars.builder_loop_result [OF assms(1,3,2)])

end

lemma builder_Parse_result:
  assumes "byte_source (SocketStream_Read net) pending sinv"
    and "reader_inv pending sinv (cb_reader b)"
    and "builder_result (cb_parser b) (reader_unread pending (cb_reader b)) = (oc, p, rest)"
  shows "\<exists>b'. builder_Parse net b = Some (oc, b') \<and> cb_parser b' = p \<and> cb_response b' = cb_response b \<and>
    reader_inv pending sinv (cb_reader b') \<and> reader_unread pending (cb_reader b') = rest"
proof -
  obtain ch r1 where r: "reader_Read (SocketStream_Read net) (cb_reader b) = (ch, r1)"
    by (cases "reader_Read (SocketStream_Read net) (cb_reader b)")
  from byte_source.builder_reader_result [OF assms(1) assms(2,3) r] r show ?thesis
    by (auto simp: builder_Parse_def)
qed

lemma builder_parse_printed:
  assumes "byte_source (SocketStream_Read net) pending sinv"
    and "sinv (SocketStream_new (SocketFd data) k)"
    and "pending (SocketStream_new (SocketFd data) k) = HttpRequest_ToString iter q @ later"
    and "async_printable q" and "iteration iter" and "Host q \<noteq> []"
    and "\<forall>c \<in> set (HttpRequest_ToString iter q). is_ascii c"
  shows "\<exists>b'. builder_Parse net (AsyncHttpContextBuilder_new data k) = Some (Ret 1, b') \<and>
    Request (builder_GetContext b') = q\<lparr>Headers := iter (Headers q)\<rparr> \<and>
    Response (builder_GetContext b') = HttpResponse_zero\<lparr>StatusCode := 200\<rparr> \<and>
    reader_unread pending (cb_reader b') = later"
proof -
  let ?b = "AsyncHttpContextBuilder_new data k" and ?s = "HttpRequest_ToString iter q"
  let ?r0 = "HttpRequest_zero\<lparr>Host := AddressToHost (sin_addr data) (sin_port data)\<rparr>"
  from async_roundtrip_gen [OF assms(4,5), of ?r0] assms(6) obtain p where
    p: "feed_string (AsyncHttpRequestParser_new ?r0) ?s = (Ret 1, p, [])"
       "ap_request p = q\<lparr>Headers := iter (Headers q)\<rparr>"
    by (auto simp: HttpRequest_zero_def)
  have split: "?s @ later = (?s @ takeWhile is_ascii later) @ dropWhile is_ascii later" by simp
  have tk: "takeWhile is_ascii (?s @ later) = ?s @ takeWhile is_ascii later"
    "dropWhile is_ascii (?s @ later) = dropWhile is_ascii later"
    using assms(7) by (simp_all add: takeWhile_append dropWhile_append)
  have fed: "feed_string (cb_parser ?b) (takeWhile is_ascii (?s @ later)) = (Ret 1, p, takeWhile is_ascii later)"
    unfolding tk using p(1) feed_stopped [of _ ?s "Ret 1" p "[]" "takeWhile is_ascii later"]
    by (simp add: AsyncHttpContextBuilder_new_def)
  have "builder_result (cb_parser ?b) (?s @ later) = (Ret 1, p, later)"
    using fed by (simp add: builder_result_def tk)
  moreover have "reader_inv pending sinv (cb_reader ?b)" "reader_unread pending (cb_reader ?b) = ?s @ later"
    using assms(2,3) by (simp_all add: AsyncHttpContextBuilder_new_def)
  ultimately obtain b' where "builder_Parse net ?b = Some (Ret 1, b')" "cb_parser b' = p"
      "cb_response b' = cb_response ?b" "reader_unread pending (cb_reader b') = later"
    using builder_Parse_result [OF assms(1), of ?b] by metis
  with p(2) show ?thesis
    by (auto simp: builder_GetContext_def AsyncHttpContextBuilder_new_def)
qed

section \<open>A socket that has nothing more to say\<close>

text \<open>The first \<open>m\<close> characters of the endless repetition of \<open>seg\<close>.\<close>

definition cycle :: "string \<Rightarrow> nat \<Rightarrow> string" where
  "cycle seg m = map (\<lambda>j. seg ! (j mod length seg)) [0..<m]"

lemma cycle_simps [simp]:
  "cycle seg 0 = []" "cycle seg (Suc m) = cycle seg m @ [seg ! (m mod length seg)]"
  by (simp_all add: cycle_def)

text \<open>A reader that has read \<open>seg\<close> as a whole and stands at position \<open>h\<close>, on a socket that answers \<open>EAGAIN\<close>.\<close>

definition stalled_at :: "'k net_ops \<Rightarrow> string \<Rightarrow> nat \<Rightarrow> 'k SocketStream BufferedStreamReader \<Rightarrow> bool" where
  "stalled_at net seg h r \<longleftrightarrow>
     br_head r = h \<and> br_tail r = length seg \<and> br_buffer r = seg \<and> \<not> br_eof r \<and>
     ss_fd (br_stream r) > 0 \<and>
     net_recv net (ss_kernel (br_stream r)) (ss_fd (br_stream r)) 1024 = (SysErr EAGAIN, ss_kernel (br_stream r))"

lemma stalled_read:
  assumes "stalled_at net seg h r" and "h \<le> length seg" and "seg \<noteq> []"
  shows "\<exists>r'. reader_Read (SocketStream_Read net) r = (ch_int (seg ! (h mod length seg)), r') \<and>
    stalled_at net seg (Suc (h mod length seg)) r'"
proof (cases "h = length seg")
  case True
  with assms show ?thesis
    by (auto simp: stalled_at_def reader_Read_def reader_Flush_def reader_query_defs Let_def
        SocketStream_Read_def SocketStream_IsReadable_def reader_sBufferSize_def)
next
  case False
  with assms show ?thesis
    by (auto simp: stalled_at_def reader_Read_def reader_Flush_def reader_query_defs Let_def)
qed

lemma feed_string_Ret0:
  "fst (feed_string p xs) = Ret 0 \<Longrightarrow> \<exists>p'. feed_string p xs = (Ret 0, p', [])"
proof (induction xs arbitrary: p)
  case (Cons x xs)
  then show ?case by (auto split: prod.splits outcome.splits if_splits)
qed simp

lemma builder_loop_stalled:
  assumes run: "\<And>m. fst (feed_string p0 (cycle seg m)) = Ret 0"
    and ascii: "\<forall>c \<in> set seg. is_ascii c" and ne: "seg \<noteq> []"
    and start: "stalled_at net seg (Suc (m mod length seg)) r"
      "feed_string p0 (cycle seg m) = (Ret 0, p, [])"
  shows "builder_loop (reader_Read (SocketStream_Read net)) (ch_int (seg ! (m mod length seg))) (p, r) = None"
proof -
  let ?rd = "reader_Read (SocketStream_Read net)" and ?n = "length seg"
  define P where "P rd ch s y \<longleftrightarrow> (\<forall>m. \<not> (rd = ?rd \<and> ch = ch_int (seg ! (m mod ?n)) \<and>
      feed_string p0 (cycle seg m) = (Ret 0, fst s, []) \<and> stalled_at net seg (Suc (m mod ?n)) (snd s)))"
    for rd ch s and y :: "int outcome \<times> AsyncHttpRequestParser \<times> 'a SocketStream BufferedStreamReader"
  have "P ?rd ch s y" if "builder_loop ?rd ch s = Some y" for ch s y
  proof (rule builder_loop.raw_induct [of P, OF _ that])
    fix loop rd ch s y
    assume IH: "\<And>rd ch s y. loop rd ch s = Some y \<Longrightarrow> P rd ch s y"
      and body: "(if ch > 0
        then case Feed (fst s) (int_ch ch) of
            (Raise e, p) \<Rightarrow> Some (Raise e, (p, snd s))
          | (Ret r, p) \<Rightarrow>
              if r < 0 then Some (Ret r, (p, snd s))
              else if r = 1 then Some (Ret 1, (p, snd s))
              else case rd (snd s) of (ch', rdr) \<Rightarrow> loop rd ch' (p, rdr)
        else if ch = StreamStatus_EndOfFile then Some (Ret StreamStatus_EndOfFile, s)
        else if ch = StreamStatus_Error then Some (Ret StreamStatus_Error, s)
        else Some (Ret 0, s)) = Some y"
    show "P rd ch s y" unfolding P_def
    proof (intro allI notI)
      fix m
      let ?c = "seg ! (m mod ?n)"
      assume at: "rd = ?rd \<and> ch = ch_int ?c \<and>
        feed_string p0 (cycle seg m) = (Ret 0, fst s, []) \<and> stalled_at net seg (Suc (m mod ?n)) (snd s)"
      then have fed: "feed_string p0 (cycle seg m) = (Ret 0, fst s, [])" by simp
      have c: "is_ascii ?c" using ascii ne by simp
      obtain oc p' where f: "Feed (fst s) ?c = (oc, p')" by (cases "Feed (fst s) ?c")
      have "fst (feed_string (fst s) [?c]) = Ret 0"
        using run [of "Suc m"] feed_string_append [OF fed, of "[?c]"] by simp
      with f obtain v where v: "oc = Ret v" "\<not> v < 0" "v \<noteq> 1" "feed_string (fst s) [?c] = (Ret 0, p', [])"
        by (auto split: outcome.splits if_splits)
      have next_fed: "feed_string p0 (cycle seg (Suc m)) = (Ret 0, p', [])"
        using feed_string_append [OF fed, of "[?c]"] v(4) by simp
      have "Suc (m mod ?n) \<le> ?n" using ne by (simp add: Suc_leI)
      from stalled_read [OF _ this ne] at obtain r' where
        r': "rd (snd s) = (ch_int (seg ! (Suc m mod ?n)), r')" "stalled_at net seg (Suc (Suc m mod ?n)) r'"
        by (metis mod_Suc_eq)
      have "loop rd (ch_int (seg ! (Suc m mod ?n))) (p', r') = Some y"
        using body f v r' c at by (simp add: is_ascii_def)
      from IH [OF this] next_fed r'(2) at show False unfolding P_def by (metis fst_conv snd_conv)
    qed
  qed
  with start show ?thesis unfolding P_def by (metis fst_conv not_None_eq snd_conv)
qed

section \<open>Properties\<close>

text \<open>
  C35: \<open>AsyncHttpContextBuilder::Parse\<close> over a blocking socket, exactly: it returns for every input, feeds
  the parser the characters up to the first byte that is not positive, and its result is the parser's
  when the parser stops, and the code of that byte otherwise. In particular a NUL or a byte from \<open>0x80\<close> up
  ends the call and is lost: the next call goes on behind it.
\<close>

theorem builder_parse_exact:
  assumes "byte_source (SocketStream_Read net) pending sinv"
    and "reader_inv pending sinv (cb_reader b)"
    and "reader_unread pending (cb_reader b) = us"
    and "feed_string (cb_parser b) (takeWhile is_ascii us) = (oc, p, rest)"
  shows "\<exists>b'. builder_Parse net b =
      Some (if oc \<noteq> Ret 0 then oc else Ret (stop_code (dropWhile is_ascii us)), b') \<and>
    cb_parser b' = p \<and> reader_inv pending sinv (cb_reader b') \<and>
    reader_unread pending (cb_reader b') =
      (if oc \<noteq> Ret 0 then rest @ dropWhile is_ascii us else tl (dropWhile is_ascii us))"
proof -
  have "builder_result (cb_parser b) us =
      (if oc \<noteq> Ret 0 then oc else Ret (stop_code (dropWhile is_ascii us)), p,
       if oc \<noteq> Ret 0 then rest @ dropWhile is_ascii us else tl (dropWhile is_ascii us))"
    using assms(4) by (simp add: builder_result_def)
  from builder_Parse_result [OF assms(1,2), unfolded assms(3), OF this] show ?thesis by blast
qed

lemma builder_parse_exact_witness:
  "\<exists>b'. builder_Parse peer_net (AsyncHttpContextBuilder_new \<lparr>SocketFd = 7, sin_addr = 0, sin_port = 0\<rparr>
      (peer_new [[CHR 0xC3, CHR ''G'']])) = Some (Ret 0, b') \<and>
    reader_unread sock_pending (cb_reader b') = ''G''"
proof -
  let ?b = "AsyncHttpContextBuilder_new \<lparr>SocketFd = 7, sin_addr = 0, sin_port = 0\<rparr>
      (peer_new [[CHR 0xC3, CHR ''G'']])"
  have "takeWhile is_ascii [CHR 0xC3, CHR ''G''] = []" "dropWhile is_ascii [CHR 0xC3, CHR ''G''] = [CHR 0xC3, CHR ''G'']"
    by code_simp+
  moreover have "reader_inv sock_pending sock_inv (cb_reader ?b)"
    "reader_unread sock_pending (cb_reader ?b) = [CHR 0xC3, CHR ''G'']"
    by (simp_all add: AsyncHttpContextBuilder_new_def sock_inv_def sock_pending_def peer_new_def SocketStream_new_def)
  ultimately show ?thesis
    using builder_parse_exact [OF sock.byte_source_axioms, of ?b "[CHR 0xC3, CHR ''G'']" "Ret 0" "cb_parser ?b" "[]"]
    by auto
qed

text \<open>One call of \<open>Parse\<close> after the other, as the events of the epoll come, and the codes for the bytes that end the calls.\<close>

fun builder_Parses ::
    "'k net_ops \<Rightarrow> nat \<Rightarrow> 'k AsyncHttpContextBuilder \<Rightarrow> (int outcome list \<times> 'k AsyncHttpContextBuilder) option" where
  "builder_Parses net 0 b = Some ([], b)"
| "builder_Parses net (Suc n) b =
     (case builder_Parse net b of
        None \<Rightarrow> None
      | Some (oc, b1) \<Rightarrow> map_option (\<lambda>(ocs, b2). (oc # ocs, b2)) (builder_Parses net n b1))"

fun stop_codes :: "nat \<Rightarrow> string \<Rightarrow> int list" where
  "stop_codes 0 us = []"
| "stop_codes (Suc n) us = stop_code (dropWhile is_ascii us) # stop_codes n (tl (dropWhile is_ascii us))"

lemma stop_codes_cases: "c \<in> set (stop_codes n us) \<Longrightarrow> c \<in> {0, StreamStatus_EndOfFile, StreamStatus_Error}"
proof (induction n arbitrary: us)
  case (Suc n)
  have "stop_code us' \<in> {0, StreamStatus_EndOfFile, StreamStatus_Error}" for us' by (cases us') simp_all
  with Suc show ?case by auto
qed simp

text \<open>Before the end of the input a code is 0, unless the byte looks like a status.\<close>

lemma stop_codes_zero:
  "CHR 0xFF \<notin> set us \<Longrightarrow> CHR 0xFD \<notin> set us \<Longrightarrow> n \<le> length (filter (\<lambda>c. \<not> is_ascii c) us) \<Longrightarrow> stop_codes n us = replicate n 0"
proof (induction n arbitrary: us)
  case (Suc n)
  have "dropWhile is_ascii us \<noteq> []" 
  proof
    assume "dropWhile is_ascii us = []"
    then have "filter (\<lambda>c. \<not> is_ascii c) us = []" by (simp add: dropWhile_eq_Nil_conv filter_empty_conv)
    with Suc.prems(3) show False by simp
  qed
  then obtain c vs where d1: "dropWhile is_ascii us = c # vs" by (cases "dropWhile is_ascii us") simp_all
  then have d: "dropWhile is_ascii us = c # vs" "us = takeWhile is_ascii us @ c # vs"
    using takeWhile_dropWhile_id [of is_ascii us] by simp_all
  have "\<not> is_ascii c" using d(1) by (metis hd_dropWhile list.distinct(1) list.sel(1))
  have "filter (\<lambda>c. \<not> is_ascii c) (takeWhile is_ascii us) = []" by (auto simp: filter_empty_conv dest: set_takeWhileD)
  then have "length (filter (\<lambda>c. \<not> is_ascii c) us) = Suc (length (filter (\<lambda>c. \<not> is_ascii c) vs))"
    using \<open>\<not> is_ascii c\<close> by (subst d(2)) simp
  moreover have "c \<in> set us" "set vs \<subseteq> set us" by (subst d(2), simp, subst d(2), auto)
  ultimately have "stop_codes n vs = replicate n 0" using Suc.prems by (intro Suc.IH) auto
  moreover have "stop_code (c # vs) = 0" using \<open>c \<in> set us\<close> Suc.prems(1,2) by auto
  ultimately show ?case by (simp add: d(1))
qed simp

lemma error_Parse:
  assumes "byte_source (SocketStream_Read net) pending sinv"
    and "reader_inv pending sinv (cb_reader b)" and "reader_unread pending (cb_reader b) = us"
    and "ap_handler (cb_parser b) = S_Error" and "10 \<le> ap_error (cb_parser b)"
  shows "\<exists>b'. builder_Parse net b = Some (Ret (stop_code (dropWhile is_ascii us)), b') \<and> cb_parser b' = cb_parser b \<and>
    reader_inv pending sinv (cb_reader b') \<and> reader_unread pending (cb_reader b') = tl (dropWhile is_ascii us)"
proof -
  have "builder_result (cb_parser b) us = (Ret (stop_code (dropWhile is_ascii us)), cb_parser b, tl (dropWhile is_ascii us))"
    by (simp add: builder_result_def feed_error_stays [OF assms(4,5)])
  from builder_Parse_result [OF assms(1,2), unfolded assms(3), OF this] show ?thesis by blast
qed

text \<open>
  C34: a malformed request is not rejected. Once the parser of a builder is in its error state, every call of
  \<open>Parse\<close> on a socket that keeps the contract of a stream reads on as if the request were not complete, and the state of the parser never changes: however
  often it is called, no call returns 1 or the number of the error, but 0, or the code of the end or of an error of the stream. A
  call stops only at a byte that is not positive. As long as there are such bytes in the input, none of them \<open>0xFF\<close> or
  \<open>0xFD\<close>, which have the codes of the end and of an error, every call returns 0: the server waits for more.
\<close>

theorem malformed_never_rejected:
  assumes "byte_source (SocketStream_Read net) pending sinv"
    and "reader_inv pending sinv (cb_reader b)" and "reader_unread pending (cb_reader b) = us"
    and "parser_reachable (cb_parser b)" and "ap_handler (cb_parser b) = S_Error"
  shows "\<exists>b'. builder_Parses net n b = Some (map Ret (stop_codes n us), b') \<and> cb_parser b' = cb_parser b \<and>
    set (stop_codes n us) \<subseteq> {0, StreamStatus_EndOfFile, StreamStatus_Error} \<and>
    (CHR 0xFF \<notin> set us \<longrightarrow> CHR 0xFD \<notin> set us \<longrightarrow> n \<le> length (filter (\<lambda>c. \<not> is_ascii c) us) \<longrightarrow>
      stop_codes n us = replicate n 0)"
proof -
  have "10 \<le> ap_error (cb_parser b)" using reachable_inv [OF assms(4)] assms(5) by (simp add: ap_inv_def)
  with assms(2,3,5) have "\<exists>b'. builder_Parses net n b = Some (map Ret (stop_codes n us), b') \<and> cb_parser b' = cb_parser b"
  proof (induction n arbitrary: b us)
    case (Suc n)
    from error_Parse [OF assms(1) Suc.prems] obtain b1 where
      b1: "builder_Parse net b = Some (Ret (stop_code (dropWhile is_ascii us)), b1)" "cb_parser b1 = cb_parser b"
        "reader_inv pending sinv (cb_reader b1)" "reader_unread pending (cb_reader b1) = tl (dropWhile is_ascii us)" by blast
    from Suc.IH [OF b1(3,4)] Suc.prems(3,4) b1(1,2) show ?case by auto
  qed simp
  then show ?thesis using stop_codes_cases stop_codes_zero by blast
qed

text \<open>A client sends a request that begins with a question mark, and then waits behind a byte that is not ASCII.\<close>

lemma malformed_never_rejected_witness:
  "\<exists>b p b'. ap_handler (cb_parser b) = S_Error \<and> parser_reachable p \<and> cb_parser b = p \<and>
    builder_Parses peer_net 1 b = Some ([Ret 0], b') \<and> cb_parser b' = p"
proof -
  let ?p0 = "AsyncHttpRequestParser_new HttpRequest_zero" and ?us = "''GET / HTTP/1.1'' @ [CR, LF, CR, LF, CHR 0xC3]"
  have r: "parser_reachable ?p0" by (rule parser_reachable.start) (simp add: HttpRequest_zero_def)
  obtain oc p where f: "Feed ?p0 CHR ''?'' = (oc, p)" and e: "ap_handler p = S_Error"
    by (simp add: Feed_def AsyncHttpRequestParser_new_def ParseStart_def char_simps macro_defs)
  from r f have p: "parser_reachable p" by (blast intro: parser_reachable.step feed_step.fed)
  define b where "b = (AsyncHttpContextBuilder_new \<lparr>SocketFd = 7, sin_addr = 0, sin_port = 0\<rparr> (peer_new [?us]))\<lparr>cb_parser := p\<rparr>"
  have b: "reader_inv sock_pending sock_inv (cb_reader b)" "reader_unread sock_pending (cb_reader b) = ?us" "cb_parser b = p"
    by (simp_all add: b_def AsyncHttpContextBuilder_new_def sock_inv_def sock_pending_def peer_new_def SocketStream_new_def)
  have c: "stop_codes 1 ?us = [0]" by code_simp
  from malformed_never_rejected [OF sock.byte_source_axioms b(1,2) p [folded b(3)] e [folded b(3)], of 1]
  obtain b' where "builder_Parses peer_net 1 b = Some ([Ret 0], b')" "cb_parser b' = p" unfolding c b(3) by auto
  with e p b(3) show ?thesis by blast
qed

text \<open>
  C31: the builder rebuilds a request. When a client sends the printed form of a request that the parser
  can read and whose bytes are all ASCII, in segments of any size, one call of \<open>Parse\<close> returns 1, the
  context holds the request, and nothing more has been taken from the stream.
\<close>

theorem builder_parse_print_roundtrip:
  assumes "byte_source (SocketStream_Read net) pending sinv"
    and "sinv (SocketStream_new (SocketFd data) k)"
    and "pending (SocketStream_new (SocketFd data) k) = HttpRequest_ToString iter q @ later"
    and "async_printable q" and "iteration iter" and "Host q \<noteq> []"
    and "\<forall>c \<in> set (HttpRequest_ToString iter q). is_ascii c"
  shows "\<exists>b'. builder_Parse net (AsyncHttpContextBuilder_new data k) = Some (Ret 1, b') \<and>
    Request (builder_GetContext b') = q\<lparr>Headers := iter (Headers q)\<rparr> \<and>
    StatusCode (Response (builder_GetContext b')) = 200 \<and>
    reader_unread pending (cb_reader b') = later"
  using builder_parse_printed [OF assms] by (auto simp: HttpResponse_zero_def)

lemma builder_parse_print_roundtrip_witness:
  "\<exists>b'. builder_Parse peer_net (AsyncHttpContextBuilder_new \<lparr>SocketFd = 7, sin_addr = 0, sin_port = 0\<rparr>
      (peer_new [HttpRequest_ToString (\<lambda>hs. hs) sample_post])) = Some (Ret 1, b') \<and>
    Request (builder_GetContext b') = sample_post"
proof -
  let ?d = "\<lparr>SocketFd = 7, sin_addr = 0, sin_port = 0\<rparr>"
    and ?k = "peer_new [HttpRequest_ToString (\<lambda>hs. hs) sample_post]"
  have "sock_inv (SocketStream_new (SocketFd ?d) ?k)"
    "sock_pending (SocketStream_new (SocketFd ?d) ?k) = HttpRequest_ToString (\<lambda>hs. hs) sample_post @ []"
    by (simp_all add: sock_inv_def sock_pending_def peer_new_def SocketStream_new_def HttpRequest_ToString_def
        entities_def)
  moreover have "\<forall>c \<in> set (HttpRequest_ToString (\<lambda>hs. hs) sample_post). is_ascii c" by code_simp
  moreover have "Host sample_post \<noteq> []" "sample_post\<lparr>Headers := Headers sample_post\<rparr> = sample_post"
    by (simp_all add: sample_post_def)
  ultimately show ?thesis
    using builder_parse_print_roundtrip [OF sock.byte_source_axioms _ _ sample_post_printable iteration_id,
        of ?d ?k "[]"] by auto
qed

text \<open>
  C36: a builder on a non-blocking socket can spin. If the first segment is read as a whole, the socket
  then has nothing more (\<open>EAGAIN\<close>), and the parser neither completes nor throws on the endless repetition
  of that segment, \<open>Parse\<close> never returns: after \<open>Again\<close> the reader hands out the old bytes once more.
\<close>

theorem builder_spins_on_again:
  assumes "SocketFd data > 0" and "seg \<noteq> []" and "length seg \<le> 1024" and "\<forall>c \<in> set seg. is_ascii c"
    and "net_recv net k (SocketFd data) 1024 = (SysBytes seg, k')"
    and "net_recv net k' (SocketFd data) 1024 = (SysErr EAGAIN, k')"
    and "\<And>m. fst (feed_string (cb_parser (AsyncHttpContextBuilder_new data k)) (cycle seg m)) = Ret 0"
  shows "builder_Parse net (AsyncHttpContextBuilder_new data k) = None"
proof -
  let ?b = "AsyncHttpContextBuilder_new data k"
  obtain r' where r': "reader_Read (SocketStream_Read net) (cb_reader ?b) = (ch_int (seg ! 0), r')"
      "stalled_at net seg 1 r'"
    using assms(1,2,3,5,6)
    by (auto simp: AsyncHttpContextBuilder_new_def BufferedStreamReader_new_def SocketStream_new_def
        reader_Read_def reader_Flush_def reader_query_defs Let_def SocketStream_Read_def
        SocketStream_IsReadable_def reader_sBufferSize_def stalled_at_def)
  have "builder_loop (reader_Read (SocketStream_Read net)) (ch_int (seg ! (0 mod length seg))) (cb_parser ?b, r') = None"
    by (rule builder_loop_stalled [OF assms(7,4,2), of net 0]) (use r'(2) in simp_all)
  then show ?thesis using r' by (simp add: builder_Parse_def)
qed

definition stalled_net :: "bool net_ops" where
  \<comment> \<open>a peer that sends one character and then nothing\<close>
  "stalled_net = \<lparr>net_recv = (\<lambda>k fd n. if k then (SysBytes ''?'', False) else (SysErr EAGAIN, k)),
     net_send = (\<lambda>k fd bs. (Inr (length bs), k)), net_close = (\<lambda>k fd. (0, k))\<rparr>"

lemma builder_spins_on_again_witness:
  "builder_Parse stalled_net (AsyncHttpContextBuilder_new \<lparr>SocketFd = 7, sin_addr = 0, sin_port = 0\<rparr> True) = None"
proof -
  let ?b = "AsyncHttpContextBuilder_new \<lparr>SocketFd = 7, sin_addr = 0, sin_port = 0\<rparr> True"
  have "fst (feed_string (cb_parser ?b) (cycle ''?'' m)) = Ret 0" for m
  proof (cases m)
    case (Suc n)
    have "cycle ''?'' (Suc n) = replicate (Suc n) CHR ''?''"
      by (rule nth_equalityI) (auto simp: cycle_def simp del: upt_Suc replicate_Suc)
    then show ?thesis unfolding Suc
      by (simp add: AsyncHttpContextBuilder_new_def AsyncHttpRequestParser_new_def Feed_def ParseStart_def
          char_simps macro_defs feed_error_stays)
  qed simp
  then show ?thesis
    by (intro builder_spins_on_again [where seg = "''?''" and k' = False])
      (simp_all add: stalled_net_def is_ascii_def ch_int_def)
qed

text \<open>
  C32: the two parsers agree. On the printed form of a request that lies in both grammars the synchronous
  and the asynchronous parser, started on equal requests, succeed with the same request.
\<close>

theorem parsers_agree:
  assumes "byte_source sread pending sinv" and "sinv s" and "pending s = HttpRequest_ToString iter q"
    and "sync_printable q" and "async_printable q" and "iteration iter"
  shows "\<exists>s' p r. ParseHttpRequest sread s (HttpRequest_zero\<lparr>Host := h\<rparr>) = Some (Ret 0, s', r) \<and>
    feed_string (AsyncHttpRequestParser_new (HttpRequest_zero\<lparr>Host := h\<rparr>)) (HttpRequest_ToString iter q) =
      (Ret 1, p, []) \<and> ap_request p = r"
proof -
  let ?r0 = "HttpRequest_zero\<lparr>Host := h\<rparr>"
  have r0: "Headers ?r0 = []" "Body ?r0 = []" "ContentType ?r0 = []" "ContentLength ?r0 = 0"
    by (simp_all add: HttpRequest_zero_def)
  from byte_source.parse_http_printed [OF assms(1,2,3,4,6) r0(1,3,4,2)]
    async_roundtrip_gen [OF assms(5,6) r0(1,2,3)]
  show ?thesis by auto
qed

lemma parsers_agree_witness:
  "\<exists>s' p. ParseHttpRequest BufferInputStream_Read
      (BufferInputStream_new (HttpRequest_ToString (\<lambda>hs. hs) sample_post)) (HttpRequest_zero\<lparr>Host := ''h''\<rparr>) =
        Some (Ret 0, s', ap_request p) \<and>
    feed_string (AsyncHttpRequestParser_new (HttpRequest_zero\<lparr>Host := ''h''\<rparr>))
      (HttpRequest_ToString (\<lambda>hs. hs) sample_post) = (Ret 1, p, [])"
proof -
  have "sync_printable sample_post" by code_simp
  from parsers_agree [OF bis.byte_source_axioms _ _ this sample_post_printable iteration_id]
  show ?thesis by (metis bis_new)
qed

text \<open>
  The two parsers disagree on a path with a colon. A request in the asynchronous grammar whose path
  has a colon behind a part that is a path of its own is accepted by the asynchronous parser, while the
  synchronous one takes the colon for a token and refuses the start line with code 2.
\<close>

theorem parsers_disagree_on_colon:
  assumes "byte_source sread pending sinv" and "sinv s" and "pending s = HttpRequest_ToString iter q"
    and "async_printable q" and "iteration iter" and "Method q \<in> {GET, POST}"
    and "Path q = xs @ CHR '':'' # ys" and "CleanPath xs = Ret p0" and "\<forall>c \<in> set xs. plain token_chars c"
  shows "(\<exists>s' r. ParseHttpRequest sread s (HttpRequest_zero\<lparr>Host := h\<rparr>) = Some (Ret 2, s', r)) \<and>
    (\<exists>p. feed_string (AsyncHttpRequestParser_new (HttpRequest_zero\<lparr>Host := h\<rparr>)) (HttpRequest_ToString iter q) =
      (Ret 1, p, []) \<and> Path (ap_request p) = Path q)"
proof -
  let ?r0 = "HttpRequest_zero\<lparr>Host := h\<rparr>"
  have r0: "Headers ?r0 = []" "Body ?r0 = []" "ContentType ?r0 = []"
    by (simp_all add: HttpRequest_zero_def)
  have "xs \<noteq> []" using assms(8) by (auto simp: CleanPath_def)
  moreover have "\<exists>zs. pending s = HttpMethodToString (Method q) @ SPACE @ xs @ CHR '':'' # zs"
    using assms(3,7) by (simp add: ToString_fields)
  ultimately have "\<exists>s' r. ParseHttpRequest sread s ?r0 = Some (Ret 2, s', r)"
    using byte_source.parse_http_path(2) [OF assms(1,2,6) _ _ _ assms(9,8) refl]
    by (auto simp: token_chars_def)
  with async_roundtrip_gen [OF assms(4,5) r0] show ?thesis by auto
qed

definition sample_colon :: HttpRequest where
  "sample_colon = sample_post\<lparr>Path := ''/a:b''\<rparr>"

lemma parsers_disagree_on_colon_witness:
  "\<exists>s' r. ParseHttpRequest BufferInputStream_Read
      (BufferInputStream_new (HttpRequest_ToString (\<lambda>hs. hs) sample_colon)) (HttpRequest_zero\<lparr>Host := ''h''\<rparr>) =
        Some (Ret 2, s', r)"
proof -
  have "async_printable sample_colon" "\<forall>c \<in> set ''/a''. plain token_chars c" by code_simp+
  moreover have "CleanPath ''/a'' = Ret ''/a''" by code_simp
  ultimately show ?thesis
    using parsers_disagree_on_colon [OF bis.byte_source_axioms, of
        "BufferInputStream_new (HttpRequest_ToString (\<lambda>hs. hs) sample_colon)" "\<lambda>hs. hs" sample_colon
        "''/a''" "''b''" "''/a''"]
    by (simp add: sample_colon_def sample_post_def)
qed

text \<open>
  Destroying a context closes its socket once, although both stream references are closed, and
  returns 1 when the close succeeded and 0 when it failed: the opposite of its documentation.
\<close>

theorem destroy_context_result:
  assumes "ss_fd (BodyStream ctx) > 0"
    and "net_close net (ss_kernel (BodyStream ctx)) (ss_fd (BodyStream ctx)) = (r, k')"
  shows "DestroyHttpContext (SocketStream_Close net) ctx =
    (if r = 0 then 1 else 0, ctx\<lparr>BodyStream := (BodyStream ctx)\<lparr>ss_kernel := k', ss_fd := 0\<rparr>\<rparr>)"
  using assms by (auto simp: DestroyHttpContext_def SocketStream_Close_def Let_def split: prod.splits)

lemma destroy_context_result_witness:
  "fst (DestroyHttpContext (SocketStream_Close peer_net)
     (HttpContext_new ''h'' (SocketStream_new 7 (peer_new [])))) = 1"
  using destroy_context_result [of "HttpContext_new ''h'' (SocketStream_new 7 (peer_new []))" peer_net 0]
  by (simp add: HttpContext_new_def SocketStream_new_def peer_net_def peer_close_def)

end
