(* ===== verification/Queue.thy ===== *)
theory Queue
  imports Prelude
begin

text \<open>
  \<open>minet/src/threading/Queue.h\<close>: the bounded multi-producer multi-consumer queue. One definition,
  \<open>queue_atom\<close>, gives every atomic step of \<open>Push\<close> and \<open>Pop\<close>; running one thread alone gives the
  sequential operations, and interleaving any number of threads gives the concurrent queue. The counters are
  64-bit words. Memory orders are not modelled: the interleavings are sequentially consistent.
\<close>

unbundle bit_operations_syntax

section \<open>State\<close>

type_synonym size_t = "64 word"

record 'a Slot =
  s_Index :: size_t
  s_Data :: 'a

record 'a Queue =
  q_capacity :: size_t
  q_mask :: size_t
  q_slots :: "'a Slot list"
  q_nextEnqueue :: size_t
  q_nextDequeue :: size_t

text \<open>The constructor; \<open>dflt\<close> is the default-constructed \<open>TData\<close>.\<close>

definition Queue_new :: "'a \<Rightarrow> size_t \<Rightarrow> 'a Queue outcome" where
  "Queue_new dflt capacity =
     (if capacity > 0 \<and> (capacity AND (capacity - 1)) = 0
      then Ret \<lparr>q_capacity = capacity, q_mask = capacity - 1,
        q_slots = map (\<lambda>i. \<lparr>s_Index = of_nat i, s_Data = dflt\<rparr>) [0..<unat capacity],
        q_nextEnqueue = 0, q_nextDequeue = 0\<rparr>
      else Raise AssertFailed)"

text \<open>
  The move constructor and the move assignment: the target takes over counters and slots, the moved-from
  queue keeps its counters over an empty vector. The pair is the target and what is left of the source.
\<close>

definition Queue_move :: "'a Queue \<Rightarrow> 'a Queue \<times> 'a Queue" where
  "Queue_move other = (other, other\<lparr>q_slots := []\<rparr>)"

section \<open>The atomic steps\<close>

text \<open>
  Where a thread stands, with its local \<open>next\<close>: before the load of the counter, before the load of the
  slot's index, before the compare-and-swap, before the access to the slot's data, before the store of the
  index, and at the return.
\<close>

datatype ('a, 'n) pc =
    Idle
  | PushLoad 'a | PushLoop 'a 'n | PushCas 'a 'n | PushWrite 'a 'n | PushRelease 'n | PushDone bool
  | PopLoad | PopLoop 'n | PopCas 'n | PopRead 'n | PopRelease 'n 'a | PopDone "'a option"

definition q_slot :: "'a Queue \<Rightarrow> size_t \<Rightarrow> nat" where
  "q_slot q n = unat (n AND q_mask q)"

text \<open>
  One step. \<open>ok\<close> says whether a \<open>compare_exchange_weak\<close> that finds the expected value succeeds (it may
  fail spuriously); a failed one loads the current value into \<open>next\<close>. \<open>moved\<close> is what a move leaves behind.
\<close>

fun queue_atom ::
    "('a \<Rightarrow> 'a) \<Rightarrow> bool \<Rightarrow> 'a Queue \<Rightarrow> ('a, size_t) pc \<Rightarrow> 'a Queue \<times> ('a, size_t) pc" where
  "queue_atom moved ok q (PushLoad d) = (q, PushLoop d (q_nextEnqueue q))"
| "queue_atom moved ok q (PushLoop d n) =
     (let index = s_Index (q_slots q ! q_slot q n) in
      (q, if n = index then PushCas d n else if n > index then PushDone False else PushLoad d))"
| "queue_atom moved ok q (PushCas d n) =
     (if ok \<and> q_nextEnqueue q = n then (q\<lparr>q_nextEnqueue := n + 1\<rparr>, PushWrite d n)
      else (q, PushLoop d (q_nextEnqueue q)))"
| "queue_atom moved ok q (PushWrite d n) =
     (q\<lparr>q_slots := (q_slots q)[q_slot q n := (q_slots q ! q_slot q n)\<lparr>s_Data := d\<rparr>]\<rparr>, PushRelease n)"
| "queue_atom moved ok q (PushRelease n) =
     (q\<lparr>q_slots := (q_slots q)[q_slot q n := (q_slots q ! q_slot q n)\<lparr>s_Index := n + 1\<rparr>]\<rparr>, PushDone True)"
| "queue_atom moved ok q PopLoad = (q, PopLoop (q_nextDequeue q))"
| "queue_atom moved ok q (PopLoop n) =
     (let index = s_Index (q_slots q ! q_slot q n) in
      (q, if n + 1 = index then PopCas n else if n + 1 > index then PopDone None else PopLoad))"
| "queue_atom moved ok q (PopCas n) =
     (if ok \<and> q_nextDequeue q = n then (q\<lparr>q_nextDequeue := n + 1\<rparr>, PopRead n)
      else (q, PopLoop (q_nextDequeue q)))"
| "queue_atom moved ok q (PopRead n) =
     (let slot = q_slots q ! q_slot q n in
      (q\<lparr>q_slots := (q_slots q)[q_slot q n := slot\<lparr>s_Data := moved (s_Data slot)\<rparr>]\<rparr>,
       PopRelease n (s_Data slot)))"
| "queue_atom moved ok q (PopRelease n d) =
     (q\<lparr>q_slots := (q_slots q)[q_slot q n := (q_slots q ! q_slot q n)\<lparr>s_Index := n + q_capacity q\<rparr>]\<rparr>,
      PopDone (Some d))"
| "queue_atom moved ok q pc = (q, pc)"

section \<open>The operations of a thread that runs alone\<close>

partial_function (option) queue_run ::
    "('a \<Rightarrow> 'a) \<Rightarrow> 'a Queue \<Rightarrow> ('a, size_t) pc \<Rightarrow> ('a Queue \<times> ('a, size_t) pc) option" where
  "queue_run moved q pc =
     (case pc of
        PushDone b \<Rightarrow> Some (q, pc)
      | PopDone r \<Rightarrow> Some (q, pc)
      | _ \<Rightarrow> (case queue_atom moved True q pc of (q', pc') \<Rightarrow> queue_run moved q' pc'))"

definition Push :: "('a \<Rightarrow> 'a) \<Rightarrow> 'a Queue \<Rightarrow> 'a \<Rightarrow> (bool \<times> 'a Queue) option" where
  "Push moved q d =
     (case queue_run moved q (PushLoad d) of
        Some (q', PushDone b) \<Rightarrow> Some (b, q')
      | _ \<Rightarrow> None)"

definition Pop :: "('a \<Rightarrow> 'a) \<Rightarrow> 'a Queue \<Rightarrow> ('a option \<times> 'a Queue) option" where
  "Pop moved q =
     (case queue_run moved q PopLoad of
        Some (q', PopDone r) \<Rightarrow> Some (r, q')
      | _ \<Rightarrow> None)"

section \<open>Interleavings\<close>

text \<open>
  Any number of threads, with two ghost logs: what has been pushed, in the order of the tickets (the
  values \<open>_nextEnqueue\<close> takes), and what has been read, with its ticket.
\<close>

record 'a conf =
  cf_queue :: "'a Queue"
  cf_pcs :: "nat \<Rightarrow> ('a, size_t) pc"
  cf_pushed :: "'a list"
  cf_popped :: "(nat \<times> 'a) list"

fun log_push :: "('a, 'n) pc \<Rightarrow> ('a, 'n) pc \<Rightarrow> 'a list" where
  "log_push (PushCas d n) (PushWrite d' n') = [d]"
| "log_push pc pc' = []"

fun log_pop :: "('a, size_t) pc \<Rightarrow> ('a, size_t) pc \<Rightarrow> (nat \<times> 'a) list" where
  "log_pop (PopRead n) (PopRelease n' d) = [(unat n, d)]"
| "log_pop pc pc' = []"

inductive conf_step :: "('a \<Rightarrow> 'a) \<Rightarrow> 'a conf \<Rightarrow> 'a conf \<Rightarrow> bool" for moved where
  call_push: "cf_pcs c t = Idle \<Longrightarrow> conf_step moved c (c\<lparr>cf_pcs := (cf_pcs c)(t := PushLoad d)\<rparr>)"
| call_pop: "cf_pcs c t = Idle \<Longrightarrow> conf_step moved c (c\<lparr>cf_pcs := (cf_pcs c)(t := PopLoad)\<rparr>)"
| returned: "cf_pcs c t = PushDone b \<or> cf_pcs c t = PopDone r \<Longrightarrow>
    conf_step moved c (c\<lparr>cf_pcs := (cf_pcs c)(t := Idle)\<rparr>)"
| atom: "queue_atom moved ok (cf_queue c) (cf_pcs c t) = (q', pc') \<Longrightarrow>
    conf_step moved c \<lparr>cf_queue = q', cf_pcs = (cf_pcs c)(t := pc'),
      cf_pushed = cf_pushed c @ log_push (cf_pcs c t) pc',
      cf_popped = cf_popped c @ log_pop (cf_pcs c t) pc'\<rparr>"

text \<open>
  The executions the class is meant for: \<open>size_t\<close> does not overflow (the warning in the header file).
\<close>

definition no_overflow :: "'a Queue \<Rightarrow> bool" where
  "no_overflow q \<longleftrightarrow> unat (q_nextEnqueue q) + 2 * unat (q_capacity q) < 2 ^ 64"

inductive queue_reachable :: "('a \<Rightarrow> 'a) \<Rightarrow> 'a conf \<Rightarrow> bool" for moved where
  created: "Queue_new dflt capacity = Ret q \<Longrightarrow> no_overflow q \<Longrightarrow>
    queue_reachable moved \<lparr>cf_queue = q, cf_pcs = (\<lambda>t. Idle), cf_pushed = [], cf_popped = []\<rparr>"
| stepped: "queue_reachable moved c \<Longrightarrow> conf_step moved c c' \<Longrightarrow> no_overflow (cf_queue c') \<Longrightarrow>
    queue_reachable moved c'"

section \<open>The invariant of the tickets\<close>

text \<open>
  Stated over natural numbers: \<open>C\<close> is the capacity, \<open>ne\<close> and \<open>nd\<close> the counters, \<open>I\<close> and \<open>D\<close> the slots,
  \<open>P\<close> the threads. A slot belongs to one ticket \<open>n\<close> at a time: it is free for it (\<open>I i = n\<close>) or full with
  it (\<open>I i = n + 1\<close>). The two cannot be told apart when \<open>C = 1\<close>.
\<close>

fun push_tk :: "('a, 'n) pc \<Rightarrow> 'n option" where
  "push_tk (PushWrite d n) = Some n"
| "push_tk (PushRelease n) = Some n"
| "push_tk pc = None"

fun pop_tk :: "('a, 'n) pc \<Rightarrow> 'n option" where
  "pop_tk (PopRead n) = Some n"
| "pop_tk (PopRelease n d) = Some n"
| "pop_tk pc = None"

fun pc_ok :: "nat \<Rightarrow> nat \<Rightarrow> nat \<Rightarrow> (nat \<Rightarrow> nat) \<Rightarrow> (nat \<Rightarrow> 'a) \<Rightarrow> 'a list \<Rightarrow> ('a, nat) pc \<Rightarrow> bool" where
  "pc_ok C ne nd I D pushed (PushLoop d n) = (n \<le> ne)"
| "pc_ok C ne nd I D pushed (PushCas d n) = (n \<le> ne \<and> (I (n mod C) = n \<or> n < ne))"
| "pc_ok C ne nd I D pushed (PushWrite d n) = (n < ne \<and> I (n mod C) = n \<and> pushed ! n = d)"
| "pc_ok C ne nd I D pushed (PushRelease n) = (n < ne \<and> I (n mod C) = n \<and> D (n mod C) = pushed ! n)"
| "pc_ok C ne nd I D pushed (PopLoop n) = (n \<le> nd)"
| "pc_ok C ne nd I D pushed (PopCas n) = (n \<le> nd \<and> (I (n mod C) = n + 1 \<or> n < nd))"
| "pc_ok C ne nd I D pushed (PopRead n) = (n < nd \<and> I (n mod C) = n + 1)"
| "pc_ok C ne nd I D pushed (PopRelease n d) = (n < nd \<and> I (n mod C) = n + 1 \<and> pushed ! n = d)"
| "pc_ok C ne nd I D pushed pc = True"

definition free_for ::
    "nat \<Rightarrow> nat \<Rightarrow> nat \<Rightarrow> (nat \<Rightarrow> nat) \<Rightarrow> (nat \<Rightarrow> ('a, nat) pc) \<Rightarrow> nat \<Rightarrow> bool" where
  "free_for C ne nd I P n \<longleftrightarrow>
     I (n mod C) = n \<and> nd \<le> n \<and> n < nd + C \<and> ne \<le> n + C \<and> (n < ne \<longrightarrow> (\<exists>t. push_tk (P t) = Some n))"

definition full_with ::
    "nat \<Rightarrow> nat \<Rightarrow> nat \<Rightarrow> (nat \<Rightarrow> nat) \<Rightarrow> (nat \<Rightarrow> 'a) \<Rightarrow> (nat \<Rightarrow> ('a, nat) pc) \<Rightarrow> 'a list \<Rightarrow> nat \<Rightarrow> bool" where
  "full_with C ne nd I D P pushed n \<longleftrightarrow>
     I (n mod C) = n + 1 \<and> n < ne \<and> ne \<le> n + C \<and> (n < nd \<longrightarrow> (\<exists>t. pop_tk (P t) = Some n)) \<and>
     ((\<exists>t d. P t = PopRelease n d) \<or> D (n mod C) = pushed ! n)"

definition popped_ok :: "nat \<Rightarrow> (nat \<Rightarrow> ('a, nat) pc) \<Rightarrow> 'a list \<Rightarrow> (nat \<times> 'a) list \<Rightarrow> bool" where
  "popped_ok nd P pushed popped \<longleftrightarrow>
     distinct (map fst popped) \<and>
     (\<forall>(n, d) \<in> set popped. n < nd \<and> pushed ! n = d \<and> (\<forall>t. P t \<noteq> PopRead n)) \<and>
     (\<forall>n < nd. n \<in> fst ` set popped \<or> (\<exists>t. P t = PopRead n))"

definition ticket_inv ::
    "nat \<Rightarrow> nat \<Rightarrow> nat \<Rightarrow> (nat \<Rightarrow> nat) \<Rightarrow> (nat \<Rightarrow> 'a) \<Rightarrow> (nat \<Rightarrow> ('a, nat) pc) \<Rightarrow> 'a list \<Rightarrow>
     (nat \<times> 'a) list \<Rightarrow> bool" where
  "ticket_inv C ne nd I D P pushed popped \<longleftrightarrow>
     2 \<le> C \<and> length pushed = ne \<and> nd \<le> ne \<and> ne \<le> nd + C \<and>
     (\<forall>i < C. \<exists>n. n mod C = i \<and> (free_for C ne nd I P n \<or> full_with C ne nd I D P pushed n)) \<and>
     (\<forall>t. pc_ok C ne nd I D pushed (P t)) \<and>
     (\<forall>t t' n. push_tk (P t) = Some n \<longrightarrow> push_tk (P t') = Some n \<longrightarrow> t = t') \<and>
     (\<forall>t t' n. pop_tk (P t) = Some n \<longrightarrow> pop_tk (P t') = Some n \<longrightarrow> t = t') \<and>
     popped_ok nd P pushed popped"

lemma succ_mod_neq: "2 \<le> C \<Longrightarrow> Suc n mod C \<noteq> n mod C"
  by (metis Suc_1 add_cancel_left_right lessI mod_Suc mod_less_divisor nat_less_le not_less_eq_eq
      One_nat_def Suc_le_lessD less_2_cases_iff mod_by_Suc_0 n_not_Suc_n not_less zero_neq_one)

lemma ticket_invD:
  assumes "ticket_inv C ne nd I D P pushed popped"
  shows "2 \<le> C" "length pushed = ne" "nd \<le> ne" "ne \<le> nd + C"
    "\<And>i. i < C \<Longrightarrow> \<exists>n. n mod C = i \<and> (free_for C ne nd I P n \<or> full_with C ne nd I D P pushed n)"
    "\<And>t. pc_ok C ne nd I D pushed (P t)"
    "\<And>t t' n. push_tk (P t) = Some n \<Longrightarrow> push_tk (P t') = Some n \<Longrightarrow> t = t'"
    "\<And>t t' n. pop_tk (P t) = Some n \<Longrightarrow> pop_tk (P t') = Some n \<Longrightarrow> t = t'"
    "popped_ok nd P pushed popped"
  using assms unfolding ticket_inv_def by blast+

lemma ticket_invI:
  assumes "2 \<le> C" "length pushed = ne" "nd \<le> ne" "ne \<le> nd + C"
    "\<And>i. i < C \<Longrightarrow> \<exists>n. n mod C = i \<and> (free_for C ne nd I P n \<or> full_with C ne nd I D P pushed n)"
    "\<And>t. pc_ok C ne nd I D pushed (P t)"
    "\<And>t t' n. push_tk (P t) = Some n \<Longrightarrow> push_tk (P t') = Some n \<Longrightarrow> t = t'"
    "\<And>t t' n. pop_tk (P t) = Some n \<Longrightarrow> pop_tk (P t') = Some n \<Longrightarrow> t = t'"
    "popped_ok nd P pushed popped"
  shows "ticket_inv C ne nd I D P pushed popped"
  using assms unfolding ticket_inv_def by blast

lemma slot_free:
  assumes inv: "ticket_inv C ne nd I D P pushed popped" and "I (m mod C) = m"
  shows "free_for C ne nd I P m"
proof -
  note d = ticket_invD [OF inv]
  from d(1) have "m mod C < C" by simp
  from d(5) [OF this] obtain n where n: "n mod C = m mod C"
    "free_for C ne nd I P n \<or> full_with C ne nd I D P pushed n" by blast
  with assms(2) succ_mod_neq [OF d(1), of n] show ?thesis
    by (auto simp: free_for_def full_with_def)
qed

lemma slot_full:
  assumes inv: "ticket_inv C ne nd I D P pushed popped" and "I (m mod C) = m + 1"
  shows "full_with C ne nd I D P pushed m"
proof -
  note d = ticket_invD [OF inv]
  from d(1) have "m mod C < C" by simp
  from d(5) [OF this] obtain n where n: "n mod C = m mod C"
    "free_for C ne nd I P n \<or> full_with C ne nd I D P pushed n" by blast
  with assms(2) succ_mod_neq [OF d(1), of m] show ?thesis
    by (auto simp: free_for_def full_with_def)
qed

text \<open>Steps that touch neither the slots nor the counters and own no ticket.\<close>

lemma quiet_step:
  assumes inv: "ticket_inv C ne nd I D P pushed popped"
    and "push_tk (P t) = None" "pop_tk (P t) = None" "push_tk pc' = None" "pop_tk pc' = None"
    and "pc_ok C ne nd I D pushed pc'"
  shows "ticket_inv C ne nd I D (P(t := pc')) pushed popped"
proof -
  let ?P = "P(t := pc')"
  have a: "push_tk (?P t') = push_tk (P t')" "pop_tk (?P t') = pop_tk (P t')" for t'
    using assms(2-5) by auto
  have b: "?P t' = PopRelease n d \<longleftrightarrow> P t' = PopRelease n d" "?P t' = PopRead n \<longleftrightarrow> P t' = PopRead n" for t' n d
    using assms(2-5) by auto
  have c: "free_for C ne nd I ?P n \<longleftrightarrow> free_for C ne nd I P n"
    "full_with C ne nd I D ?P pushed n \<longleftrightarrow> full_with C ne nd I D P pushed n" for n
    unfolding free_for_def full_with_def a b by (rule refl)+
  have d: "popped_ok nd ?P pushed popped \<longleftrightarrow> popped_ok nd P pushed popped"
    unfolding popped_ok_def b by (rule refl)
  show ?thesis
    using inv assms(6) unfolding ticket_inv_def a c d by simp
qed

text \<open>The owners after a step of thread \<open>t\<close>.\<close>

lemma push_owner_upd:
  "(\<exists>t'. push_tk ((P(t := pc')) t') = Some n) \<longleftrightarrow>
    push_tk pc' = Some n \<or> (\<exists>t'. t' \<noteq> t \<and> push_tk (P t') = Some n)"
  by (metis fun_upd_apply)

lemma pop_owner_upd:
  "(\<exists>t'. pop_tk ((P(t := pc')) t') = Some n) \<longleftrightarrow>
    pop_tk pc' = Some n \<or> (\<exists>t'. t' \<noteq> t \<and> pop_tk (P t') = Some n)"
  by (metis fun_upd_apply)

lemma owner_other:
  "push_tk (P t) \<noteq> Some n \<Longrightarrow> (\<exists>t'. t' \<noteq> t \<and> push_tk (P t') = Some n) \<longleftrightarrow> (\<exists>t'. push_tk (P t') = Some n)"
  "pop_tk (P t) \<noteq> Some n \<Longrightarrow> (\<exists>t'. t' \<noteq> t \<and> pop_tk (P t') = Some n) \<longleftrightarrow> (\<exists>t'. pop_tk (P t') = Some n)"
  by metis+

lemma release_upd:
  "(\<exists>t' d. (P(t := pc')) t' = PopRelease m d) \<longleftrightarrow>
    (\<exists>d. pc' = PopRelease m d) \<or> (\<exists>t' d. t' \<noteq> t \<and> P t' = PopRelease m d)"
  by (metis fun_upd_apply)

lemma release_other:
  "(\<And>d. P t \<noteq> PopRelease m d) \<Longrightarrow>
    (\<exists>t' d. t' \<noteq> t \<and> P t' = PopRelease m d) \<longleftrightarrow> (\<exists>t' d. P t' = PopRelease m d)"
  by metis

lemma claim_push:
  assumes inv: "ticket_inv C ne nd I D P pushed popped" and pc: "P t = PushCas d ne"
  shows "ticket_inv C (Suc ne) nd I D (P(t := PushWrite d ne)) (pushed @ [d]) popped"
proof -
  note v = ticket_invD [OF inv]
  define P' where "P' = P(t := PushWrite d ne)"
  from v(6) [of t] pc have I: "I (ne mod C) = ne" by simp
  have fr: "free_for C ne nd I P ne" using slot_free [OF inv I] .
  have none: "push_tk (P t') \<noteq> Some ne" for t'
    using v(6) [of t'] by (cases "P t'") auto
  have nth: "(pushed @ [d]) ! n = pushed ! n" if "n < ne" for n using that v(2) by (simp add: nth_append)
  have same: "P' t' = PopRelease n e \<longleftrightarrow> P t' = PopRelease n e" "P' t' = PopRead n \<longleftrightarrow> P t' = PopRead n"
    "pop_tk (P' t') = pop_tk (P t')" for t' n e using pc by (auto simp: P'_def)
  have own: "(\<exists>t'. push_tk (P' t') = Some n) \<longleftrightarrow> n = ne \<or> (\<exists>t'. push_tk (P t') = Some n)" for n
    unfolding P'_def push_owner_upd using pc by (auto simp: owner_other)
  have "ticket_inv C (Suc ne) nd I D P' (pushed @ [d]) popped"
  proof (rule ticket_invI)
    show "\<exists>n. n mod C = i \<and> (free_for C (Suc ne) nd I P' n \<or> full_with C (Suc ne) nd I D P' (pushed @ [d]) n)"
      if "i < C" for i
    proof (cases "i = ne mod C")
      case True
      with fr v(1) have "free_for C (Suc ne) nd I P' ne" by (simp add: free_for_def own)
      with True show ?thesis by blast
    next
      case False
      from v(5) [OF that] obtain n where n: "n mod C = i"
        "free_for C ne nd I P n \<or> full_with C ne nd I D P pushed n" by blast
      then have "n \<noteq> ne" "ne \<noteq> n + C" using False by auto
      with n(2) have "free_for C (Suc ne) nd I P' n \<or> full_with C (Suc ne) nd I D P' (pushed @ [d]) n"
        unfolding free_for_def full_with_def same own by (auto simp: nth)
      with n(1) show ?thesis by blast
    qed
    show "pc_ok C (Suc ne) nd I D (pushed @ [d]) (P' t')" for t'
    proof (cases "t' = t")
      case True
      with I v(2) show ?thesis by (simp add: P'_def nth_append)
    next
      case False
      with v(6) [of t'] v(3) show ?thesis by (cases "P t'") (auto simp: nth P'_def)
    qed
    show "t1 = t2" if "push_tk (P' t1) = Some n" "push_tk (P' t2) = Some n" for t1 t2 n
      using that none v(7) [of t1 n t2] by (auto simp: P'_def split: if_splits)
    show "popped_ok nd P' (pushed @ [d]) popped"
      using v(9) v(3) unfolding popped_ok_def same by (auto simp: nth)
  qed (use v(1-4,8) fr in \<open>auto simp: free_for_def same\<close>)
  then show ?thesis by (simp add: P'_def)
qed

lemma write_slot:
  assumes inv: "ticket_inv C ne nd I D P pushed popped" and pc: "P t = PushWrite d n"
  shows "ticket_inv C ne nd I (D(n mod C := d)) (P(t := PushRelease n)) pushed popped"
proof -
  note v = ticket_invD [OF inv]
  define P' where "P' = P(t := PushRelease n)"
  let ?D = "D(n mod C := d)"
  from v(6) [of t] pc have I: "n < ne" "I (n mod C) = n" "pushed ! n = d" by simp_all
  have same: "P' t' = PopRelease m e \<longleftrightarrow> P t' = PopRelease m e" "P' t' = PopRead m \<longleftrightarrow> P t' = PopRead m"
    "pop_tk (P' t') = pop_tk (P t')" "push_tk (P' t') = push_tk (P t')" for t' m e
    using pc by (auto simp: P'_def)
  have "ticket_inv C ne nd I ?D P' pushed popped"
  proof (rule ticket_invI)
    show "\<exists>m. m mod C = i \<and> (free_for C ne nd I P' m \<or> full_with C ne nd I ?D P' pushed m)" if "i < C" for i
    proof -
      from v(5) [OF that] obtain m where m: "m mod C = i"
        "free_for C ne nd I P m \<or> full_with C ne nd I D P pushed m" by blast
      have "I (m mod C) = m + 1 \<Longrightarrow> m mod C \<noteq> n mod C"
        using I(2) succ_mod_neq [OF v(1), of m] by auto
      with m(2) have "free_for C ne nd I P' m \<or> full_with C ne nd I ?D P' pushed m"
        unfolding free_for_def full_with_def same by auto
      with m(1) show ?thesis by blast
    qed
    show "pc_ok C ne nd I ?D pushed (P' t')" for t'
    proof (cases "t' = t")
      case True
      with I show ?thesis by (simp add: P'_def)
    next
      case False
      then have P': "P' t' = P t'" by (simp add: P'_def)
      show ?thesis
      proof (cases "P t'")
        case (PushRelease m)
        with v(6) [of t'] have m: "m < ne" "I (m mod C) = m" "D (m mod C) = pushed ! m" by simp_all
        have "m mod C \<noteq> n mod C"
        proof
          assume "m mod C = n mod C"
          with m(2) I(2) have "m = n" by metis
          then have "t' = t" by (intro v(7) [of t' n t]) (simp_all add: PushRelease pc)
          with False show False ..
        qed
        with m show ?thesis by (simp add: P' PushRelease)
      qed (use v(6) [of t'] in \<open>simp_all add: P'\<close>)
    qed
  qed (use v in \<open>simp_all add: popped_ok_def same\<close>)
  then show ?thesis by (simp add: P'_def)
qed

lemma release_push:
  assumes inv: "ticket_inv C ne nd I D P pushed popped" and pc: "P t = PushRelease n"
  shows "ticket_inv C ne nd (I(n mod C := n + 1)) D (P(t := PushDone b)) pushed popped"
proof -
  note v = ticket_invD [OF inv]
  define P' where "P' = P(t := PushDone b)"
  let ?I = "I(n mod C := n + 1)"
  from v(6) [of t] pc have I: "n < ne" "I (n mod C) = n" "D (n mod C) = pushed ! n" by simp_all
  have fr: "free_for C ne nd I P n" using slot_free [OF inv I(2)] .
  have same: "P' t' = PopRelease m e \<longleftrightarrow> P t' = PopRelease m e" "P' t' = PopRead m \<longleftrightarrow> P t' = PopRead m"
    "pop_tk (P' t') = pop_tk (P t')" for t' m e
    using pc by (auto simp: P'_def)
  have own: "m \<noteq> n \<Longrightarrow> (\<exists>t'. push_tk (P' t') = Some m) \<longleftrightarrow> (\<exists>t'. push_tk (P t') = Some m)" for m
    unfolding P'_def push_owner_upd using pc by (auto simp: owner_other)
  have "ticket_inv C ne nd ?I D P' pushed popped"
  proof (rule ticket_invI)
    show "\<exists>m. m mod C = i \<and> (free_for C ne nd ?I P' m \<or> full_with C ne nd ?I D P' pushed m)" if "i < C" for i
    proof (cases "i = n mod C")
      case True
      have "full_with C ne nd ?I D P' pushed n" using fr I by (simp add: full_with_def free_for_def)
      with True show ?thesis by blast
    next
      case False
      from v(5) [OF that] obtain m where m: "m mod C = i"
        "free_for C ne nd I P m \<or> full_with C ne nd I D P pushed m" by blast
      with False have "m \<noteq> n" "m mod C \<noteq> n mod C" by auto
      with m(2) have "free_for C ne nd ?I P' m \<or> full_with C ne nd ?I D P' pushed m"
        by (simp add: free_for_def full_with_def same own)
      with m(1) show ?thesis by blast
    qed
    show "pc_ok C ne nd ?I D pushed (P' t')" for t'
    proof (cases "t' = t")
      case False
      have other: "push_tk (P t') \<noteq> Some n" using v(7) [of t n t'] pc False by auto
      have clash: "m + 1 \<noteq> n" if "m mod C = n mod C" for m
        using that succ_mod_neq [OF v(1), of m] by auto
      have "I (m mod C) = m \<Longrightarrow> m mod C = n mod C \<Longrightarrow> m = n" for m using I(2) by simp
      moreover have "I (m mod C) = m + 1 \<Longrightarrow> m mod C \<noteq> n mod C" for m using I(2) clash [of m] by auto
      ultimately show ?thesis
        using v(6) [of t'] I(1) False other by (cases "P t'") (auto simp: P'_def)
    qed (simp add: P'_def)
    show "t1 = t2" if "push_tk (P' t1) = Some m" "push_tk (P' t2) = Some m" for t1 t2 m
      using that v(7) [of t1 m t2] by (auto simp: P'_def split: if_splits)
  qed (use v in \<open>simp_all add: popped_ok_def same\<close>)
  then show ?thesis by (simp add: P'_def)
qed

lemma popped_ok_claim:
  assumes "popped_ok nd P pushed popped" and "\<And>t'. P t' \<noteq> PopRead nd"
    and P': "\<And>t' m. P' t' = PopRead m \<longleftrightarrow> P t' = PopRead m \<or> t' = t \<and> m = nd"
  shows "popped_ok (Suc nd) P' pushed popped"
  using assms(1,2) unfolding popped_ok_def P' by (fastforce simp: less_Suc_eq)

lemma claim_pop:
  assumes inv: "ticket_inv C ne nd I D P pushed popped" and pc: "P t = PopCas nd"
  shows "ticket_inv C ne (Suc nd) I D (P(t := PopRead nd)) pushed popped"
proof -
  note v = ticket_invD [OF inv]
  define P' where "P' = P(t := PopRead nd)"
  from v(6) [of t] pc have I: "I (nd mod C) = nd + 1" by simp
  have fu: "full_with C ne nd I D P pushed nd" using slot_full [OF inv I] .
  have none: "pop_tk (P t') \<noteq> Some nd" for t'
    using v(6) [of t'] by (cases "P t'") auto
  have same: "P' t' = PopRelease n e \<longleftrightarrow> P t' = PopRelease n e" "push_tk (P' t') = push_tk (P t')"
    "P' t' = PopRead m \<longleftrightarrow> P t' = PopRead m \<or> t' = t \<and> m = nd" for t' n m e
    using pc by (auto simp: P'_def)
  have own: "(\<exists>t'. pop_tk (P' t') = Some n) \<longleftrightarrow> n = nd \<or> (\<exists>t'. pop_tk (P t') = Some n)" for n
    unfolding P'_def pop_owner_upd using pc by (auto simp: owner_other)
  have "ticket_inv C ne (Suc nd) I D P' pushed popped"
  proof (rule ticket_invI)
    show "\<exists>n. n mod C = i \<and> (free_for C ne (Suc nd) I P' n \<or> full_with C ne (Suc nd) I D P' pushed n)"
      if "i < C" for i
    proof -
      from v(5) [OF that] obtain n where n: "n mod C = i"
        "free_for C ne nd I P n \<or> full_with C ne nd I D P pushed n" by blast
      have "free_for C ne (Suc nd) I P' n" if "free_for C ne nd I P n"
      proof -
        have "n \<noteq> nd" using that I by (auto simp: free_for_def)
        with that show ?thesis by (auto simp: free_for_def same)
      qed
      moreover have "full_with C ne (Suc nd) I D P' pushed n" if "full_with C ne nd I D P pushed n"
        using that unfolding full_with_def same own by auto
      ultimately show ?thesis using n by blast
    qed
    show "pc_ok C ne (Suc nd) I D pushed (P' t')" for t'
    proof (cases "t' = t")
      case True
      with I show ?thesis by (simp add: P'_def)
    next
      case False
      with v(6) [of t'] show ?thesis by (cases "P t'") (auto simp: P'_def)
    qed
    show "t1 = t2" if "pop_tk (P' t1) = Some n" "pop_tk (P' t2) = Some n" for t1 t2 n
      using that none v(8) [of t1 n t2] by (auto simp: P'_def split: if_splits)
    show "popped_ok (Suc nd) P' pushed popped"
    proof (rule popped_ok_claim [OF v(9)])
      show "P t' \<noteq> PopRead nd" for t' using none [of t'] by auto
    qed (rule same)
  qed (use v(1-4,7) fu in \<open>auto simp: full_with_def same\<close>)
  then show ?thesis by (simp add: P'_def)
qed

lemma popped_ok_read:
  assumes ok: "popped_ok nd P pushed popped" and pc: "P t = PopRead n" and n: "n < nd"
    and only: "\<And>t'. P t' = PopRead n \<Longrightarrow> t' = t"
    and P': "\<And>t' m. P' t' = PopRead m \<longleftrightarrow> P t' = PopRead m \<and> t' \<noteq> t"
  shows "popped_ok nd P' pushed (popped @ [(n, pushed ! n)])"
proof -
  have "n \<notin> fst ` set popped" using ok pc by (fastforce simp: popped_ok_def)
  with ok have "distinct (map fst (popped @ [(n, pushed ! n)]))" by (simp add: popped_ok_def)
  moreover have "\<forall>t'. P' t' \<noteq> PopRead n" using only P' by blast
  then have "\<forall>(m, d) \<in> set (popped @ [(n, pushed ! n)]). m < nd \<and> pushed ! m = d \<and> (\<forall>t. P' t \<noteq> PopRead m)"
    using ok n unfolding popped_ok_def P' by auto
  moreover have "\<forall>m < nd. m \<in> fst ` set (popped @ [(n, pushed ! n)]) \<or> (\<exists>t'. P' t' = PopRead m)"
  proof (intro allI impI)
    fix m assume m: "m < nd"
    show "m \<in> fst ` set (popped @ [(n, pushed ! n)]) \<or> (\<exists>t'. P' t' = PopRead m)"
    proof (cases "m = n \<or> m \<in> fst ` set popped")
      case False
      with ok m obtain t' where "P t' = PopRead m" by (auto simp: popped_ok_def)
      moreover from this False pc have "t' \<noteq> t" by auto
      ultimately show ?thesis using P' by blast
    qed auto
  qed
  ultimately show ?thesis unfolding popped_ok_def by blast
qed

lemma read_slot:
  assumes inv: "ticket_inv C ne nd I D P pushed popped" and pc: "P t = PopRead n"
  shows "D (n mod C) = pushed ! n" and
    "ticket_inv C ne nd I (D(n mod C := y)) (P(t := PopRelease n (pushed ! n))) pushed (popped @ [(n, pushed ! n)])"
proof -
  note v = ticket_invD [OF inv]
  define P' where "P' = P(t := PopRelease n (pushed ! n))"
  let ?D = "D(n mod C := y)"
  from v(6) [of t] pc have I: "n < nd" "I (n mod C) = n + 1" by simp_all
  have fu: "full_with C ne nd I D P pushed n" using slot_full [OF inv I(2)] .
  have only: "t' = t" if "pop_tk (P t') = Some n" for t'
    using v(8) [OF that, of t] pc by simp
  have norel: "P t' \<noteq> PopRelease n d" for t' d
  proof
    assume a: "P t' = PopRelease n d"
    then have "t' = t" by (intro only) simp
    with a pc show False by simp
  qed
  with fu show "D (n mod C) = pushed ! n" by (auto simp: full_with_def)
  have same: "pop_tk (P' t') = pop_tk (P t')" "push_tk (P' t') = push_tk (P t')"
    "P' t' = PopRead m \<longleftrightarrow> P t' = PopRead m \<and> t' \<noteq> t" for t' m
    using pc by (auto simp: P'_def)
  have rel: "(\<exists>t' d. P' t' = PopRelease m d) \<longleftrightarrow> m = n \<or> (\<exists>t' d. P t' = PopRelease m d)" for m
    unfolding P'_def release_upd using pc by (subst release_other) auto
  have "ticket_inv C ne nd I ?D P' pushed (popped @ [(n, pushed ! n)])"
  proof (rule ticket_invI)
    show "\<exists>m. m mod C = i \<and> (free_for C ne nd I P' m \<or> full_with C ne nd I ?D P' pushed m)" if "i < C" for i
    proof -
      from v(5) [OF that] obtain m where m: "m mod C = i"
        "free_for C ne nd I P m \<or> full_with C ne nd I D P pushed m" by blast
      have "full_with C ne nd I ?D P' pushed m" if f: "full_with C ne nd I D P pushed m"
      proof (cases "m mod C = n mod C")
        case True
        with f I(2) have "m = n" unfolding full_with_def by (metis add_right_cancel)
        with f show ?thesis unfolding full_with_def same rel by auto
      next
        case False
        with f show ?thesis unfolding full_with_def same rel by auto
      qed
      with m show ?thesis unfolding free_for_def same by blast
    qed
    show "pc_ok C ne nd I ?D pushed (P' t')" for t'
    proof (cases "t' = t")
      case True
      with I show ?thesis by (simp add: P'_def)
    next
      case False
      then have P': "P' t' = P t'" by (simp add: P'_def)
      show ?thesis
      proof (cases "P t'")
        case (PushRelease m)
        with v(6) [of t'] have m: "m < ne" "I (m mod C) = m" "D (m mod C) = pushed ! m" by simp_all
        have "m mod C \<noteq> n mod C"
        proof
          assume a: "m mod C = n mod C"
          with m(2) I(2) have "m = n + 1" by metis
          with a succ_mod_neq [OF v(1), of n] show False by simp
        qed
        with m show ?thesis by (simp add: P' PushRelease)
      qed (use v(6) [of t'] in \<open>simp_all add: P'\<close>)
    qed
    show "popped_ok nd P' pushed (popped @ [(n, pushed ! n)])"
      by (rule popped_ok_read [OF v(9) pc I(1)]) (use only same(3) in auto)
  qed (use v in \<open>simp_all add: same\<close>)
  then show "ticket_inv C ne nd I ?D (P(t := PopRelease n (pushed ! n))) pushed (popped @ [(n, pushed ! n)])"
    by (simp add: P'_def)
qed

lemma release_pop:
  assumes inv: "ticket_inv C ne nd I D P pushed popped" and pc: "P t = PopRelease n d"
  shows "ticket_inv C ne nd (I(n mod C := n + C)) D (P(t := PopDone r)) pushed popped"
proof -
  note v = ticket_invD [OF inv]
  define P' where "P' = P(t := PopDone r)"
  let ?I = "I(n mod C := n + C)"
  from v(6) [of t] pc have I: "n < nd" "I (n mod C) = n + 1" by simp_all
  have fu: "full_with C ne nd I D P pushed n" using slot_full [OF inv I(2)] .
  have same: "P' t' = PopRead m \<longleftrightarrow> P t' = PopRead m" "push_tk (P' t') = push_tk (P t')" for t' m
    using pc by (auto simp: P'_def)
  have own: "m \<noteq> n \<Longrightarrow> (\<exists>t'. pop_tk (P' t') = Some m) \<longleftrightarrow> (\<exists>t'. pop_tk (P t') = Some m)"
    "m \<noteq> n \<Longrightarrow> (\<exists>t' d. P' t' = PopRelease m d) \<longleftrightarrow> (\<exists>t' d. P t' = PopRelease m d)" for m
  proof -
    assume m: "m \<noteq> n"
    show "(\<exists>t'. pop_tk (P' t') = Some m) \<longleftrightarrow> (\<exists>t'. pop_tk (P t') = Some m)"
      unfolding P'_def pop_owner_upd using pc m by (auto simp: owner_other)
    show "(\<exists>t' d. P' t' = PopRelease m d) \<longleftrightarrow> (\<exists>t' d. P t' = PopRelease m d)"
      unfolding P'_def release_upd using pc m by (subst release_other) auto
  qed
  have "ticket_inv C ne nd ?I D P' pushed popped"
  proof (rule ticket_invI)
    show "\<exists>m. m mod C = i \<and> (free_for C ne nd ?I P' m \<or> full_with C ne nd ?I D P' pushed m)" if "i < C" for i
    proof (cases "i = n mod C")
      case True
      have "free_for C ne nd ?I P' (n + C)" using fu I v(3) by (simp add: full_with_def free_for_def)
      with True show ?thesis by (intro exI [of _ "n + C"]) simp
    next
      case False
      from v(5) [OF that] obtain m where m: "m mod C = i"
        "free_for C ne nd I P m \<or> full_with C ne nd I D P pushed m" by blast
      with False have "m \<noteq> n" "m mod C \<noteq> n mod C" by auto
      with m(2) have "free_for C ne nd ?I P' m \<or> full_with C ne nd ?I D P' pushed m"
        by (simp add: free_for_def full_with_def same own)
      with m(1) show ?thesis by blast
    qed
    show "pc_ok C ne nd ?I D pushed (P' t')" for t'
    proof (cases "t' = t")
      case False
      then have P': "P' t' = P t'" by (simp add: P'_def)
      have other: "pop_tk (P t') \<noteq> Some n"
      proof
        assume "pop_tk (P t') = Some n"
        then have "t' = t" using v(8) [of t' n t] pc by simp
        with False show False ..
      qed
      have clash: "\<not> (I (m mod C) = m \<and> m mod C = n mod C)" for m
      proof
        assume a: "I (m mod C) = m \<and> m mod C = n mod C"
        with I(2) have "m = n + 1" by metis
        with a succ_mod_neq [OF v(1), of n] show False by simp
      qed
      have eq: "m = n" if "I (m mod C) = m + 1" "m mod C = n mod C" for m
        using that I(2) by (metis add_right_cancel)
      show ?thesis
      proof (cases "P t'")
        case (PushCas e m)
        with v(6) [of t'] clash [of m] show ?thesis by (auto simp: P')
      next
        case (PushWrite e m)
        with v(6) [of t'] clash [of m] show ?thesis by (auto simp: P')
      next
        case (PushRelease m)
        with v(6) [of t'] clash [of m] show ?thesis by (auto simp: P')
      next
        case (PopCas m)
        with v(6) [of t'] eq [of m] I(1) show ?thesis by (auto simp: P')
      next
        case (PopRead m)
        with v(6) [of t'] eq [of m] other show ?thesis by (auto simp: P')
      next
        case (PopRelease m e)
        with v(6) [of t'] eq [of m] other show ?thesis by (auto simp: P')
      qed (use v(6) [of t'] in \<open>simp_all add: P'\<close>)
    qed (simp add: P'_def)
    show "t1 = t2" if "pop_tk (P' t1) = Some m" "pop_tk (P' t2) = Some m" for t1 t2 m
      using that v(8) [of t1 m t2] by (auto simp: P'_def split: if_splits)
  qed (use v in \<open>simp_all add: popped_ok_def same\<close>)
  then show ?thesis by (simp add: P'_def)
qed

section \<open>From words to tickets\<close>

lemma and_pred_power_nat: "0 < (n :: nat) \<Longrightarrow> n AND (n - 1) = 0 \<Longrightarrow> \<exists>k. n = 2 ^ k"
proof (induction n rule: less_induct)
  case (less n)
  show ?case
  proof (cases "even n")
    case True
    then obtain m where m: "n = 2 * m" by blast
    with less.prems have "0 < m" by simp
    then obtain j where j: "m = Suc j" by (cases m) auto
    have "n AND (n - 1) = 2 * (m AND (m - 1))"
      using m j by (subst and_rec) simp
    with less.prems have "m AND (m - 1) = 0" by simp
    with less.IH [of m] m \<open>0 < m\<close> obtain k where "m = 2 ^ k" by auto
    with m have "n = 2 ^ Suc k" by simp
    then show ?thesis ..
  next
    case False
    then obtain m where m: "n = 2 * m + 1" by (blast elim: oddE)
    then have "n AND (n - 1) = 2 * (m AND m)" by (subst and_rec) simp
    with less.prems m have "n = 2 ^ 0" by simp
    then show ?thesis ..
  qed
qed

lemma unat_pred: "0 < (w :: size_t) \<Longrightarrow> unat (w - 1) = unat w - 1"
  by (metis unat_minus_one less_irrefl)

lemma power_capacity:
  assumes "0 < (c :: size_t)" and "c AND (c - 1) = 0"
  shows "\<exists>k. unat c = 2 ^ k \<and> c - 1 = mask k"
proof -
  have "unat c AND (unat c - 1) = 0"
    using arg_cong [OF assms(2), of unat] unat_pred [OF assms(1)] by (simp add: unsigned_and_eq)
  moreover have "0 < unat c" using assms(1) by (simp add: word_less_nat_alt)
  ultimately obtain k where k: "unat c = 2 ^ k" using and_pred_power_nat by blast
  have "c = of_nat (unat c)" by simp
  then have "c = 2 ^ k" unfolding k by simp
  with k show ?thesis by (auto simp: mask_eq_exp_minus_1)
qed

definition nI :: "'a Queue \<Rightarrow> nat \<Rightarrow> nat" where "nI q i = unat (s_Index (q_slots q ! i))"
definition nD :: "'a Queue \<Rightarrow> nat \<Rightarrow> 'a" where "nD q i = s_Data (q_slots q ! i)"

definition shape :: "'a Queue \<Rightarrow> bool" where
  "shape q \<longleftrightarrow> (\<exists>k. unat (q_capacity q) = 2 ^ k \<and> q_mask q = mask k) \<and>
     length (q_slots q) = unat (q_capacity q) \<and> no_overflow q"

definition conf_inv :: "'a conf \<Rightarrow> bool" where
  "conf_inv c \<longleftrightarrow> shape (cf_queue c) \<and>
     ticket_inv (unat (q_capacity (cf_queue c))) (unat (q_nextEnqueue (cf_queue c)))
       (unat (q_nextDequeue (cf_queue c))) (nI (cf_queue c)) (nD (cf_queue c))
       (\<lambda>t. map_pc id unat (cf_pcs c t)) (cf_pushed c) (cf_popped c)"

lemma q_slot_mod: "shape q \<Longrightarrow> q_slot q n = unat n mod unat (q_capacity q)"
proof -
  assume "shape q"
  then obtain k where k: "unat (q_capacity q) = 2 ^ k" "q_mask q = mask k" by (auto simp: shape_def)
  have "unat (n AND mask k) = take_bit k (unat n)"
    by (simp only: take_bit_eq_mask [symmetric] unsigned_take_bit_eq)
  with k show ?thesis by (simp add: q_slot_def take_bit_eq_mod)
qed

lemma q_slot_less: "shape q \<Longrightarrow> q_slot q n < length (q_slots q)"
  by (simp add: q_slot_mod) (auto simp: shape_def)

lemma unat_add_small: "unat (n :: size_t) + unat k < 2 ^ 64 \<Longrightarrow> unat (n + k) = unat n + unat k"
  by (simp add: unat_word_ariths)

lemma nI_upd:
  "j < length (q_slots q) \<Longrightarrow>
    nI (q\<lparr>q_slots := (q_slots q)[j := (q_slots q ! j)\<lparr>s_Index := w\<rparr>]\<rparr>) = (nI q)(j := unat w)"
  "j < length (q_slots q) \<Longrightarrow>
    nI (q\<lparr>q_slots := (q_slots q)[j := (q_slots q ! j)\<lparr>s_Data := d\<rparr>]\<rparr>) = nI q"
  "nI (q\<lparr>q_nextEnqueue := w\<rparr>) = nI q" "nI (q\<lparr>q_nextDequeue := w\<rparr>) = nI q"
  by (rule ext, simp add: nI_def nth_list_update)+

lemma nD_upd:
  "j < length (q_slots q) \<Longrightarrow>
    nD (q\<lparr>q_slots := (q_slots q)[j := (q_slots q ! j)\<lparr>s_Data := d\<rparr>]\<rparr>) = (nD q)(j := d)"
  "j < length (q_slots q) \<Longrightarrow>
    nD (q\<lparr>q_slots := (q_slots q)[j := (q_slots q ! j)\<lparr>s_Index := w\<rparr>]\<rparr>) = nD q"
  "nD (q\<lparr>q_nextEnqueue := w\<rparr>) = nD q" "nD (q\<lparr>q_nextDequeue := w\<rparr>) = nD q"
  by (rule ext, simp add: nD_def nth_list_update)+

lemma map_pc_upd: "(\<lambda>t'. map_pc id unat ((P(t := x)) t')) = (\<lambda>t'. map_pc id unat (P t'))(t := map_pc id unat x)"
  by (rule ext) simp

lemma log_same [simp]: "log_push pc pc = []" "log_pop pc pc = []"
  by (cases pc; simp)+

lemma conf_inv_atom:
  assumes inv: "conf_inv c" and q': "queue_atom moved ok (cf_queue c) (cf_pcs c t) = (q', pc')"
    and no: "no_overflow q'"
  shows "conf_inv \<lparr>cf_queue = q', cf_pcs = (cf_pcs c)(t := pc'),
      cf_pushed = cf_pushed c @ log_push (cf_pcs c t) pc',
      cf_popped = cf_popped c @ log_pop (cf_pcs c t) pc'\<rparr>"
proof -
  let ?q = "cf_queue c" and ?P = "\<lambda>t. map_pc id unat (cf_pcs c t)"
  let ?C = "unat (q_capacity ?q)" and ?ne = "unat (q_nextEnqueue ?q)" and ?nd = "unat (q_nextDequeue ?q)"
  from inv have sh: "shape ?q" and ti: "ticket_inv ?C ?ne ?nd (nI ?q) (nD ?q) ?P (cf_pushed c) (cf_popped c)"
    by (simp_all add: conf_inv_def)
  note v = ticket_invD [OF ti]
  have ov: "?ne + 2 * ?C < 2 ^ 64" using sh by (simp add: shape_def no_overflow_def)
  have suc: "unat (n + 1) = Suc (unat n)" if "unat n \<le> ?ne" for n :: size_t
    using unat_add_small [of n 1] that ov v(1) by simp
  have cap: "unat (n + q_capacity ?q) = unat n + ?C" if "unat n \<le> ?ne" for n :: size_t
    using unat_add_small [of n "q_capacity ?q"] that ov by simp
  have idx: "unat (s_Index (q_slots ?q ! q_slot ?q n)) = nI ?q (unat n mod ?C)" for n
    by (simp add: nI_def q_slot_mod [OF sh])
  note slot = q_slot_mod [OF sh] q_slot_less [OF sh]
  note quiet = quiet_step [OF ti, of t]
  have "shape q' \<and> ticket_inv (unat (q_capacity q')) (unat (q_nextEnqueue q')) (unat (q_nextDequeue q'))
      (nI q') (nD q') (?P(t := map_pc id unat pc')) (cf_pushed c @ log_push (cf_pcs c t) pc')
      (cf_popped c @ log_pop (cf_pcs c t) pc')"
  proof (cases "cf_pcs c t")
    case (PushLoop d n)
    have "unat n \<le> ?ne" using v(6) [of t] PushLoop by simp
    with quiet [of "PushCas d (unat n)"] quiet [of "PushDone False"] quiet [of "PushLoad d"] idx [of n] show ?thesis
      using q' PushLoop sh by (auto simp: conf_inv_def Let_def)
  next
    case (PushCas d n)
    have n: "unat n \<le> ?ne" using v(6) [of t] PushCas by simp
    show ?thesis
    proof (cases "ok \<and> q_nextEnqueue ?q = n")
      case True
      with claim_push [OF ti, of t d] q' PushCas suc n no sh show ?thesis
        by (auto simp: conf_inv_def nI_upd nD_upd shape_def)
    next
      case False
      with quiet [of "PushLoop d ?ne"] q' PushCas sh show ?thesis
        by (auto simp: conf_inv_def)
    qed
  next
    case (PushWrite d n)
    with write_slot [OF ti, of t d "unat n"] q' slot [of n] no sh show ?thesis
      by (auto simp: conf_inv_def nI_upd nD_upd shape_def)
  next
    case (PushRelease n)
    have "unat n \<le> ?ne" using v(6) [of t] PushRelease by simp
    with PushRelease release_push [OF ti, of t "unat n"] q' slot [of n] no sh suc [of n] show ?thesis
      by (auto simp: conf_inv_def nI_upd nD_upd shape_def)
  next
    case (PopLoop n)
    have "unat n \<le> ?nd" using v(6) [of t] PopLoop by simp
    with quiet [of "PopCas (unat n)"] quiet [of "PopDone None"] quiet [of "PopLoad"] idx [of n] v(3) suc [of n]
    show ?thesis
      using q' PopLoop sh by (auto simp: conf_inv_def Let_def word_unat_eq_iff [of "n + 1"])
  next
    case (PopCas n)
    have n: "unat n \<le> ?nd" using v(6) [of t] PopCas by simp
    show ?thesis
    proof (cases "ok \<and> q_nextDequeue ?q = n")
      case True
      with claim_pop [OF ti, of t] q' PopCas suc n no sh v(3) show ?thesis
        by (auto simp: conf_inv_def nI_upd nD_upd shape_def)
    next
      case False
      with quiet [of "PopLoop ?nd"] q' PopCas sh show ?thesis
        by (auto simp: conf_inv_def)
    qed
  next
    case (PopRead n)
    with read_slot [OF ti, of t "unat n"] q' slot [of n] no sh show ?thesis
      by (auto simp: conf_inv_def nI_upd nD_upd shape_def Let_def nD_def [of ?q, symmetric])
  next
    case (PopRelease n d)
    have "unat n \<le> ?ne" using v(3) v(6) [of t] PopRelease by simp
    with PopRelease release_pop [OF ti, of t "unat n" d] q' slot [of n] no sh cap [of n] show ?thesis
      by (auto simp: conf_inv_def nI_upd nD_upd shape_def)
  next
    case (PushLoad d)
    with quiet [of "PushLoop d ?ne"] q' sh show ?thesis by (auto simp: conf_inv_def)
  next
    case PopLoad
    with quiet [of "PopLoop ?nd"] q' sh show ?thesis by (auto simp: conf_inv_def)
  next
    case Idle
    with q' inv show ?thesis by (auto simp: conf_inv_def fun_upd_idem)
  next
    case (PushDone b)
    with q' inv show ?thesis by (auto simp: conf_inv_def fun_upd_idem)
  next
    case (PopDone r)
    with q' inv show ?thesis by (auto simp: conf_inv_def fun_upd_idem)
  qed
  then show ?thesis by (simp add: conf_inv_def map_pc_upd del: fun_upd_apply)
qed

lemma conf_inv_quiet:
  assumes "conf_inv c" and "cf_pcs c t \<in> {Idle} \<union> range PushDone \<union> range PopDone"
    and "pc' \<in> {Idle, PopLoad} \<union> range PushLoad"
  shows "conf_inv (c\<lparr>cf_pcs := (cf_pcs c)(t := pc')\<rparr>)"
proof -
  have "conf_inv c" by (rule assms(1))
  then have ti: "ticket_inv (unat (q_capacity (cf_queue c))) (unat (q_nextEnqueue (cf_queue c)))
       (unat (q_nextDequeue (cf_queue c))) (nI (cf_queue c)) (nD (cf_queue c))
       ((\<lambda>t. map_pc id unat (cf_pcs c t))(t := map_pc id unat pc')) (cf_pushed c) (cf_popped c)"
    using assms(2,3) by (intro quiet_step) (auto simp: conf_inv_def)
  with assms(1) show ?thesis by (simp add: conf_inv_def map_pc_upd del: fun_upd_apply)
qed

lemma conf_inv_step:
  assumes "conf_step moved c c'" and "conf_inv c" and "no_overflow (cf_queue c')"
  shows "conf_inv c'"
  using assms
proof (cases rule: conf_step.cases)
  case (atom ok t q' pc')
  with conf_inv_atom [OF assms(2) atom(2)] assms(3) show ?thesis by simp
qed (auto intro!: conf_inv_quiet)

lemma conf_inv_new:
  assumes new: "Queue_new dflt capacity = Ret q" and no: "no_overflow q" and two: "2 \<le> unat capacity"
  shows "conf_inv \<lparr>cf_queue = q, cf_pcs = (\<lambda>t. Idle), cf_pushed = [], cf_popped = []\<rparr>"
proof -
  let ?C = "unat capacity"
  from new have q: "q = \<lparr>q_capacity = capacity, q_mask = capacity - 1,
      q_slots = map (\<lambda>i. \<lparr>s_Index = of_nat i, s_Data = dflt\<rparr>) [0..<?C], q_nextEnqueue = 0, q_nextDequeue = 0\<rparr>"
    and pw: "0 < capacity" "capacity AND (capacity - 1) = 0"
    by (auto simp: Queue_new_def split: if_splits)
  have sh: "shape q" using power_capacity [OF pw] no by (auto simp: shape_def q)
  have "?C < 2 ^ LENGTH(64)" by (rule unsigned_less)
  then have I: "nI q i = i" if "i < ?C" for i
    using that \<open>?C < 2 ^ LENGTH(64)\<close> by (simp add: nI_def q unsigned_of_nat take_bit_nat_eq_self)
  have "ticket_inv ?C 0 0 (nI q) (nD q) (\<lambda>t. Idle) [] []"
  proof (rule ticket_invI)
    show "\<exists>n. n mod ?C = i \<and> (free_for ?C 0 0 (nI q) (\<lambda>t. Idle) n \<or> full_with ?C 0 0 (nI q) (nD q) (\<lambda>t. Idle) [] n)"
      if "i < ?C" for i
      using I [OF that] that by (intro exI [of _ i]) (simp add: free_for_def)
  qed (use two in \<open>auto simp: popped_ok_def\<close>)
  with sh show ?thesis by (simp add: conf_inv_def q)
qed

lemma reachable_capacity_inv:
  "queue_reachable moved c \<Longrightarrow> 2 \<le> unat (q_capacity (cf_queue c)) \<Longrightarrow> conf_inv c"
proof (induction rule: queue_reachable.induct)
  case (created dflt capacity q)
  then show ?case by (intro conf_inv_new) (auto simp: Queue_new_def split: if_splits)
next
  case (stepped c c')
  have "q_capacity (fst (queue_atom moved ok q pc)) = q_capacity q" for ok q pc
    by (cases pc) (auto simp: Let_def)
  note cap = this
  from stepped.hyps(2) have "q_capacity (cf_queue c') = q_capacity (cf_queue c)"
  proof (cases rule: conf_step.cases)
    case (atom ok t q' pc')
    with cap [of ok "cf_queue c" "cf_pcs c t"] show ?thesis by simp
  qed simp_all
  with stepped show ?case by (auto intro: conf_inv_step)
qed

section \<open>Sequential runs\<close>

text \<open>
  The queue seen by one thread while no other is inside an operation: the slots of the tickets from
  \<open>_nextDequeue\<close> to \<open>_nextEnqueue\<close> are full with \<open>xs\<close>, the next ones up to the capacity are free.
\<close>

definition holds :: "'a Queue \<Rightarrow> 'a list \<Rightarrow> bool" where
  "holds q xs \<longleftrightarrow> shape q \<and>
     (let C = unat (q_capacity q); nd = unat (q_nextDequeue q); ne = unat (q_nextEnqueue q) in
      2 \<le> C \<and> ne = nd + length xs \<and> length xs \<le> C \<and>
      (\<forall>j < length xs. nI q ((nd + j) mod C) = Suc (nd + j) \<and> nD q ((nd + j) mod C) = xs ! j) \<and>
      (\<forall>j. length xs \<le> j \<and> j < C \<longrightarrow> nI q ((nd + j) mod C) = nd + j))"

lemma mod_window:
  assumes "(a :: nat) \<le> m" "m < a + C" "a \<le> n" "n < a + C" "m mod C = n mod C"
  shows "m = n"
proof -
  have "m' = n'" if "m' \<le> n'" "a \<le> m'" "n' < a + C" "m' mod C = n' mod C" for m' n'
  proof -
    from that(1,4) have "C dvd n' - m'" by (metis mod_eq_dvd_iff_nat)
    moreover have "n' - m' < C" using that by linarith
    ultimately have "n' - m' = 0" by (meson nat_dvd_not_less not_gr_zero)
    with that(1) show ?thesis by simp
  qed
  from this [of m n] this [of n m] assms show ?thesis by (cases "m \<le> n") auto
qed

text \<open>In a quiescent state of the concurrent queue the contents are the tickets that have not been taken.\<close>

lemma quiescent_holds:
  assumes inv: "conf_inv c" and idle: "\<And>t. cf_pcs c t = Idle"
  shows "holds (cf_queue c) (drop (unat (q_nextDequeue (cf_queue c))) (cf_pushed c))"
proof -
  let ?q = "cf_queue c" and ?P = "\<lambda>t. map_pc id unat (cf_pcs c t)"
  let ?C = "unat (q_capacity ?q)" and ?ne = "unat (q_nextEnqueue ?q)" and ?nd = "unat (q_nextDequeue ?q)"
  from inv have sh: "shape ?q" and ti: "ticket_inv ?C ?ne ?nd (nI ?q) (nD ?q) ?P (cf_pushed c) (cf_popped c)"
    by (simp_all add: conf_inv_def)
  note v = ticket_invD [OF ti]
  have slots: "(free_for ?C ?ne ?nd (nI ?q) ?P n \<and> ?ne \<le> n) \<or>
      (full_with ?C ?ne ?nd (nI ?q) (nD ?q) ?P (cf_pushed c) n \<and> n < ?ne)"
    if n: "?nd \<le> n" "n < ?nd + ?C" for n
  proof -
    from v(1) have "n mod ?C < ?C" by simp
    from v(5) [OF this] obtain m where m: "m mod ?C = n mod ?C"
      "free_for ?C ?ne ?nd (nI ?q) ?P m \<or> full_with ?C ?ne ?nd (nI ?q) (nD ?q) ?P (cf_pushed c) m" by blast
    then have "?nd \<le> m" "m < ?nd + ?C" and k: "?ne \<le> m \<and> free_for ?C ?ne ?nd (nI ?q) ?P m \<or>
        m < ?ne \<and> full_with ?C ?ne ?nd (nI ?q) (nD ?q) ?P (cf_pushed c) m"
      using idle v(4) by (auto simp: free_for_def full_with_def not_less)
    then have "m = n" using m(1) n mod_window [of ?nd m ?C n] by simp
    with k show ?thesis by auto
  qed
  have norel: "\<not> (\<exists>t d. ?P t = PopRelease n d)" for n using idle by simp
  have "nI ?q ((?nd + j) mod ?C) = Suc (?nd + j) \<and> nD ?q ((?nd + j) mod ?C) = cf_pushed c ! (?nd + j)"
    if "?nd + j < ?ne" for j
    using slots [of "?nd + j"] that v(4) norel by (auto simp: full_with_def)
  moreover have "nI ?q ((?nd + j) mod ?C) = ?nd + j" if "?ne \<le> ?nd + j" "j < ?C" for j
    using slots [of "?nd + j"] that by (auto simp: free_for_def)
  ultimately show ?thesis
    using sh v(1-4) unfolding holds_def Let_def by auto
qed

section \<open>The operations of one thread refine a bounded FIFO\<close>

lemma queue_run_Done: "queue_run moved q (PushDone b) = Some (q, PushDone b)"
  "queue_run moved q (PopDone r) = Some (q, PopDone r)"
  by (simp_all add: queue_run.simps)

lemma queue_run_step:
  "pc \<notin> range PushDone \<union> range PopDone \<Longrightarrow> queue_atom moved True q pc = (q', pc') \<Longrightarrow>
    queue_run moved q pc = queue_run moved q' pc'"
  by (subst queue_run.simps) (auto split: pc.splits)

lemma queue_run_eqs:
  "queue_run moved q (PushLoad d) = queue_run moved q (PushLoop d (q_nextEnqueue q))"
  "n = s_Index (q_slots q ! q_slot q n) \<Longrightarrow>
    queue_run moved q (PushLoop d n) = queue_run moved q (PushCas d n)"
  "q_nextEnqueue q = n \<Longrightarrow>
    queue_run moved q (PushCas d n) = queue_run moved (q\<lparr>q_nextEnqueue := n + 1\<rparr>) (PushWrite d n)"
  "queue_run moved q (PushWrite d n) = queue_run moved
     (q\<lparr>q_slots := (q_slots q)[q_slot q n := (q_slots q ! q_slot q n)\<lparr>s_Data := d\<rparr>]\<rparr>) (PushRelease n)"
  "queue_run moved q (PushRelease n) = Some
     (q\<lparr>q_slots := (q_slots q)[q_slot q n := (q_slots q ! q_slot q n)\<lparr>s_Index := n + 1\<rparr>]\<rparr>, PushDone True)"
  by (subst queue_run.simps; simp add: Let_def queue_run_Done)+

lemma Push_seq:
  assumes h: "holds q xs" and no: "unat (q_nextEnqueue q) + 2 * unat (q_capacity q) < 2 ^ 64 - 1"
  shows "if length xs < unat (q_capacity q)
    then \<exists>q'. Push moved q d = Some (True, q') \<and> holds q' (xs @ [d]) \<and>
      unat (q_nextEnqueue q') = Suc (unat (q_nextEnqueue q)) \<and> q_capacity q' = q_capacity q
    else Push moved q d = Some (False, q)"
proof -
  let ?C = "unat (q_capacity q)" and ?n = "q_nextEnqueue q" and ?nd = "unat (q_nextDequeue q)"
  let ?i = "unat ?n mod ?C"
  from h have sh: "shape q" and C: "2 \<le> ?C" and ne: "unat ?n = ?nd + length xs" and len: "length xs \<le> ?C"
    and full: "\<And>j. j < length xs \<Longrightarrow> nI q ((?nd + j) mod ?C) = Suc (?nd + j) \<and> nD q ((?nd + j) mod ?C) = xs ! j"
    and free: "\<And>j. length xs \<le> j \<Longrightarrow> j < ?C \<Longrightarrow> nI q ((?nd + j) mod ?C) = ?nd + j"
    by (auto simp: holds_def Let_def)
  have idx: "unat (s_Index (q_slots q ! q_slot q ?n)) = nI q ?i" by (simp add: nI_def q_slot_mod [OF sh])
  have run1: "queue_run moved q (PushLoad d) = queue_run moved q (PushLoop d ?n)"
    by (rule queue_run_step) auto
  show ?thesis
  proof (cases "length xs < ?C")
    case True
    let ?q1 = "q\<lparr>q_nextEnqueue := ?n + 1\<rparr>"
    have slot1: "q_slot ?q1 ?n = q_slot q ?n" by (simp add: q_slot_def)
    let ?q2 = "?q1\<lparr>q_slots := (q_slots q)[q_slot q ?n := (q_slots q ! q_slot q ?n)\<lparr>s_Data := d\<rparr>]\<rparr>"
    let ?q3 = "?q2\<lparr>q_slots := (q_slots ?q2)[q_slot q ?n := (q_slots ?q2 ! q_slot q ?n)\<lparr>s_Index := ?n + 1\<rparr>]\<rparr>"
    have eq: "?n = s_Index (q_slots q ! q_slot q ?n)"
      using free [of "length xs"] True idx ne by (simp add: word_unat_eq_iff)
    have "queue_run moved q (PushLoop d ?n) = queue_run moved q (PushCas d ?n)"
      by (rule queue_run_step) (use eq in \<open>auto simp: Let_def\<close>)
    also have "\<dots> = queue_run moved ?q1 (PushWrite d ?n)"
      by (rule queue_run_step) auto
    also have "\<dots> = queue_run moved ?q2 (PushRelease ?n)"
      by (rule queue_run_step) (auto simp: slot1)
    also have "\<dots> = queue_run moved ?q3 (PushDone True)"
      by (rule queue_run_step) (auto simp: q_slot_def)
    finally have push: "Push moved q d = Some (True, ?q3)"
      by (simp add: Push_def run1 queue_run_Done)
    have suc: "unat (?n + 1) = Suc (unat ?n)" using unat_add_small [of ?n 1] no by simp
    have lens: "length (q_slots ?q2) = length (q_slots q)" by simp
    have I3: "nI ?q3 = (nI q)(?i := Suc (unat ?n))"
      by (rule ext) (use q_slot_less [OF sh, of ?n] in \<open>auto simp: nI_def nth_list_update suc q_slot_mod [OF sh]\<close>)
    have D3: "nD ?q3 = (nD q)(?i := d)"
      by (rule ext) (use q_slot_less [OF sh, of ?n] in \<open>auto simp: nD_def nth_list_update q_slot_mod [OF sh]\<close>)
    have other: "(?nd + j) mod ?C \<noteq> ?i" if "j < ?C" "j \<noteq> length xs" for j
      using mod_window [of ?nd "?nd + j" ?C "unat ?n"] that True ne by auto
    have "holds ?q3 (xs @ [d])"
      unfolding holds_def Let_def I3 D3
    proof (intro conjI allI impI)
      show "shape ?q3" using sh no by (auto simp: shape_def no_overflow_def suc)
      fix j assume j: "j < length (xs @ [d])"
      show "((nI q)(?i := Suc (unat ?n))) ((unat (q_nextDequeue ?q3) + j) mod unat (q_capacity ?q3)) =
          Suc (unat (q_nextDequeue ?q3) + j)"
        using j True ne full [of j] other [of j] by (cases "j = length xs") auto
      show "((nD q)(?i := d)) ((unat (q_nextDequeue ?q3) + j) mod unat (q_capacity ?q3)) = (xs @ [d]) ! j"
        using j True ne full [of j] other [of j] by (cases "j = length xs") (auto simp: nth_append)
    next
      fix j assume "length (xs @ [d]) \<le> j \<and> j < unat (q_capacity ?q3)"
      then show "((nI q)(?i := Suc (unat ?n))) ((unat (q_nextDequeue ?q3) + j) mod unat (q_capacity ?q3)) =
          unat (q_nextDequeue ?q3) + j"
        using free [of j] other [of j] by auto
    qed (use C ne suc True in simp_all)
    with push True suc show ?thesis by auto
  next
    case False
    with len have l: "length xs = ?C" by simp
    have "?i = (?nd + 0) mod ?C" using ne l by simp
    with full [of 0] C l have "nI q ?i = Suc ?nd" by simp
    with idx ne l C have "s_Index (q_slots q ! q_slot q ?n) < ?n" by (simp add: word_less_nat_alt)
    then have "queue_run moved q (PushLoop d ?n) = queue_run moved q (PushDone False)"
      by (intro queue_run_step) (auto simp: Let_def)
    then have "Push moved q d = Some (False, q)" by (simp add: Push_def run1 queue_run_Done)
    with False show ?thesis by simp
  qed
qed

lemma Pop_seq:
  assumes h: "holds q xs"
  shows "case xs of [] \<Rightarrow> Pop moved q = Some (None, q)
    | x # ys \<Rightarrow> \<exists>q'. Pop moved q = Some (Some x, q') \<and> holds q' ys \<and>
        q_nextEnqueue q' = q_nextEnqueue q \<and> q_capacity q' = q_capacity q"
proof -
  let ?C = "unat (q_capacity q)" and ?n = "q_nextDequeue q" and ?nd = "unat (q_nextDequeue q)"
  let ?i = "unat ?n mod ?C"
  from h have sh: "shape q" and C: "2 \<le> ?C" and ne: "unat (q_nextEnqueue q) = ?nd + length xs" and len: "length xs \<le> ?C"
    and full: "\<And>j. j < length xs \<Longrightarrow> nI q ((?nd + j) mod ?C) = Suc (?nd + j) \<and> nD q ((?nd + j) mod ?C) = xs ! j"
    and free: "\<And>j. length xs \<le> j \<Longrightarrow> j < ?C \<Longrightarrow> nI q ((?nd + j) mod ?C) = ?nd + j"
    by (auto simp: holds_def Let_def)
  have idx: "unat (s_Index (q_slots q ! q_slot q ?n)) = nI q ?i" by (simp add: nI_def q_slot_mod [OF sh])
  have no: "?nd + length xs + 2 * ?C < 2 ^ 64" using sh ne by (simp add: shape_def no_overflow_def)
  have suc: "unat (?n + 1) = Suc ?nd" using unat_add_small [of ?n 1] no C by simp
  have cap: "unat (?n + q_capacity q) = ?nd + ?C" using unat_add_small [of ?n "q_capacity q"] no by simp
  have run1: "queue_run moved q PopLoad = queue_run moved q (PopLoop ?n)"
    by (rule queue_run_step) auto
  show ?thesis
  proof (cases xs)
    case Nil
    with free [of 0] C have "nI q ?i = ?nd" by simp
    with idx suc have "s_Index (q_slots q ! q_slot q ?n) < ?n + 1" "?n + 1 \<noteq> s_Index (q_slots q ! q_slot q ?n)"
      by (auto simp: word_less_nat_alt)
    then have "queue_run moved q (PopLoop ?n) = queue_run moved q (PopDone None)"
      by (intro queue_run_step) (auto simp: Let_def)
    with Nil show ?thesis by (simp add: Pop_def run1 queue_run_Done)
  next
    case (Cons x ys)
    let ?q1 = "q\<lparr>q_nextDequeue := ?n + 1\<rparr>"
    let ?s = "q_slots q ! q_slot q ?n"
    let ?q2 = "?q1\<lparr>q_slots := (q_slots q)[q_slot q ?n := ?s\<lparr>s_Data := moved (s_Data ?s)\<rparr>]\<rparr>"
    let ?q3 = "?q2\<lparr>q_slots := (q_slots ?q2)[q_slot q ?n := (q_slots ?q2 ! q_slot q ?n)\<lparr>s_Index := ?n + q_capacity q\<rparr>]\<rparr>"
    from full [of 0] Cons have f0: "nI q ?i = Suc ?nd" "nD q ?i = x" by simp_all
    have eq: "?n + 1 = s_Index ?s" using f0 idx suc by (simp add: word_unat_eq_iff)
    have data: "s_Data ?s = x" using f0(2) by (simp add: nD_def q_slot_mod [OF sh])
    have "queue_run moved q (PopLoop ?n) = queue_run moved q (PopCas ?n)"
      by (rule queue_run_step) (use eq in \<open>auto simp: Let_def\<close>)
    also have "\<dots> = queue_run moved ?q1 (PopRead ?n)"
      by (rule queue_run_step) auto
    also have "\<dots> = queue_run moved ?q2 (PopRelease ?n x)"
      by (rule queue_run_step) (use data in \<open>auto simp: Let_def q_slot_def\<close>)
    also have "\<dots> = queue_run moved ?q3 (PopDone (Some x))"
      by (rule queue_run_step) (auto simp: q_slot_def)
    finally have pop: "Pop moved q = Some (Some x, ?q3)"
      by (simp add: Pop_def run1 queue_run_Done)
    have I3: "nI ?q3 = (nI q)(?i := ?nd + ?C)"
      by (rule ext) (use q_slot_less [OF sh, of ?n] in \<open>auto simp: nI_def nth_list_update cap q_slot_mod [OF sh]\<close>)
    have D3: "nD ?q3 j = nD q j" if "j \<noteq> ?i" for j
      using that q_slot_less [OF sh, of ?n] by (auto simp: nD_def nth_list_update q_slot_mod [OF sh])
    have other: "(?nd + j) mod ?C \<noteq> ?i" if "0 < j" "j < ?C" for j
      using mod_window [of ?nd "?nd + j" ?C ?nd] that by auto
    have "holds ?q3 ys"
      unfolding holds_def Let_def I3
    proof (intro conjI allI impI)
      show "shape ?q3" using sh by (auto simp: shape_def no_overflow_def)
      fix j assume j: "j < length ys"
      show "((nI q)(?i := ?nd + ?C)) ((unat (q_nextDequeue ?q3) + j) mod unat (q_capacity ?q3)) =
          Suc (unat (q_nextDequeue ?q3) + j)"
        using j Cons len full [of "Suc j"] other [of "Suc j"] suc by auto
      show "nD ?q3 ((unat (q_nextDequeue ?q3) + j) mod unat (q_capacity ?q3)) = ys ! j"
        using j Cons len full [of "Suc j"] other [of "Suc j"] suc D3 by auto
    next
      fix j assume j: "length ys \<le> j \<and> j < unat (q_capacity ?q3)"
      show "((nI q)(?i := ?nd + ?C)) ((unat (q_nextDequeue ?q3) + j) mod unat (q_capacity ?q3)) =
          unat (q_nextDequeue ?q3) + j"
      proof (cases "Suc j = ?C")
        case True
        then have "(unat (q_nextDequeue ?q3) + j) mod unat (q_capacity ?q3) = ?i"
          using suc by (simp add: add_Suc_right [symmetric] del: add_Suc_right)
        with True suc show ?thesis by simp
      next
        case False
        with j free [of "Suc j"] other [of "Suc j"] Cons suc show ?thesis by auto
      qed
    qed (use C ne suc Cons len in simp_all)
    with pop Cons show ?thesis by auto
  qed
qed

text \<open>The contract of a bounded FIFO, with a budget of pushes (the counters are finite).\<close>

locale bounded_fifo =
  fixes push :: "'q \<Rightarrow> 'a \<Rightarrow> (bool \<times> 'q) option"
    and pop :: "'q \<Rightarrow> ('a option \<times> 'q) option"
    and contents :: "'q \<Rightarrow> 'a list \<Rightarrow> bool"
    and bound :: "'q \<Rightarrow> nat"
    and budget :: "'q \<Rightarrow> nat"
  assumes push_room: "contents q xs \<Longrightarrow> length xs < bound q \<Longrightarrow> 0 < budget q \<Longrightarrow>
      \<exists>q'. push q d = Some (True, q') \<and> contents q' (xs @ [d]) \<and> bound q' = bound q \<and> budget q' = budget q - 1"
    and push_full: "contents q xs \<Longrightarrow> length xs = bound q \<Longrightarrow> 0 < budget q \<Longrightarrow> push q d = Some (False, q)"
    and pop_first: "contents q (x # xs) \<Longrightarrow>
      \<exists>q'. pop q = Some (Some x, q') \<and> contents q' xs \<and> bound q' = bound q \<and> budget q' = budget q"
    and pop_empty: "contents q [] \<Longrightarrow> pop q = Some (None, q)"
    and bounded: "contents q xs \<Longrightarrow> length xs \<le> bound q"

datatype 'a queue_op = Op_push 'a | Op_pop

datatype 'a queue_res = Res_push bool | Res_pop "'a option"

text \<open>A sequence of operations, on an implementation and on the specification.\<close>

fun run_ops ::
    "('q \<Rightarrow> 'a \<Rightarrow> (bool \<times> 'q) option) \<Rightarrow> ('q \<Rightarrow> ('a option \<times> 'q) option) \<Rightarrow>
     'a queue_op list \<Rightarrow> 'q \<Rightarrow> ('a queue_res list \<times> 'q) option" where
  "run_ops push pop [] q = Some ([], q)"
| "run_ops push pop (Op_push d # ops) q =
     Option.bind (push q d) (\<lambda>(b, q1).
       map_option (\<lambda>(rs, q2). (Res_push b # rs, q2)) (run_ops push pop ops q1))"
| "run_ops push pop (Op_pop # ops) q =
     Option.bind (pop q) (\<lambda>(r, q1).
       map_option (\<lambda>(rs, q2). (Res_pop r # rs, q2)) (run_ops push pop ops q1))"

fun fifo_ops :: "nat \<Rightarrow> 'a queue_op list \<Rightarrow> 'a list \<Rightarrow> 'a queue_res list \<times> 'a list" where
  "fifo_ops c [] xs = ([], xs)"
| "fifo_ops c (Op_push d # ops) xs =
     (let (b, ys) = (if length xs < c then (True, xs @ [d]) else (False, xs)); (rs, zs) = fifo_ops c ops ys
      in (Res_push b # rs, zs))"
| "fifo_ops c (Op_pop # ops) xs =
     (let (r, ys) = (case xs of [] \<Rightarrow> (None, []) | x # ys \<Rightarrow> (Some x, ys)); (rs, zs) = fifo_ops c ops ys
      in (Res_pop r # rs, zs))"

context bounded_fifo
begin

lemma ops_refine:
  assumes "contents q xs" and "length ops \<le> budget q"
  shows "\<exists>q'. run_ops push pop ops q = Some (fst (fifo_ops (bound q) ops xs), q') \<and>
    contents q' (snd (fifo_ops (bound q) ops xs)) \<and> bound q' = bound q"
  using assms
proof (induction ops arbitrary: q xs)
  case Nil
  then show ?case by simp
next
  case (Cons op ops)
  show ?case
  proof (cases op)
    case (Op_push d)
    show ?thesis
    proof (cases "length xs < bound q")
      case True
      with push_room [OF Cons.prems(1) True, of d] Cons.prems(2) obtain q1 where
        q1: "push q d = Some (True, q1)" "contents q1 (xs @ [d])" "bound q1 = bound q" "budget q1 = budget q - 1"
        by auto
      with Cons.IH [OF q1(2)] Cons.prems(2) True show ?thesis
        by (auto simp: Op_push case_prod_beta)
    next
      case False
      with bounded [OF Cons.prems(1)] push_full [OF Cons.prems(1), of d] Cons.prems(2)
      have "push q d = Some (False, q)" by auto
      with Cons.IH [OF Cons.prems(1)] Cons.prems(2) False show ?thesis
        by (auto simp: Op_push case_prod_beta)
    qed
  next
    case Op_pop
    show ?thesis
    proof (cases xs)
      case Nil
      with Cons.prems(1) pop_empty [of q] have "pop q = Some (None, q)" by simp
      with Cons.IH [OF Cons.prems(1)] Cons.prems(2) Nil show ?thesis
        by (auto simp: Op_pop case_prod_beta)
    next
      case (Cons x ys)
      from pop_first [OF \<open>contents q xs\<close> [unfolded Cons]] obtain q1 where
        q1: "pop q = Some (Some x, q1)" "contents q1 ys" "bound q1 = bound q" "budget q1 = budget q" by blast
      with Cons.IH [OF q1(2)] \<open>length (op # ops) \<le> budget q\<close> Cons show ?thesis
        by (auto simp: Op_pop case_prod_beta)
    qed
  qed
qed

end

definition q_bound :: "'a Queue \<Rightarrow> nat" where
  "q_bound q = unat (q_capacity q)"

definition q_budget :: "'a Queue \<Rightarrow> nat" where
  "q_budget q = 2 ^ 64 - 1 - (unat (q_nextEnqueue q) + 2 * unat (q_capacity q))"

interpretation mpmc: bounded_fifo "Push moved" "Pop moved" holds q_bound q_budget for moved :: "'a \<Rightarrow> 'a"
proof
  fix q :: "'a Queue" and xs d
  assume h: "holds q xs" and b: "0 < q_budget q"
  then have no: "unat (q_nextEnqueue q) + 2 * unat (q_capacity q) < 2 ^ 64 - 1" by (simp add: q_budget_def)
  note push = Push_seq [OF h no, of moved d]
  show "\<exists>q'. Push moved q d = Some (True, q') \<and> holds q' (xs @ [d]) \<and> q_bound q' = q_bound q \<and>
      q_budget q' = q_budget q - 1" if "length xs < q_bound q"
    using push that by (auto simp: q_bound_def q_budget_def)
  show "Push moved q d = Some (False, q)" if "length xs = q_bound q"
    using push that by (simp add: q_bound_def)
next
  fix q :: "'a Queue" and x xs
  assume "holds q (x # xs)"
  from Pop_seq [OF this, of moved] show "\<exists>q'. Pop moved q = Some (Some x, q') \<and> holds q' xs \<and>
      q_bound q' = q_bound q \<and> q_budget q' = q_budget q"
    by (auto simp: q_bound_def q_budget_def)
next
  fix q :: "'a Queue"
  assume "holds q []"
  from Pop_seq [OF this, of moved] show "Pop moved q = Some (None, q)" by simp
qed (auto simp: holds_def Let_def q_bound_def)

lemma Queue_new_holds:
  assumes "Queue_new dflt capacity = Ret q" and "2 \<le> unat capacity" and "unat capacity < 2 ^ 63"
  shows "holds q []" and "q_bound q = unat capacity" and "q_budget q = 2 ^ 64 - 1 - 2 * unat capacity"
proof -
  have q: "q_nextEnqueue q = 0" "q_nextDequeue q = 0" "q_capacity q = capacity"
    using assms(1) by (auto simp: Queue_new_def split: if_splits)
  then have "no_overflow q" using assms(3) by (simp add: no_overflow_def)
  from quiescent_holds [OF conf_inv_new [OF assms(1) this assms(2)]] show "holds q []" by simp
  show "q_bound q = unat capacity" "q_budget q = 2 ^ 64 - 1 - 2 * unat capacity"
    by (simp_all add: q_bound_def q_budget_def q)
qed

text \<open>The slot whose data a thread may access where it stands.\<close>

definition slot_of_pc :: "'a Queue \<Rightarrow> ('a, size_t) pc \<Rightarrow> nat option" where
  "slot_of_pc q pc = map_option (q_slot q) (case push_tk pc of None \<Rightarrow> pop_tk pc | Some n \<Rightarrow> Some n)"

lemma map_pc_tk:
  "push_tk (map_pc id f pc) = map_option f (push_tk pc)" "pop_tk (map_pc id f pc) = map_option f (pop_tk pc)"
  by (cases pc; simp)+

lemma slot_of_pc_cases:
  assumes "slot_of_pc q pc = Some i"
  obtains (pushing) n where "push_tk pc = Some n" "i = q_slot q n"
  | (popping) n where "pop_tk pc = Some n" "i = q_slot q n"
  using assms by (cases pc) (auto simp: slot_of_pc_def)

lemma tk_ok:
  assumes "ticket_inv C ne nd I D P pushed popped"
  shows "push_tk (P t) = Some n \<Longrightarrow> I (n mod C) = n" "pop_tk (P t) = Some n \<Longrightarrow> I (n mod C) = n + 1"
  using ticket_invD(6) [OF assms, of t] by (cases "P t"; auto)+

lemma no_race:
  assumes inv: "conf_inv c"
    and a: "slot_of_pc (cf_queue c) (cf_pcs c t) = Some i" and b: "slot_of_pc (cf_queue c) (cf_pcs c t') = Some i"
  shows "t = t'"
proof -
  let ?q = "cf_queue c" and ?P = "\<lambda>t. map_pc id unat (cf_pcs c t)"
  let ?C = "unat (q_capacity ?q)"
  from inv have sh: "shape ?q" and ti: "ticket_inv ?C (unat (q_nextEnqueue ?q)) (unat (q_nextDequeue ?q))
      (nI ?q) (nD ?q) ?P (cf_pushed c) (cf_popped c)"
    by (simp_all add: conf_inv_def)
  note v = ticket_invD [OF ti] and tk = tk_ok [OF ti]
  have push: "push_tk (?P s) = Some (unat n) \<and> nI ?q i = unat n \<and> i = unat n mod ?C"
    if "push_tk (cf_pcs c s) = Some n" "i = q_slot ?q n" for s n
    using that tk(1) [of s "unat n"] by (simp add: map_pc_tk q_slot_mod [OF sh])
  have pop: "pop_tk (?P s) = Some (unat n) \<and> nI ?q i = unat n + 1 \<and> i = unat n mod ?C"
    if "pop_tk (cf_pcs c s) = Some n" "i = q_slot ?q n" for s n
    using that tk(2) [of s "unat n"] by (simp add: map_pc_tk q_slot_mod [OF sh])
  have clash: False if "nI ?q i = m" "i = m mod ?C" "nI ?q i = n + 1" "i = n mod ?C" for m n
    using that succ_mod_neq [OF v(1), of n] by auto
  from a show ?thesis
  proof (cases rule: slot_of_pc_cases)
    case (pushing n)
    note n = push [OF pushing]
    from b show ?thesis
    proof (cases rule: slot_of_pc_cases)
      case (pushing m)
      with push [OF pushing] n v(7) show ?thesis by metis
    next
      case (popping m)
      with pop [OF popping] n clash show ?thesis by blast
    qed
  next
    case (popping n)
    note n = pop [OF popping]
    from b show ?thesis
    proof (cases rule: slot_of_pc_cases)
      case (pushing m)
      with push [OF pushing] n clash show ?thesis by blast
    next
      case (popping m)
      with pop [OF popping] n v(8) show ?thesis by (metis add_right_cancel)
    qed
  qed
qed

text \<open>One step of a chosen thread, for the concrete runs.\<close>

definition conf_atom :: "('a \<Rightarrow> 'a) \<Rightarrow> nat \<Rightarrow> 'a conf \<Rightarrow> 'a conf" where
  "conf_atom moved t c =
     (let (q', pc') = queue_atom moved True (cf_queue c) (cf_pcs c t) in
      \<lparr>cf_queue = q', cf_pcs = (cf_pcs c)(t := pc'),
       cf_pushed = cf_pushed c @ log_push (cf_pcs c t) pc',
       cf_popped = cf_popped c @ log_pop (cf_pcs c t) pc'\<rparr>)"

lemma conf_atom_reachable:
  "queue_reachable moved c \<Longrightarrow> no_overflow (cf_queue (conf_atom moved t c)) \<Longrightarrow>
    queue_reachable moved (conf_atom moved t c)"
  by (erule queue_reachable.stepped)
    (auto simp: conf_atom_def case_prod_beta intro!: conf_step.atom [where ok = True])

definition sample_conf :: "nat conf" where
  "sample_conf = \<lparr>cf_queue = \<lparr>q_capacity = 2, q_mask = 1,
      q_slots = [\<lparr>s_Index = 0, s_Data = 0\<rparr>, \<lparr>s_Index = 1, s_Data = 0\<rparr>],
      q_nextEnqueue = 0, q_nextDequeue = 0\<rparr>, cf_pcs = (\<lambda>t. Idle), cf_pushed = [], cf_popped = []\<rparr>"

definition sample_push :: "nat conf" where
  "sample_push = sample_conf\<lparr>cf_pcs := (\<lambda>t. Idle)(0 := PushLoad 7, 1 := PopLoad)\<rparr>"

lemma sample_conf_reachable: "queue_reachable id sample_conf"
proof -
  have "Queue_new (0 :: nat) 2 = Ret (cf_queue sample_conf)"
    by (simp add: Queue_new_def sample_conf_def upt_rec)
  from queue_reachable.created [OF this, of id] show ?thesis
    by (simp add: sample_conf_def no_overflow_def)
qed

lemma sample_push_reachable: "queue_reachable id sample_push"
proof -
  have no: "no_overflow (cf_queue sample_conf)" by (simp add: sample_conf_def no_overflow_def)
  let ?c = "sample_conf\<lparr>cf_pcs := (cf_pcs sample_conf)(0 := PushLoad 7)\<rparr>"
  have "conf_step id sample_conf ?c" by (rule conf_step.call_push) (simp add: sample_conf_def)
  with no have c: "queue_reachable id ?c" by (intro queue_reachable.stepped [OF sample_conf_reachable]) simp_all
  have "conf_step id ?c (?c\<lparr>cf_pcs := (cf_pcs ?c)(1 := PopLoad)\<rparr>)"
    by (rule conf_step.call_pop) (simp add: sample_conf_def)
  with no have "queue_reachable id (?c\<lparr>cf_pcs := (cf_pcs ?c)(1 := PopLoad)\<rparr>)"
    by (intro queue_reachable.stepped [OF c]) simp_all
  then show ?thesis by (simp add: sample_push_def sample_conf_def)
qed

lemmas sample_run = sample_push_def sample_conf_def conf_atom_def q_slot_def Let_def no_overflow_def
  slot_of_pc_def

fun run_threads :: "nat list \<Rightarrow> nat conf \<Rightarrow> nat conf option" where
  "run_threads [] c = Some c"
| "run_threads (t # ts) c =
     (let c' = conf_atom id t c in if no_overflow (cf_queue c') then run_threads ts c' else None)"

lemma run_threads_reachable:
  "queue_reachable id c \<Longrightarrow> run_threads ts c = Some c' \<Longrightarrow> queue_reachable id c'"
  by (induction ts arbitrary: c) (auto simp: Let_def split: if_splits intro: conf_atom_reachable)

text \<open>A queue of capacity 1 after \<open>n\<close> pushes, of which \<open>d\<close> was the last, and no \<open>Pop\<close>.\<close>

definition queue_one :: "size_t \<Rightarrow> 'a \<Rightarrow> 'a Queue" where
  "queue_one n d = \<lparr>q_capacity = 1, q_mask = 0, q_slots = [\<lparr>s_Index = n, s_Data = d\<rparr>],
     q_nextEnqueue = n, q_nextDequeue = 0\<rparr>"

text \<open>From the second push on the index is too far ahead: \<open>Pop\<close> reloads its counter forever.\<close>

lemma spin_one:
  assumes "1 < n"
  shows "queue_run moved (queue_one n b) PopLoad = None"
proof -
  let ?q = "queue_one n b"
  define R where "R m q pc r \<longleftrightarrow> \<not> (q = ?q \<and> (pc = PopLoad \<or> pc = PopLoop 0))"
    for m :: "'a \<Rightarrow> 'a" and q and pc :: "('a, size_t) pc" and r :: "'a Queue \<times> ('a, size_t) pc"
  have "R moved q pc r" if "queue_run moved q pc = Some r" for q pc r
  proof (rule queue_run.raw_induct [of R, OF _ that])
    fix run :: "('a \<Rightarrow> 'a) \<Rightarrow> 'a Queue \<Rightarrow> ('a, size_t) pc \<Rightarrow> ('a Queue \<times> ('a, size_t) pc) option"
      and m q pc r
    assume IH: "\<And>m q pc r. run m q pc = Some r \<Longrightarrow> R m q pc r"
      and body: "(case pc of
          PushDone b \<Rightarrow> Some (q, pc)
        | PopDone r \<Rightarrow> Some (q, pc)
        | _ \<Rightarrow> (case queue_atom m True q pc of (q', pc') \<Rightarrow> run m q' pc')) = Some r"
    show "R m q pc r" unfolding R_def
    proof
      assume at: "q = ?q \<and> (pc = PopLoad \<or> pc = PopLoop 0)"
      then have "run m ?q (PopLoop 0) = Some r \<or> run m ?q PopLoad = Some r"
        using body assms by (auto simp: q_slot_def queue_one_def split: if_splits)
      with IH show False unfolding R_def by blast
    qed
  qed
  then show ?thesis unfolding R_def by (metis not_None_eq)
qed

text \<open>
  A queue of capacity 1 is accepted by the constructor and is broken: every push succeeds and
  overwrites the value before, and after two of them \<open>Pop\<close> does not return.
\<close>

lemma queue_capacity_one_broken:
  "Queue_new dflt 1 = Ret (queue_one 0 dflt)"
  "Push moved (queue_one n d) a = Some (True, queue_one (n + 1) a)"
  "1 < n \<Longrightarrow> Pop moved (queue_one n d) = None"
proof -
  show "Queue_new dflt 1 = Ret (queue_one 0 dflt)" by (simp add: Queue_new_def queue_one_def)
  show "Push moved (queue_one n d) a = Some (True, queue_one (n + 1) a)"
    by (simp add: Push_def queue_run_eqs q_slot_def queue_one_def)
  show "Pop moved (queue_one n d) = None" if "1 < n"
    using spin_one [OF that, of moved d] by (simp add: Pop_def)
qed

section \<open>Properties\<close>

text \<open>
  C7: the concurrent queue delivers by ticket. In every interleaving of any number of producers and
  consumers (with spuriously failing compare-and-swaps, while \<open>size_t\<close> does not overflow), on a capacity
  of at least 2: a value that has been read is the one that was pushed with the same ticket, no ticket is
  delivered twice, and the queue never holds more than its capacity.
\<close>

theorem queue_ticket_fifo:
  assumes "queue_reachable moved c" and "2 \<le> unat (q_capacity (cf_queue c))"
  shows "distinct (map fst (cf_popped c)) \<and>
    (\<forall>(n, d) \<in> set (cf_popped c). n < length (cf_pushed c) \<and> cf_pushed c ! n = d) \<and>
    length (cf_pushed c) \<le> unat (q_nextDequeue (cf_queue c)) + unat (q_capacity (cf_queue c))"
  using reachable_capacity_inv [OF assms] by (auto simp: conf_inv_def ticket_inv_def popped_ok_def)

lemma queue_ticket_fifo_witness:
  "\<exists>c. queue_reachable id c \<and> cf_popped c = [(0, 7 :: nat)] \<and> cf_pushed c ! 0 = 7"
proof -
  obtain c where c: "run_threads [0, 0, 0, 0, 0, 1, 1, 1, 1] sample_push = Some c"
    "cf_popped c = [(0, 7)]" "unat (q_capacity (cf_queue c)) = 2"
    by (simp add: sample_run)
  have r: "queue_reachable id c" by (rule run_threads_reachable [OF sample_push_reachable c(1)])
  have "cf_pushed c ! 0 = 7" using queue_ticket_fifo [OF r] c(2,3) by simp
  with r c(2) show ?thesis by blast
qed

text \<open>
  C19: accesses to the data of a slot do not race. Two different threads that stand between their
  successful compare-and-swap and their store of the index work on different slots.
\<close>

theorem queue_race_free:
  assumes "queue_reachable moved c" and "2 \<le> unat (q_capacity (cf_queue c))"
    and "slot_of_pc (cf_queue c) (cf_pcs c t) = Some i" and "slot_of_pc (cf_queue c) (cf_pcs c t') = Some i"
  shows "t = t'"
  by (rule no_race [OF reachable_capacity_inv [OF assms(1,2)] assms(3,4)])

lemma queue_race_free_witness:
  "\<exists>c :: nat conf. queue_reachable id c \<and> slot_of_pc (cf_queue c) (cf_pcs c 0) = Some 0 \<and>
    {t. slot_of_pc (cf_queue c) (cf_pcs c t) = Some 0} = {0}"
proof -
  obtain c where run: "run_threads [0, 0, 0] sample_push = Some c"
    "slot_of_pc (cf_queue c) (cf_pcs c 0) = Some 0" "2 \<le> unat (q_capacity (cf_queue c))"
    by (simp add: sample_run)
  have c: "queue_reachable id c" "slot_of_pc (cf_queue c) (cf_pcs c 0) = Some 0"
    "2 \<le> unat (q_capacity (cf_queue c))"
    by (rule run_threads_reachable [OF sample_push_reachable run(1)]) (rule run(2,3))+
  have "t = 0" if "slot_of_pc (cf_queue c) (cf_pcs c t) = Some 0" for t
    by (rule queue_race_free [OF c(1,3) that c(2)])
  then have "{t. slot_of_pc (cf_queue c) (cf_pcs c t) = Some 0} \<subseteq> {0}" by auto
  moreover have "{0} \<subseteq> {t. slot_of_pc (cf_queue c) (cf_pcs c t) = Some 0}" using c(2) by simp
  ultimately have "{t. slot_of_pc (cf_queue c) (cf_pcs c t) = Some 0} = {0}" by (rule subset_antisym)
  with c(1,2) have "queue_reachable id c \<and> slot_of_pc (cf_queue c) (cf_pcs c 0) = Some 0 \<and>
      {t. slot_of_pc (cf_queue c) (cf_pcs c t) = Some 0} = {0}" by (intro conjI)
  then show ?thesis ..
qed

text \<open>
  C37: nothing is lost. When no thread is inside an operation, every ticket up to \<open>_nextDequeue\<close> has been
  delivered, and the queue holds exactly the values pushed with the tickets from there on, in order.
\<close>

theorem queue_quiescent_nothing_lost:
  assumes "queue_reachable moved c" and "2 \<le> unat (q_capacity (cf_queue c))" and "\<forall>t. cf_pcs c t = Idle"
  shows "fst ` set (cf_popped c) = {..< unat (q_nextDequeue (cf_queue c))} \<and>
    holds (cf_queue c) (drop (unat (q_nextDequeue (cf_queue c))) (cf_pushed c))"
proof -
  have inv: "conf_inv c" by (rule reachable_capacity_inv [OF assms(1,2)])
  have "fst ` set (cf_popped c) = {..< unat (q_nextDequeue (cf_queue c))}"
    using inv assms(3) by (force simp: conf_inv_def ticket_inv_def popped_ok_def)
  with quiescent_holds [OF inv] assms(3) show ?thesis by blast
qed

lemma queue_quiescent_nothing_lost_witness:
  "queue_reachable id sample_conf \<and> cf_popped sample_conf = [] \<and> holds (cf_queue sample_conf) []"
proof -
  have "2 \<le> unat (q_capacity (cf_queue sample_conf))" "\<forall>t. cf_pcs sample_conf t = Idle"
    by (simp_all add: sample_conf_def)
  from queue_quiescent_nothing_lost [OF sample_conf_reachable this] sample_conf_reachable show ?thesis
    by (simp add: sample_conf_def)
qed

text \<open>
  C20: one thread at a time sees a bounded FIFO. A new queue of a capacity from 2 to \<open>2 ^ 62\<close> gives, for
  every sequence of fewer than \<open>2 ^ 63\<close> operations, the results of a list that is pushed at the end, popped
  at the front and refuses a push at its capacity; in particular every operation returns.
\<close>

theorem queue_refines_fifo:
  assumes "Queue_new dflt capacity = Ret q" and "2 \<le> unat capacity" and "unat capacity \<le> 2 ^ 62"
    and "length ops < 2 ^ 63"
  shows "\<exists>q'. run_ops (Push moved) (Pop moved) ops q = Some (fst (fifo_ops (unat capacity) ops []), q') \<and>
    holds q' (snd (fifo_ops (unat capacity) ops []))"
proof -
  have small: "unat capacity < 2 ^ 63" using assms(3) by simp
  note new = Queue_new_holds [OF assms(1,2) small]
  have "length ops \<le> q_budget q" using assms(3,4) new(3) by simp
  from mpmc.ops_refine [OF new(1) this, of moved] new(2) show ?thesis by auto
qed

lemma queue_refines_fifo_witness:
  "\<exists>q q'. Queue_new (0 :: nat) 2 = Ret q \<and>
    run_ops (Push id) (Pop id) [Op_push 5, Op_push 6, Op_push 7, Op_pop] q =
      Some ([Res_push True, Res_push True, Res_push False, Res_pop (Some 5)], q') \<and> holds q' [6]"
proof -
  obtain q where q: "Queue_new (0 :: nat) 2 = Ret q" by (simp add: Queue_new_def)
  from queue_refines_fifo [OF q, of "[Op_push 5, Op_push 6, Op_push 7, Op_pop]" id] q show ?thesis by auto
qed

end
