(* ===== verification/Thread_Pool.thy ===== *)
theory Thread_Pool
  imports Queue "HOL-Library.Multiset"
begin

text \<open>
  \<open>minet/src/threading/Worker.h\<close>, \<open>ThreadPool.h\<close> and \<open>ThreadPool.cpp\<close>: the rounding of the capacity, the
  workers' routine with stealing, and round-robin submission. The workers' queues are used through their
  operations \<open>push\<close> and \<open>pop\<close> under the contract \<open>bounded_fifo\<close>; each of them is one step here.
\<close>

section \<open>\<open>MakePowerOfTwo\<close>\<close>

definition MakePowerOfTwo :: "size_t \<Rightarrow> size_t" where
  "MakePowerOfTwo x =
     (if x = 0 then 1
      else
        let x = x - 1;
            x = x OR drop_bit 1 x;
            x = x OR drop_bit 2 x;
            x = x OR drop_bit 4 x;
            x = x OR drop_bit 8 x;
            x = x OR drop_bit 16 x;
            x = x OR drop_bit 32 x
        in x + 1)"

text \<open>\<open>x\<close> has, at every position, the bits of the next \<open>s\<close> positions of \<open>y\<close>.\<close>

definition smeared :: "nat \<Rightarrow> size_t \<Rightarrow> size_t \<Rightarrow> bool" where
  "smeared s y x \<longleftrightarrow> (\<forall>n. bit x n \<longleftrightarrow> (\<exists>j < s. bit y (n + j)))"

lemma smeared_1: "smeared 1 y y"
  by (simp add: smeared_def)

lemma smeared_double:
  assumes "smeared s y x"
  shows "smeared (s + s) y (x OR drop_bit s x)"
  unfolding smeared_def
proof
  fix n
  have "(\<exists>j < s + s. bit y (n + j)) \<longleftrightarrow> (\<exists>j < s. bit y (n + j)) \<or> (\<exists>j < s. bit y (n + s + j))"
  proof
    assume "\<exists>j < s + s. bit y (n + j)"
    then obtain j where j: "j < s + s" "bit y (n + j)" by blast
    show "(\<exists>j < s. bit y (n + j)) \<or> (\<exists>j < s. bit y (n + s + j))"
    proof (cases "j < s")
      case False
      with j have "j - s < s" "bit y (n + s + (j - s))" by simp_all
      then show ?thesis by blast
    qed (use j in blast)
  next
    assume "(\<exists>j < s. bit y (n + j)) \<or> (\<exists>j < s. bit y (n + s + j))"
    then show "\<exists>j < s + s. bit y (n + j)"
      by (elim disjE exE conjE) (metis trans_less_add1, metis add.assoc nat_add_left_cancel_less)
  qed
  with assms show "bit (x OR drop_bit s x) n \<longleftrightarrow> (\<exists>j < s + s. bit y (n + j))"
    by (simp add: smeared_def bit_or_iff bit_drop_bit_eq add.commute)
qed

lemma smeared_full:
  assumes "smeared 64 y x" and h: "bit y h" "\<And>m. bit y m \<Longrightarrow> m \<le> h"
  shows "x = mask (Suc h)"
proof (rule bit_eqI)
  fix n
  have "h < 64" using bit_imp_le_length [OF h(1)] by simp
  moreover have "(\<exists>j < 64. bit y (n + j)) \<longleftrightarrow> n \<le> h" if "h < 64"
  proof
    assume "n \<le> h"
    with that h(1) show "\<exists>j < 64. bit y (n + j)" by (intro exI [of _ "h - n"]) simp
  qed (use h(2) in fastforce)
  ultimately show "bit x n \<longleftrightarrow> bit (mask (Suc h) :: size_t) n"
    using assms(1) by (auto simp: smeared_def bit_mask_iff)
qed

lemma top_bit:
  assumes "(y :: size_t) \<noteq> 0"
  obtains h where "h < 64" "bit y h" "\<And>m. bit y m \<Longrightarrow> m \<le> h"
    "2 ^ h \<le> unat y" "unat y < 2 ^ Suc h"
proof -
  let ?B = "{m. bit y m}"
  have sub: "?B \<subseteq> {..< 64}" using bit_imp_le_length [of y] by auto
  then have fin: "finite ?B" by (rule finite_subset) simp
  have ne: "?B \<noteq> {}" using assms by (auto simp: bit_eq_iff)
  define h where "h = Max ?B"
  have h: "bit y h" "\<And>m. bit y m \<Longrightarrow> m \<le> h"
    using Max_in [OF fin ne] Max_ge [OF fin] by (auto simp: h_def)
  have "h < 64" using h(1) sub by auto
  have "y = take_bit (Suc h) y"
    by (rule bit_eqI) (use h(2) in \<open>auto simp: bit_take_bit_iff less_Suc_eq_le\<close>)
  then have "unat y = take_bit (Suc h) (unat y)" by (metis unsigned_take_bit_eq)
  then have lt: "unat y < 2 ^ Suc h" by (metis take_bit_nat_less_exp)
  have "bit (unat y) h" using h(1) by (simp add: bit_unsigned_iff)
  then have "odd (unat y div 2 ^ h)" by (simp add: bit_iff_odd)
  then have "unat y div 2 ^ h \<noteq> 0" by (metis even_zero)
  then have ge: "2 ^ h \<le> unat y" by (metis div_less not_le)
  show ?thesis by (rule that [OF \<open>h < 64\<close> h ge lt])
qed

lemma MakePowerOfTwo_top:
  assumes "x \<noteq> 0" and "x \<noteq> 1"
  obtains h where "h < 64" "2 ^ h < unat x" "unat x \<le> 2 ^ Suc h" "MakePowerOfTwo x = mask (Suc h) + 1"
proof -
  have "x - 1 \<noteq> 0" using assms(2) by (metis right_minus_eq)
  then obtain h where h: "h < 64" "bit (x - 1) h" "\<And>m. bit (x - 1) m \<Longrightarrow> m \<le> h"
    "2 ^ h \<le> unat (x - 1)" "unat (x - 1) < 2 ^ Suc h" using top_bit by blast
  have x: "unat (x - 1) = unat x - 1" "0 < unat x"
    using assms(1) unat_pred [of x] by (simp_all add: word_gt_0 unat_gt_0)
  have 1: "smeared 2 (x - 1) (x - 1 OR drop_bit 1 (x - 1))"
    using smeared_double [OF smeared_1] by (simp add: numeral_2_eq_2)
  note step = smeared_double [OF smeared_double [OF smeared_double [OF smeared_double [OF smeared_double [OF 1]]]]]
  have "MakePowerOfTwo x = mask (Suc h) + 1"
    using smeared_full [OF step [simplified] h(2,3)] assms(1)
    by (simp add: MakePowerOfTwo_def Let_def)
  with h x show ?thesis by (intro that [of h]) auto
qed

lemma unat_mask_Suc: "Suc h < 64 \<Longrightarrow> unat (mask (Suc h) + 1 :: size_t) = 2 ^ Suc h"
proof -
  assume h: "Suc h < 64"
  have "mask (Suc h) + 1 = (2 ^ Suc h :: size_t)" by (simp only: mask_eq_exp_minus_1) simp
  moreover have "unat (2 ^ Suc h :: size_t) = 2 ^ Suc h"
  proof -
    have "(2 ^ Suc h :: nat) < 2 ^ 64" using h by (intro power_strict_increasing) simp_all
    then have "unat (of_nat (2 ^ Suc h) :: size_t) = 2 ^ Suc h"
      by (simp only: unsigned_of_nat) (simp add: take_bit_nat_eq_self)
    then show ?thesis by simp
  qed
  ultimately show ?thesis by simp
qed

section \<open>State\<close>

text \<open>
  Where a worker's routine stands: before the test of \<open>_running\<close> and its own queue, before the attempt
  to steal, inside a task, or behind the loop. \<open>tp_accepted\<close> and \<open>tp_done\<close> are ghost logs.
\<close>

datatype 'a wpc = W_Loop | W_Steal | W_Task 'a | W_Exited

record ('q, 'a) ThreadPool =
  tp_threads :: nat
  tp_workers :: "'q list"
  tp_running :: "bool list"
  tp_pcs :: "'a wpc list"
  tp_next :: size_t
  tp_accepted :: "'a list"
  tp_done :: "'a list"

text \<open>
  The constructor makes the workers, each with a queue of the rounded capacity, and starts them.
\<close>

fun replicate_outcome :: "nat \<Rightarrow> 'q outcome \<Rightarrow> 'q list outcome" where
  "replicate_outcome 0 m = Ret []"
| "replicate_outcome (Suc n) m =
     outcome_bind m (\<lambda>q. outcome_bind (replicate_outcome n m) (\<lambda>qs. Ret (q # qs)))"

definition Worker_new :: "'a \<Rightarrow> size_t \<Rightarrow> 'a Queue outcome" where
  "Worker_new dflt capacity = Queue_new dflt (MakePowerOfTwo capacity)"

definition ThreadPool_new :: "'a \<Rightarrow> nat \<Rightarrow> size_t \<Rightarrow> ('a Queue, 'a) ThreadPool outcome" where
  "ThreadPool_new dflt threads capacity =
     (if \<not> threads > 0 then Raise AssertFailed
      else outcome_bind (replicate_outcome threads (Worker_new dflt capacity)) (\<lambda>ws.
        Ret \<lparr>tp_threads = threads, tp_workers = ws, tp_running = replicate threads True,
          tp_pcs = replicate threads W_Loop, tp_next = 0, tp_accepted = [], tp_done = []\<rparr>))"

section \<open>Operations\<close>

definition ThreadPool_Submit ::
    "('q \<Rightarrow> 'a \<Rightarrow> (bool \<times> 'q) option) \<Rightarrow> 'a \<Rightarrow> ('q, 'a) ThreadPool \<Rightarrow>
     (bool \<times> ('q, 'a) ThreadPool) option" where
  "ThreadPool_Submit push task tp =
     (let i = unat (tp_next tp) mod tp_threads tp;
          tp1 = tp\<lparr>tp_next := tp_next tp + 1\<rparr>
      in case push (tp_workers tp ! i) task of
          None \<Rightarrow> None
        | Some (b, q) \<Rightarrow>
            Some (b, tp1\<lparr>tp_workers := (tp_workers tp)[i := q],
              tp_accepted := tp_accepted tp @ (if b then [task] else [])\<rparr>))"

definition donor :: "('q, 'a) ThreadPool \<Rightarrow> nat \<Rightarrow> nat" where
  "donor tp i = (i + 1) mod tp_threads tp"

definition take_from ::
    "('q \<Rightarrow> ('a option \<times> 'q) option) \<Rightarrow> nat \<Rightarrow> nat \<Rightarrow> 'a wpc \<Rightarrow> ('q, 'a) ThreadPool \<Rightarrow>
     ('q, 'a) ThreadPool option" where
  \<comment> \<open>\<open>Pop(&task)\<close> on the queue of worker \<open>j\<close> by worker \<open>i\<close>, which goes on at \<open>otherwise\<close> when it fails\<close>
  "take_from pop i j otherwise tp =
     (case pop (tp_workers tp ! j) of
        None \<Rightarrow> None
      | Some (r, q) \<Rightarrow>
          Some (tp\<lparr>tp_workers := (tp_workers tp)[j := q],
            tp_pcs := (tp_pcs tp)[i := (case r of None \<Rightarrow> otherwise | Some t \<Rightarrow> W_Task t)]\<rparr>))"

definition Worker_Routine ::
    "('q \<Rightarrow> ('a option \<times> 'q) option) \<Rightarrow> nat \<Rightarrow> ('q, 'a) ThreadPool \<Rightarrow> ('q, 'a) ThreadPool option" where
  "Worker_Routine pop i tp =
     (case tp_pcs tp ! i of
        W_Loop \<Rightarrow>
          if tp_running tp ! i then take_from pop i i W_Steal tp
          else Some (tp\<lparr>tp_pcs := (tp_pcs tp)[i := W_Exited]\<rparr>)
      | W_Steal \<Rightarrow> take_from pop i (donor tp i) W_Loop tp
      | W_Task t \<Rightarrow> Some (tp\<lparr>tp_pcs := (tp_pcs tp)[i := W_Loop], tp_done := tp_done tp @ [t]\<rparr>)
      | W_Exited \<Rightarrow> Some tp)"

definition Worker_Stop :: "nat \<Rightarrow> ('q, 'a) ThreadPool \<Rightarrow> ('q, 'a) ThreadPool" where
  "Worker_Stop i tp = tp\<lparr>tp_running := (tp_running tp)[i := False]\<rparr>"

text \<open>
  The destructor stops the workers one after the other, and joins each (which is waiting for \<open>W_Exited\<close>);
  \<open>_workers[i]\<close> beyond the vector is undefined. The move operations leave the source with an empty vector
  but with its \<open>_threads\<close>.
\<close>

fun stop_workers :: "nat list \<Rightarrow> ('q, 'a) ThreadPool \<Rightarrow> ('q, 'a) ThreadPool outcome" where
  "stop_workers [] tp = Ret tp"
| "stop_workers (i # is) tp =
     (if i < length (tp_workers tp) then stop_workers is (Worker_Stop i tp)
      else Raise (Undefined ''_workers[i] out of range''))"

definition ThreadPool_delete :: "('q, 'a) ThreadPool \<Rightarrow> ('q, 'a) ThreadPool outcome" where
  "ThreadPool_delete tp = stop_workers [0..<tp_threads tp] tp"

definition ThreadPool_move :: "('q, 'a) ThreadPool \<Rightarrow> ('q, 'a) ThreadPool \<times> ('q, 'a) ThreadPool" where
  "ThreadPool_move other = (other, other\<lparr>tp_workers := []\<rparr>)"

text \<open>Submissions from any thread, the workers and the destructor, in any order; \<open>ok\<close> is the room of the counters.\<close>

inductive pool_step ::
    "('q \<Rightarrow> 'a \<Rightarrow> (bool \<times> 'q) option) \<Rightarrow> ('q \<Rightarrow> ('a option \<times> 'q) option) \<Rightarrow> ('q \<Rightarrow> bool) \<Rightarrow>
     ('q, 'a) ThreadPool \<Rightarrow> ('q, 'a) ThreadPool \<Rightarrow> bool" for push pop ok where
  submit: "(\<forall>q \<in> set (tp_workers tp). ok q) \<Longrightarrow> ThreadPool_Submit push task tp = Some (b, tp') \<Longrightarrow>
    pool_step push pop ok tp tp'"
| work: "i < tp_threads tp \<Longrightarrow> Worker_Routine pop i tp = Some tp' \<Longrightarrow> pool_step push pop ok tp tp'"
| stop: "i < tp_threads tp \<Longrightarrow> pool_step push pop ok tp (Worker_Stop i tp)"

inductive_simps pool_step_iff: "pool_step push pop ok tp tp'"

section \<open>Destruction\<close>

lemma Worker_Stop_simps [simp]:
  "tp_workers (Worker_Stop i tp) = tp_workers tp"
  "tp_running (Worker_Stop i tp) = (tp_running tp)[i := False]"
  by (simp_all add: Worker_Stop_def)

lemma stop_workers_ok:
  assumes "set is \<subseteq> {..< length (tp_workers tp)}" and "length (tp_running tp) = length (tp_workers tp)"
  shows "\<exists>tp'. stop_workers is tp = Ret tp' \<and> tp_workers tp' = tp_workers tp \<and>
    length (tp_running tp') = length (tp_running tp) \<and>
    (\<forall>j < length (tp_running tp). tp_running tp' ! j \<longleftrightarrow> tp_running tp ! j \<and> j \<notin> set is)"
  using assms
proof (induction "is" tp rule: stop_workers.induct)
  case (2 i "is" tp)
  then have "\<exists>tp'. stop_workers is (Worker_Stop i tp) = Ret tp' \<and>
      tp_workers tp' = tp_workers tp \<and> length (tp_running tp') = length (tp_running tp) \<and>
      (\<forall>j < length (tp_running tp). tp_running tp' ! j \<longleftrightarrow>
         tp_running (Worker_Stop i tp) ! j \<and> j \<notin> set is)" by simp
  moreover have "tp_running (Worker_Stop i tp) ! j \<longleftrightarrow> tp_running tp ! j \<and> j \<noteq> i"
    if "j < length (tp_running tp)" for j using that by (cases "j = i") simp_all
  ultimately show ?case using 2(2) by auto
qed simp

text \<open>
  The destructor of a pool tells all its workers to stop; the destructor of a pool that has been moved from
  runs over the empty vector.
\<close>

lemma ThreadPool_delete_stops:
  assumes "0 < tp_threads tp" and "length (tp_workers tp) = tp_threads tp"
    and "length (tp_running tp) = tp_threads tp"
  shows "\<exists>tp'. ThreadPool_delete tp = Ret tp' \<and> set (tp_running tp') \<subseteq> {False}"
    and "ThreadPool_delete (snd (ThreadPool_move tp)) = Raise (Undefined ''_workers[i] out of range'')"
proof -
  have "set [0..<tp_threads tp] \<subseteq> {..< length (tp_workers tp)}" using assms(2) by auto
  from stop_workers_ok [OF this] assms show "\<exists>tp'. ThreadPool_delete tp = Ret tp' \<and> set (tp_running tp') \<subseteq> {False}"
    by (auto simp: ThreadPool_delete_def in_set_conv_nth)
  show "ThreadPool_delete (snd (ThreadPool_move tp)) = Raise (Undefined ''_workers[i] out of range'')"
    using assms(1) by (simp add: ThreadPool_delete_def ThreadPool_move_def upt_conv_Cons)
qed

section \<open>No task is lost or done twice\<close>

definition task_of :: "'a wpc \<Rightarrow> 'a multiset" where
  "task_of pc = (case pc of W_Task t \<Rightarrow> {#t#} | _ \<Rightarrow> {#})"

definition queued :: "'a list list \<Rightarrow> 'a multiset" where
  "queued xss = sum_list (map mset xss)"

definition in_work :: "'a wpc list \<Rightarrow> 'a multiset" where
  "in_work pcs = sum_list (map task_of pcs)"

definition pool_inv :: "('q \<Rightarrow> 'a list \<Rightarrow> bool) \<Rightarrow> ('q, 'a) ThreadPool \<Rightarrow> 'a list list \<Rightarrow> bool" where
  "pool_inv contents tp xss \<longleftrightarrow>
     0 < tp_threads tp \<and> length (tp_workers tp) = tp_threads tp \<and> length (tp_pcs tp) = tp_threads tp \<and>
     length (tp_running tp) = tp_threads tp \<and> list_all2 contents (tp_workers tp) xss \<and>
     mset (tp_accepted tp) = mset (tp_done tp) + in_work (tp_pcs tp) + queued xss"

lemma sum_list_update_mset:
  assumes "i < length xs"
  shows "sum_list (xs[i := y :: 'a multiset]) + xs ! i = sum_list xs + y"
  using assms
proof (induction xs arbitrary: i)
  case (Cons x xs)
  show ?case
  proof (cases i)
    case 0
    then show ?thesis by (simp add: ac_simps)
  next
    case (Suc k)
    with Cons show ?thesis by (simp add: add.assoc)
  qed
qed simp

lemma queued_update: "i < length xss \<Longrightarrow> queued (xss[i := ys]) + mset (xss ! i) = queued xss + mset ys"
  using sum_list_update_mset [of i "map mset xss" "mset ys"] by (simp add: queued_def map_update)

lemma in_work_update: "i < length pcs \<Longrightarrow> in_work (pcs[i := pc]) + task_of (pcs ! i) = in_work pcs + task_of pc"
  using sum_list_update_mset [of i "map task_of pcs" "task_of pc"] by (simp add: in_work_def map_update)

context bounded_fifo
begin

lemma Submit_result:
  assumes inv: "pool_inv contents tp xss" and ok: "\<forall>q \<in> set (tp_workers tp). 0 < budget q"
    and i: "i = unat (tp_next tp) mod tp_threads tp"
  shows "\<exists>tp'. ThreadPool_Submit push task tp = Some (length (xss ! i) < bound (tp_workers tp ! i), tp') \<and>
    pool_inv contents tp' (if length (xss ! i) < bound (tp_workers tp ! i)
      then xss[i := xss ! i @ [task]] else xss) \<and> tp_next tp' = tp_next tp + 1"
proof -
  have len: "i < length (tp_workers tp)" "length xss = length (tp_workers tp)"
    and c: "contents (tp_workers tp ! i) (xss ! i)" and all: "list_all2 contents (tp_workers tp) xss"
    using inv i by (auto simp: pool_inv_def list_all2_conv_all_nth)
  then have b: "0 < budget (tp_workers tp ! i)" using ok by simp
  show ?thesis
  proof (cases "length (xss ! i) < bound (tp_workers tp ! i)")
    case True
    with push_room [OF c True b, of task] obtain q where q: "push (tp_workers tp ! i) task = Some (True, q)"
      "contents q (xss ! i @ [task])" by blast
    have "list_all2 contents ((tp_workers tp)[i := q]) (xss[i := xss ! i @ [task]])"
      by (rule list_all2_update_cong [OF all q(2)])
    moreover have "queued (xss[i := xss ! i @ [task]]) = queued xss + {#task#}"
    proof -
      have "queued (xss[i := xss ! i @ [task]]) + mset (xss ! i) = (queued xss + {#task#}) + mset (xss ! i)"
        using queued_update [of i xss "xss ! i @ [task]"] len by (simp add: ac_simps)
      then show ?thesis by (simp only: add_right_cancel)
    qed
    ultimately show ?thesis
      using True q inv i by (auto simp: ThreadPool_Submit_def Let_def pool_inv_def)
  next
    case False
    with bounded [OF c] push_full [OF c _ b, of task] have "push (tp_workers tp ! i) task = Some (False, tp_workers tp ! i)"
      by simp
    with False inv i len show ?thesis by (auto simp: ThreadPool_Submit_def Let_def pool_inv_def)
  qed
qed

lemma Submit_room:
  assumes inv: "pool_inv contents tp xss" and ok: "\<forall>q \<in> set (tp_workers tp). 0 < budget q"
    and i: "i = unat (tp_next tp) mod tp_threads tp" and room: "length (xss ! i) < bound (tp_workers tp ! i)"
  obtains tp' where "ThreadPool_Submit push task tp = Some (True, tp')" "pool_inv contents tp' (xss[i := xss ! i @ [task]])"
    "tp_next tp' = tp_next tp + 1" "tp_threads tp' = tp_threads tp" "tp_running tp' = tp_running tp"
    "\<And>j. bound (tp_workers tp' ! j) = bound (tp_workers tp ! j) \<and> budget (tp_workers tp ! j) - 1 \<le> budget (tp_workers tp' ! j)"
proof -
  obtain tp' where tp': "ThreadPool_Submit push task tp = Some (True, tp')"
    "pool_inv contents tp' (xss[i := xss ! i @ [task]])" "tp_next tp' = tp_next tp + 1"
    using Submit_result [OF inv ok i, of task] room by auto
  have c: "i < length (tp_workers tp)" "contents (tp_workers tp ! i) (xss ! i)"
    using inv i by (auto simp: pool_inv_def list_all2_conv_all_nth)
  with ok push_room [OF c(2) room, of task] obtain q where q: "push (tp_workers tp ! i) task = Some (True, q)"
    "bound q = bound (tp_workers tp ! i)" "budget q = budget (tp_workers tp ! i) - 1" by auto
  then have "tp' = tp\<lparr>tp_next := tp_next tp + 1, tp_workers := (tp_workers tp)[i := q], tp_accepted := tp_accepted tp @ [task]\<rparr>"
    using tp'(1) i by (simp add: ThreadPool_Submit_def Let_def)
  with q(2,3) c(1) show thesis by (intro that [OF tp']) (auto simp: nth_list_update)
qed

lemma take_from_inv:
  assumes inv: "pool_inv contents tp xss" and i: "i < tp_threads tp" and j: "j < tp_threads tp"
    and idle: "task_of (tp_pcs tp ! i) = {#}" "task_of otherwise = {#}"
  shows "\<exists>tp'. take_from pop i j otherwise tp = Some tp' \<and>
    (case xss ! j of
       [] \<Rightarrow> tp_pcs tp' ! i = otherwise \<and> pool_inv contents tp' xss
     | t # ts \<Rightarrow> tp_pcs tp' ! i = W_Task t \<and> pool_inv contents tp' (xss[j := ts]))"
proof -
  have len: "j < length (tp_workers tp)" "length xss = length (tp_workers tp)" "i < length (tp_pcs tp)"
    and c: "contents (tp_workers tp ! j) (xss ! j)" and all: "list_all2 contents (tp_workers tp) xss"
    using inv i j by (auto simp: pool_inv_def list_all2_conv_all_nth)
  show ?thesis
  proof (cases "xss ! j")
    case Nil
    with c pop_empty have p: "pop (tp_workers tp ! j) = Some (None, tp_workers tp ! j)" by simp
    have "in_work ((tp_pcs tp)[i := otherwise]) = in_work (tp_pcs tp)"
      using in_work_update [OF len(3), of otherwise] idle by simp
    with p Nil inv len show ?thesis by (simp add: take_from_def pool_inv_def)
  next
    case (Cons t ts)
    with c pop_first [of _ t ts] obtain q where q: "pop (tp_workers tp ! j) = Some (Some t, q)" "contents q ts"
      by metis
    let ?tp = "tp\<lparr>tp_workers := (tp_workers tp)[j := q], tp_pcs := (tp_pcs tp)[i := W_Task t]\<rparr>"
    have w: "in_work ((tp_pcs tp)[i := W_Task t]) = in_work (tp_pcs tp) + {#t#}"
      using in_work_update [OF len(3), of "W_Task t"] idle by (simp add: task_of_def)
    have qd: "queued (xss[j := ts]) + {#t#} = queued xss"
      using queued_update [of j xss ts] len Cons by simp
    have l2: "list_all2 contents ((tp_workers tp)[j := q]) (xss[j := ts])"
      by (rule list_all2_update_cong [OF all q(2)])
    have m: "mset (tp_accepted tp) = mset (tp_done tp) + in_work (tp_pcs tp) + queued xss"
      using inv by (simp add: pool_inv_def)
    have "mset (tp_accepted tp) = mset (tp_done tp) + in_work ((tp_pcs tp)[i := W_Task t]) + queued (xss[j := ts])"
      unfolding m w qd [symmetric] by simp
    with inv l2 have "pool_inv contents ?tp (xss[j := ts])" by (simp add: pool_inv_def)
    then show ?thesis
      using q(1) len by (simp add: take_from_def Cons)
  qed
qed

lemma Routine_inv:
  assumes inv: "pool_inv contents tp xss" and i: "i < tp_threads tp"
  shows "\<exists>tp' xss'. Worker_Routine pop i tp = Some tp' \<and> pool_inv contents tp' xss'"
proof -
  have d: "donor tp i < tp_threads tp" using i by (simp add: donor_def)
  show ?thesis
  proof (cases "tp_pcs tp ! i")
    case W_Loop
    show ?thesis
    proof (cases "tp_running tp ! i")
      case True
      with W_Loop take_from_inv [OF inv i i, of W_Steal] show ?thesis
        by (cases "xss ! i") (auto simp: Worker_Routine_def task_of_def)
    next
      case False
      have "in_work ((tp_pcs tp)[i := W_Exited]) = in_work (tp_pcs tp)"
        using in_work_update [of i "tp_pcs tp" W_Exited] inv i W_Loop by (simp add: task_of_def pool_inv_def)
      with inv False W_Loop have "pool_inv contents (tp\<lparr>tp_pcs := (tp_pcs tp)[i := W_Exited]\<rparr>) xss"
        by (simp add: pool_inv_def)
      with False W_Loop show ?thesis by (auto simp: Worker_Routine_def)
    qed
  next
    case W_Steal
    with take_from_inv [OF inv i d, of W_Loop] show ?thesis
      by (cases "xss ! donor tp i") (auto simp: Worker_Routine_def task_of_def)
  next
    case (W_Task t)
    have w: "in_work (tp_pcs tp) = add_mset t (in_work ((tp_pcs tp)[i := W_Loop]))"
      using in_work_update [of i "tp_pcs tp" W_Loop] inv i W_Task by (simp add: task_of_def pool_inv_def)
    have "pool_inv contents (tp\<lparr>tp_pcs := (tp_pcs tp)[i := W_Loop], tp_done := tp_done tp @ [t]\<rparr>) xss"
      using inv by (simp add: pool_inv_def w)
    with W_Task show ?thesis by (auto simp: Worker_Routine_def)
  next
    case W_Exited
    with inv show ?thesis by (auto simp: Worker_Routine_def)
  qed
qed

lemma pool_step_inv:
  assumes "pool_step push pop (\<lambda>q. 0 < budget q) tp tp'" and "pool_inv contents tp xss"
  shows "\<exists>xss'. pool_inv contents tp' xss'"
  using assms(1)
proof (cases rule: pool_step.cases)
  case (submit task b)
  with Submit_result [OF assms(2) submit(1) refl, of task] show ?thesis by auto
next
  case (work i)
  with Routine_inv [OF assms(2) work(1)] show ?thesis by auto
next
  case (stop i)
  with assms(2) show ?thesis by (auto simp: pool_inv_def Worker_Stop_def)
qed

lemma pool_steps_inv:
  assumes "(pool_step push pop (\<lambda>q. 0 < budget q))\<^sup>*\<^sup>* tp tp'" and "pool_inv contents tp xss"
  shows "\<exists>xss'. pool_inv contents tp' xss'"
  using assms by (induction rule: rtranclp_induct) (auto dest: pool_step_inv)

end

lemma replicate_outcome_Ret: "replicate_outcome n (Ret q) = Ret (replicate n q)"
  by (induction n) auto

lemma replicate_outcome_Raise: "0 < n \<Longrightarrow> replicate_outcome n (Raise e) = Raise e"
  by (cases n) auto

lemma ThreadPool_new_inv:
  assumes new: "ThreadPool_new dflt threads capacity = Ret tp"
    and c: "2 \<le> unat (MakePowerOfTwo capacity)" "unat (MakePowerOfTwo capacity) < 2 ^ 63"
  shows "pool_inv holds tp (replicate threads [])" and "tp_threads tp = threads"
    and "\<forall>q \<in> set (tp_workers tp). q_bound q = unat (MakePowerOfTwo capacity)"
    and "\<forall>q \<in> set (tp_workers tp). q_budget q = 2 ^ 64 - 1 - 2 * unat (MakePowerOfTwo capacity)"
proof -
  from new have pos: "0 < threads" by (auto simp: ThreadPool_new_def split: if_splits)
  obtain q where q: "Queue_new dflt (MakePowerOfTwo capacity) = Ret q"
    using new pos by (cases "Queue_new dflt (MakePowerOfTwo capacity)")
      (auto simp: ThreadPool_new_def Worker_new_def replicate_outcome_Raise)
  with new pos have tp: "tp = \<lparr>tp_threads = threads, tp_workers = replicate threads q,
      tp_running = replicate threads True, tp_pcs = replicate threads W_Loop, tp_next = 0,
      tp_accepted = [], tp_done = []\<rparr>"
    by (simp add: ThreadPool_new_def Worker_new_def replicate_outcome_Ret)
  have "in_work (replicate threads W_Loop) = {#}" "queued (replicate threads []) = {#}"
    by (induction threads) (simp_all add: in_work_def queued_def task_of_def)
  with Queue_new_holds [OF q c] pos tp show "pool_inv holds tp (replicate threads [])"
    by (simp add: pool_inv_def list_all2_conv_all_nth)
  show "tp_threads tp = threads" "\<forall>q \<in> set (tp_workers tp). q_bound q = unat (MakePowerOfTwo capacity)"
    "\<forall>q \<in> set (tp_workers tp). q_budget q = 2 ^ 64 - 1 - 2 * unat (MakePowerOfTwo capacity)"
    using tp Queue_new_holds(2,3) [OF q c] by simp_all
qed

section \<open>Properties\<close>

text \<open>
  \<open>MakePowerOfTwo\<close> on every 64-bit word: the smallest power of two that is not less than the argument,
  up to \<open>2 ^ 63\<close>; above that the result wraps around to 0.
\<close>

theorem make_power_of_two_correct:
  "if unat x \<le> 2 ^ 63
   then \<exists>k. unat (MakePowerOfTwo x) = 2 ^ k \<and> unat x \<le> 2 ^ k \<and> (\<forall>j < k. 2 ^ j < unat x)
   else MakePowerOfTwo x = 0"
proof (cases "x = 0 \<or> x = 1")
  case True
  then have "unat (MakePowerOfTwo x) = 2 ^ 0 \<and> unat x \<le> 2 ^ 0" by (auto simp: MakePowerOfTwo_def)
  moreover from this have "unat x \<le> 2 ^ 63" by simp
  ultimately show ?thesis by (metis not_less0)
next
  case False
  then obtain h where h: "h < 64" "2 ^ h < unat x" "unat x \<le> 2 ^ Suc h"
    "MakePowerOfTwo x = mask (Suc h) + 1" using MakePowerOfTwo_top by blast
  show ?thesis
  proof (cases "h = 63")
    case True
    have "MakePowerOfTwo x = 0" unfolding h(4) True by (simp add: mask_eq_exp_minus_1)
    with True h(2) show ?thesis by simp
  next
    case False
    with h(1) have "Suc h < 64" by simp
    from unat_mask_Suc [OF this] h(4) have r: "unat (MakePowerOfTwo x) = 2 ^ Suc h" by simp
    have "(2 :: nat) ^ Suc h \<le> 2 ^ 63" using \<open>Suc h < 64\<close> by (intro power_increasing) simp_all
    with h(3) have le: "unat x \<le> 2 ^ 63" by simp
    have "2 ^ j < unat x" if "j < Suc h" for j
    proof -
      have "(2 :: nat) ^ j \<le> 2 ^ h" using that by (intro power_increasing) simp_all
      from le_less_trans [OF this h(2)] show ?thesis .
    qed
    then have "\<forall>j < Suc h. 2 ^ j < unat x" by blast
    with r h(3) have "\<exists>k. unat (MakePowerOfTwo x) = 2 ^ k \<and> unat x \<le> 2 ^ k \<and> (\<forall>j < k. 2 ^ j < unat x)"
      by (metis (no_types, lifting))
    then show ?thesis by (simp only: le if_True)
  qed
qed

lemma sample_pool:
  fixes dflt :: 'a
  obtains tp :: "('a Queue, 'a) ThreadPool"
  where "ThreadPool_new dflt 2 3 = Ret tp" "tp_next tp = 0" "tp_threads tp = 2" "pool_inv holds tp [[], []]"
    "\<forall>q \<in> set (tp_workers tp). q_bound q = 4 \<and> 0 < q_budget q"
    "length (tp_workers tp) = 2" "MakePowerOfTwo 3 = 4"
proof -
  have four: "MakePowerOfTwo 3 = 4" by (simp add: MakePowerOfTwo_def Let_def)
  have two: "replicate 2 [] = [[], []]" by (simp add: numeral_2_eq_2)
  obtain q :: "'a Queue" where q: "Queue_new dflt 4 = Ret q" by (simp add: Queue_new_def)
  then obtain tp :: "('a Queue, 'a) ThreadPool" where tp: "ThreadPool_new dflt 2 3 = Ret tp"
    "tp_next tp = 0" "length (tp_workers tp) = 2" "set (tp_workers tp) \<subseteq> {q}"
    by (simp add: ThreadPool_new_def Worker_new_def four replicate_outcome_Ret set_replicate_conv_if)
  have "q_bound q = 4" "0 < q_budget q" using Queue_new_holds(2,3) [OF q] by simp_all
  with tp(4) have ws: "\<forall>q \<in> set (tp_workers tp). q_bound q = 4 \<and> 0 < q_budget q" by auto
  show ?thesis
    by (rule that [OF tp(1,2) ThreadPool_new_inv(2) [OF tp(1)] ThreadPool_new_inv(1) [OF tp(1), unfolded two] ws tp(3) four])
      (use four in simp_all)
qed

lemma make_power_of_two_correct_witness:
  "\<exists>k. unat (MakePowerOfTwo 5) = 2 ^ k \<and> 5 \<le> (2 :: nat) ^ k \<and> (2 :: nat) ^ (k - 1) < 5"
proof -
  have five: "unat (5 :: size_t) = 5" by simp
  from make_power_of_two_correct [of 5] obtain k
    where k: "unat (MakePowerOfTwo 5) = 2 ^ k" "5 \<le> (2 :: nat) ^ k" "\<forall>j < k. (2 :: nat) ^ j < 5"
    by (auto simp: five)
  then have "k \<noteq> 0" by (intro notI) simp
  with k show ?thesis by (intro exI [of _ k]) simp
qed

text \<open>
  C13: the pool neither loses nor repeats a task. In every interleaving of submissions, workers and stops
  the accepted tasks are, as a multiset, the ones done, the ones inside a worker and the contents of the
  queues; when all workers have left their loops, the accepted tasks that were not done are exactly those
  still in the queues.
\<close>

theorem pool_conserves_tasks:
  assumes "ThreadPool_new dflt threads capacity = Ret tp"
    and "2 \<le> unat (MakePowerOfTwo capacity)" and "unat (MakePowerOfTwo capacity) < 2 ^ 63"
    and "(pool_step (Push moved) (Pop moved) (\<lambda>q. 0 < q_budget q))\<^sup>*\<^sup>* tp tp'"
  shows "\<exists>xss. list_all2 holds (tp_workers tp') xss \<and>
    mset (tp_accepted tp') = mset (tp_done tp') + in_work (tp_pcs tp') + queued xss \<and>
    (set (tp_pcs tp') \<subseteq> {W_Exited} \<longrightarrow> mset (tp_accepted tp') = mset (tp_done tp') + queued xss)"
proof -
  from mpmc.pool_steps_inv [OF assms(4) ThreadPool_new_inv(1) [OF assms(1-3)]]
  obtain xss where inv: "pool_inv holds tp' xss" by blast
  have "in_work pcs = {#}" if "set pcs \<subseteq> {W_Exited}" for pcs :: "'a wpc list"
    using that by (induction pcs) (auto simp: in_work_def task_of_def)
  with inv show ?thesis by (auto simp: pool_inv_def)
qed

lemma pool_conserves_tasks_witness:
  "\<exists>(tp :: (nat Queue, nat) ThreadPool) xss. ThreadPool_new 0 2 3 = Ret tp \<and> list_all2 holds (tp_workers tp) xss \<and>
    mset (tp_accepted tp) = mset (tp_done tp) + in_work (tp_pcs tp) + queued xss"
proof -
  obtain tp :: "(nat Queue, nat) ThreadPool" where tp: "ThreadPool_new 0 2 3 = Ret tp" "MakePowerOfTwo 3 = 4"
    by (rule sample_pool)
  from pool_conserves_tasks [OF tp(1) _ _ rtranclp.rtrancl_refl] tp show ?thesis by auto
qed

text \<open>
  Submission is round-robin. In every state the pool can reach, the task goes to the worker whose
  number is \<open>_next\<close> modulo the number of threads; it is accepted exactly when the queue of that worker has
  room, whatever room the others have, and \<open>_next\<close> advances in both cases.
\<close>

theorem pool_submit_round_robin:
  assumes "pool_inv holds tp xss" and "\<forall>q \<in> set (tp_workers tp). 0 < q_budget q"
    and "i = unat (tp_next tp) mod tp_threads tp"
  shows "\<exists>tp'. ThreadPool_Submit (Push moved) task tp =
      Some (length (xss ! i) < q_bound (tp_workers tp ! i), tp') \<and>
    pool_inv holds tp' (if length (xss ! i) < q_bound (tp_workers tp ! i)
      then xss[i := xss ! i @ [task]] else xss) \<and> tp_next tp' = tp_next tp + 1"
  by (rule mpmc.Submit_result [OF assms])

lemma pool_submit_round_robin_witness:
  "\<exists>(tp :: (nat Queue, nat) ThreadPool) tp'. ThreadPool_new 0 2 3 = Ret tp \<and>
    ThreadPool_Submit (Push id) 9 tp = Some (True, tp') \<and> pool_inv holds tp' [[9], []]"
proof -
  obtain tp :: "(nat Queue, nat) ThreadPool" where tp: "ThreadPool_new 0 2 3 = Ret tp" "tp_next tp = 0"
    "tp_threads tp = 2" "pool_inv holds tp [[], []]"
    "\<forall>q \<in> set (tp_workers tp). q_bound q = 4 \<and> 0 < q_budget q" "length (tp_workers tp) = 2"
    by (rule sample_pool)
  then have w: "q_bound (tp_workers tp ! 0) = 4" and b: "\<forall>q \<in> set (tp_workers tp). 0 < q_budget q"
    by auto
  from pool_submit_round_robin [OF tp(4) b, of 0 id 9] tp w show ?thesis
    by (auto simp: numeral_2_eq_2)
qed

text \<open>Submissions that are all accepted, and the tasks that go to worker \<open>i\<close> of \<open>t\<close> when nothing else is submitted.\<close>

fun submit_all ::
    "('q \<Rightarrow> 'a \<Rightarrow> (bool \<times> 'q) option) \<Rightarrow> 'a list \<Rightarrow> ('q, 'a) ThreadPool \<Rightarrow> ('q, 'a) ThreadPool option" where
  "submit_all push [] tp = Some tp"
| "submit_all push (x # xs) tp =
     (case ThreadPool_Submit push x tp of Some (True, tp') \<Rightarrow> submit_all push xs tp' | _ \<Rightarrow> None)"

definition tasks_of :: "nat \<Rightarrow> nat \<Rightarrow> 'a list \<Rightarrow> 'a list" where
  "tasks_of t i xs = map (nth xs) (filter (\<lambda>j. j mod t = i) [0..<length xs])"

lemma tasks_of_snoc [simp]:
  "tasks_of t i [] = []" "tasks_of t i (xs @ [x]) = tasks_of t i xs @ (if length xs mod t = i then [x] else [])"
proof -
  have "map (nth (xs @ [x])) (filter P [0..<length xs]) = map (nth xs) (filter P [0..<length xs])" for P
    by (rule map_cong) (auto simp: nth_append)
  then show "tasks_of t i (xs @ [x]) = tasks_of t i xs @ (if length xs mod t = i then [x] else [])"
    by (simp add: tasks_of_def)
qed (simp add: tasks_of_def)

lemma submit_all_snoc:
  "submit_all push xs tp = Some tp' \<Longrightarrow> ThreadPool_Submit push x tp' = Some (True, tp'') \<Longrightarrow>
    submit_all push (xs @ [x]) tp = Some tp''"
  by (induction xs arbitrary: tp) (auto split: option.splits prod.splits bool.splits)

lemma submit_all_one:
  assumes new: "ThreadPool_new dflt threads capacity = Ret tp" and "capacity \<in> {0, 1}" and "length xs < 2 ^ 64"
  shows "\<exists>tp'. submit_all (Push moved) xs tp = Some tp' \<and> tp_threads tp' = threads \<and> tp_accepted tp' = xs \<and>
    tp_next tp' = of_nat (length xs) \<and> tp_pcs tp' = replicate threads W_Loop \<and> tp_running tp' = replicate threads True \<and>
    tp_workers tp' = map (\<lambda>i. queue_one (of_nat (length (tasks_of threads i xs))) (last (dflt # tasks_of threads i xs))) [0..<threads]"
  using assms(3)
proof (induction xs rule: rev_induct)
  case Nil
  have "MakePowerOfTwo capacity = 1" using assms(2) by (auto simp: MakePowerOfTwo_def)
  then have "Worker_new dflt capacity = Ret (queue_one 0 dflt)" using queue_capacity_one_broken(1) by (simp add: Worker_new_def)
  with new show ?case by (auto simp: ThreadPool_new_def replicate_outcome_Ret map_replicate_const split: if_splits)
next
  case (snoc x xs)
  then obtain tp' where tp': "submit_all (Push moved) xs tp = Some tp'" "tp_threads tp' = threads" "tp_accepted tp' = xs"
    "tp_next tp' = of_nat (length xs)" "tp_pcs tp' = replicate threads W_Loop" "tp_running tp' = replicate threads True"
    "tp_workers tp' = map (\<lambda>i. queue_one (of_nat (length (tasks_of threads i xs))) (last (dflt # tasks_of threads i xs))) [0..<threads]"
    by auto
  have t: "0 < threads" using new by (auto simp: ThreadPool_new_def split: if_splits)
  let ?i = "length xs mod threads"
  have n: "unat (tp_next tp') = length xs" using snoc(2) tp'(4) by (simp only: unsigned_of_nat) (simp add: take_bit_nat_eq_self)
  have i: "?i < threads" using t by simp
  let ?q = "queue_one (of_nat (length (tasks_of threads ?i xs)) + 1) x"
  let ?tp = "tp'\<lparr>tp_next := tp_next tp' + 1, tp_workers := (tp_workers tp')[?i := ?q], tp_accepted := xs @ [x]\<rparr>"
  have "ThreadPool_Submit (Push moved) x tp' = Some (True, ?tp)"
    using i by (simp add: ThreadPool_Submit_def Let_def n tp'(2,3,7) queue_capacity_one_broken(2))
  moreover have "tp_workers ?tp = map (\<lambda>i. queue_one (of_nat (length (tasks_of threads i (xs @ [x]))))
      (last (dflt # tasks_of threads i (xs @ [x])))) [0..<threads]"
    by (rule nth_equalityI) (auto simp: tp'(7) nth_list_update ac_simps)
  ultimately show ?case using submit_all_snoc [OF tp'(1)] tp'(2,4-6) by (intro exI [of _ ?tp]) (simp add: ac_simps)
qed

text \<open>
  C38: a pool whose capacity is given as 0 or 1 loses tasks and hangs, because \<open>MakePowerOfTwo\<close> gives its workers queues of capacity 1.
  However many tasks are submitted to the new pool before its workers step, all are accepted; the queue of each worker
  holds only the last of its tasks, the ones before are overwritten; and a worker that has got two tasks or more never comes back
  from its first \<open>Pop\<close>.
\<close>

theorem pool_capacity_one_broken:
  assumes "capacity \<in> {0, 1}" and "ThreadPool_new dflt threads capacity = Ret tp" and "length xs < 2 ^ 64"
  shows "\<exists>tp'. submit_all (Push moved) xs tp = Some tp' \<and> tp_accepted tp' = xs \<and>
    (\<forall>i < threads. map s_Data (q_slots (tp_workers tp' ! i)) = [last (dflt # tasks_of threads i xs)] \<and>
      (2 \<le> length (tasks_of threads i xs) \<longrightarrow> Worker_Routine (Pop moved) i tp' = None))"
proof -
  obtain tp' where tp': "submit_all (Push moved) xs tp = Some tp'" "tp_accepted tp' = xs"
    "tp_pcs tp' = replicate threads W_Loop" "tp_running tp' = replicate threads True"
    "tp_workers tp' = map (\<lambda>i. queue_one (of_nat (length (tasks_of threads i xs))) (last (dflt # tasks_of threads i xs))) [0..<threads]"
    using submit_all_one [OF assms(2,1,3)] by blast
  have "Worker_Routine (Pop moved) i tp' = None" if "i < threads" "2 \<le> length (tasks_of threads i xs)" for i
  proof -
    have "length (tasks_of threads i xs) \<le> length xs" unfolding tasks_of_def length_map
      by (rule order_trans [OF length_filter_le]) simp
    then have "unat (of_nat (length (tasks_of threads i xs)) :: size_t) = length (tasks_of threads i xs)"
      using assms(3) by (simp only: unsigned_of_nat) (simp add: take_bit_nat_eq_self)
    then have "(1 :: size_t) < of_nat (length (tasks_of threads i xs))" using that(2) by (simp add: word_less_nat_alt)
    with that(1) show ?thesis
      by (simp add: Worker_Routine_def take_from_def tp'(3-5) queue_capacity_one_broken(3))
  qed
  with tp' show ?thesis by (intro exI [of _ tp']) (simp add: queue_one_def)
qed

text \<open>Three tasks for two workers: the first one is lost, and the worker that was to run it hangs.\<close>

lemma pool_capacity_one_broken_witness:
  "\<exists>tp tp'. ThreadPool_new (0 :: nat) 2 1 = Ret tp \<and> submit_all (Push id) [5, 6, 7] tp = Some tp' \<and>
    map s_Data (q_slots (tp_workers tp' ! 0)) = [7] \<and> map s_Data (q_slots (tp_workers tp' ! 1)) = [6] \<and>
    Worker_Routine (Pop id) 0 tp' = None"
proof -
  have "MakePowerOfTwo 1 = 1" by (simp add: MakePowerOfTwo_def)
  then obtain tp where tp: "ThreadPool_new (0 :: nat) 2 1 = Ret tp"
    using queue_capacity_one_broken(1) [of "0 :: nat"] by (simp add: ThreadPool_new_def Worker_new_def replicate_outcome_Ret)
  have t: "tasks_of 2 0 [5, 6, 7 :: nat] = [5, 7]" "tasks_of 2 1 [5, 6, 7 :: nat] = [6]" by code_simp+
  from pool_capacity_one_broken [OF _ tp, of "[5, 6, 7]" id] obtain tp' where tp': "submit_all (Push id) [5, 6, 7] tp = Some tp'"
    "\<forall>i < 2. map s_Data (q_slots (tp_workers tp' ! i)) = [last (0 # tasks_of 2 i [5, 6, 7])] \<and>
      (2 \<le> length (tasks_of 2 i [5, 6, 7 :: nat]) \<longrightarrow> Worker_Routine (Pop id) i tp' = None)" by auto
  have two: "0 < (2 :: nat)" "1 < (2 :: nat)" "2 \<le> length [5, 7 :: nat]" "last [0, 5, 7 :: nat] = 7" "last [0, 6 :: nat] = 6"
    by simp_all
  note w0 = tp'(2) [rule_format, OF two(1), unfolded t two(4)] and w1 = tp'(2) [rule_format, OF two(2), unfolded t two(5)]
  show ?thesis
    by (intro exI [of _ tp] exI [of _ tp'] conjI tp tp'(1) conjunct1 [OF w0] conjunct1 [OF w1] mp [OF conjunct2 [OF w0] two(3)])
qed

end
