(* ===== verification/Dispatcher.thy ===== *)
theory Dispatcher
  imports Http_Context IO_Writer
begin

text \<open>
  \<open>minet/src/core/IRequestDispatcher.cpp\<close>, \<open>minet/src/components/RequestDispatcher.cpp\<close>,
  \<open>minet/include/minet/components/RequestHandler.h\<close> with its requests and responses, and
  \<open>minet/src/impl/DefaultHandlers.cpp\<close>: the handler registry, the choice of a handler, the wrappers around
  the user's functions, the writing of a response and the error pages. The user's handlers, the JSON library
  and the stream are parameters.
\<close>

section \<open>Handlers\<close>

text \<open>
  \<open>IRequestHandler::Handle\<close>: an action on the context. A handler may throw, and may not return.
\<close>

type_synonym 's handler = "('s HttpContext, int) action"

text \<open>
  \<open>RequestHandlerImpl::Handle\<close>. The request and the response are the wrappers \<open>PreHandle\<close> makes of the
  members of the context, \<open>raw\<close> is \<open>Response()\<close>; the response wrapper points into the context, so what
  the user's function does to it stays when the function throws. The function also reaches the stream.
\<close>

definition Handle ::
    "(HttpRequest \<Rightarrow> 'req) \<Rightarrow> ('req \<Rightarrow> bool) \<Rightarrow> (HttpResponse \<Rightarrow> 'resp) \<Rightarrow> ('resp \<Rightarrow> HttpResponse) \<Rightarrow>
     ('resp \<Rightarrow> 'resp) \<Rightarrow> ('req \<Rightarrow> ('resp \<times> 's, unit) action) \<Rightarrow> 's handler" where
  "Handle PreRequest IsValid PreResponse raw PostHandle handler ctx =
     (let request = PreRequest (Request ctx); response = PreResponse (Response ctx) in
      if IsValid request
      then case handler request (response, BodyStream ctx) of
          None \<Rightarrow> None
        | Some (Raise e, response', s) \<Rightarrow> Some (Raise e, ctx\<lparr>Response := raw response', BodyStream := s\<rparr>)
        | Some (Ret u, response', s) \<Rightarrow>
            Some (Ret STATUS_OK, ctx\<lparr>Response := raw (PostHandle response'), BodyStream := s\<rparr>)
      else Some (Ret BAD_REQUEST, ctx))"

text \<open>
  A wrapper is a pointer to the request or the response of the context, and \<open>TextRequest\<close> and \<open>TextResponse\<close> have
  nothing else, so they are the request and the response. The accessors a user's function may call:
\<close>

type_synonym TextRequest = HttpRequest
type_synonym TextResponse = HttpResponse

definition TextRequest_new :: "HttpRequest \<Rightarrow> TextRequest" where [simp]: "TextRequest_new q = q"
definition Wrapper_Method :: "TextRequest \<Rightarrow> HttpMethod" where [simp]: "Wrapper_Method q = Method q"
definition Wrapper_Host :: "TextRequest \<Rightarrow> string" where [simp]: "Wrapper_Host q = Host q"
definition Wrapper_Path :: "TextRequest \<Rightarrow> string" where [simp]: "Wrapper_Path q = Path q"
definition Wrapper_ContentType :: "TextRequest \<Rightarrow> string" where [simp]: "Wrapper_ContentType q = ContentType q"
definition Wrapper_Headers :: "TextRequest \<Rightarrow> headers" where [simp]: "Wrapper_Headers q = Headers q"
definition Wrapper_Request :: "TextRequest \<Rightarrow> HttpRequest" where [simp]: "Wrapper_Request q = q"
definition Wrapper_IsValid :: "TextRequest \<Rightarrow> bool" where [simp]: "Wrapper_IsValid q = True"
definition TextRequest_Text :: "TextRequest \<Rightarrow> string" where [simp]: "TextRequest_Text q = Body q"

definition TextResponse_new :: "HttpResponse \<Rightarrow> TextResponse" where [simp]: "TextResponse_new r = r"
definition Wrapper_Response :: "TextResponse \<Rightarrow> HttpResponse" where [simp]: "Wrapper_Response r = r"
definition Wrapper_rHeaders :: "TextResponse \<Rightarrow> headers" where [simp]: "Wrapper_rHeaders r = rHeaders r"
definition TextResponse_Text :: "TextResponse \<Rightarrow> string" where [simp]: "TextResponse_Text r = rBody r"

text \<open>\<open>RequestFormatter<TRequest>::PreHandle\<close>: the wrapper's constructor, applied to the request.\<close>

definition RequestFormatter_PreHandle :: "(HttpRequest \<Rightarrow> 'req) \<Rightarrow> HttpRequest \<Rightarrow> 'req" where
  [simp]: "RequestFormatter_PreHandle new request = new request"

definition TextResponse_PreHandle :: "HttpResponse \<Rightarrow> TextResponse" where
  [simp]: "TextResponse_PreHandle response = TextResponse_new response"

definition SetStatusCode :: "int \<Rightarrow> HttpResponse \<Rightarrow> HttpResponse" where
  "SetStatusCode code r = r\<lparr>StatusCode := code\<rparr>"

definition TextResponse_PostHandle :: "TextResponse \<Rightarrow> TextResponse" where
  "TextResponse_PostHandle r = r\<lparr>rContentType := ''text/plain''\<rparr>"

definition RequestHandler :: "(TextRequest \<Rightarrow> (TextResponse \<times> 's, unit) action) \<Rightarrow> 's handler" where
  "RequestHandler handler =
     Handle (RequestFormatter_PreHandle TextRequest_new) Wrapper_IsValid TextResponse_PreHandle Wrapper_Response
       TextResponse_PostHandle handler"

text \<open>
  \<open>JsonRequest\<close> and \<open>JsonResponse\<close>. The JSON library is a parameter: \<open>parse\<close> with its errors switched off
  (\<open>None\<close> is a discarded value), the \<open>null\<close> a value starts as, and \<open>dump\<close>.
\<close>

record 'j json_lib =
  json_parse :: "string \<Rightarrow> 'j option"
  json_null :: 'j
  json_dump :: "'j \<Rightarrow> string"

record 'j JsonRequest =
  jq_request :: HttpRequest
  jq_json :: "'j option"

record 'j JsonResponse =
  jr_response :: HttpResponse
  jr_json :: 'j

definition JsonRequest_new :: "'j json_lib \<Rightarrow> HttpRequest \<Rightarrow> 'j JsonRequest" where
  "JsonRequest_new js q = \<lparr>jq_request = q, jq_json = json_parse js (Body q)\<rparr>"

definition JsonRequest_IsValid :: "'j JsonRequest \<Rightarrow> bool" where
  "JsonRequest_IsValid q \<longleftrightarrow> \<not> Option.is_none (jq_json q)"

definition JsonResponse_new :: "'j json_lib \<Rightarrow> HttpResponse \<Rightarrow> 'j JsonResponse" where
  "JsonResponse_new js r = \<lparr>jr_response = r, jr_json = json_null js\<rparr>"

definition JsonResponse_PostHandle :: "'j json_lib \<Rightarrow> 'j JsonResponse \<Rightarrow> 'j JsonResponse" where
  "JsonResponse_PostHandle js r =
     r\<lparr>jr_response := (jr_response r)\<lparr>rContentType := ''application/json'', rBody := json_dump js (jr_json r)\<rparr>\<rparr>"

definition RestfulHandler ::
    "'j json_lib \<Rightarrow> ('j JsonRequest \<Rightarrow> ('j JsonResponse \<times> 's, unit) action) \<Rightarrow> 's handler" where
  "RestfulHandler js handler =
     Handle (RequestFormatter_PreHandle (JsonRequest_new js)) JsonRequest_IsValid (JsonResponse_new js) jr_response
       (JsonResponse_PostHandle js) handler"

section \<open>Writing a response\<close>

text \<open>\<open>static_cast<int>(size_t)\<close> keeps the low 32 bits.\<close>

definition size_int :: "nat \<Rightarrow> int" where
  "size_int n = sint (of_nat n :: 32 word)"

text \<open>
  The arguments of the calls of \<open>writer.Write\<close>, in order. The constants of \<open>http::entities\<close> and the
  descriptions go through the overload for C strings; they hold no NUL, so it writes them as they are.
\<close>

definition response_chunks :: "(headers \<Rightarrow> headers) \<Rightarrow> HttpResponse \<Rightarrow> string list" where
  "response_chunks iter r =
     [HTTP_VERSION, SPACE, int_string (StatusCode r), SPACE, StatusCodeToDescription (StatusCode r), NEW_LINE] @
     [CONTENT_TYPE, COLON, rContentType r, NEW_LINE] @
     (if StatusCode r \<noteq> NO_CONTENT
      then [CONTENT_LENGTH, COLON, int_string (rContentLength r), NEW_LINE] else []) @
     concat (map (\<lambda>(k, v). [k, COLON, v, NEW_LINE]) (iter (rHeaders r))) @
     [NEW_LINE] @
     (if StatusCode r \<noteq> NO_CONTENT then [rBody r] else [])"

definition set_length :: "HttpResponse \<Rightarrow> HttpResponse" where
  "set_length r = r\<lparr>rContentLength := size_int (length (rBody r))\<rparr>"

definition WriteResponse ::
    "('s \<Rightarrow> string \<Rightarrow> int \<times> 's) \<Rightarrow> (headers \<Rightarrow> headers) \<Rightarrow> ('s HttpContext, unit) action" where
  "WriteResponse swrite iter ctx =
     (let writer = BufferedStreamWriter_new (BodyStream ctx);
          response = set_length (Response ctx);
          (oc, s) = write_all swrite writer (response_chunks iter response)
      in Some (oc, ctx\<lparr>Response := response, BodyStream := s\<rparr>))"

definition InvokeHandler ::
    "('s \<Rightarrow> string \<Rightarrow> int \<times> 's) \<Rightarrow> (headers \<Rightarrow> headers) \<Rightarrow> 's handler \<Rightarrow> ('s HttpContext, int) action" where
  "InvokeHandler swrite iter handler =
     andThen handler (\<lambda>statusCode.
       if statusCode = STATUS_OK then andThen (WriteResponse swrite iter) (\<lambda>_. ret statusCode)
       else ret statusCode)"

section \<open>The registry\<close>

text \<open>A registered reference may be null, which is the inner \<open>None\<close>.\<close>

record 's RequestDispatcher =
  rd_handlers :: "string \<Rightarrow> (HttpMethod \<Rightarrow> 's handler option option) option"
  rd_errorHandlers :: "int \<Rightarrow> 's handler option option"

definition RequestDispatcher_new :: "'s RequestDispatcher" where
  "RequestDispatcher_new = \<lparr>rd_handlers = Map.empty, rd_errorHandlers = Map.empty\<rparr>"

definition RegisterHandler ::
    "string \<Rightarrow> HttpMethod \<Rightarrow> 's handler option \<Rightarrow> 's RequestDispatcher \<Rightarrow> 's RequestDispatcher outcome" where
  "RegisterHandler path method handler d =
     outcome_bind (CleanPath path) (\<lambda>cleanedPath.
       case rd_handlers d cleanedPath of
         None \<Rightarrow> Ret (d\<lparr>rd_handlers := (rd_handlers d)(cleanedPath \<mapsto> [method \<mapsto> handler])\<rparr>)
       | Some methods \<Rightarrow>
           (case methods method of
              Some h \<Rightarrow> Ret d
            | None \<Rightarrow>
                Ret (d\<lparr>rd_handlers := (rd_handlers d)(cleanedPath \<mapsto> methods(method \<mapsto> handler))\<rparr>)))"

definition RegisterErrorHandler :: "int \<Rightarrow> 's handler option \<Rightarrow> 's RequestDispatcher \<Rightarrow> 's RequestDispatcher" where
  "RegisterErrorHandler statusCode handler d =
     d\<lparr>rd_errorHandlers := (rd_errorHandlers d)(statusCode \<mapsto> handler)\<rparr>"

definition GetErrorHandler :: "'s RequestDispatcher \<Rightarrow> int \<Rightarrow> 's handler option" where
  "GetErrorHandler d statusCode =
     (case rd_errorHandlers d statusCode of None \<Rightarrow> None | Some h \<Rightarrow> h)"

section \<open>Dispatch\<close>

definition find_handler :: "'s RequestDispatcher \<Rightarrow> string \<Rightarrow> HttpMethod \<Rightarrow> 's handler option \<times> int" where
  "find_handler d path method =
     (case rd_handlers d path of
        None \<Rightarrow> (None, NOT_FOUND)
      | Some methods \<Rightarrow>
          (case methods method of
             None \<Rightarrow> (None, METHOD_NOT_ALLOWED)
           | Some h \<Rightarrow> (h, STATUS_OK)))"

text \<open>The \<open>try\<close> block: a \<open>std::exception\<close> of the handler is status 500.\<close>

definition try_handler ::
    "('s handler \<Rightarrow> ('s HttpContext, int) action) \<Rightarrow> 's handler option \<Rightarrow> int \<Rightarrow> ('s HttpContext, int) action" where
  "try_handler invoke handler statusCode ctx =
     (case handler of
        None \<Rightarrow> ret statusCode ctx
      | Some h \<Rightarrow>
          (case invoke h ctx of
             Some (Raise e, ctx') \<Rightarrow>
               if is_exception e then Some (Ret INTERNAL_SERVER_ERROR, ctx') else Some (Raise e, ctx')
           | r \<Rightarrow> r))"

definition error_response ::
    "('s handler \<Rightarrow> ('s HttpContext, int) action) \<Rightarrow> 's RequestDispatcher \<Rightarrow> int \<Rightarrow> ('s HttpContext, unit) action" where
  "error_response invoke d statusCode =
     (if statusCode \<noteq> STATUS_OK
      then case GetErrorHandler d statusCode of
          None \<Rightarrow> ret ()
        | Some h \<Rightarrow> andThen (invoke h) (\<lambda>_. ret ())
      else ret ())"

definition destroy_context :: "('s \<Rightarrow> int \<times> 's) \<Rightarrow> ('s HttpContext, unit) action" where
  "destroy_context close ctx = Some (Ret (), snd (DestroyHttpContext close ctx))"

text \<open>The context is an object here, so the assertion that it is not null has nothing to test.\<close>

definition Dispatch ::
    "('s \<Rightarrow> string \<Rightarrow> int \<times> 's) \<Rightarrow> ('s \<Rightarrow> int \<times> 's) \<Rightarrow> (headers \<Rightarrow> headers) \<Rightarrow> 's RequestDispatcher \<Rightarrow>
     ('s HttpContext, unit) action" where
  "Dispatch swrite close iter d ctx =
     (case CleanPath (Path (Request ctx)) of
        Raise e \<Rightarrow> Some (Raise e, ctx)
      | Ret path \<Rightarrow>
          let (handler, statusCode) = find_handler d path (Method (Request ctx));
              invoke = InvokeHandler swrite iter
          in andThen (try_handler invoke handler statusCode) (\<lambda>statusCode.
               andThen (error_response invoke d statusCode) (\<lambda>_. destroy_context close)) ctx)"

section \<open>The default handlers\<close>

definition DefaultErrorHandler :: "int \<Rightarrow> (TextResponse \<times> 's, unit) action" where
  "DefaultErrorHandler statusCode =
     (\<lambda>(response, s). Some (Ret (),
        (SetStatusCode statusCode response)\<lparr>rBody := StatusCodeToDescription statusCode\<rparr>, s))"

definition BadRequestHandler :: "TextRequest \<Rightarrow> (TextResponse \<times> 's, unit) action" where
  "BadRequestHandler request = DefaultErrorHandler BAD_REQUEST"

definition MethodNotAllowedHandler :: "TextRequest \<Rightarrow> (TextResponse \<times> 's, unit) action" where
  "MethodNotAllowedHandler request = DefaultErrorHandler METHOD_NOT_ALLOWED"

definition NotFoundHandler :: "TextRequest \<Rightarrow> (TextResponse \<times> 's, unit) action" where
  "NotFoundHandler request = DefaultErrorHandler NOT_FOUND"

definition InternalServerErrorHandler :: "TextRequest \<Rightarrow> (TextResponse \<times> 's, unit) action" where
  "InternalServerErrorHandler request = DefaultErrorHandler INTERNAL_SERVER_ERROR"

lemmas default_handler_defs = BadRequestHandler_def MethodNotAllowedHandler_def NotFoundHandler_def
  InternalServerErrorHandler_def

definition RegisterDefaultHandlers :: "'s RequestDispatcher \<Rightarrow> 's RequestDispatcher" where
  "RegisterDefaultHandlers d =
     RegisterErrorHandler INTERNAL_SERVER_ERROR (Some (RequestHandler InternalServerErrorHandler))
    (RegisterErrorHandler NOT_FOUND (Some (RequestHandler NotFoundHandler))
    (RegisterErrorHandler METHOD_NOT_ALLOWED (Some (RequestHandler MethodNotAllowedHandler))
    (RegisterErrorHandler BAD_REQUEST (Some (RequestHandler BadRequestHandler)) d)))"

section \<open>The reply to a request\<close>

definition default_statuses :: "int set" where
  "default_statuses = {BAD_REQUEST, METHOD_NOT_ALLOWED, NOT_FOUND, INTERNAL_SERVER_ERROR}"

definition error_page :: "int \<Rightarrow> HttpResponse \<Rightarrow> HttpResponse" where
  "error_page st r =
     r\<lparr>StatusCode := st, rBody := StatusCodeToDescription st, rContentType := ''text/plain''\<rparr>"

text \<open>The response that answers a status, over the response the handler left, and its chunks.\<close>

definition reply_chunks :: "(headers \<Rightarrow> headers) \<Rightarrow> int \<Rightarrow> HttpResponse \<Rightarrow> string list" where
  "reply_chunks iter st r =
     (if st = STATUS_OK then response_chunks iter (set_length r)
      else if st \<in> default_statuses then response_chunks iter (set_length (error_page st r))
      else [])"

text \<open>What the user's handler does: the status it comes to, and the context it leaves.\<close>

fun handler_effect :: "'s handler option \<Rightarrow> int \<Rightarrow> 's HttpContext \<Rightarrow> int \<Rightarrow> 's HttpContext \<Rightarrow> bool" where
  "handler_effect None st0 ctx st ctx1 \<longleftrightarrow> st0 \<noteq> STATUS_OK \<and> st = st0 \<and> ctx1 = ctx"
| "handler_effect (Some f) st0 ctx st ctx1 \<longleftrightarrow>
     f ctx = Some (Ret st, ctx1) \<or>
     (\<exists>e. f ctx = Some (Raise e, ctx1) \<and> is_exception e \<and> st = INTERNAL_SERVER_ERROR)"

lemma default_handlers_eq:
  "BadRequestHandler = (\<lambda>q. DefaultErrorHandler BAD_REQUEST)"
  "MethodNotAllowedHandler = (\<lambda>q. DefaultErrorHandler METHOD_NOT_ALLOWED)"
  "NotFoundHandler = (\<lambda>q. DefaultErrorHandler NOT_FOUND)"
  "InternalServerErrorHandler = (\<lambda>q. DefaultErrorHandler INTERNAL_SERVER_ERROR)"
  by (simp_all add: fun_eq_iff default_handler_defs)

lemma default_error_handlers:
  assumes "rd_errorHandlers d = Map.empty"
  shows "GetErrorHandler (RegisterDefaultHandlers d) st =
    (if st \<in> default_statuses then Some (RequestHandler (\<lambda>q. DefaultErrorHandler st)) else None)"
  using assms
  by (simp add: GetErrorHandler_def RegisterDefaultHandlers_def RegisterErrorHandler_def
      default_statuses_def default_handlers_eq status_def)

lemma default_handlers_find [simp]:
  "find_handler (RegisterDefaultHandlers d) = find_handler d"
  by (simp add: fun_eq_iff find_handler_def RegisterDefaultHandlers_def RegisterErrorHandler_def Let_def)

lemma default_handler_run:
  "RequestHandler (\<lambda>q. DefaultErrorHandler st) ctx =
    Some (Ret STATUS_OK, ctx\<lparr>Response := error_page st (Response ctx)\<rparr>)"
  by (cases ctx; cases "Response ctx")
    (simp add: RequestHandler_def Handle_def DefaultErrorHandler_def SetStatusCode_def error_page_def TextResponse_PostHandle_def)

locale response_channel = byte_sink +
  fixes close :: "'a \<Rightarrow> int \<times> 'a"
  assumes close_sent: "sent (snd (close s)) = sent s"
begin

lemma WriteResponse_sends:
  assumes "winv (BodyStream ctx)"
  shows "\<exists>s. WriteResponse swrite iter ctx =
      Some (Ret (), ctx\<lparr>Response := set_length (Response ctx), BodyStream := s\<rparr>) \<and> winv s \<and>
    sent s = sent (BodyStream ctx) @ surviving 0 (response_chunks iter (set_length (Response ctx)))"
  using write_all_surviving [of "BufferedStreamWriter_new (BodyStream ctx)"
      "response_chunks iter (set_length (Response ctx))"] assms
  by (auto simp: WriteResponse_def BufferedStreamWriter_new_def)

lemma InvokeHandler_sends:
  assumes "h ctx = Some (Ret STATUS_OK, ctx1)" and "winv (BodyStream ctx1)"
  shows "\<exists>ctx2. InvokeHandler swrite iter h ctx = Some (Ret STATUS_OK, ctx2) \<and> winv (BodyStream ctx2) \<and>
    sent (BodyStream ctx2) =
      sent (BodyStream ctx1) @ surviving 0 (response_chunks iter (set_length (Response ctx1)))"
proof -
  from WriteResponse_sends [OF assms(2), of iter] obtain s where
    "WriteResponse swrite iter ctx1 =
      Some (Ret (), ctx1\<lparr>Response := set_length (Response ctx1), BodyStream := s\<rparr>)" "winv s"
    "sent s = sent (BodyStream ctx1) @ surviving 0 (response_chunks iter (set_length (Response ctx1)))"
    by blast
  with assms(1) show ?thesis by (auto simp: InvokeHandler_def act_simps)
qed

lemma error_response_sends:
  assumes "rd_errorHandlers d = Map.empty" and "winv (BodyStream ctx)" and "st \<noteq> STATUS_OK"
  shows "\<exists>ctx2. error_response (InvokeHandler swrite iter) (RegisterDefaultHandlers d) st ctx =
      Some (Ret (), ctx2) \<and> winv (BodyStream ctx2) \<and>
    sent (BodyStream ctx2) = sent (BodyStream ctx) @ surviving 0 (reply_chunks iter st (Response ctx))"
proof (cases "st \<in> default_statuses")
  case True
  from InvokeHandler_sends [where h = "RequestHandler (\<lambda>q. DefaultErrorHandler st)" and ctx = ctx and iter = iter,
      OF default_handler_run] assms(2) obtain ctx2 where
    "InvokeHandler swrite iter (RequestHandler (\<lambda>q. DefaultErrorHandler st)) ctx = Some (Ret STATUS_OK, ctx2)"
    "winv (BodyStream ctx2)" "sent (BodyStream ctx2) = sent (BodyStream ctx) @
      surviving 0 (response_chunks iter (set_length (error_page st (Response ctx))))"
    by auto
  with True assms(1,3) show ?thesis
    by (simp add: error_response_def default_error_handlers act_simps reply_chunks_def)
next
  case False
  with assms show ?thesis
    by (simp add: error_response_def default_error_handlers act_simps reply_chunks_def)
qed

lemma try_handler_effect:
  assumes "handler_effect h st0 ctx st ctx1" and "winv (BodyStream ctx1)"
  shows "\<exists>ctx2. try_handler (InvokeHandler swrite iter) h st0 ctx = Some (Ret st, ctx2) \<and>
    winv (BodyStream ctx2) \<and> sent (BodyStream ctx2) = sent (BodyStream ctx1) @
      (if st = STATUS_OK then surviving 0 (reply_chunks iter st (Response ctx1)) else []) \<and>
    (st \<noteq> STATUS_OK \<longrightarrow> ctx2 = ctx1)"
proof (cases h)
  case None
  with assms show ?thesis by (auto simp: try_handler_def act_simps)
next
  case (Some f)
  show ?thesis
  proof (cases "f ctx = Some (Ret STATUS_OK, ctx1)")
    case True
    from InvokeHandler_sends [where h = f and ctx = ctx and iter = iter, OF True assms(2)] True Some assms(1) show ?thesis
      by (auto simp: try_handler_def reply_chunks_def)
  next
    case False
    with assms Some show ?thesis
      by (auto simp: try_handler_def InvokeHandler_def andThen_def ret_def status_def)
  qed
qed

lemma Dispatch_replies:
  assumes "CleanPath (Path (Request ctx)) = Ret path"
    and "find_handler d path (Method (Request ctx)) = (h, st0)" and "rd_errorHandlers d = Map.empty"
    and "handler_effect h st0 ctx st ctx1" and "winv (BodyStream ctx1)"
  shows "\<exists>ctx2 s. Dispatch swrite close iter (RegisterDefaultHandlers d) ctx = Some (Ret (), ctx2) \<and>
    sent (BodyStream ctx2) = sent (BodyStream ctx1) @ surviving 0 (reply_chunks iter st (Response ctx1)) \<and>
    winv s \<and> BodyStream ctx2 = snd (close (snd (close s)))"
proof -
  let ?inv = "InvokeHandler swrite iter"
  let ?d = "RegisterDefaultHandlers d"
  obtain ctx2 where t: "try_handler ?inv h st0 ctx = Some (Ret st, ctx2)" "winv (BodyStream ctx2)"
    "sent (BodyStream ctx2) = sent (BodyStream ctx1) @
      (if st = STATUS_OK then surviving 0 (reply_chunks iter st (Response ctx1)) else [])"
    "st \<noteq> STATUS_OK \<longrightarrow> ctx2 = ctx1"
    using try_handler_effect [OF assms(4,5), of iter] by blast
  obtain ctx3 where e: "error_response ?inv ?d st ctx2 = Some (Ret (), ctx3)" "winv (BodyStream ctx3)"
    "sent (BodyStream ctx3) = sent (BodyStream ctx1) @ surviving 0 (reply_chunks iter st (Response ctx1))"
  proof (cases "st = STATUS_OK")
    case True
    with t that [of ctx2] show thesis by (simp add: error_response_def act_simps)
  next
    case False
    with t error_response_sends [OF assms(3) t(2) False, of iter] that show thesis by auto
  qed
  have "BodyStream (snd (DestroyHttpContext close ctx3)) = snd (close (snd (close (BodyStream ctx3))))"
    by (simp add: DestroyHttpContext_def split: prod.splits)
  with t(1) e assms(1,2) show ?thesis
    by (auto simp: Dispatch_def Let_def act_simps destroy_context_def close_sent)
qed

end

text \<open>The socket, with what must not change before the context is destroyed: the descriptor and the closes.\<close>

definition sock_at :: "int \<Rightarrow> int list \<Rightarrow> peer SocketStream \<Rightarrow> bool" where
  "sock_at fd closed s \<longleftrightarrow> sock_inv s \<and> ss_fd s = fd \<and> closed_fds (ss_kernel s) = closed"

interpretation conn: response_channel "SocketStream_Write peer_net" sock_sent "sock_at fd closed"
    "SocketStream_Close peer_net" for fd closed
  by unfold_locales (auto simp: sock_at_def sock_defs SocketStream_Close_def peer_close_def)

lemma sock_double_close:
  assumes "sock_at fd closed s"
  shows "closed_fds (ss_kernel (snd (SocketStream_Close peer_net (snd (SocketStream_Close peer_net s))))) = fd # closed"
  using assms by (simp add: sock_at_def sock_inv_def SocketStream_Close_def peer_net_def peer_close_def)

section \<open>The text of a response\<close>

lemma size_int_small:
  assumes "int n \<le> INT_MAX"
  shows "size_int n = int n"
proof -
  have "sint (word_of_int (int n) :: 32 word) = int n"
    using assms by (simp only: sint_sbintrunc') (rule signed_take_bit_int_eq_self, simp_all add: INT_MAX_def)
  then show ?thesis by (simp add: size_int_def)
qed

lemma concat_field_chunks:
  "concat (concat (map (\<lambda>(k, v). [k, COLON, v, NEW_LINE]) hs)) = header_lines hs"
  by (induction hs) (auto simp: header_line_def)

lemma concat_response_chunks:
  "concat (response_chunks iter r) =
    HTTP_VERSION @ SPACE @ int_string (StatusCode r) @ SPACE @ StatusCodeToDescription (StatusCode r) @ NEW_LINE @
    header_line CONTENT_TYPE (rContentType r) @
    (if StatusCode r \<noteq> NO_CONTENT then header_line CONTENT_LENGTH (int_string (rContentLength r)) else []) @
    header_lines (iter (rHeaders r)) @ NEW_LINE @
    (if StatusCode r \<noteq> NO_CONTENT then rBody r else [])"
  by (simp add: response_chunks_def header_line_def concat_field_chunks)

lemma iteration_singleton: "iteration iter \<Longrightarrow> iter [h] = [h]"
proof -
  assume "iteration iter"
  then have "mset (iter [h]) = {#h#}" by (simp add: iteration_def)
  then show ?thesis by simp
qed

section \<open>Properties\<close>

lemma wrapped_status:
  assumes "h = None \<and> st0 \<in> {NOT_FOUND, METHOD_NOT_ALLOWED} \<or> h = Some (Handle new_request valid new_response raw post f)"
    and "handler_effect h st0 ctx st ctx1"
  shows "st = STATUS_OK \<or> st \<in> default_statuses"
  using assms
  by (auto simp: Handle_def Let_def default_statuses_def split: if_splits option.splits outcome.splits prod.splits)

text \<open>
  C10: a request the dispatcher takes is answered by one response. The dispatcher has the default error pages, the stream keeps
  the contract of a response channel, and the route is a user's function in any wrapper (\<open>RequestHandlerImpl::Handle\<close>,
  whatever its request, its response, its validity test and its \<open>PostHandle\<close>), or there is no route. If the function
  returns, or throws a \<open>std::exception\<close>, then the status is 200, 400 (a request the wrapper refuses), 404 or 405 (no route) or 500 (the
  exception), and for each of them the dispatcher writes exactly one response: the one the function has filled in for 200, and
  the error page of the status, over what the function did to the response until then, for the others. It comes right behind what the function
  itself wrote to the stream (which is \<open>BodyStream ctx1\<close>) and nothing comes after it. Of its text the client gets the bytes \<open>surviving\<close> names, which is all
  of it exactly up to 1024 bytes. Then the context is destroyed.
\<close>

theorem dispatch_replies_once:
  assumes "response_channel swrite sent winv close"
    and "CleanPath (Path (Request ctx)) = Ret path"
    and "find_handler d path (Method (Request ctx)) = (h, st0)" and "rd_errorHandlers d = Map.empty"
    and "h = None \<and> st0 \<in> {NOT_FOUND, METHOD_NOT_ALLOWED} \<or> h = Some (Handle new_request valid new_response raw post f)"
    and "handler_effect h st0 ctx st ctx1" and "winv (BodyStream ctx1)"
  shows "st \<in> {STATUS_OK, BAD_REQUEST, NOT_FOUND, METHOD_NOT_ALLOWED, INTERNAL_SERVER_ERROR} \<and>
    (let response = set_length (if st = STATUS_OK then Response ctx1 else error_page st (Response ctx1));
         chunks = response_chunks iter response
     in (\<exists>ctx2 s. Dispatch swrite close iter (RegisterDefaultHandlers d) ctx = Some (Ret (), ctx2) \<and>
          sent (BodyStream ctx2) = sent (BodyStream ctx1) @ surviving 0 chunks \<and>
          winv s \<and> BodyStream ctx2 = snd (close (snd (close s)))) \<and>
        (surviving 0 chunks = concat chunks \<longleftrightarrow> length (concat chunks) \<le> 1024))"
proof -
  let ?chunks = "reply_chunks iter st (Response ctx1)"
  have st: "st = STATUS_OK \<or> st \<in> default_statuses" by (rule wrapped_status [OF assms(5,6)])
  then have chunks: "response_chunks iter
      (set_length (if st = STATUS_OK then Response ctx1 else error_page st (Response ctx1))) = ?chunks"
    by (auto simp: reply_chunks_def)
  have "surviving 0 ?chunks = concat ?chunks \<longleftrightarrow> length (concat ?chunks) \<le> writer_sBufferSize"
    using surviving_all [of 0 ?chunks] surviving_loss [of 0 ?chunks] by (metis add_0 le0 less_irrefl not_le)
  with response_channel.Dispatch_replies [OF assms(1-4,6,7), of iter] st show ?thesis
    by (auto simp: writer_sBufferSize_def default_statuses_def chunks Let_def)
qed

definition teapot :: "peer SocketStream HttpContext \<Rightarrow> (int outcome \<times> peer SocketStream HttpContext) option" where
  "teapot = RequestHandler (\<lambda>q rs. Some (Raise (OtherException ''teapot''), rs))"

definition sample_dispatcher :: "peer SocketStream RequestDispatcher" where
  "sample_dispatcher = RequestDispatcher_new\<lparr>rd_handlers := [''/tea'' \<mapsto> [GET \<mapsto> Some teapot]]\<rparr>"

definition sample_context :: "string \<Rightarrow> peer SocketStream HttpContext" where
  "sample_context path = (HttpContext_new ''h'' (SocketStream_new 7 (peer_new [])))
     \<lparr>Request := HttpRequest_zero\<lparr>Path := path\<rparr>\<rparr>"

lemma sample_context_sock: "sock_at 7 [] (BodyStream (sample_context path))"
  by (simp add: sample_context_def HttpContext_new_def sock_at_def sock_defs SocketStream_new_def peer_new_def)

lemma dispatch_replies_once_witness:
  "\<exists>ctx2. Dispatch (SocketStream_Write peer_net) (SocketStream_Close peer_net) (\<lambda>hs. hs)
      (RegisterDefaultHandlers sample_dispatcher) (sample_context ''/tea/'') = Some (Ret (), ctx2) \<and>
    closed_fds (ss_kernel (BodyStream ctx2)) = [7] \<and>
    sock_sent (BodyStream ctx2) = surviving 0
      (response_chunks (\<lambda>hs. hs) (set_length (error_page 500 (Response (sample_context ''/tea/'')))))"
proof -
  let ?c = "sample_context ''/tea/''"
  have c: "CleanPath (Path (Request ?c)) = Ret ''/tea''" by code_simp
  have f: "find_handler sample_dispatcher ''/tea'' (Method (Request ?c)) = (Some teapot, 200)"
    by (simp add: find_handler_def sample_dispatcher_def sample_context_def HttpRequest_zero_def status_def)
  have e: "rd_errorHandlers sample_dispatcher = Map.empty"
    by (simp add: sample_dispatcher_def RequestDispatcher_new_def)
  have w: "Some teapot = Some (Handle (RequestFormatter_PreHandle TextRequest_new) Wrapper_IsValid TextResponse_PreHandle
      Wrapper_Response TextResponse_PostHandle (\<lambda>q rs. Some (Raise (OtherException ''teapot''), rs)))"
    by (simp only: teapot_def RequestHandler_def)
  have h: "handler_effect (Some teapot) 200 ?c INTERNAL_SERVER_ERROR ?c"
    by (simp add: teapot_def RequestHandler_def Handle_def)
  have z: "sock_sent (BodyStream ?c) = []"
    by (simp add: sample_context_def HttpContext_new_def sock_sent_def SocketStream_new_def peer_new_def)
  from dispatch_replies_once [OF conn.response_channel_axioms c f e disjI2 [OF w] h sample_context_sock, of "\<lambda>hs. hs"] z sock_double_close
  show ?thesis by (simp add: Let_def status_def) (metis append_Nil)
qed

text \<open>
  The default error pages. The page of each of the four statuses, on a response whose only header is the
  one the servers set, is this text, and all of it reaches the client: it fits into the writer's buffer.
\<close>

theorem error_page_text:
  assumes "st \<in> default_statuses" and "iteration iter" and "rHeaders r = [(''Server'', name)]"
    and "length name \<le> 800"
  shows "surviving 0 (reply_chunks iter st r) =
    ''HTTP/1.1 '' @ int_string st @ '' '' @ StatusCodeToDescription st @ [CR, LF] @
    ''Content-Type: text/plain'' @ [CR, LF] @
    ''Content-Length: '' @ int_string (int (length (StatusCodeToDescription st))) @ [CR, LF] @
    ''Server: '' @ name @ [CR, LF] @ [CR, LF] @ StatusCodeToDescription st"
proof -
  let ?r = "set_length (error_page st r)"
  have st: "st \<noteq> STATUS_OK" "st \<noteq> NO_CONTENT" "length (StatusCodeToDescription st) \<le> 30"
    "length (int_string st) \<le> 3"
    using assms(1) by (auto simp: default_statuses_def status_def StatusCodeToDescription_def
        int_string_def nat_string.simps)
  have len: "size_int (length (StatusCodeToDescription st)) = int (length (StatusCodeToDescription st))"
    using st(3) by (intro size_int_small) (simp add: INT_MAX_def)
  have two: "length (int_string (int (length (StatusCodeToDescription st)))) \<le> 2"
    using assms(1) by (auto simp: default_statuses_def status_def StatusCodeToDescription_def
        int_string_def nat_string.simps)
  have page: "concat (response_chunks iter ?r) =
    ''HTTP/1.1 '' @ int_string st @ '' '' @ StatusCodeToDescription st @ [CR, LF] @
    ''Content-Type: text/plain'' @ [CR, LF] @
    ''Content-Length: '' @ int_string (int (length (StatusCodeToDescription st))) @ [CR, LF] @
    ''Server: '' @ name @ [CR, LF] @ [CR, LF] @ StatusCodeToDescription st"
    using st(2) assms(3) iteration_singleton [OF assms(2)]
    by (simp add: concat_response_chunks header_line_def entities_def error_page_def set_length_def len)
  have "length (concat (response_chunks iter ?r)) \<le> writer_sBufferSize"
    using st(3,4) two assms(4) by (simp only: page) (simp add: writer_sBufferSize_def)
  with surviving_all [of 0 "response_chunks iter ?r"] st(1) assms(1) page show ?thesis
    by (simp add: reply_chunks_def)
qed

lemma error_page_text_witness:
  "surviving 0 (reply_chunks (\<lambda>hs. hs) 404 (HttpResponse_zero\<lparr>rHeaders := [(''Server'', ''Basic'')]\<rparr>)) =
    ''HTTP/1.1 404 Not Found'' @ [CR, LF] @ ''Content-Type: text/plain'' @ [CR, LF] @
    ''Content-Length: 9'' @ [CR, LF] @ ''Server: Basic'' @ [CR, LF] @ [CR, LF] @ ''Not Found''"
proof -
  have d: "int_string 404 = ''404''" "int_string 9 = ''9''" by code_simp+
  show ?thesis
    using error_page_text [of 404 "\<lambda>hs. hs" "HttpResponse_zero\<lparr>rHeaders := [(''Server'', ''Basic'')]\<rparr>" "''Basic''"]
    by (simp add: default_statuses_def status_def StatusCodeToDescription_def d)
qed

text \<open>
  Two printers, one text. What the dispatcher writes for a response is what \<open>HttpResponse::ToString\<close>
  prints for it, once the dispatcher has set the length, for every response with a content type, a body that
  is not empty and fits into \<open>int\<close>, and a status other than 204.
\<close>

theorem response_text_agrees:
  assumes "StatusCode r \<noteq> NO_CONTENT" and "rContentType r \<noteq> []" and "rBody r \<noteq> []"
    and "int (length (rBody r)) \<le> INT_MAX"
  shows "concat (response_chunks iter (set_length r)) = HttpResponse_ToString iter (set_length r)"
  using assms size_int_small [OF assms(4)]
  by (simp add: concat_response_chunks HttpResponse_ToString_def set_length_def entities_def)

lemma response_text_agrees_witness:
  "concat (response_chunks (\<lambda>hs. hs) (set_length (error_page 404 HttpResponse_zero))) =
    HttpResponse_ToString (\<lambda>hs. hs) (set_length (error_page 404 HttpResponse_zero))"
  by (rule response_text_agrees)
    (simp_all add: error_page_def status_def StatusCodeToDescription_def INT_MAX_def)

definition registered :: "'s RequestDispatcher \<Rightarrow> string \<Rightarrow> HttpMethod \<Rightarrow> bool" where
  "registered d q m \<longleftrightarrow> (\<exists>ms h. rd_handlers d q = Some ms \<and> ms m = Some h)"

text \<open>
  Registration keeps the first handler. After \<open>RegisterHandler\<close> the lookup answers with the new handler
  for its clean path and method if there was none before; an entry that was there stays, whatever the
  documentation says of replacement, also when the second path is only spelled differently. A new path
  answers other methods with 405, and no other lookup changes.
\<close>

theorem register_handler_first_wins:
  assumes "RegisterHandler p m h d = Ret d'" and "CleanPath p = Ret q"
  shows "find_handler d' q' m' =
      (if q' = q \<and> m' = m \<and> \<not> registered d q m then (h, STATUS_OK)
       else if q' = q \<and> rd_handlers d q = None then (None, METHOD_NOT_ALLOWED)
       else find_handler d q' m') \<and>
    (CleanPath p2 = Ret q \<longrightarrow> RegisterHandler p2 m h2 d' = Ret d')"
  using assms
  by (auto simp: RegisterHandler_def find_handler_def registered_def split: option.splits if_splits)

lemma register_handler_first_wins_witness:
  "\<exists>d1. RegisterHandler ''/tea'' GET (Some teapot) RequestDispatcher_new = Ret d1 \<and>
    RegisterHandler ''tea/'' GET None d1 = Ret d1 \<and> fst (find_handler d1 ''/tea'' GET) = Some teapot"
proof -
  have c: "CleanPath ''/tea'' = Ret ''/tea''" "CleanPath ''tea/'' = Ret ''/tea''" by code_simp+
  then obtain d1 where d: "RegisterHandler ''/tea'' GET (Some teapot) RequestDispatcher_new = Ret d1"
    by (simp add: RegisterHandler_def RequestDispatcher_new_def)
  from register_handler_first_wins [OF d c(1), of "''/tea''" GET "''tea/''" None] c(2) d show ?thesis
    by (simp add: registered_def RequestDispatcher_new_def)
qed

text \<open>
  A body that is not JSON. A request for a \<open>RestfulHandler\<close> whose body the JSON library does not
  accept is answered with the page for 400, and the response is not touched before; the user's function is
  not called, so nothing depends on it.
\<close>

theorem restful_rejects_bad_json:
  assumes "response_channel swrite sent winv close" and "winv (BodyStream ctx)"
    and "CleanPath (Path (Request ctx)) = Ret path" and "rd_errorHandlers d = Map.empty"
    and "find_handler d path (Method (Request ctx)) = (Some (RestfulHandler js f), STATUS_OK)"
    and "json_parse js (Body (Request ctx)) = None"
  shows "\<exists>ctx2. Dispatch swrite close iter (RegisterDefaultHandlers d) ctx = Some (Ret (), ctx2) \<and>
    sent (BodyStream ctx2) = sent (BodyStream ctx) @
      surviving 0 (response_chunks iter (set_length (error_page BAD_REQUEST (Response ctx))))"
proof -
  have "handler_effect (Some (RestfulHandler js f)) STATUS_OK ctx BAD_REQUEST ctx"
    using assms(6) by (simp add: RestfulHandler_def Handle_def JsonRequest_new_def JsonRequest_IsValid_def)
  from response_channel.Dispatch_replies [OF assms(1,3,5,4) this assms(2), of iter] show ?thesis
    by (auto simp: reply_chunks_def default_statuses_def status_def)
qed

definition bool_json :: "bool json_lib" where
  "bool_json = \<lparr>json_parse = (\<lambda>t. if t = ''true'' then Some True else if t = ''false'' then Some False else None),
     json_null = False, json_dump = (\<lambda>b. if b then ''true'' else ''false'')\<rparr>"

definition negate :: "bool JsonRequest \<Rightarrow> (bool JsonResponse \<times> peer SocketStream, unit) action" where
  "negate q = (\<lambda>(r, s). Some (Ret (), r\<lparr>jr_json := jq_json q = Some False\<rparr>, s))"

lemma restful_rejects_bad_json_witness:
  "\<exists>ctx2. Dispatch (SocketStream_Write peer_net) (SocketStream_Close peer_net) (\<lambda>hs. hs)
      (RegisterDefaultHandlers (RequestDispatcher_new
        \<lparr>rd_handlers := [''/not'' \<mapsto> [GET \<mapsto> Some (RestfulHandler bool_json negate)]]\<rparr>))
      (sample_context ''/not'') = Some (Ret (), ctx2)"
proof -
  let ?d = "RequestDispatcher_new \<lparr>rd_handlers := [''/not'' \<mapsto> [GET \<mapsto> Some (RestfulHandler bool_json negate)]]\<rparr>"
  let ?c = "sample_context ''/not''"
  have c: "CleanPath (Path (Request ?c)) = Ret ''/not''" by code_simp
  have f: "find_handler ?d ''/not'' (Method (Request ?c)) = (Some (RestfulHandler bool_json negate), STATUS_OK)"
    by (simp add: find_handler_def sample_context_def HttpRequest_zero_def)
  have e: "rd_errorHandlers ?d = Map.empty" by (simp add: RequestDispatcher_new_def)
  have j: "json_parse bool_json (Body (Request ?c)) = None"
    by (simp add: bool_json_def sample_context_def HttpRequest_zero_def)
  from restful_rejects_bad_json [OF conn.response_channel_axioms sample_context_sock c e f j] show ?thesis
    by blast
qed

end
