(* ===== verification/Stream_Frame.thy ===== *)
theory Stream_Frame
  imports Sync_Runs IO_Writer
begin

text \<open>
  What parsing a request and writing a response do to the rest of the world. The parser only reads its
  stream, and the writer only writes it: a property of the stream that one read (one write) keeps is kept by
  the whole parse (by a whole response), whatever its result. The locales \<open>stream_frame\<close> and \<open>sink_frame\<close>
  state it for any stream; they are interpreted on sockets, whose descriptor no read or write changes.
\<close>

section \<open>Properties an action keeps\<close>

definition keeps :: "('p \<Rightarrow> bool) \<Rightarrow> ('p, 'a) action \<Rightarrow> bool" where
  "keeps I m \<longleftrightarrow> (\<forall>p oc p'. I p \<longrightarrow> m p = Some (oc, p') \<longrightarrow> I p')"

named_theorems keeps_intros \<open>actions that keep a property\<close>

lemma keepsD: "keeps I m \<Longrightarrow> I p \<Longrightarrow> m p = Some (oc, p') \<Longrightarrow> I p'"
  by (auto simp: keeps_def)

lemma keepsI: "(\<And>p oc p'. I p \<Longrightarrow> m p = Some (oc, p') \<Longrightarrow> I p') \<Longrightarrow> keeps I m"
  unfolding keeps_def by blast

lemma keeps_ret [keeps_intros]: "keeps I (ret x)"
  by (rule keepsI) (simp add: ret_def)

lemma keeps_andThen [keeps_intros]:
  assumes "keeps I m" and "\<And>x. keeps I (f x)"
  shows "keeps I (andThen m f)"
proof (rule keepsI, elim andThen_SomeE)
  fix p oc p' e s
  assume "I p" "m p = Some (Raise e, s)" "(oc, p') = (Raise e, s)"
  with keepsD [OF assms(1)] show "I p'" by blast
next
  fix p oc p' x s
  assume "I p" "m p = Some (Ret x, s)" "f x s = Some (oc, p')"
  with keepsD [OF assms(1)] keepsD [OF assms(2)] show "I p'" by blast
qed

lemma keeps_if [keeps_intros]:
  "(b \<Longrightarrow> keeps I m) \<Longrightarrow> (\<not> b \<Longrightarrow> keeps I m') \<Longrightarrow> keeps I (if b then m else m')"
  by (cases b) simp_all

lemma keeps_cond [keeps_intros]:
  "keeps I m \<Longrightarrow> keeps I m' \<Longrightarrow> keeps I (\<lambda>p. if b p then m p else m' p)"
  by (rule keepsI) (auto split: if_splits dest: keepsD)

lemma keeps_let [keeps_intros]: "(\<And>x. keeps I (m x)) \<Longrightarrow> keeps I (\<lambda>p. let x = g p in m x p)"
  by (rule keepsI) (auto simp: Let_def dest: keepsD)

section \<open>The parse\<close>

locale stream_frame =
  fixes sread :: "'s \<Rightarrow> nat \<Rightarrow> io_read \<times> 's" and I :: "'s \<Rightarrow> bool"
  assumes sread_keeps: "I s \<Longrightarrow> I (snd (sread s n))"
begin

abbreviation rI :: "'s BufferedStreamReader \<Rightarrow> bool" where "rI r \<equiv> I (br_stream r)"
abbreviation pI :: "'s BufferedStreamReader RequestParser \<Rightarrow> bool" where "pI p \<equiv> rI (rp_reader p)"
abbreviation rd :: "'s BufferedStreamReader \<Rightarrow> int \<times> 's BufferedStreamReader" where
  "rd \<equiv> reader_Read sread"

lemma Flush_keeps: "rI r \<Longrightarrow> rI (reader_Flush sread r)"
  using sread_keeps [of "br_stream r" reader_sBufferSize]
  by (auto simp: reader_Flush_def Let_def split: prod.splits io_read.splits)

lemma Read_keeps: "rI r \<Longrightarrow> rd r = (ch, r') \<Longrightarrow> rI r'"
  using Flush_keeps [of r] by (auto simp: reader_Read_def Let_def split: if_splits)

lemma ReadLoop_keeps: "rI r \<Longrightarrow> rI (snd (reader_ReadLoop sread len n acc r))"
proof (induction n arbitrary: acc r rule: less_induct)
  case (less n)
  let ?r1 = "reader_Flush sread r"
  have r1: "rI ?r1" by (rule Flush_keeps [OF less.prems(1)])
  then show ?case
    using less.prems less.IH by (subst reader_ReadLoop.simps) (simp add: Let_def)
qed

lemma ReadBlock_keeps: "rI r \<Longrightarrow> reader_ReadBlock sread r n = (oc, r') \<Longrightarrow> rI r'"
  using ReadLoop_keeps [of r n n "[]"]
  by (auto simp: reader_ReadBlock_def split: if_splits prod.splits outcome.splits)

lemma Next_keeps: "pI p \<Longrightarrow> rp_Next rd p = (ch, p') \<Longrightarrow> pI p'"
  by (auto simp: rp_Next_def split: if_splits prod.splits dest: Read_keeps)

lemma update_keeps [keeps_intros]: "keeps pI (set_type t)" "keeps pI (rp_Rewind c)" "keeps pI rp_ParsePreamble"
  by (rule keepsI, auto simp: set_type_def rp_Rewind_def rp_ParsePreamble_def split: if_splits)+

lemma after_Next_keeps:
  assumes "\<And>ch. keeps pI (m ch)"
  shows "keeps pI (\<lambda>p. let (ch, p') = rp_Next rd p in m ch p')"
  by (rule keepsI) (auto split: prod.splits dest: Next_keeps keepsD [OF assms])

lemma string_loop_keeps [keeps_intros]: "keeps pI (string_loop rd ds ch)"
proof (rule keepsI)
  fix p oc p'
  define P where "P rd' ds ch p res \<longleftrightarrow> (rd' = rd \<longrightarrow> pI p \<longrightarrow> pI (snd res))"
    for rd' and ds :: string and ch :: int and p and res :: "int outcome \<times> 's BufferedStreamReader RequestParser"
  assume "string_loop rd ds ch p = Some (oc, p')" and p: "pI p"
  then have "P rd ds ch p (oc, p')"
    by (rule_tac string_loop.raw_induct [of P])
      (auto simp: P_def split: if_splits prod.splits dest!: Next_keeps [rotated])
  with p show "pI p'" by (simp add: P_def)
qed

lemma skip_spaces_keeps [keeps_intros]: "keeps pI (skip_spaces rd ch)"
proof (rule keepsI)
  fix p oc p'
  define P where "P rd' ch p res \<longleftrightarrow> (rd' = rd \<longrightarrow> pI p \<longrightarrow> pI (snd res))"
    for rd' and ch :: int and p and res :: "int outcome \<times> 's BufferedStreamReader RequestParser"
  assume "skip_spaces rd ch p = Some (oc, p')" and p: "pI p"
  then have "P rd ch p (oc, p')"
    by (rule_tac skip_spaces.raw_induct [of P])
      (auto simp: P_def split: if_splits prod.splits dest!: Next_keeps [rotated])
  with p show "pI p'" by (simp add: P_def)
qed

lemma string_token_keeps [keeps_intros]: "keeps pI (string_token rd ds ch)"
proof (rule keepsI)
  fix p oc p'
  assume "pI p" and "string_token rd ds ch p = Some (oc, p')"
  moreover have "keeps pI (andThen (string_loop rd ds ch) (\<lambda>ch'. if ch' \<noteq> - 1 then rp_Rewind (int_ch ch') else ret ()))"
    by (intro keeps_intros)
  ultimately show "pI p'"
    unfolding string_token_def by (auto dest: keepsD [of pI _ "p\<lparr>rp_type := T_String, rp_value := []\<rparr>"])
qed

lemma new_line_token_keeps [keeps_intros]: "keeps pI (new_line_token rd)"
  unfolding new_line_token_def by (rule after_Next_keeps) (rule keeps_intros)

lemma NextToken_keeps [keeps_intros]: "keeps pI (rp_NextToken rd)"
  unfolding rp_NextToken_def by (rule after_Next_keeps) (intro keeps_intros)

lemma NextString_keeps [keeps_intros]: "keeps pI (rp_NextString rd)"
  unfolding rp_NextString_def by (rule after_Next_keeps) (intro keeps_intros)

lemma expect_keeps [keeps_intros]: "keeps pI tok \<Longrightarrow> keeps pI m \<Longrightarrow> keeps pI (expect tok t m)"
  unfolding expect_def by (intro keeps_intros)

lemma set_request_keeps [keeps_intros]:
  assumes "keeps pI m"
  shows "keeps pI (set_request f m)"
proof (rule keepsI)
  fix p oc p'
  assume p: "pI p" and run: "set_request f m p = Some (oc, p')"
  show "pI p'"
  proof (cases "f (rp_value p) (rp_request p)")
    case (Ret r)
    with p run keepsD [OF assms, of "p\<lparr>rp_request := r\<rparr>" oc p'] show ?thesis by (simp add: set_request_def)
  qed (use p run in \<open>auto simp: set_request_def\<close>)
qed

lemma ParseStartLine_keeps [keeps_intros]: "keeps pI (rp_ParseStartLine rd)"
  unfolding rp_ParseStartLine_def by (intro keeps_intros)

lemma ParseHeader_keeps [keeps_intros]: "keeps pI (rp_ParseHeader rd)"
  unfolding rp_ParseHeader_def by (intro keeps_intros)

lemma header_loop_keeps [keeps_intros]: "keeps pI (header_loop rd st)"
proof (rule keepsI)
  fix p oc p'
  define P where "P rd' st p res \<longleftrightarrow> (rd' = rd \<longrightarrow> pI p \<longrightarrow> pI (snd res))"
    for rd' and st :: ParseStatus and p and res :: "ParseStatus outcome \<times> 's BufferedStreamReader RequestParser"
  assume "header_loop rd st p = Some (oc, p')" and p: "pI p"
  then have "P rd st p (oc, p')"
    by (rule_tac header_loop.raw_induct [of P])
      (auto simp: P_def split: if_splits prod.splits option.splits outcome.splits
        dest!: keepsD [OF ParseHeader_keeps, rotated])
  with p show "pI p'" by (simp add: P_def)
qed

lemma ParseBody_keeps [keeps_intros]: "keeps pI (rp_ParseBody (reader_ReadBlock sread))"
  by (rule keepsI) (auto simp: rp_ParseBody_def Let_def split: prod.splits outcome.splits dest: ReadBlock_keeps)

lemma Parse_keeps: "keeps pI (rp_Parse rd (reader_ReadBlock sread))"
  unfolding rp_Parse_def by (intro keeps_intros)

lemma ParseHttpRequest_keeps:
  assumes "I s" and "ParseHttpRequest sread s r0 = Some (oc, s', r)"
  shows "I s'"
  using assms keepsD [OF Parse_keeps, of "RequestParser_new (BufferedStreamReader_new s) r0"]
  by (auto simp: ParseHttpRequest_def RequestParser_new_def BufferedStreamReader_new_def split: option.splits)

end

text \<open>A socket stream keeps its descriptor, and whatever a \<open>recv\<close> on it does not change of the kernel.\<close>

lemma socket_frame:
  assumes "\<And>(k :: 'a) n. J k \<Longrightarrow> J (snd (net_recv net k fd n))"
  shows "stream_frame (SocketStream_Read net) (\<lambda>s. ss_fd s = fd \<and> J (ss_kernel s))"
proof
  fix s :: "'a SocketStream" and n
  assume "ss_fd s = fd \<and> J (ss_kernel s)"
  then show "ss_fd (snd (SocketStream_Read net s n)) = fd \<and> J (ss_kernel (snd (SocketStream_Read net s n)))"
    using assms [of "ss_kernel s" n]
    by (auto simp: SocketStream_Read_def Let_def split: prod.splits sys_read.splits)
qed

interpretation sock_fd: stream_frame "SocketStream_Read net" "\<lambda>s. ss_fd s = fd" for net fd
  using socket_frame [of "\<lambda>k. True" net fd] by simp

section \<open>A system inside a larger one\<close>

text \<open>A stream over a system that answers \<open>recv\<close> like its part \<open>get\<close> keeps the contract of the stream over the part.\<close>

definition stream_view :: "('k \<Rightarrow> 'j) \<Rightarrow> 'k SocketStream \<Rightarrow> 'j SocketStream" where
  "stream_view get s = \<lparr>ss_fd = ss_fd s, ss_kernel = get (ss_kernel s)\<rparr>"

lemma stream_view_read:
  assumes "\<And>k fd n. map_prod id get (net_recv net' k fd n) = net_recv net (get k) fd n"
  shows "SocketStream_Read net (stream_view get s) n = map_prod id (stream_view get) (SocketStream_Read net' s n)"
proof -
  obtain r k where k: "net_recv net' (ss_kernel s) (ss_fd s) n = (r, k)" by fastforce
  with assms [of "ss_kernel s" "ss_fd s" n] have "net_recv net (get (ss_kernel s)) (ss_fd s) n = (r, get k)" by simp
  with k show ?thesis
    by (cases r) (simp_all add: SocketStream_Read_def SocketStream_IsReadable_def stream_view_def Let_def)
qed

lemma byte_source_view:
  assumes "byte_source (SocketStream_Read net) pending sinv"
    and "\<And>(k :: 'k) fd n. map_prod id get (net_recv net' k fd n) = net_recv net (get k) fd n"
  shows "byte_source (SocketStream_Read net') (\<lambda>s. pending (stream_view get s)) (\<lambda>s. sinv (stream_view get s))"
proof
  fix s :: "'k SocketStream" and n :: nat
  note read = stream_view_read [of get net' net, OF assms(2), of s n]
  assume a: "sinv (stream_view get s)" "0 < n" "pending (stream_view get s) \<noteq> []"
  from byte_source.read_some [OF assms(1) this] read
  show "\<exists>bs s'. SocketStream_Read net' s n = (Bytes bs, s') \<and> sinv (stream_view get s') \<and> bs \<noteq> [] \<and>
      length bs \<le> n \<and> pending (stream_view get s) = bs @ pending (stream_view get s')"
    by (cases "SocketStream_Read net' s n") auto
next
  fix s :: "'k SocketStream" and n :: nat
  note read = stream_view_read [of get net' net, OF assms(2), of s n]
  assume a: "sinv (stream_view get s)" "0 < n" "pending (stream_view get s) = []"
  from byte_source.read_none [OF assms(1) this] read
  show "\<exists>res s'. SocketStream_Read net' s n = (res, s') \<and> sinv (stream_view get s') \<and>
      pending (stream_view get s') = [] \<and> (res = Bytes [] \<or> (\<exists>e. res = Failed e \<and> e < 0 \<and> e \<noteq> StreamStatus_Again))"
    by (cases "SocketStream_Read net' s n") auto
qed

section \<open>The response\<close>

locale sink_frame =
  fixes swrite :: "'s \<Rightarrow> string \<Rightarrow> int \<times> 's" and I :: "'s \<Rightarrow> bool"
  assumes swrite_keeps: "I s \<Longrightarrow> I (snd (swrite s bs))"
begin

lemma writer_Flush_keeps: "I (bw_stream w) \<Longrightarrow> I (bw_stream (snd (writer_Flush swrite w)))"
  using swrite_keeps [of "bw_stream w" "bw_buffer w"]
  by (auto simp: writer_Flush_def Let_def split: prod.splits)

lemma WriteLoop_keeps: "I (bw_stream w) \<Longrightarrow> I (bw_stream (snd (writer_WriteLoop swrite bs w)))"
proof (induction "length bs" arbitrary: bs w rule: less_induct)
  case less
  let ?sz = "min (length bs) (writer_sBufferSize - writer_BufferSize w)"
  have flush: "I (bw_stream w1)" if "writer_Flush swrite w = (oc, w1)" for oc w1
    using writer_Flush_keeps [OF less.prems] that by simp
  show ?case
  proof (cases "bs = [] \<or> writer_sBufferSize \<le> writer_BufferSize w")
    case True
    then have "bs = [] \<or> bw_buffer w \<noteq> []" by (auto simp: writer_BufferSize_def writer_sBufferSize_def)
    with True show ?thesis
      using less.prems flush writer_Flush_negative [of w swrite]
      by (subst writer_WriteLoop.simps)
        (auto simp: Let_def writer_BufferSize_def writer_sBufferSize_def split: prod.splits outcome.splits)
  next
    case False
    then have "length (drop ?sz bs) < length bs" by auto
    from less.hyps [OF this] less.prems False show ?thesis
      by (subst writer_WriteLoop.simps) (auto simp: Let_def)
  qed
qed

lemma write_all_keeps: "I (bw_stream w) \<Longrightarrow> I (snd (write_all swrite w cs))"
proof (induction cs arbitrary: w)
  case Nil
  then show ?case using writer_Flush_keeps [of w] by (auto simp: writer_delete_def split: prod.splits outcome.splits)
next
  case (Cons c cs)
  obtain oc w1 where w1: "writer_WriteLoop swrite c w = (oc, w1)" by (cases "writer_WriteLoop swrite c w")
  with WriteLoop_keeps [OF Cons.prems, of c] have "I (bw_stream w1)" by simp
  with Cons.IH [of w1] w1 show ?case by (cases oc) (simp_all add: writer_Write_def)
qed

end

lemma socket_sink_frame:
  assumes "\<And>(k :: 'a) bs. J k \<Longrightarrow> J (snd (net_send net k fd bs))"
  shows "sink_frame (SocketStream_Write net) (\<lambda>s. ss_fd s = fd \<and> J (ss_kernel s))"
proof
  fix s :: "'a SocketStream" and bs
  assume "ss_fd s = fd \<and> J (ss_kernel s)"
  then show "ss_fd (snd (SocketStream_Write net s bs)) = fd \<and> J (ss_kernel (snd (SocketStream_Write net s bs)))"
    using assms [of "ss_kernel s" bs]
    by (auto simp: SocketStream_Write_def Let_def split: prod.splits sum.splits)
qed

interpretation sock_fd_out: sink_frame "SocketStream_Write net" "\<lambda>s. ss_fd s = fd" for net fd
  using socket_sink_frame [of "\<lambda>k. True" net fd] by simp

end
