(* ===== verification/Connection.thy ===== *)
theory Connection
  imports Dispatcher Stream_Frame
begin

text \<open>
  What a server does with one accepted connection (\<open>_HandleConnection\<close>, and the body of the loop of
  \<open>BasicServer::_Serve\<close>): create the context, add the \<open>Server\<close> header, hand it to the callback. The two
  questions about it are what the client gets and what becomes of the descriptor.
\<close>

section \<open>Handling a connection\<close>

definition DecorateContext :: "string \<Rightarrow> 's HttpContext \<Rightarrow> 's HttpContext" where
  "DecorateContext name ctx =
     ctx\<lparr>Response := (Response ctx)\<lparr>rHeaders := headers_set ''Server'' name (rHeaders (Response ctx))\<rparr>\<rparr>"

text \<open>\<open>onConnection\<close> is the callback; the web host sets it to \<open>Dispatch\<close>.\<close>

definition HandleConnection ::
    "'k net_ops \<Rightarrow> string \<Rightarrow> ('k SocketStream HttpContext, unit) action \<Rightarrow> AcceptData \<Rightarrow> ('k, unit) action" where
  "HandleConnection net name onConnection data k =
     (case CreateHttpContext_data net data k of
        None \<Rightarrow> None
      | Some (Raise e, context, k1) \<Rightarrow> Some (Raise e, k1)
      | Some (Ret r, context, k1) \<Rightarrow>
          (case (r = 0, context) of
             (True, Some ctx) \<Rightarrow>
               (case onConnection (DecorateContext name ctx) of
                  None \<Rightarrow> None
                | Some (oc, ctx') \<Rightarrow> Some (oc, ss_kernel (BodyStream ctx')))
           | _ \<Rightarrow> Some (Ret (), k1)))"

lemma create_context_cases:
  assumes "CreateHttpContext_data net data k = Some (oc, context, k1)"
  shows "(oc = Ret 0 \<longleftrightarrow> context \<noteq> None) \<and>
    (\<forall>ctx. context = Some ctx \<longrightarrow> ss_kernel (BodyStream ctx) = k1)"
  using assms
  by (auto simp: CreateHttpContext_data_def create_context_def Let_def split: option.splits if_splits)

section \<open>What dispatching keeps\<close>

abbreviation keeps_stream :: "('s \<Rightarrow> bool) \<Rightarrow> ('s HttpContext, 'a) action \<Rightarrow> bool" where
  "keeps_stream I \<equiv> keeps (\<lambda>ctx. I (BodyStream ctx))"

definition handlers_keep :: "('s \<Rightarrow> bool) \<Rightarrow> 's RequestDispatcher \<Rightarrow> bool" where
  "handlers_keep I d \<longleftrightarrow>
     (\<forall>path ms m h. rd_handlers d path = Some ms \<longrightarrow> ms m = Some (Some h) \<longrightarrow> keeps_stream I h) \<and>
     (\<forall>st h. rd_errorHandlers d st = Some (Some h) \<longrightarrow> keeps_stream I h)"

lemma RequestHandler_keeps:
  assumes "\<And>q r s oc r' s'. I s \<Longrightarrow> f q (r, s) = Some (oc, r', s') \<Longrightarrow> I s'"
  shows "keeps_stream I (RequestHandler f)"
  by (rule keepsI) (auto simp: RequestHandler_def Handle_def split: option.splits prod.splits outcome.splits dest: assms)

lemma default_handlers_keep:
  assumes "handlers_keep I d"
  shows "handlers_keep I (RegisterDefaultHandlers d)"
proof -
  have "keeps_stream I (RequestHandler (\<lambda>q. DefaultErrorHandler st))" for st
    by (rule RequestHandler_keeps) (auto simp: DefaultErrorHandler_def)
  then show ?thesis
    using assms
    by (auto simp: handlers_keep_def RegisterDefaultHandlers_def RegisterErrorHandler_def default_handlers_eq
        split: if_splits)
qed

context sink_frame
begin

lemma WriteResponse_keeps: "keeps_stream I (WriteResponse swrite iter)"
proof (rule keepsI)
  fix ctx oc ctx'
  assume "I (BodyStream ctx)" and run: "WriteResponse swrite iter ctx = Some (oc, ctx')"
  then have "I (snd (write_all swrite (BufferedStreamWriter_new (BodyStream ctx))
      (response_chunks iter (set_length (Response ctx)))))"
    by (intro write_all_keeps) (simp add: BufferedStreamWriter_new_def)
  with run show "I (BodyStream ctx')" by (auto simp: WriteResponse_def Let_def split: prod.splits)
qed

lemma InvokeHandler_keeps: "keeps_stream I h \<Longrightarrow> keeps_stream I (InvokeHandler swrite iter h)"
  unfolding InvokeHandler_def by (intro keeps_intros WriteResponse_keeps) assumption

lemma try_handler_keeps:
  assumes "\<And>h. handler = Some h \<Longrightarrow> keeps_stream I h"
  shows "keeps_stream I (try_handler (InvokeHandler swrite iter) handler st)"
proof (cases handler)
  case None
  then show ?thesis by (auto intro!: keepsI simp: try_handler_def ret_def)
next
  case (Some h)
  from keepsD [OF InvokeHandler_keeps [OF assms [OF Some], of iter]] show ?thesis
    unfolding Some by (intro keepsI) (auto simp: try_handler_def split: option.splits prod.splits outcome.splits if_splits)
qed

lemma error_response_keeps:
  assumes "handlers_keep I d"
  shows "keeps_stream I (error_response (InvokeHandler swrite iter) d st)"
proof -
  have "keeps_stream I h" if "GetErrorHandler d st = Some h" for h
    using that assms by (auto simp: GetErrorHandler_def handlers_keep_def split: option.splits)
  then show ?thesis
    unfolding error_response_def
    by (cases "GetErrorHandler d st") (auto intro!: keeps_intros InvokeHandler_keeps)
qed

lemma Dispatch_keeps:
  assumes "handlers_keep I d" and "I (BodyStream ctx)"
    and "Dispatch swrite close iter d ctx = Some (oc, ctx')"
  shows "case oc of
      Ret u \<Rightarrow> \<exists>s. I s \<and> BodyStream ctx' = snd (close (snd (close s)))
    | Raise e \<Rightarrow> I (BodyStream ctx')"
proof (cases "CleanPath (Path (Request ctx))")
  case (Raise e)
  with assms show ?thesis by (auto simp: Dispatch_def)
next
  case (Ret path)
  obtain h st0 where f: "find_handler d path (Method (Request ctx)) = (h, st0)" by fastforce
  have h: "keeps_stream I g" if "h = Some g" for g
    using f that assms(1) by (auto simp: find_handler_def handlers_keep_def split: option.splits)
  have "andThen (try_handler (InvokeHandler swrite iter) h st0) (\<lambda>st.
      andThen (error_response (InvokeHandler swrite iter) d st) (\<lambda>_. destroy_context close)) ctx = Some (oc, ctx')"
    using assms(3) by (simp add: Dispatch_def Ret f Let_def)
  then show ?thesis
  proof (cases rule: andThen_SomeE)
    case (raised e ctx1)
    with keepsD [OF try_handler_keeps [OF h] assms(2) raised(1)] show ?thesis by simp
  next
    case (returned st ctx1)
    have ctx1: "I (BodyStream ctx1)" by (rule keepsD [OF try_handler_keeps [OF h] assms(2) returned(1)])
    from returned(2) show ?thesis
    proof (cases rule: andThen_SomeE)
      case (raised e ctx2)
      with keepsD [OF error_response_keeps [OF assms(1)] ctx1 raised(1)] show ?thesis by simp
    next
      case (returned u ctx2)
      have "I (BodyStream ctx2)" by (rule keepsD [OF error_response_keeps [OF assms(1)] ctx1 returned(1)])
      with returned(2) show ?thesis
        by (auto simp: destroy_context_def DestroyHttpContext_def split: prod.splits intro!: exI [of _ "BodyStream ctx2"])
    qed
  qed
qed

end

lemma create_frame:
  assumes "CreateHttpContext_data net data k = Some (oc, context, k1)" and "J k"
    and "\<And>k n. J k \<Longrightarrow> J (snd (net_recv net k (SocketFd data) n))"
  shows "J k1 \<and> (\<forall>ctx. context = Some ctx \<longrightarrow> ss_fd (BodyStream ctx) = SocketFd data \<and> ss_kernel (BodyStream ctx) = k1)"
proof -
  have "stream_frame (SocketStream_Read net) (\<lambda>s. ss_fd s = SocketFd data \<and> J (ss_kernel s))"
    by (rule socket_frame) (rule assms(3))
  from stream_frame.ParseHttpRequest_keeps [OF this, of "SocketStream_new (SocketFd data) k"] assms(1,2)
  show ?thesis
    by (auto simp: CreateHttpContext_data_def create_context_def HttpContext_new_def SocketStream_new_def
        Let_def split: option.splits if_splits)
qed

lemma double_close:
  assumes "ss_fd s = fd" and "0 < fd"
  shows "ss_kernel (snd (SocketStream_Close net (snd (SocketStream_Close net s)))) = snd (net_close net (ss_kernel s) fd)"
proof -
  have once: "SocketStream_Close net s =
      (fst (net_close net (ss_kernel s) fd), s\<lparr>ss_kernel := snd (net_close net (ss_kernel s) fd), ss_fd := 0\<rparr>)"
    using assms by (simp add: SocketStream_Close_def split: prod.splits)
  from SocketStream_double_close [OF this] show ?thesis by (simp add: once)
qed

text \<open>
  A property that neither a write nor a handler of this connection changes lasts through the dispatch, up to the close of the
  descriptor, which is the last thing that happens.
\<close>

lemma Dispatch_frame:
  assumes "Dispatch (SocketStream_Write net) (SocketStream_Close net) iter d ctx = Some (oc, ctx')"
    and "\<And>k bs. J k \<Longrightarrow> J (snd (net_send net k fd bs))"
    and "handlers_keep (\<lambda>s. ss_fd s = fd \<and> J (ss_kernel s)) d"
    and "ss_fd (BodyStream ctx) = fd" and "0 < fd" and "J (ss_kernel (BodyStream ctx))"
  shows "case oc of
      Ret u \<Rightarrow> \<exists>k. J k \<and> ss_kernel (BodyStream ctx') = snd (net_close net k fd)
    | Raise e \<Rightarrow> J (ss_kernel (BodyStream ctx'))"
proof -
  have f: "sink_frame (SocketStream_Write net) (\<lambda>s. ss_fd s = fd \<and> J (ss_kernel s))"
    by (rule socket_sink_frame) (rule assms(2))
  have "ss_fd (BodyStream ctx) = fd \<and> J (ss_kernel (BodyStream ctx))" using assms(4,6) by simp
  from sink_frame.Dispatch_keeps [OF f assms(3) this assms(1)] show ?thesis
    by (auto simp: double_close [OF _ assms(5)] split: outcome.splits)
qed

text \<open>
  What the handling of a connection keeps: everything that neither a read, a write nor a handler of this connection
  changes, up to the close of its descriptor, which is the last thing that happens when the request was dispatched.
\<close>

lemma HandleConnection_frame:
  assumes "HandleConnection net name (Dispatch (SocketStream_Write net) (SocketStream_Close net) iter d) data k =
      Some (oc, k')"
    and recv: "\<And>k n. J k \<Longrightarrow> J (snd (net_recv net k (SocketFd data) n))"
    and send: "\<And>k bs. J k \<Longrightarrow> J (snd (net_send net k (SocketFd data) bs))"
    and "handlers_keep (\<lambda>s. ss_fd s = SocketFd data \<and> J (ss_kernel s)) d" and "0 < SocketFd data" and "J k"
  shows "if oc = Ret () \<and> (\<exists>context k1. CreateHttpContext_data net data k = Some (Ret 0, context, k1))
    then \<exists>k2. J k2 \<and> k' = snd (net_close net k2 (SocketFd data)) else J k'"
proof -
  obtain oc1 cx k1 where c: "CreateHttpContext_data net data k = Some (oc1, cx, k1)"
    using assms(1) by (auto simp: HandleConnection_def split: option.splits)
  note own = create_frame [of net data k oc1 cx k1 J, OF c assms(6) recv] and zero = create_context_cases [OF c]
  show ?thesis
  proof (cases "oc1 = Ret 0")
    case False
    with c own zero assms(1) show ?thesis
      by (auto simp: HandleConnection_def split: outcome.splits option.splits bool.splits prod.splits)
  next
    case True
    with zero obtain ctx where ctx: "cx = Some ctx" by auto
    let ?dec = "DecorateContext name ctx"
    have fd: "ss_fd (BodyStream ?dec) = SocketFd data \<and> J (ss_kernel (BodyStream ?dec))"
      using own ctx by (simp add: DecorateContext_def)
    obtain ctx' where d: "Dispatch (SocketStream_Write net) (SocketStream_Close net) iter d ?dec = Some (oc, ctx')"
      and k': "k' = ss_kernel (BodyStream ctx')"
      using assms(1) c True ctx by (auto simp: HandleConnection_def split: option.splits)
    from Dispatch_frame [OF d send assms(4) _ assms(5)] fd show ?thesis
      using c True k' by (auto split: outcome.splits)
  qed
qed

section \<open>An account of the descriptors\<close>

locale net_os = socket_os os owned for os :: "'k sock_ops" and owned :: "'k \<Rightarrow> int set" +
  fixes net :: "'k net_ops"
  assumes recv_owned: "owned (snd (net_recv net k fd n)) = owned k"
    and send_owned: "owned (snd (net_send net k fd bs)) = owned k"
    and net_close_owned: "owned (snd (net_close net k fd)) = owned k - {fd}"
begin

lemma double_close_owned:
  "ss_fd s = fd \<Longrightarrow> 0 < fd \<Longrightarrow>
    owned (ss_kernel (snd (SocketStream_Close net (snd (SocketStream_Close net s))))) = owned (ss_kernel s) - {fd}"
  by (simp add: double_close net_close_owned)

lemma HandleConnection_owned:
  assumes "HandleConnection net name (Dispatch (SocketStream_Write net) (SocketStream_Close net) iter d) data k =
      Some (oc, k')"
    and "handlers_keep (\<lambda>s. ss_fd s = SocketFd data \<and> owned (ss_kernel s) = owned k) d" and "0 < SocketFd data"
  shows "owned k' =
    (if oc = Ret () \<and> (\<exists>context k1. CreateHttpContext_data net data k = Some (Ret 0, context, k1))
     then owned k - {SocketFd data} else owned k)"
  using HandleConnection_frame [OF assms(1) _ _ assms(2,3)]
  by (auto simp: recv_owned send_owned net_close_owned split: if_splits)

end

section \<open>A kernel with a peer\<close>

text \<open>
  A concrete system: the descriptors of the scripted kernel, and one peer behind every connection. The calls on the
  descriptors are those of any system with the scripted kernel.
\<close>

type_synonym world = "kernel \<times> peer"

definition on_kernel :: "(kernel \<Rightarrow> 'x \<times> kernel) \<Rightarrow> kernel \<times> 'p \<Rightarrow> 'x \<times> (kernel \<times> 'p)" where
  "on_kernel f w = (let (x, k) = f (fst w) in (x, (k, snd w)))"

definition world_os :: "(kernel \<times> 'p) sock_ops" where
  "world_os = \<lparr>os_socket = on_kernel (os_socket kernel_ops),
     os_setsockopt_reuseaddr = (\<lambda>w fd. on_kernel (\<lambda>k. os_setsockopt_reuseaddr kernel_ops k fd) w),
     os_bind = (\<lambda>w fd p. on_kernel (\<lambda>k. os_bind kernel_ops k fd p) w),
     os_listen = (\<lambda>w fd n. on_kernel (\<lambda>k. os_listen kernel_ops k fd n) w),
     os_getfl = (\<lambda>w fd. on_kernel (\<lambda>k. os_getfl kernel_ops k fd) w),
     os_setfl = (\<lambda>w fd i. on_kernel (\<lambda>k. os_setfl kernel_ops k fd i) w),
     os_accept = (\<lambda>w fd. on_kernel (\<lambda>k. os_accept kernel_ops k fd) w),
     os_close = (\<lambda>w fd. on_kernel (\<lambda>k. os_close kernel_ops k fd) w)\<rparr>"

definition world_net :: "world net_ops" where
  "world_net = \<lparr>net_recv = (\<lambda>w fd n. let (r, p) = peer_recv (snd w) fd n in (r, (fst w, p))),
     net_send = (\<lambda>w fd bs. let (r, p) = peer_send (snd w) fd bs in (r, (fst w, p))),
     net_close = (\<lambda>w fd. on_kernel (\<lambda>k. os_close kernel_ops k fd) w)\<rparr>"

definition world_owned :: "kernel \<times> 'p \<Rightarrow> int set" where
  "world_owned w = k_owned (fst w)"

lemma on_kernel_owned: "k_owned (fst (snd (on_kernel f w))) = k_owned (snd (f (fst w)))"
  by (simp add: on_kernel_def split: prod.splits)

interpretation wos: socket_os "world_os :: (kernel \<times> 'p) sock_ops" world_owned
proof
  fix w :: "kernel \<times> 'p" and fd w'
  assume "os_socket world_os w = (fd, w')"
  then show "if fd < 0 then world_owned w' = world_owned w
    else fd \<notin> world_owned w \<and> world_owned w' = insert fd (world_owned w)"
    using kern.socket_new [of "fst w"] by (auto simp: world_os_def on_kernel_def world_owned_def split: prod.splits)
next
  fix w :: "kernel \<times> 'p" and lfd fd a w'
  assume "os_accept world_os w lfd = ((fd, a), w')"
  then show "if fd < 0 then world_owned w' = world_owned w
    else fd \<notin> world_owned w \<and> world_owned w' = insert fd (world_owned w)"
    using kern.accept_new [of "fst w" lfd] by (auto simp: world_os_def on_kernel_def world_owned_def split: prod.splits)
qed (simp_all add: world_os_def on_kernel_owned kern.keeps kern.close_gone world_owned_def)

interpretation world: net_os world_os world_owned world_net
  by unfold_locales (simp_all add: world_net_def on_kernel_owned kern.close_gone world_owned_def split: prod.splits)

lemma world_write:
  "SocketStream_Write world_net \<lparr>ss_fd = fd, ss_kernel = (k, p)\<rparr> bs =
    (let (r, s) = SocketStream_Write peer_net \<lparr>ss_fd = fd, ss_kernel = p\<rparr> bs in
      (r, \<lparr>ss_fd = fd, ss_kernel = (k, ss_kernel s)\<rparr>))"
  by (simp add: SocketStream_Write_def SocketStream_IsWritable_def world_net_def peer_net_def Let_def
      split: prod.splits sum.splits)

abbreviation peer_side :: "world SocketStream \<Rightarrow> peer SocketStream" where
  "peer_side \<equiv> stream_view snd"

lemmas peer_side_def = stream_view_def [of "snd :: world \<Rightarrow> peer"]

interpretation wsock: byte_source "SocketStream_Read world_net" "\<lambda>s. sock_pending (peer_side s)"
    "\<lambda>s. sock_inv (peer_side s)"
  by (rule byte_source_view [OF sock.byte_source_axioms]) (simp add: world_net_def peer_net_def split: prod.splits)

interpretation wconn: response_channel "SocketStream_Write world_net" "\<lambda>s. sock_sent (peer_side s)"
    "\<lambda>s. sock_inv (peer_side s)" "SocketStream_Close world_net"
proof
  fix s :: "world SocketStream" and bs :: string
  assume a: "sock_inv (peer_side s)" "bs \<noteq> []"
  obtain fd k p where s: "s = \<lparr>ss_fd = fd, ss_kernel = (k, p)\<rparr>" by (cases s) auto
  from sock.write_all [OF a] obtain t where "SocketStream_Write peer_net (peer_side s) bs = (int (length bs), t)"
    "sock_inv t \<and> sock_sent t = sock_sent (peer_side s) @ bs" by blast
  moreover from this have "ss_fd t = fd"
    using sock_fd_out.swrite_keeps [of "peer_side s" fd peer_net bs] by (simp add: s peer_side_def)
  ultimately show "\<exists>s'. SocketStream_Write world_net s bs = (int (length bs), s') \<and> sock_inv (peer_side s') \<and>
      sock_sent (peer_side s') = sock_sent (peer_side s) @ bs"
    by (cases t) (auto simp: s world_write peer_side_def)
next
  fix s :: "world SocketStream"
  show "sock_sent (peer_side (snd (SocketStream_Close world_net s))) = sock_sent (peer_side s)"
    by (auto simp: SocketStream_Close_def world_net_def on_kernel_def peer_side_def sock_sent_def split: prod.splits)
qed

interpretation wframe: stream_frame "SocketStream_Read world_net"
    "\<lambda>s. sock_inv (peer_side s) \<and> sock_sent (peer_side s) = bs" for bs
proof
  fix s :: "world SocketStream" and n
  assume "sock_inv (peer_side s) \<and> sock_sent (peer_side s) = bs"
  then show "sock_inv (peer_side (snd (SocketStream_Read world_net s n))) \<and>
      sock_sent (peer_side (snd (SocketStream_Read world_net s n))) = bs"
    by (cases s) (auto simp: SocketStream_Read_def world_net_def peer_recv_def peer_side_def sock_inv_def
        sock_sent_def SocketStream_IsReadable_def split: list.splits prod.splits sys_read.splits)
qed

section \<open>A request and its answer\<close>

text \<open>A plain text endpoint: a function of the request on the response.\<close>

definition text_endpoint :: "(TextRequest \<Rightarrow> TextResponse \<Rightarrow> TextResponse) \<Rightarrow> 's handler" where
  "text_endpoint f = RequestHandler (\<lambda>q (r, s). Some (Ret (), f q r, s))"

lemma text_endpoint_effect:
  "handler_effect (Some (text_endpoint f)) st0 ctx STATUS_OK
    (ctx\<lparr>Response := TextResponse_PostHandle (f (Request ctx) (Response ctx))\<rparr>)"
  by (cases ctx) (simp add: text_endpoint_def RequestHandler_def Handle_def)

lemma text_endpoint_keeps: "keeps_stream I (text_endpoint f)"
  unfolding text_endpoint_def by (rule RequestHandler_keeps) simp

text \<open>The response a handler is given by a server.\<close>

definition fresh_response :: "string \<Rightarrow> HttpResponse" where
  "fresh_response name = HttpResponse_zero\<lparr>StatusCode := 200, rHeaders := [(''Server'', name)]\<rparr>"

text \<open>
  A request and its answer. A client sends the printed form of a request in the parser's grammar, over any
  stream that keeps the contracts; the path and method have a plain text endpoint. Then the server returns from
  the connection, and the client has received the response the endpoint's function computes from that very
  request (with the default host filled in, and the headers in the order of the map) and from a fresh
  response that names the server, printed, all of it up to 1024 bytes.
\<close>

lemma request_answered:
  assumes "byte_source (SocketStream_Read net) pending sinv"
    and "response_channel (SocketStream_Write net) sent winv (SocketStream_Close net)"
    and "stream_frame (SocketStream_Read net) (\<lambda>s. winv s \<and> sent s = sent s0)"
    and s0: "s0 = SocketStream_new (SocketFd data) k" "sinv s0" "winv s0" "pending s0 = HttpRequest_ToString iter q"
    and q: "sync_printable q" "iteration iter"
    and d: "find_handler d (Path q) (Method q) = (Some (text_endpoint f), STATUS_OK)"
      "rd_errorHandlers d = Map.empty"
    and q': "q' = q\<lparr>Host := (if Host q = [] then AddressToHost (sin_addr data) (sin_port data) else Host q),
      Headers := iter (Headers q)\<rparr>"
    and r: "r = set_length (TextResponse_PostHandle (f q' (fresh_response name)))"
  shows "\<exists>s. HandleConnection net name (Dispatch (SocketStream_Write net) (SocketStream_Close net) iter
      (RegisterDefaultHandlers d)) data k = Some (Ret (), ss_kernel s) \<and>
    sent s = sent s0 @ surviving 0 (response_chunks iter r)"
proof -
  let ?h = "AddressToHost (sin_addr data) (sin_port data)"
  let ?r0 = "HttpRequest_zero\<lparr>Host := ?h\<rparr>"
  obtain s1 where s1: "ParseHttpRequest (SocketStream_Read net) s0 ?r0 = Some (Ret 0, s1, q')"
    using byte_source.parse_http_printed [OF assms(1) s0(2,4) q, of ?r0] q' by (auto simp: HttpRequest_zero_def)
  have w: "winv s1 \<and> sent s1 = sent s0"
    by (rule stream_frame.ParseHttpRequest_keeps [OF assms(3) _ s1]) (simp add: s0(3))
  define ctx where "ctx = \<lparr>Request = q', Response = HttpResponse_zero\<lparr>StatusCode := 200\<rparr>, BodyStream = s1\<rparr>"
  have create: "CreateHttpContext_data net data k = Some (Ret 0, Some ctx, ss_kernel s1)"
    using s1 by (simp add: CreateHttpContext_data_def create_context_def HttpContext_new_def s0(1) ctx_def)
  let ?ctx = "DecorateContext name ctx"
  have fresh: "Response ?ctx = fresh_response name" "Request ?ctx = q'" "BodyStream ?ctx = s1"
    by (simp_all add: DecorateContext_def ctx_def fresh_response_def headers_set_def HttpResponse_zero_def)
  have path: "CleanPath (Path (Request ?ctx)) = Ret (Path q)"
    using q(1) by (simp add: fresh q' sync_printable_def)
  have find: "find_handler d (Path q) (Method (Request ?ctx)) = (Some (text_endpoint f), STATUS_OK)"
    using d(1) by (simp add: fresh q')
  from response_channel.Dispatch_replies [OF assms(2) path find d(2) text_endpoint_effect, of iter] w
  obtain ctx2 where "Dispatch (SocketStream_Write net) (SocketStream_Close net) iter (RegisterDefaultHandlers d) ?ctx =
      Some (Ret (), ctx2)" "sent (BodyStream ctx2) = sent s0 @ surviving 0 (response_chunks iter r)"
    by (auto simp: fresh reply_chunks_def r)
  with create show ?thesis by (auto simp: HandleConnection_def)
qed

text \<open>The context of a printed request is created.\<close>

lemma printed_context:
  assumes "byte_source (SocketStream_Read net) pending sinv" and "sinv (SocketStream_new (SocketFd data) k)"
    and "pending (SocketStream_new (SocketFd data) k) = HttpRequest_ToString iter q"
    and "sync_printable q" and "iteration iter"
  shows "\<exists>ctx k1. CreateHttpContext_data net data k = Some (Ret 0, ctx, k1)"
  using byte_source.parse_http_printed [OF assms, of "HttpRequest_zero\<lparr>Host := AddressToHost (sin_addr data) (sin_port data)\<rparr>"]
  by (auto simp: CreateHttpContext_data_def create_context_def HttpContext_new_def HttpRequest_zero_def)

section \<open>Properties\<close>

text \<open>
  C21: a connection is closed exactly when its request was parsed and dispatched. On any system that keeps
  account of descriptors, with handlers that leave the descriptor of the stream alone, a connection that has
  been handled without an exception is closed if \<open>CreateHttpContext\<close> returned 0. In every other case (the
  parser refuses the request, or an exception passes through) the descriptor stays open, and nobody holds
  it any more.
\<close>

theorem connection_closed_iff_answered:
  assumes "net_os os owned net" and "0 < SocketFd data"
    and "handlers_keep (\<lambda>s. ss_fd s = SocketFd data \<and> owned (ss_kernel s) = owned k) d"
    and "HandleConnection net name (Dispatch (SocketStream_Write net) (SocketStream_Close net) iter d) data k =
      Some (oc, k')"
  shows "owned k' =
    (if oc = Ret () \<and> (\<exists>ctx k1. CreateHttpContext_data net data k = Some (Ret 0, ctx, k1))
     then owned k - {SocketFd data} else owned k)"
  by (rule net_os.HandleConnection_owned [OF assms(1,4,3,2)])

definition echo :: "TextRequest \<Rightarrow> TextResponse \<Rightarrow> TextResponse" where
  "echo q r = r\<lparr>rBody := Body q\<rparr>"

definition echo_dispatcher :: "'s RequestDispatcher" where
  "echo_dispatcher = RequestDispatcher_new\<lparr>rd_handlers := [''/echo'' \<mapsto> [POST \<mapsto> Some (text_endpoint echo)]]\<rparr>"

definition echo_world :: "string \<Rightarrow> world" where
  "echo_world request = (\<lparr>k_open = [3, 4], k_script = []\<rparr>, peer_new [request])"

definition echo_client :: AcceptData where
  "echo_client = \<lparr>SocketFd = 4, sin_addr = 0x0100007F, sin_port = 0\<rparr>"

lemma echo_world_sock:
  "peer_side (SocketStream_new fd (echo_world m)) = SocketStream_new fd (peer_new [m])"
  by (simp add: peer_side_def SocketStream_new_def echo_world_def)

lemma sample_sync_printable: "sync_printable sample_sync"
  by code_simp

lemma connection_closed_iff_answered_witness:
  "\<exists>w. HandleConnection world_net ''Basic'' (Dispatch (SocketStream_Write world_net) (SocketStream_Close world_net)
      (\<lambda>hs. hs) echo_dispatcher) echo_client (echo_world ''GET /a:b'') = Some (Ret (), w) \<and>
    world_owned w = {3, 4}"
proof -
  let ?w = "echo_world ''GET /a:b''"
  let ?s = "SocketStream_new 4 ?w"
  have s: "sock_inv (peer_side ?s)"
    "sock_pending (peer_side ?s) = HttpMethodToString GET @ SPACE @ ''/a'' @ CHR '':'' # ''b''"
    unfolding echo_world_sock by (simp_all add: sock_defs SocketStream_new_def peer_new_def SPACE_def)
  have p: "CHR '':'' \<in> set token_chars" "''/a'' \<noteq> []" "\<forall>c \<in> set ''/a''. plain token_chars c"
    "CleanPath ''/a'' = Ret ''/a''"
    by code_simp+
  have parse: "\<exists>s' r. ParseHttpRequest (SocketStream_Read world_net) ?s r0 = Some (Ret 2, s', r)" for r0
    using wsock.parse_http_path(2) [OF s(1) _ s(2) p(1-4) refl, of r0] by blast
  from parse [of "HttpRequest_zero\<lparr>Host := AddressToHost (sin_addr echo_client) (sin_port echo_client)\<rparr>"]
  have "\<exists>k1. CreateHttpContext_data world_net echo_client ?w = Some (Ret 2, None, k1)"
    by (auto simp: CreateHttpContext_data_def create_context_def HttpContext_new_def echo_client_def Let_def)
  then obtain k1 where c: "CreateHttpContext_data world_net echo_client ?w = Some (Ret 2, None, k1)" by blast
  then have run: "HandleConnection world_net ''Basic''
      (Dispatch (SocketStream_Write world_net) (SocketStream_Close world_net) (\<lambda>hs. hs) echo_dispatcher)
      echo_client ?w = Some (Ret (), k1)"
    and no: "\<not> (\<exists>ctx k1. CreateHttpContext_data world_net echo_client ?w = Some (Ret 0, ctx, k1))"
    by (simp_all add: HandleConnection_def)
  have h: "handlers_keep (\<lambda>s. ss_fd s = SocketFd echo_client \<and> world_owned (ss_kernel s) = world_owned ?w)
      echo_dispatcher"
    using text_endpoint_keeps [of _ echo]
    by (auto simp: handlers_keep_def echo_dispatcher_def RequestDispatcher_new_def split: if_splits)
  have "0 < SocketFd echo_client" by (simp add: echo_client_def)
  from connection_closed_iff_answered [OF world.net_os_axioms this h run] no run show ?thesis
    by (auto simp: echo_world_def world_owned_def k_owned_def)
qed

end
