(* ===== verification/Client_Lines.thy ===== *)
theory Client_Lines
  imports Connection
begin

text \<open>
  Several clients at a server. Every connection is a line of its own through the system: what is read, written and closed on
  one descriptor leaves the lines of the others alone. So the handling of a connection answers its client, and no other
  client notices.
\<close>

section \<open>A line to every client\<close>

text \<open>
  \<open>line fd k\<close> is what the system \<open>k\<close> knows of the connection \<open>fd\<close>: the bytes that are waiting to be read, those its client
  has received, and whether the connection is up.
\<close>

locale client_lines =
  fixes net :: "'k net_ops" and line :: "int \<Rightarrow> 'k \<Rightarrow> 'c" and waiting received :: "'c \<Rightarrow> string" and up :: "'c \<Rightarrow> bool"
  assumes source: "byte_source (SocketStream_Read net) (\<lambda>s. waiting (line fd (ss_kernel s)))
      (\<lambda>s. 0 < fd \<and> ss_fd s = fd \<and> up (line fd (ss_kernel s)))"
    and channel: "response_channel (SocketStream_Write net) (\<lambda>s. received (line fd (ss_kernel s)))
      (\<lambda>s. 0 < fd \<and> ss_fd s = fd \<and> up (line fd (ss_kernel s))) (SocketStream_Close net)"
    and recv_line: "up (line fd k) \<Longrightarrow> up (line fd (snd (net_recv net k fd n))) \<and>
      received (line fd (snd (net_recv net k fd n))) = received (line fd k)"
    and recv_other: "fd' \<noteq> fd \<Longrightarrow> line fd' (snd (net_recv net k fd n)) = line fd' k"
    and send_other: "fd' \<noteq> fd \<Longrightarrow> line fd' (snd (net_send net k fd bs)) = line fd' k"
    and close_other: "fd' \<noteq> fd \<Longrightarrow> line fd' (snd (net_close net k fd)) = line fd' k"

text \<open>
  A client asks: its line is up, and the printed form of its request \<open>q c\<close> is waiting on it, whose path and method have a plain
  text endpoint \<open>f c\<close>. Its answer is the printed response of that endpoint to that very request, up to 1024 bytes.
\<close>

definition asks ::
    "(int \<Rightarrow> 'k \<Rightarrow> 'c) \<Rightarrow> ('c \<Rightarrow> string) \<Rightarrow> ('c \<Rightarrow> bool) \<Rightarrow> (headers \<Rightarrow> headers) \<Rightarrow> 'k SocketStream RequestDispatcher \<Rightarrow>
     (AcceptData \<Rightarrow> HttpRequest) \<Rightarrow> (AcceptData \<Rightarrow> TextRequest \<Rightarrow> TextResponse \<Rightarrow> TextResponse) \<Rightarrow> 'k \<Rightarrow> AcceptData \<Rightarrow> bool" where
  "asks line waiting up iter d q f k c \<longleftrightarrow>
     0 < SocketFd c \<and> up (line (SocketFd c) k) \<and>
     waiting (line (SocketFd c) k) = HttpRequest_ToString iter (q c) \<and> sync_printable (q c) \<and>
     find_handler d (Path (q c)) (Method (q c)) = (Some (text_endpoint (f c)), STATUS_OK)"

definition answer ::
    "(headers \<Rightarrow> headers) \<Rightarrow> string \<Rightarrow> AcceptData \<Rightarrow> (TextRequest \<Rightarrow> TextResponse \<Rightarrow> TextResponse) \<Rightarrow> HttpRequest \<Rightarrow> string" where
  "answer iter name c f q = surviving 0 (response_chunks iter (set_length (TextResponse_PostHandle (f
     (q\<lparr>Host := (if Host q = [] then AddressToHost (sin_addr c) (sin_port c) else Host q), Headers := iter (Headers q)\<rparr>)
     (fresh_response name)))))"

lemma asks_line:
  "asks line waiting up iter d q f k c \<Longrightarrow> line (SocketFd c) k' = line (SocketFd c) k \<Longrightarrow>
    asks line waiting up iter d q f k' c"
  by (simp add: asks_def)

section \<open>One client and the others\<close>

context client_lines
begin

lemma client_answered:
  assumes os: "net_os os owned net" and c: "asks line waiting up iter d q f k c" and iter: "iteration iter"
    and d: "\<And>I. handlers_keep I d" "rd_errorHandlers d = Map.empty"
  shows "\<exists>k'. HandleConnection net name (Dispatch (SocketStream_Write net) (SocketStream_Close net) iter
      (RegisterDefaultHandlers d)) c k = Some (Ret (), k') \<and>
    received (line (SocketFd c) k') = received (line (SocketFd c) k) @ answer iter name c (f c) (q c) \<and>
    (\<forall>fd. fd \<noteq> SocketFd c \<longrightarrow> line fd k' = line fd k) \<and> owned k' = owned k - {SocketFd c}"
proof -
  let ?fd = "SocketFd c" and ?s0 = "SocketStream_new (SocketFd c) k"
  let ?up = "\<lambda>s. 0 < ?fd \<and> ss_fd s = ?fd \<and> up (line ?fd (ss_kernel s))"
  have st: "?up ?s0" "waiting (line ?fd (ss_kernel ?s0)) = HttpRequest_ToString iter (q c)"
    and q: "sync_printable (q c)" "find_handler d (Path (q c)) (Method (q c)) = (Some (text_endpoint (f c)), STATUS_OK)"
    and pos: "0 < ?fd"
    using c by (auto simp: asks_def SocketStream_new_def)
  have "stream_frame (SocketStream_Read net) (\<lambda>s. ss_fd s = ?fd \<and>
      (up (line ?fd (ss_kernel s)) \<and> received (line ?fd (ss_kernel s)) = received (line ?fd (ss_kernel ?s0))))"
    by (rule socket_frame) (simp add: recv_line)
  then have frame: "stream_frame (SocketStream_Read net)
      (\<lambda>s. ?up s \<and> received (line ?fd (ss_kernel s)) = received (line ?fd (ss_kernel ?s0)))"
    using pos by (simp add: conj_assoc)
  obtain s :: "'k SocketStream" where s: "HandleConnection net name (Dispatch (SocketStream_Write net) (SocketStream_Close net) iter
      (RegisterDefaultHandlers d)) c k = Some (Ret (), ss_kernel s)"
    "received (line ?fd (ss_kernel s)) = received (line ?fd (ss_kernel ?s0)) @ answer iter name c (f c) (q c)"
    using request_answered [OF source channel frame refl st(1) st(1) st(2) q(1) iter q(2) d(2) refl refl, of name]
    unfolding answer_def by blast
  have created: "\<exists>ctx k1. CreateHttpContext_data net c k = Some (Ret 0, ctx, k1)"
    by (rule printed_context [OF source st q(1) iter])
  have keep: "handlers_keep I (RegisterDefaultHandlers d)" for I by (rule default_handlers_keep [OF d(1)])
  have "line fd (ss_kernel s) = line fd k" if "fd \<noteq> ?fd" for fd
    using HandleConnection_frame [where J = "\<lambda>k'. line fd k' = line fd k", OF s(1) _ _ keep pos] created that
    by (auto simp: recv_other send_other close_other)
  moreover have "owned (ss_kernel s) = owned k - {?fd}"
    using net_os.HandleConnection_owned [OF os s(1) keep pos] created by simp
  ultimately show ?thesis using s by (auto simp: SocketStream_new_def)
qed

end

text \<open>A view of the system that sending and closing respect is a channel as well.\<close>

lemma stream_view_write:
  assumes "\<And>k fd bs. map_prod id get (net_send net' k fd bs) = net_send net (get k) fd bs"
  shows "SocketStream_Write net (stream_view get s) bs = map_prod id (stream_view get) (SocketStream_Write net' s bs)"
proof -
  obtain r k where k: "net_send net' (ss_kernel s) (ss_fd s) bs = (r, k)" by fastforce
  with assms [of "ss_kernel s" "ss_fd s" bs] have "net_send net (get (ss_kernel s)) (ss_fd s) bs = (r, get k)" by simp
  with k show ?thesis
    by (cases r) (simp_all add: SocketStream_Write_def SocketStream_IsWritable_def stream_view_def Let_def)
qed

lemma response_channel_view:
  assumes "response_channel (SocketStream_Write net) sent winv (SocketStream_Close net)"
    and "\<And>(k :: 'k) fd bs. map_prod id get (net_send net' k fd bs) = net_send net (get k) fd bs"
    and "\<And>s. sent (stream_view get (snd (SocketStream_Close net' s))) = sent (stream_view get s)"
  shows "response_channel (SocketStream_Write net') (\<lambda>s. sent (stream_view get s)) (\<lambda>s. winv (stream_view get s))
    (SocketStream_Close net')"
proof
  fix s :: "'k SocketStream" and bs :: string
  assume "winv (stream_view get s)" "bs \<noteq> []"
  with response_channel.axioms(1) [OF assms(1), THEN byte_sink.write_all] obtain t where
    "SocketStream_Write net (stream_view get s) bs = (int (length bs), t)" "winv t" "sent t = sent (stream_view get s) @ bs"
    by blast
  with stream_view_write [of get net' net, OF assms(2), of s bs]
  show "\<exists>s'. SocketStream_Write net' s bs = (int (length bs), s') \<and> winv (stream_view get s') \<and>
      sent (stream_view get s') = sent (stream_view get s) @ bs"
    by (cases "SocketStream_Write net' s bs") auto
qed (rule assms(3))

text \<open>The lines of a system inside a larger one.\<close>

lemma client_lines_view:
  assumes lines: "client_lines net line waiting received up"
    and recv: "\<And>(k :: 'k) fd n. map_prod id get (net_recv net' k fd n) = net_recv net (get k) fd n"
    and send: "\<And>k fd bs. map_prod id get (net_send net' k fd bs) = net_send net (get k) fd bs"
    and close: "\<And>k fd. get (snd (net_close net' k fd)) = snd (net_close net (get k) fd)"
  shows "client_lines net' (\<lambda>fd k. line fd (get k)) waiting received up"
proof (rule client_lines.intro)
  have r: "get (snd (net_recv net' k fd n)) = snd (net_recv net (get k) fd n)" for k fd n
    using recv [of k fd n] by (cases "net_recv net' k fd n") (auto simp: prod_eq_iff)
  have s: "get (snd (net_send net' k fd bs)) = snd (net_send net (get k) fd bs)" for k fd bs
    using send [of k fd bs] by (cases "net_send net' k fd bs") (auto simp: prod_eq_iff)
  fix fd fd' :: int and k :: 'k and n bs
  show "byte_source (SocketStream_Read net') (\<lambda>s. waiting (line fd (get (ss_kernel s))))
      (\<lambda>s. 0 < fd \<and> ss_fd s = fd \<and> up (line fd (get (ss_kernel s))))"
    using byte_source_view [of net _ _ get net', OF client_lines.source [OF lines] recv] by (simp add: stream_view_def)
  have "received (line fd (get (ss_kernel (snd (SocketStream_Close net' s))))) = received (line fd (get (ss_kernel s)))" for s
    using response_channel.close_sent [OF client_lines.channel [OF lines, of fd], of "stream_view get s"]
    by (simp add: SocketStream_Close_def stream_view_def close split: if_splits prod.splits)
      (metis close snd_conv)
  then show "response_channel (SocketStream_Write net') (\<lambda>s. received (line fd (get (ss_kernel s))))
      (\<lambda>s. 0 < fd \<and> ss_fd s = fd \<and> up (line fd (get (ss_kernel s)))) (SocketStream_Close net')"
    using response_channel_view [of net _ _ get net', OF client_lines.channel [OF lines] send] by (simp add: stream_view_def)
  show "up (line fd (get k)) \<Longrightarrow> up (line fd (get (snd (net_recv net' k fd n)))) \<and>
      received (line fd (get (snd (net_recv net' k fd n)))) = received (line fd (get k))"
    by (simp add: r client_lines.recv_line [OF lines])
  show "fd' \<noteq> fd \<Longrightarrow> line fd' (get (snd (net_recv net' k fd n))) = line fd' (get k)"
    "fd' \<noteq> fd \<Longrightarrow> line fd' (get (snd (net_send net' k fd bs))) = line fd' (get k)"
    "fd' \<noteq> fd \<Longrightarrow> line fd' (get (snd (net_close net' k fd))) = line fd' (get k)"
    by (simp_all add: r s close client_lines.recv_other [OF lines] client_lines.send_other [OF lines]
        client_lines.close_other [OF lines])
qed

section \<open>A kernel with a peer behind each descriptor\<close>

type_synonym lines_world = "kernel \<times> (int \<Rightarrow> peer)"

definition lines_net :: "lines_world net_ops" where
  "lines_net = \<lparr>net_recv = (\<lambda>w fd n. let (r, p) = peer_recv (snd w fd) fd n in (r, (fst w, (snd w)(fd := p)))),
     net_send = (\<lambda>w fd bs. let (r, p) = peer_send (snd w fd) fd bs in (r, (fst w, (snd w)(fd := p)))),
     net_close = (\<lambda>w fd. on_kernel (\<lambda>k. os_close kernel_ops k fd) w)\<rparr>"

definition peer_line :: "int \<Rightarrow> lines_world \<Rightarrow> peer" where
  "peer_line fd w = snd w fd"

definition peer_up :: "peer \<Rightarrow> bool" where
  "peer_up p \<longleftrightarrow> [] \<notin> set (inbound p)"

abbreviation peer_waiting :: "peer \<Rightarrow> string" where
  "peer_waiting p \<equiv> concat (inbound p)"

lemmas lines_defs = lines_net_def peer_line_def peer_up_def peer_recv_def peer_send_def

interpretation lnet: net_os world_os world_owned lines_net
  by unfold_locales (simp_all add: lines_net_def on_kernel_owned kern.close_gone world_owned_def split: prod.splits)

interpretation lines: client_lines lines_net peer_line peer_waiting outbound peer_up
proof
  fix fd n and s :: "lines_world SocketStream"
  assume a: "0 < fd \<and> ss_fd s = fd \<and> peer_up (peer_line fd (ss_kernel s))" and n: "0 < (n :: nat)"
    and "peer_waiting (peer_line fd (ss_kernel s)) \<noteq> []"
  then obtain c cs where c: "inbound (snd (ss_kernel s) fd) = c # cs"
    by (cases "inbound (snd (ss_kernel s) fd)") (auto simp: peer_line_def)
  show "\<exists>bs s'. SocketStream_Read lines_net s n = (Bytes bs, s') \<and>
      (0 < fd \<and> ss_fd s' = fd \<and> peer_up (peer_line fd (ss_kernel s'))) \<and> bs \<noteq> [] \<and> length bs \<le> n \<and>
      peer_waiting (peer_line fd (ss_kernel s)) = bs @ peer_waiting (peer_line fd (ss_kernel s'))"
    using a n c by (cases "length c \<le> n") (auto simp: lines_defs SocketStream_Read_def SocketStream_IsReadable_def)
next
  fix fd n and s :: "lines_world SocketStream"
  assume a: "0 < fd \<and> ss_fd s = fd \<and> peer_up (peer_line fd (ss_kernel s))"
    and "peer_waiting (peer_line fd (ss_kernel s)) = []"
  then have "inbound (snd (ss_kernel s) fd) = []"
    by (cases "inbound (snd (ss_kernel s) fd)") (auto simp: lines_defs)
  then show "\<exists>res s'. SocketStream_Read lines_net s n = (res, s') \<and>
      (0 < fd \<and> ss_fd s' = fd \<and> peer_up (peer_line fd (ss_kernel s'))) \<and> peer_waiting (peer_line fd (ss_kernel s')) = [] \<and>
      (res = Bytes [] \<or> (\<exists>e. res = Failed e \<and> e < 0 \<and> e \<noteq> StreamStatus_Again))"
    using a by (auto simp: lines_defs SocketStream_Read_def SocketStream_IsReadable_def)
qed (auto simp: lines_defs SocketStream_Write_def SocketStream_IsWritable_def SocketStream_Close_def on_kernel_def
  split: list.splits prod.splits)

end
