(* ===== verification/Epoll.thy ===== *)
theory Epoll
  imports Client_Lines
begin

text \<open>
  \<open>minet/src/utils/Epoll.cpp\<close> over the system calls \<open>ep_ops\<close>, what a program relies on about them (locale
  \<open>epoll_os\<close>), and a concrete system that keeps these laws.
\<close>

section \<open>The wrappers\<close>

text \<open>The union \<open>epoll_data\<close>, with the members the wrappers set; \<open>data_fd\<close> reads the member \<open>fd\<close>.\<close>

datatype epoll_data = Data_fd int | Data_ptr "64 word"

fun data_fd :: "epoll_data \<Rightarrow> int" where
  "data_fd (Data_fd fd) = fd"
| "data_fd (Data_ptr p) = sint (ucast p :: 32 word)"

record epoll_event =
  ev_events :: "32 word"
  ev_data :: epoll_data

definition EPOLLIN :: "32 word" where "EPOLLIN = 1"
definition EPOLLET :: "32 word" where "EPOLLET = 2 ^ 31"

datatype epoll_op = EPOLL_CTL_ADD | EPOLL_CTL_MOD | EPOLL_CTL_DEL

record 'k ep_ops =
  ep_create1 :: "'k \<Rightarrow> int \<times> 'k"
  ep_close :: "'k \<Rightarrow> int \<Rightarrow> int \<times> 'k"
  ep_ctl :: "'k \<Rightarrow> int \<Rightarrow> epoll_op \<Rightarrow> int \<Rightarrow> epoll_event option \<Rightarrow> int \<times> 'k"
  ep_wait :: "'k \<Rightarrow> int \<Rightarrow> nat \<Rightarrow> int \<Rightarrow> int \<times> epoll_event list \<times> 'k"

definition epoll_Create :: "'k ep_ops \<Rightarrow> 'k \<Rightarrow> int \<times> 'k" where
  "epoll_Create ep k = ep_create1 ep k"

definition epoll_Close :: "'k ep_ops \<Rightarrow> int \<Rightarrow> 'k \<Rightarrow> int \<times> 'k" where
  "epoll_Close ep epfd k = ep_close ep k epfd"

definition epoll_Monitor :: "'k ep_ops \<Rightarrow> int \<Rightarrow> int \<Rightarrow> 32 word \<Rightarrow> 'k \<Rightarrow> int \<times> 'k" where
  "epoll_Monitor ep epfd fd events k =
     ep_ctl ep k epfd EPOLL_CTL_ADD fd (Some \<lparr>ev_events = events, ev_data = Data_fd fd\<rparr>)"

definition epoll_Monitor_data :: "'k ep_ops \<Rightarrow> int \<Rightarrow> int \<Rightarrow> 32 word \<Rightarrow> 64 word \<Rightarrow> 'k \<Rightarrow> int \<times> 'k" where
  "epoll_Monitor_data ep epfd fd events data k =
     ep_ctl ep k epfd EPOLL_CTL_ADD fd (Some \<lparr>ev_events = events, ev_data = Data_ptr data\<rparr>)"

definition epoll_Unmonitor :: "'k ep_ops \<Rightarrow> int \<Rightarrow> int \<Rightarrow> 'k \<Rightarrow> int \<times> 'k" where
  "epoll_Unmonitor ep epfd fd k = ep_ctl ep k epfd EPOLL_CTL_DEL fd None"

definition epoll_Modify :: "'k ep_ops \<Rightarrow> int \<Rightarrow> int \<Rightarrow> 32 word \<Rightarrow> 64 word \<Rightarrow> 'k \<Rightarrow> int \<times> 'k" where
  "epoll_Modify ep epfd fd events data k =
     ep_ctl ep k epfd EPOLL_CTL_MOD fd (Some \<lparr>ev_events = events, ev_data = Data_ptr data\<rparr>)"

definition epoll_Wait :: "'k ep_ops \<Rightarrow> int \<Rightarrow> nat \<Rightarrow> int \<Rightarrow> 'k \<Rightarrow> int \<times> epoll_event list \<times> 'k" where
  "epoll_Wait ep epfd maxEvents timeout k = ep_wait ep k epfd maxEvents timeout"

section \<open>What a program relies on\<close>

text \<open>
  \<open>watched k e\<close> is the interest list of the epoll instance \<open>e\<close>, each descriptor with the data it was
  registered with. A descriptor leaves it with \<open>EPOLL_CTL_DEL\<close> and when it is closed (the program never
  duplicates one), and a wait reports watched descriptors, each at most once.
\<close>

locale epoll_os = net_os os owned net
  for os :: "'k sock_ops" and owned :: "'k \<Rightarrow> int set" and net :: "'k net_ops" +
  fixes ep :: "'k ep_ops" and watched :: "'k \<Rightarrow> int \<Rightarrow> int \<Rightarrow> epoll_data option"
  assumes create_new: "ep_create1 ep k = (fd, k') \<Longrightarrow>
      if fd = - 1 then owned k' = owned k
      else 0 \<le> fd \<and> fd \<notin> owned k \<and> owned k' = insert fd (owned k) \<and> watched k' fd = Map.empty"
    and ep_close_owned: "owned (snd (ep_close ep k fd)) = owned k - {fd}"
    and ctl_owned: "owned (snd (ep_ctl ep k e op fd evo)) = owned k"
    and ctl_add: "ep_ctl ep k e EPOLL_CTL_ADD fd (Some ev) = (r, k') \<Longrightarrow>
      watched k' e = (if r = 0 then (watched k e)(fd \<mapsto> ev_data ev) else watched k e)"
    and ctl_del: "watched (snd (ep_ctl ep k e EPOLL_CTL_DEL fd evo)) e = (watched k e)(fd := None)"
    and wait: "ep_wait ep k e n t = (cnt, evs, k') \<Longrightarrow>
      owned k' = owned k \<and> watched k' = watched k \<and> (cnt = - 1 \<and> evs = [] \<or> cnt = int (length evs) \<and>
        length evs \<le> n \<and> (\<exists>fds. distinct fds \<and> map (Some \<circ> ev_data) evs = map (watched k e) fds))"
    and close_watched: "e \<noteq> fd \<Longrightarrow> watched (snd (os_close os k fd)) e = (watched k e)(fd := None)"
      "e \<noteq> fd \<Longrightarrow> watched (snd (net_close net k fd)) e = (watched k e)(fd := None)"
    and accept_watched: "watched (snd (os_accept os k fd)) = watched k"
    and recv_watched: "watched (snd (net_recv net k fd n)) = watched k"
    and send_watched: "watched (snd (net_send net k fd bs)) = watched k"
begin

definition watches_by_fd :: "'k \<Rightarrow> int \<Rightarrow> bool" where
  "watches_by_fd k e \<longleftrightarrow> (\<forall>fd d. watched k e fd = Some d \<longrightarrow> d = Data_fd fd)"

lemma wait_reports:
  assumes "epoll_Wait ep e n t k = (cnt, evs, k')" and "watches_by_fd k e"
  shows "owned k' = owned k" and "watched k' = watched k"
    and "distinct (map (data_fd \<circ> ev_data) (take (nat cnt) evs))"
    and "set (map (data_fd \<circ> ev_data) (take (nat cnt) evs)) \<subseteq> dom (watched k e)"
proof -
  note w = wait [OF assms(1) [unfolded epoll_Wait_def]]
  then show "owned k' = owned k" "watched k' = watched k" by simp_all
  show "distinct (map (data_fd \<circ> ev_data) (take (nat cnt) evs))"
    and "set (map (data_fd \<circ> ev_data) (take (nat cnt) evs)) \<subseteq> dom (watched k e)"
  proof (atomize (full), cases "evs = []")
    case False
    with w obtain fds where fds: "cnt = int (length evs)" "distinct fds"
      "map (Some \<circ> ev_data) evs = map (watched k e) fds" by auto
    have some: "watched k e fd = Some (Data_fd fd)" if "fd \<in> set fds" for fd
    proof -
      have "watched k e fd \<in> set (map (Some \<circ> ev_data) evs)" using that unfolding fds(3) by simp
      then obtain d where "watched k e fd = Some d" by auto
      with assms(2) show ?thesis by (simp add: watches_by_fd_def)
    qed
    then have "map (watched k e) fds = map (Some \<circ> Data_fd) fds" by simp
    with fds(3) have "map (data_fd \<circ> (the \<circ> (Some \<circ> ev_data))) evs = map (data_fd \<circ> (the \<circ> (Some \<circ> Data_fd))) fds"
      by (metis map_map)
    then have "map (data_fd \<circ> ev_data) evs = fds" by (simp add: o_def)
    with fds(1,2) some show "distinct (map (data_fd \<circ> ev_data) (take (nat cnt) evs)) \<and>
        set (map (data_fd \<circ> ev_data) (take (nat cnt) evs)) \<subseteq> dom (watched k e)"
      by auto
  qed simp
qed

lemma AcceptSocket_watched: "watched (snd (snd (AcceptSocket os fd k))) = watched k"
  using accept_watched [of k fd] by (cases "os_accept os k fd") (auto simp: AcceptSocket_def split: prod.splits)

end

section \<open>A concrete system\<close>

text \<open>The world of \<open>Client_Lines\<close> with one epoll instance, on which every watched descriptor is always readable.\<close>

record ep_world =
  ew_world :: lines_world
  ew_fds :: "int list"
  ew_table :: "int \<Rightarrow> epoll_data option"

definition on_world :: "(lines_world \<Rightarrow> 'x \<times> lines_world) \<Rightarrow> ep_world \<Rightarrow> 'x \<times> ep_world" where
  "on_world f w = (let (x, k) = f (ew_world w) in (x, w\<lparr>ew_world := k\<rparr>))"

definition ew_unwatch :: "int \<Rightarrow> ep_world \<Rightarrow> ep_world" where
  "ew_unwatch fd w = w\<lparr>ew_table := (ew_table w)(fd := None)\<rparr>"

definition ew_close :: "ep_world \<Rightarrow> int \<Rightarrow> int \<times> ep_world" where
  "ew_close w fd = (let (r, w1) = on_world (\<lambda>k. os_close world_os k fd) w in (r, ew_unwatch fd w1))"

definition ew_os :: "ep_world sock_ops" where
  "ew_os = \<lparr>os_socket = on_world (os_socket world_os),
     os_setsockopt_reuseaddr = (\<lambda>w fd. on_world (\<lambda>k. os_setsockopt_reuseaddr world_os k fd) w),
     os_bind = (\<lambda>w fd p. on_world (\<lambda>k. os_bind world_os k fd p) w),
     os_listen = (\<lambda>w fd n. on_world (\<lambda>k. os_listen world_os k fd n) w),
     os_getfl = (\<lambda>w fd. on_world (\<lambda>k. os_getfl world_os k fd) w),
     os_setfl = (\<lambda>w fd i. on_world (\<lambda>k. os_setfl world_os k fd i) w),
     os_accept = (\<lambda>w fd. on_world (\<lambda>k. os_accept world_os k fd) w),
     os_close = ew_close\<rparr>"

definition ew_net :: "ep_world net_ops" where
  "ew_net = \<lparr>net_recv = (\<lambda>w fd n. on_world (\<lambda>k. net_recv lines_net k fd n) w),
     net_send = (\<lambda>w fd bs. on_world (\<lambda>k. net_send lines_net k fd bs) w), net_close = ew_close\<rparr>"

definition ew_ctl :: "ep_world \<Rightarrow> int \<Rightarrow> epoll_op \<Rightarrow> int \<Rightarrow> epoll_event option \<Rightarrow> int \<times> ep_world" where
  "ew_ctl w e op fd ev =
     (case (op, ev) of
        (EPOLL_CTL_ADD, Some ev) \<Rightarrow>
          if ew_table w fd = None
          then (0, w\<lparr>ew_fds := fd # ew_fds w, ew_table := (ew_table w)(fd \<mapsto> ev_data ev)\<rparr>) else (- 1, w)
      | (EPOLL_CTL_MOD, Some ev) \<Rightarrow>
          if ew_table w fd = None then (- 1, w) else (0, w\<lparr>ew_table := (ew_table w)(fd \<mapsto> ev_data ev)\<rparr>)
      | (EPOLL_CTL_DEL, _) \<Rightarrow> if ew_table w fd = None then (- 1, w) else (0, ew_unwatch fd w)
      | _ \<Rightarrow> (- 1, w))"

definition ew_ep :: "ep_world ep_ops" where
  "ew_ep = \<lparr>ep_create1 = (\<lambda>w. let (fd, w1) = on_world (os_socket world_os) w in
       if fd < 0 then (- 1, w1) else (fd, w1\<lparr>ew_fds := [], ew_table := (\<lambda>_. None)\<rparr>)),
     ep_close = ew_close, ep_ctl = ew_ctl,
     ep_wait = (\<lambda>w e n t.
       let evs = map (\<lambda>fd. \<lparr>ev_events = EPOLLIN, ev_data = the (ew_table w fd)\<rparr>)
           (take n (remdups [fd \<leftarrow> ew_fds w. ew_table w fd \<noteq> None]))
       in (int (length evs), evs, w))\<rparr>"

definition ew_owned :: "ep_world \<Rightarrow> int set" where
  "ew_owned w = world_owned (ew_world w)"

definition ew_watched :: "ep_world \<Rightarrow> int \<Rightarrow> int \<Rightarrow> epoll_data option" where
  "ew_watched w e = ew_table w"

lemma on_world_simps [simp]:
  "fst (on_world f w) = fst (f (ew_world w))" "ew_world (snd (on_world f w)) = snd (f (ew_world w))"
  "ew_table (snd (on_world f w)) = ew_table w"
  by (simp_all add: on_world_def split: prod.splits)

lemma ew_close_simps [simp]:
  "ew_world (snd (ew_close w fd)) = snd (os_close world_os (ew_world w) fd)"
  "ew_table (snd (ew_close w fd)) = (ew_table w)(fd := None)"
  by (simp_all add: ew_close_def on_world_def ew_unwatch_def split: prod.splits)

lemma ew_ctl_world [simp]: "ew_world (snd (ew_ctl w e op fd ev)) = ew_world w"
  by (cases op; cases ev) (simp_all add: ew_ctl_def ew_unwatch_def)

lemma ew_ctl_del_table: "ew_table (snd (ew_ctl w e EPOLL_CTL_DEL fd ev)) = (ew_table w)(fd := None)"
  by (cases ev) (auto simp: ew_ctl_def ew_unwatch_def)

interpretation ew: epoll_os ew_os ew_owned ew_net ew_ep ew_watched
proof
  fix w :: ep_world and fd w'
  assume "os_socket ew_os w = (fd, w')"
  then have "os_socket world_os (ew_world w) = (fd, ew_world w')"
    by (auto simp: ew_os_def on_world_def split: prod.splits)
  then show "if fd < 0 then ew_owned w' = ew_owned w else fd \<notin> ew_owned w \<and> ew_owned w' = insert fd (ew_owned w)"
    unfolding ew_owned_def by (rule wos.socket_new)
next
  fix w :: ep_world and lfd fd a w'
  assume "os_accept ew_os w lfd = ((fd, a), w')"
  then have "os_accept world_os (ew_world w) lfd = ((fd, a), ew_world w')"
    by (auto simp: ew_os_def on_world_def split: prod.splits)
  then show "if fd < 0 then ew_owned w' = ew_owned w else fd \<notin> ew_owned w \<and> ew_owned w' = insert fd (ew_owned w)"
    unfolding ew_owned_def by (rule wos.accept_new)
next
  fix w :: ep_world and fd w'
  assume create: "ep_create1 ew_ep w = (fd, w')"
  obtain f w1 where s: "on_world (os_socket world_os) w = (f, w1)" by fastforce
  then have "os_socket world_os (ew_world w) = (f, ew_world w1)"
    by (auto simp: on_world_def split: prod.splits)
  note own = wos.socket_new [OF this]
  have new: "(fd, w') = (if f < 0 then (- 1, w1) else (f, w1\<lparr>ew_fds := [], ew_table := (\<lambda>_. None)\<rparr>))"
    using create s by (simp add: ew_ep_def)
  show "if fd = - 1 then ew_owned w' = ew_owned w
      else 0 \<le> fd \<and> fd \<notin> ew_owned w \<and> ew_owned w' = insert fd (ew_owned w) \<and> ew_watched w' fd = Map.empty"
  proof (cases "f < 0")
    case True
    with own new show ?thesis by (simp add: ew_owned_def)
  next
    case False
    with own new show ?thesis by (simp add: ew_owned_def ew_watched_def fun_eq_iff)
  qed
next
  fix w :: ep_world and e n t cnt evs w'
  assume wait: "ep_wait ew_ep w e n t = (cnt, evs, w')"
  let ?fds = "take n (remdups [fd \<leftarrow> ew_fds w. ew_table w fd \<noteq> None])"
  have evs: "evs = map (\<lambda>fd. \<lparr>ev_events = EPOLLIN, ev_data = the (ew_table w fd)\<rparr>) ?fds" "w' = w"
    "cnt = int (length evs)"
    using wait by (auto simp: ew_ep_def Let_def)
  have some: "Some (the (ew_table w fd)) = ew_table w fd" if "fd \<in> set ?fds" for fd
    using in_set_takeD [OF that] by simp
  have "map (Some \<circ> ev_data) evs = map (\<lambda>fd. Some (the (ew_table w fd))) ?fds"
    unfolding evs(1) by simp
  also have "\<dots> = map (ew_watched w e) ?fds"
    by (rule map_cong [OF refl]) (simp only: some ew_watched_def)
  finally have "map (Some \<circ> ev_data) evs = map (ew_watched w e) ?fds" .
  moreover have "distinct ?fds" by simp
  ultimately have "\<exists>fds. distinct fds \<and> map (Some \<circ> ev_data) evs = map (ew_watched w e) fds" by blast
  moreover have "length evs \<le> n" by (simp add: evs(1))
  ultimately show "ew_owned w' = ew_owned w \<and> ew_watched w' = ew_watched w \<and>
      (cnt = - 1 \<and> evs = [] \<or> cnt = int (length evs) \<and> length evs \<le> n \<and>
        (\<exists>fds. distinct fds \<and> map (Some \<circ> ev_data) evs = map (ew_watched w e) fds))"
    unfolding evs(2,3) by blast
next
  fix w :: ep_world and e fd ev r w'
  assume "ep_ctl ew_ep w e EPOLL_CTL_ADD fd (Some ev) = (r, w')"
  then show "ew_watched w' e = (if r = 0 then (ew_watched w e)(fd \<mapsto> ev_data ev) else ew_watched w e)"
    by (auto simp: ew_ep_def ew_ctl_def ew_watched_def split: if_splits)
next
  fix w :: ep_world and fd
  show "ew_owned (snd (os_close ew_os w fd)) = ew_owned w - {fd}"
    "ew_owned (snd (net_close ew_net w fd)) = ew_owned w - {fd}"
    "ew_owned (snd (ep_close ew_ep w fd)) = ew_owned w - {fd}"
    by (simp_all add: ew_os_def ew_net_def ew_ep_def ew_owned_def wos.close_gone)
next
  fix w :: ep_world and e fd
  show "ew_watched (snd (os_close ew_os w fd)) e = (ew_watched w e)(fd := None)"
    "ew_watched (snd (net_close ew_net w fd)) e = (ew_watched w e)(fd := None)"
    by (simp_all add: ew_os_def ew_net_def ew_watched_def)
next
  fix w :: ep_world and e fd evo
  show "ew_watched (snd (ep_ctl ew_ep w e EPOLL_CTL_DEL fd evo)) e = (ew_watched w e)(fd := None)"
    by (simp add: ew_ep_def ew_watched_def ew_ctl_del_table)
next
  fix w :: ep_world and e op fd evo
  show "ew_owned (snd (ep_ctl ew_ep w e op fd evo)) = ew_owned w"
    by (simp add: ew_ep_def ew_owned_def)
next
  fix w :: ep_world and fd n
  show "ew_owned (snd (net_recv ew_net w fd n)) = ew_owned w"
    "ew_watched (snd (net_recv ew_net w fd n)) = ew_watched w"
    by (simp_all add: ew_net_def ew_owned_def ew_watched_def fun_eq_iff lnet.recv_owned)
next
  fix w :: ep_world and fd bs
  show "ew_owned (snd (net_send ew_net w fd bs)) = ew_owned w"
    "ew_watched (snd (net_send ew_net w fd bs)) = ew_watched w"
    by (simp_all add: ew_net_def ew_owned_def ew_watched_def fun_eq_iff lnet.send_owned)
next
  fix w :: ep_world and fd
  show "ew_watched (snd (os_accept ew_os w fd)) = ew_watched w"
    by (simp add: ew_os_def ew_watched_def fun_eq_iff)
next
  fix w :: ep_world and fd n p and i :: int
  show "ew_owned (snd (os_setsockopt_reuseaddr ew_os w fd)) = ew_owned w"
    "ew_owned (snd (os_bind ew_os w fd p)) = ew_owned w" "ew_owned (snd (os_listen ew_os w fd n)) = ew_owned w"
    "ew_owned (snd (os_getfl ew_os w fd)) = ew_owned w" "ew_owned (snd (os_setfl ew_os w fd i)) = ew_owned w"
    by (simp_all add: ew_os_def ew_owned_def wos.keeps)
qed

text \<open>Its connections are lines of their own, which a change of the interest list leaves alone.\<close>

definition ew_line :: "int \<Rightarrow> ep_world \<Rightarrow> peer" where
  "ew_line fd w = peer_line fd (ew_world w)"

lemma ew_line_ctl [simp]: "ew_line fd (snd (ep_ctl ew_ep w e op fd' ev)) = ew_line fd w"
  by (simp add: ew_line_def ew_ep_def)

interpretation ewlines: client_lines ew_net ew_line peer_waiting outbound peer_up
  unfolding ew_line_def [abs_def]
  by (rule client_lines_view [OF lines.client_lines_axioms])
    (simp_all add: ew_net_def on_world_def ew_close_def ew_unwatch_def world_os_def lines_net_def kernel_ops_def on_kernel_def
      split: prod.splits)

end
