(* ===== verification/Server.thy ===== *)
theory Server
  imports Connection Thread_Pool
begin

text \<open>
  \<open>minet/src/components/BasicServer.cpp\<close> and \<open>ThreadedServer.cpp\<close>: starting, stopping and the serve loop,
  over any system \<open>server_env\<close> the server runs on. Both files share everything but what the loop does with
  a connection: the basic server handles it in the loop, the threaded one submits it to its pool.
  \<open>Stop\<close> comes from another thread or from the signal handler, so the loop is a step function that may be
  interrupted between any two steps.
\<close>

section \<open>State\<close>

text \<open>
  Where the task that runs \<open>_Serve\<close> stands: not started, before the test of \<open>_isRunning\<close>, before the
  next \<open>AcceptSocket\<close>, behind the loops, returned, or left by an exception (which the task keeps).
\<close>

datatype serve_pc = Serve_Idle | Serve_Outer | Serve_Accept | Serve_Closing | Serve_Exited | Serve_Threw fault

record 'w server =
  sv_listenFd :: int
  sv_isRunning :: bool
  sv_pc :: serve_pc
  sv_world :: 'w

definition Server_new :: "'w \<Rightarrow> 'w server" where
  "Server_new w = \<lparr>sv_listenFd = 0, sv_isRunning = False, sv_pc = Serve_Idle, sv_world = w\<rparr>"

text \<open>What the server calls: the network functions, and what it does with a connection.\<close>

record 'w server_env =
  se_open :: "16 word \<Rightarrow> 'w \<Rightarrow> int outcome \<times> 'w"
  se_accept :: "int \<Rightarrow> 'w \<Rightarrow> bool \<times> AcceptData \<times> 'w"
  se_close :: "int \<Rightarrow> 'w \<Rightarrow> int \<times> 'w"
  se_connection :: "AcceptData \<Rightarrow> ('w, unit) action"

section \<open>Operations\<close>

definition Server_OpenSocket :: "'w server_env \<Rightarrow> 16 word \<Rightarrow> 'w server \<Rightarrow> unit outcome \<times> 'w server" where
  "Server_OpenSocket env port s =
     (case se_open env port (sv_world s) of
        (Raise e, w) \<Rightarrow> (Raise e, s\<lparr>sv_world := w\<rparr>)
      | (Ret fd, w) \<Rightarrow> (Ret (), s\<lparr>sv_world := w, sv_listenFd := (if fd < 0 then 0 else fd)\<rparr>))"

definition Server_CloseSocket :: "'w server_env \<Rightarrow> 'w server \<Rightarrow> 'w server" where
  "Server_CloseSocket env s =
     (if sv_listenFd s = 0 then s
      else let (r, w) = se_close env (sv_listenFd s) (sv_world s) in s\<lparr>sv_world := w, sv_listenFd := 0\<rparr>)"

text \<open>\<open>StartAsync\<close>: \<open>True\<close> when a task that runs \<open>_Serve\<close> is returned, \<open>False\<close> for a completed one.\<close>

definition Server_StartAsync ::
    "'w server_env \<Rightarrow> 16 word \<Rightarrow> bool \<Rightarrow> 'w server \<Rightarrow> bool outcome \<times> 'w server" where
  "Server_StartAsync env port hasCallback s =
     (if sv_isRunning s then (Ret False, s)
      else if \<not> hasCallback then (Ret False, s)
      else case Server_OpenSocket env port s of
          (Raise e, s1) \<Rightarrow> (Raise e, s1)
        | (Ret u, s1) \<Rightarrow>
            if sv_listenFd s1 = 0 then (Ret False, s1)
            else (Ret True, s1\<lparr>sv_isRunning := True, sv_pc := Serve_Outer\<rparr>))"

definition Server_Stop :: "'w server \<Rightarrow> 'w server" where
  "Server_Stop s = s\<lparr>sv_isRunning := False\<rparr>"

text \<open>
  One step of \<open>_Serve\<close>; \<open>None\<close> when the handling of a connection does not return. The call of
  \<open>AcceptSocket\<close> comes first in its condition, so a connection may be accepted and then dropped.
\<close>

definition serve_step :: "'w server_env \<Rightarrow> 'w server \<Rightarrow> 'w server option" where
  "serve_step env s =
     (case sv_pc s of
        Serve_Outer \<Rightarrow> Some (s\<lparr>sv_pc := if sv_isRunning s then Serve_Accept else Serve_Closing\<rparr>)
      | Serve_Accept \<Rightarrow>
          (case se_accept env (sv_listenFd s) (sv_world s) of
             (ok, data, w) \<Rightarrow>
               if ok \<and> sv_isRunning s
               then case se_connection env data w of
                   None \<Rightarrow> None
                 | Some (Raise e, w1) \<Rightarrow> Some (s\<lparr>sv_world := w1, sv_pc := Serve_Threw e\<rparr>)
                 | Some (Ret u, w1) \<Rightarrow> Some (s\<lparr>sv_world := w1\<rparr>)
               else Some (s\<lparr>sv_world := w, sv_pc := Serve_Outer\<rparr>))
      | Serve_Closing \<Rightarrow> Some ((Server_CloseSocket env s)\<lparr>sv_pc := Serve_Exited\<rparr>)
      | pc \<Rightarrow> Some s)"

inductive server_step :: "'w server_env \<Rightarrow> 'w server \<Rightarrow> 'w server \<Rightarrow> bool" for env where
  serve: "serve_step env s = Some s' \<Longrightarrow> server_step env s s'"
| stop: "server_step env s (Server_Stop s)"

inductive_simps server_step_iff: "server_step env s s'"

section \<open>The listening socket\<close>

text \<open>
  What a server relies on: fresh descriptors, \<open>close\<close>, and handling of connections that closes nothing but
  the connection.
\<close>

locale server_system =
  fixes env :: "'w server_env" and owned :: "'w \<Rightarrow> int set"
  assumes open_new: "se_open env port w = (Ret fd, w') \<Longrightarrow>
      if fd < 0 then owned w' = owned w else fd \<notin> owned w \<and> owned w' = insert fd (owned w)"
    and accept_new: "se_accept env lfd w = (ok, data, w') \<Longrightarrow>
      owned w \<subseteq> owned w' \<and> (ok \<longrightarrow> 0 < SocketFd data \<and> SocketFd data \<notin> owned w)"
    and close_owned: "owned (snd (se_close env fd w)) = owned w - {fd}"
    and connection_owned: "se_connection env data w = Some (oc, w') \<Longrightarrow> 0 < SocketFd data \<Longrightarrow>
      owned w - {SocketFd data} \<subseteq> owned w'"
begin

definition listening :: "int \<Rightarrow> 'w server \<Rightarrow> bool" where
  "listening lfd s \<longleftrightarrow>
     (case sv_pc s of
        Serve_Idle \<Rightarrow> False
      | Serve_Exited \<Rightarrow> sv_listenFd s = 0 \<and> lfd \<notin> owned (sv_world s)
      | _ \<Rightarrow> sv_listenFd s = lfd \<and> lfd \<in> owned (sv_world s))"

lemma listening_step:
  assumes "server_step env s s'" and "listening lfd s" and "lfd \<noteq> 0"
  shows "listening lfd s'"
  using assms(1)
proof (cases rule: server_step.cases)
  case serve
  show ?thesis
  proof (cases "sv_pc s")
    case Serve_Accept
    with assms(2) have l: "sv_listenFd s = lfd" "lfd \<in> owned (sv_world s)" by (simp_all add: listening_def)
    obtain ok data w where a: "se_accept env (sv_listenFd s) (sv_world s) = (ok, data, w)" by (metis prod_cases3)
    from accept_new [OF this] l have w: "lfd \<in> owned w" "ok \<Longrightarrow> 0 < SocketFd data \<and> SocketFd data \<noteq> lfd"
      by auto
    show ?thesis
    proof (cases "ok \<and> sv_isRunning s")
      case True
      then obtain oc w1 where c: "se_connection env data w = Some (oc, w1)"
        using serve a Serve_Accept by (auto simp: serve_step_def split: option.splits)
      from connection_owned [OF c] w True have "lfd \<in> owned w1" by auto
      then show ?thesis
        using serve a Serve_Accept l True c by (cases oc) (auto simp: serve_step_def listening_def)
    next
      case False
      then have no: "(ok \<and> sv_isRunning s) = False" by simp
      have "s' = s\<lparr>sv_world := w, sv_pc := Serve_Outer\<rparr>"
        using serve a Serve_Accept by (simp add: serve_step_def no)
      with l w(1) show ?thesis by (simp add: listening_def)
    qed
  next
    case Serve_Closing
    then have s': "s' = (Server_CloseSocket env s)\<lparr>sv_pc := Serve_Exited\<rparr>"
      using serve by (simp add: serve_step_def)
    obtain r w where c: "se_close env lfd (sv_world s) = (r, w)" by fastforce
    with close_owned [of lfd "sv_world s"] have "lfd \<notin> owned w" by simp
    with assms(2,3) Serve_Closing c show ?thesis
      by (simp add: s' Server_CloseSocket_def listening_def)
  qed (use serve assms(2) in \<open>auto simp: serve_step_def listening_def\<close>)
next
  case stop
  with assms(2) show ?thesis by (simp add: Server_Stop_def listening_def split: serve_pc.splits)
qed

lemma listening_steps:
  assumes "(server_step env)\<^sup>*\<^sup>* s s'" and "listening lfd s" and "lfd \<noteq> 0"
  shows "listening lfd s'"
  using assms(1,2) by (induction rule: rtranclp_induct) (auto intro: listening_step [OF _ _ assms(3)])

lemma start_listening:
  assumes "Server_StartAsync env port cb s = (Ret True, s1)"
  shows "sv_listenFd s1 \<noteq> 0 \<and> sv_isRunning s1 \<and> listening (sv_listenFd s1) s1"
proof -
  obtain u s2 where o: "Server_OpenSocket env port s = (Ret u, s2)" "sv_listenFd s2 \<noteq> 0"
    and s1: "s1 = s2\<lparr>sv_isRunning := True, sv_pc := Serve_Outer\<rparr>"
    using assms by (auto simp: Server_StartAsync_def split: if_splits prod.splits outcome.splits)
  then obtain fd w where "se_open env port (sv_world s) = (Ret fd, w)" "\<not> fd < 0"
      "s2 = s\<lparr>sv_world := w, sv_listenFd := fd\<rparr>"
    by (auto simp: Server_OpenSocket_def split: prod.splits outcome.splits if_splits)
  with open_new [of port "sv_world s" fd w] o(2) s1 show ?thesis by (simp add: listening_def)
qed

text \<open>A descriptor that is not the server's listening socket stays open.\<close>

lemma other_fd_step:
  assumes "server_step env s s'" and "x \<in> owned (sv_world s)" and "x \<noteq> sv_listenFd s" and "x \<noteq> 0"
  shows "x \<in> owned (sv_world s') \<and> x \<noteq> sv_listenFd s'"
  using assms(1)
proof (cases rule: server_step.cases)
  case serve
  show ?thesis
  proof (cases "sv_pc s")
    case Serve_Accept
    obtain ok data w where a: "se_accept env (sv_listenFd s) (sv_world s) = (ok, data, w)" by (metis prod_cases3)
    from accept_new [OF this] assms(2) have w: "x \<in> owned w" "ok \<Longrightarrow> 0 < SocketFd data \<and> SocketFd data \<noteq> x"
      by auto
    show ?thesis
    proof (cases "ok \<and> sv_isRunning s")
      case True
      then obtain oc w1 where c: "se_connection env data w = Some (oc, w1)"
        using serve a Serve_Accept by (auto simp: serve_step_def split: option.splits)
      from connection_owned [OF c] w True have "x \<in> owned w1" by auto
      then show ?thesis using serve a Serve_Accept True c assms(3) by (cases oc) (auto simp: serve_step_def)
    next
      case False
      then have no: "(ok \<and> sv_isRunning s) = False" by simp
      have "s' = s\<lparr>sv_world := w, sv_pc := Serve_Outer\<rparr>" using serve a Serve_Accept by (simp add: serve_step_def no)
      with w(1) assms(3) show ?thesis by simp
    qed
  next
    case Serve_Closing
    obtain r w where c: "se_close env (sv_listenFd s) (sv_world s) = (r, w)" by fastforce
    with close_owned [of "sv_listenFd s" "sv_world s"] assms(2,3) have "x \<in> owned w" by simp
    with serve Serve_Closing c assms(2-4) show ?thesis
      by (cases "sv_listenFd s = 0") (auto simp: serve_step_def Server_CloseSocket_def)
  qed (use serve assms(2,3) in \<open>auto simp: serve_step_def\<close>)
next
  case stop
  with assms(2,3) show ?thesis by (simp add: Server_Stop_def)
qed

lemma other_fd_steps:
  assumes "(server_step env)\<^sup>*\<^sup>* s s'" and "x \<in> owned (sv_world s)" and "x \<noteq> sv_listenFd s" and "x \<noteq> 0"
  shows "x \<in> owned (sv_world s') \<and> x \<noteq> sv_listenFd s'"
  using assms(1)
proof (induction rule: rtranclp_induct)
  case (step t u)
  from other_fd_step [OF step(2) _ _ assms(4)] step(3) show ?case by blast
qed (use assms in blast)

lemma start_new_listener:
  assumes "Server_StartAsync env port cb s = (Ret True, s1)"
  shows "sv_listenFd s1 \<notin> owned (sv_world s) \<and> owned (sv_world s) \<subseteq> owned (sv_world s1)"
proof -
  obtain u s2 where o: "Server_OpenSocket env port s = (Ret u, s2)" "sv_listenFd s2 \<noteq> 0"
    and s1: "s1 = s2\<lparr>sv_isRunning := True, sv_pc := Serve_Outer\<rparr>"
    using assms by (auto simp: Server_StartAsync_def split: if_splits prod.splits outcome.splits)
  then obtain fd w where "se_open env port (sv_world s) = (Ret fd, w)" "\<not> fd < 0"
      "s2 = s\<lparr>sv_world := w, sv_listenFd := fd\<rparr>"
    by (auto simp: Server_OpenSocket_def split: prod.splits outcome.splits if_splits)
  with open_new [of port "sv_world s" fd w] s1 show ?thesis by auto
qed

lemma start_fails_clean:
  assumes "Server_StartAsync env port cb s = (Ret False, s1)" and "0 \<notin> owned (sv_world s1)"
  shows "owned (sv_world s1) = owned (sv_world s)"
proof -
  have "owned w = owned (sv_world s)" if "se_open env port (sv_world s) = (Ret fd, w)" "0 \<notin> owned w" "fd \<le> 0" for fd w
    using open_new [OF that(1)] that(2,3) by (auto split: if_splits)
  with assms show ?thesis
    by (auto simp: Server_StartAsync_def Server_OpenSocket_def split: if_splits prod.splits outcome.splits)
qed

end

text \<open>A server that has been told to stop leaves its loop after at most four steps, whatever is accepted.\<close>

definition steps_to_exit :: "serve_pc \<Rightarrow> nat" where
  "steps_to_exit pc = (case pc of Serve_Accept \<Rightarrow> 3 | Serve_Outer \<Rightarrow> 2 | Serve_Closing \<Rightarrow> 1 | _ \<Rightarrow> 0)"

lemma stopped_progress:
  assumes "\<not> sv_isRunning s" and "sv_pc s \<in> {Serve_Outer, Serve_Accept, Serve_Closing}"
  shows "\<exists>s'. serve_step env s = Some s' \<and> \<not> sv_isRunning s' \<and>
    steps_to_exit (sv_pc s) = Suc (steps_to_exit (sv_pc s')) \<and>
    sv_pc s' \<in> {Serve_Outer, Serve_Closing, Serve_Exited}"
  using assms
  by (cases "sv_pc s") (auto simp: serve_step_def steps_to_exit_def Server_CloseSocket_def split: prod.splits)

fun serve_steps :: "'w server_env \<Rightarrow> nat \<Rightarrow> 'w server \<Rightarrow> 'w server option" where
  "serve_steps env 0 s = Some s"
| "serve_steps env (Suc n) s = (case serve_step env s of None \<Rightarrow> None | Some s' \<Rightarrow> serve_steps env n s')"

lemma serve_steps_reach: "serve_steps env n s = Some s' \<Longrightarrow> (server_step env)\<^sup>*\<^sup>* s s'"
  by (induction n arbitrary: s)
    (auto split: option.splits intro: converse_rtranclp_into_rtranclp server_step.serve)

lemma stopped_exits:
  assumes "\<not> sv_isRunning s" and "sv_pc s \<in> {Serve_Outer, Serve_Accept, Serve_Closing}"
  shows "\<exists>s'. serve_steps env (steps_to_exit (sv_pc s)) s = Some s' \<and> sv_pc s' = Serve_Exited"
  using assms
proof (induction "steps_to_exit (sv_pc s)" arbitrary: s)
  case 0
  then show ?case by (auto simp: steps_to_exit_def split: serve_pc.splits)
next
  case (Suc n)
  from stopped_progress [OF Suc.prems, of env] obtain s1 where s1: "serve_step env s = Some s1"
    "\<not> sv_isRunning s1" "steps_to_exit (sv_pc s) = Suc (steps_to_exit (sv_pc s1))"
    "sv_pc s1 \<in> {Serve_Outer, Serve_Closing, Serve_Exited}" by blast
  show ?case
  proof (cases "sv_pc s1 = Serve_Exited")
    case True
    with s1 show ?thesis by (auto simp: steps_to_exit_def)
  next
    case False
    with Suc.hyps(1) [of s1] Suc.hyps(2) s1 show ?thesis by auto
  qed
qed

context socket_os
begin

lemma AcceptSocket_owned:
  assumes "AcceptSocket os lfd k = (ok, data, k')"
  shows "if ok then 0 < SocketFd data \<and> SocketFd data \<notin> owned k \<and> owned k' = insert (SocketFd data) (owned k)
    else owned k \<subseteq> owned k'"
proof -
  obtain fd a p k1 where r: "os_accept os k lfd = ((fd, a, p), k1)" by (metis prod_cases3 surj_pair)
  then have "ok = (0 < fd)" "SocketFd data = fd" "k' = k1" using assms by (auto simp: AcceptSocket_def)
  with accept_new [OF r] show ?thesis by (cases "fd < 0") auto
qed

end

lemma stopped_server_closes:
  assumes "server_system env owned" and "Server_StartAsync env port cb s = (Ret True, s1)"
    and "(server_step env)\<^sup>*\<^sup>* s1 s2" and "sv_pc s2 \<noteq> Serve_Exited" "\<And>e. sv_pc s2 \<noteq> Serve_Threw e"
  shows "\<exists>n s3. n \<le> 3 \<and> serve_steps env n (Server_Stop s2) = Some s3 \<and> sv_pc s3 = Serve_Exited \<and>
    sv_listenFd s3 = 0 \<and> sv_listenFd s1 \<notin> owned (sv_world s3)"
proof -
  let ?l = "server_system.listening owned (sv_listenFd s1)"
  note start = server_system.start_listening [OF assms(1,2)]
  then have l2: "?l s2" using server_system.listening_steps [OF assms(1,3)] by blast
  then have "sv_pc s2 \<noteq> Serve_Idle" by (auto simp: server_system.listening_def [OF assms(1)])
  with assms(4,5) have pc: "sv_pc (Server_Stop s2) \<in> {Serve_Outer, Serve_Accept, Serve_Closing}"
    by (cases "sv_pc s2") (auto simp: Server_Stop_def)
  obtain s3 where s3: "serve_steps env (steps_to_exit (sv_pc (Server_Stop s2))) (Server_Stop s2) = Some s3"
    "sv_pc s3 = Serve_Exited"
    using stopped_exits [OF _ pc, of env] by (auto simp: Server_Stop_def)
  have "(server_step env)\<^sup>*\<^sup>* s2 (Server_Stop s2)" by (rule r_into_rtranclp) (rule server_step.stop)
  from server_system.listening_steps [OF assms(1) this l2] start have "?l (Server_Stop s2)" by blast
  then have "?l s3"
    using server_system.listening_steps [OF assms(1) serve_steps_reach [OF s3(1)]] start by blast
  with s3(2) have "sv_listenFd s3 = 0 \<and> sv_listenFd s1 \<notin> owned (sv_world s3)"
    by (simp add: server_system.listening_def [OF assms(1)])
  moreover have "steps_to_exit (sv_pc (Server_Stop s2)) \<le> 3"
    using pc by (auto simp: steps_to_exit_def)
  ultimately show ?thesis using s3 by blast
qed

section \<open>The basic server\<close>

definition BasicServer_env ::
    "'k sock_ops \<Rightarrow> 'k net_ops \<Rightarrow> ('k SocketStream HttpContext, unit) action \<Rightarrow> 'k server_env" where
  "BasicServer_env os net onConnection =
     \<lparr>se_open = (\<lambda>port k. OpenSocket os port False k), se_accept = (\<lambda>fd k. AcceptSocket os fd k),
      se_close = (\<lambda>fd k. CloseSocket os fd k), se_connection = HandleConnection net ''Basic'' onConnection\<rparr>"

definition BasicServer_delete :: "'k server_env \<Rightarrow> 'k server \<Rightarrow> 'k server" where
  "BasicServer_delete env s = Server_CloseSocket env s"

text \<open>A basic server whose handlers leave the descriptors alone, on a system that keeps account of them.\<close>

locale basic_system = net_os +
  fixes d :: "'a SocketStream RequestDispatcher" and iter :: "headers \<Rightarrow> headers"
  assumes handlers: "handlers_keep (\<lambda>s. ss_fd s = fd \<and> owned (ss_kernel s) = X) d"
begin

abbreviation dispatch :: "('a SocketStream HttpContext, unit) action" where
  "dispatch \<equiv> Dispatch (SocketStream_Write net) (SocketStream_Close net) iter d"

lemma basic_server_system: "server_system (BasicServer_env os net dispatch) owned"
proof
  fix port w fd w'
  assume "se_open (BasicServer_env os net dispatch) port w = (Ret fd, w')"
  then have "OpenSocket os port False w = (Ret fd, w')" by (simp add: BasicServer_env_def)
  then show "if fd < 0 then owned w' = owned w else fd \<notin> owned w \<and> owned w' = insert fd (owned w)"
    by (rule OpenSocket_owned)
next
  fix lfd w ok data w'
  assume "se_accept (BasicServer_env os net dispatch) lfd w = (ok, data, w')"
  then show "owned w \<subseteq> owned w' \<and> (ok \<longrightarrow> 0 < SocketFd data \<and> SocketFd data \<notin> owned w)"
    using AcceptSocket_owned [of lfd w ok data w'] by (auto simp: BasicServer_env_def split: if_splits)
next
  fix fd w
  show "owned (snd (se_close (BasicServer_env os net dispatch) fd w)) = owned w - {fd}"
    by (simp add: BasicServer_env_def CloseSocket_def close_gone)
next
  fix data w oc w'
  assume "se_connection (BasicServer_env os net dispatch) data w = Some (oc, w')" and "0 < SocketFd data"
  with HandleConnection_owned [OF _ handlers, of _ iter data w oc w'] show "owned w - {SocketFd data} \<subseteq> owned w'"
    by (auto simp: BasicServer_env_def split: if_splits)
qed

end

sublocale basic_system \<subseteq> system: server_system "BasicServer_env os net dispatch" owned
  by (rule basic_server_system)

lemma echo_dispatcher_keeps: "handlers_keep I echo_dispatcher"
  using text_endpoint_keeps [of I echo]
  by (auto simp: handlers_keep_def echo_dispatcher_def RequestDispatcher_new_def split: if_splits)

interpretation echo: basic_system world_os world_owned world_net echo_dispatcher "\<lambda>hs. hs"
  by unfold_locales (rule echo_dispatcher_keeps)

section \<open>Properties\<close>

text \<open>
  C25: the listening socket. From a successful \<open>StartAsync\<close> on, through every run of the loop with \<open>Stop\<close>
  at any point, the socket that was opened stays open and stays the server's, also when an exception has
  ended the loop; when \<open>_Serve\<close> has returned it is closed and \<open>_listenFd\<close> is 0.
\<close>

theorem listener_open_until_exit:
  assumes "server_system env owned" and "Server_StartAsync env port cb s = (Ret True, s1)"
    and "(server_step env)\<^sup>*\<^sup>* s1 s2"
  shows "if sv_pc s2 = Serve_Exited then sv_listenFd s2 = 0 \<and> sv_listenFd s1 \<notin> owned (sv_world s2)
    else sv_listenFd s2 = sv_listenFd s1 \<and> sv_listenFd s1 \<in> owned (sv_world s2)"
proof -
  note start = server_system.start_listening [OF assms(1,2)]
  then have "server_system.listening owned (sv_listenFd s1) s2"
    using server_system.listening_steps [OF assms(1,3)] by blast
  then show ?thesis
    unfolding server_system.listening_def [OF assms(1)] by (auto split: serve_pc.splits)
qed

definition echo_env :: "world server_env" where
  "echo_env = BasicServer_env world_os world_net
     (Dispatch (SocketStream_Write world_net) (SocketStream_Close world_net) (\<lambda>hs. hs) echo_dispatcher)"

lemma echo_started:
  "Server_StartAsync echo_env 80 True (Server_new (kernel_new [], peer_new [])) =
    (Ret True, \<lparr>sv_listenFd = 3, sv_isRunning = True, sv_pc = Serve_Outer,
      sv_world = (\<lparr>k_open = [3], k_script = []\<rparr>, peer_new [])\<rparr>)"
  unfolding echo_env_def BasicServer_env_def Server_StartAsync_def Server_OpenSocket_def Server_new_def
  by (simp, code_simp)

lemma listener_open_until_exit_witness:
  "\<exists>s1. Server_StartAsync echo_env 80 True (Server_new (kernel_new [], peer_new [])) = (Ret True, s1) \<and>
    sv_listenFd s1 \<in> world_owned (sv_world s1)"
proof -
  from listener_open_until_exit [OF echo.basic_server_system echo_started [unfolded echo_env_def] rtranclp.rtrancl_refl]
  show ?thesis unfolding echo_env_def [symmetric] echo_started by simp
qed

text \<open>
  \<open>Stop\<close> ends the loop. From every state in which the loop runs, a server that has been told to stop
  returns from \<open>_Serve\<close> after at most three more steps, without handling another connection; its
  listening socket is closed then.
\<close>

theorem stopped_server_exits:
  assumes "server_system env owned" and "Server_StartAsync env port cb s = (Ret True, s1)"
    and "(server_step env)\<^sup>*\<^sup>* s1 s2" and "sv_pc s2 \<noteq> Serve_Exited" "\<And>e. sv_pc s2 \<noteq> Serve_Threw e"
  shows "\<exists>n s3. n \<le> 3 \<and> serve_steps env n (Server_Stop s2) = Some s3 \<and> sv_pc s3 = Serve_Exited \<and>
    sv_listenFd s3 = 0 \<and> sv_listenFd s1 \<notin> owned (sv_world s3)"
  by (rule stopped_server_closes [OF assms])

lemma stopped_server_exits_witness:
  "\<exists>n s3. n \<le> 3 \<and> serve_steps echo_env n (Server_Stop (snd (Server_StartAsync echo_env 80 True
      (Server_new (kernel_new [], peer_new []))))) = Some s3 \<and> sv_pc s3 = Serve_Exited \<and> sv_listenFd s3 = 0"
proof -
  from stopped_server_exits [OF echo.basic_server_system echo_started [unfolded echo_env_def] rtranclp.rtrancl_refl]
  show ?thesis unfolding echo_env_def [symmetric] echo_started by simp blast
qed

lemma bad_length_connection:
  assumes "byte_source (SocketStream_Read net) pending sinv"
    and "sinv (SocketStream_new (SocketFd data) w)"
    and "pending (SocketStream_new (SocketFd data) w) = HttpMethodToString m @ SPACE @ path @ SPACE @
      HTTP_VERSION @ NEW_LINE @ header_line ''Content-Length'' v @ rest"
    and "m \<in> {GET, POST}" and "CleanPath path = Ret q" and "path \<noteq> []" and "\<forall>c \<in> set path. plain token_chars c"
    and "sync_header_ok (''Content-Length'', v)" and "stoi v = Raise e"
  shows "\<exists>k. HandleConnection net name onConnection data w = Some (Raise e, k)"
proof -
  have "store_field ''Content-Length'' v r = Raise e" for r using assms(9) by (simp add: store_field_def)
  note parse = byte_source.parse_http_throws [OF assms(1,2,4-7,3,8) this]
  let ?r0 = "HttpRequest_zero\<lparr>Host := AddressToHost (sin_addr data) (sin_port data)\<rparr>"
  obtain s' r where "ParseHttpRequest (SocketStream_Read net) (SocketStream_new (SocketFd data) w) ?r0 =
      Some (Raise e, s', r)" using parse [of ?r0] by blast
  then show ?thesis
    by (intro exI [of _ "ss_kernel s'"]) (simp add: HandleConnection_def CreateHttpContext_data_def create_context_def HttpContext_new_def)
qed

text \<open>
  C39: one request can end the server. When a client sends a request whose first header is a
  \<open>Content-Length\<close> that \<open>std::stoi\<close> does not accept, the exception leaves \<open>_Serve\<close> and stays in the task: the
  loop is over, and its socket goes on listening. Nothing but \<open>Stop\<close> changes the server from then on, and \<open>Stop\<close> only clears
  \<open>_isRunning\<close>. Before it, \<open>StartAsync\<close> refuses to start, because the server is "already running"; after it, \<open>StartAsync\<close> may
  open a second socket, and then no run of the server ever closes the first.
\<close>

theorem bad_length_ends_server:
  assumes "byte_source (SocketStream_Read net) pending sinv"
    and "env = BasicServer_env os net onConnection"
    and "sv_pc s = Serve_Accept" and "sv_isRunning s"
    and "AcceptSocket os (sv_listenFd s) (sv_world s) = (True, data, w)"
    and "sinv (SocketStream_new (SocketFd data) w)"
    and "pending (SocketStream_new (SocketFd data) w) = HttpMethodToString m @ SPACE @ path @ SPACE @
      HTTP_VERSION @ NEW_LINE @ header_line ''Content-Length'' v @ rest"
    and "m \<in> {GET, POST}" and "CleanPath path = Ret q" and "path \<noteq> []" and "\<forall>c \<in> set path. plain token_chars c"
    and "sync_header_ok (''Content-Length'', v)" and "stoi v = Raise e"
    and sys: "server_system env owned" and lfd: "sv_listenFd s \<in> owned (sv_world s)" "sv_listenFd s \<noteq> 0"
  shows "\<exists>s1. serve_step env s = Some s1 \<and> sv_pc s1 = Serve_Threw e \<and> sv_listenFd s1 = sv_listenFd s \<and>
    sv_listenFd s \<in> owned (sv_world s1) \<and>
    (\<forall>s2. (server_step env)\<^sup>*\<^sup>* s1 s2 \<longrightarrow> s2 = s1 \<or> s2 = Server_Stop s1) \<and>
    Server_StartAsync env port cb s1 = (Ret False, s1) \<and>
    (\<forall>s3 s4. Server_StartAsync env port cb (Server_Stop s1) = (Ret True, s3) \<longrightarrow> (server_step env)\<^sup>*\<^sup>* s3 s4 \<longrightarrow>
      sv_listenFd s \<in> owned (sv_world s4) \<and> sv_listenFd s4 \<noteq> sv_listenFd s)"
proof -
  obtain k where k: "HandleConnection net ''Basic'' onConnection data w = Some (Raise e, k)"
    using bad_length_connection [OF assms(1,6-13)] by blast
  let ?s1 = "s\<lparr>sv_world := k, sv_pc := Serve_Threw e\<rparr>"
  have step: "serve_step env s = Some ?s1"
    using k assms(2-5) by (simp add: serve_step_def BasicServer_env_def)
  have "se_accept env (sv_listenFd s) (sv_world s) = (True, data, w)" "se_connection env data w = Some (Raise e, k)"
    using k assms(2,5) by (simp_all add: BasicServer_env_def)
  with server_system.accept_new [OF sys this(1)] server_system.connection_owned [OF sys this(2)] lfd(1)
  have open1: "sv_listenFd s \<in> owned k" by auto
  have stay: "s2 = ?s1 \<or> s2 = Server_Stop ?s1" if "(server_step env)\<^sup>*\<^sup>* ?s1 s2" for s2
    using that
  proof (induction rule: rtranclp_induct)
    case (step t u)
    from step(2) show ?case
      by (cases rule: server_step.cases) (use step(3) in \<open>auto simp: serve_step_def Server_Stop_def\<close>)
  qed simp
  have "sv_listenFd s \<in> owned (sv_world s4) \<and> sv_listenFd s4 \<noteq> sv_listenFd s"
    if start: "Server_StartAsync env port cb (Server_Stop ?s1) = (Ret True, s3)" and run: "(server_step env)\<^sup>*\<^sup>* s3 s4" for s3 s4
  proof -
    from server_system.start_new_listener [OF sys start] open1
    have "sv_listenFd s \<in> owned (sv_world s3)" "sv_listenFd s \<noteq> sv_listenFd s3" by (auto simp: Server_Stop_def)
    from server_system.other_fd_steps [OF sys run this lfd(2)] show ?thesis by simp
  qed
  then show ?thesis using step stay open1 assms(4) by (intro exI [of _ ?s1]) (simp add: Server_StartAsync_def)
qed

lemma bad_length_ends_server_witness:
  "\<exists>s1. serve_step echo_env \<lparr>sv_listenFd = 3, sv_isRunning = True, sv_pc = Serve_Accept,
      sv_world = echo_world (''GET /a HTTP/1.1'' @ NEW_LINE @ ''Content-Length: x'' @ NEW_LINE @ NEW_LINE)\<rparr> = Some s1 \<and>
    sv_pc s1 = Serve_Threw InvalidArgument \<and> 3 \<in> world_owned (sv_world s1)"
proof -
  let ?m = "''GET /a HTTP/1.1'' @ NEW_LINE @ ''Content-Length: x'' @ NEW_LINE @ NEW_LINE"
  let ?s = "\<lparr>sv_listenFd = 3, sv_isRunning = True, sv_pc = Serve_Accept, sv_world = echo_world ?m\<rparr>"
  let ?w = "(\<lparr>k_open = [5, 3, 4], k_script = []\<rparr>, peer_new [?m])"
  let ?c = "\<lparr>SocketFd = 5, sin_addr = 0x0100007F, sin_port = 0\<rparr>"
  have a: "AcceptSocket world_os 3 (echo_world ?m) = (True, ?c, ?w)"
    by (simp add: AcceptSocket_def world_os_def on_kernel_def kernel_ops_def k_new_fd_def k_answer_def
        echo_world_def peer_new_def)
  have side: "peer_side (SocketStream_new 5 ?w) = SocketStream_new 5 (peer_new [?m])"
    by (simp add: peer_side_def SocketStream_new_def)
  have i: "sock_inv (peer_side (SocketStream_new 5 ?w))"
    and p: "sock_pending (peer_side (SocketStream_new 5 ?w)) = HttpMethodToString GET @ SPACE @ ''/a'' @ SPACE @
      HTTP_VERSION @ NEW_LINE @ header_line ''Content-Length'' ''x'' @ NEW_LINE"
    unfolding side by (simp_all add: sock_defs SocketStream_new_def peer_new_def header_line_def entities_def)
  have h: "CleanPath ''/a'' = Ret ''/a''" "''/a'' \<noteq> []" "\<forall>c \<in> set ''/a''. plain token_chars c"
    "sync_header_ok (''Content-Length'', ''x'')" "stoi ''x'' = Raise InvalidArgument"
    by code_simp+
  have l: "sv_listenFd ?s \<in> world_owned (sv_world ?s)" "sv_listenFd ?s \<noteq> 0"
    by (simp_all add: world_owned_def k_owned_def echo_world_def)
  from bad_length_ends_server [where env = echo_env and s = ?s and m = GET and path = "''/a''" and v = "''x''" and
      data = ?c and w = ?w and q = "''/a''" and e = InvalidArgument and rest = NEW_LINE and port = 80 and cb = True, OF wsock.byte_source_axioms echo_env_def _ _ _ _ _ _
      h(1-5) echo.basic_server_system [folded echo_env_def] l] a i p
  show ?thesis by auto
qed

end
