(* ===== verification/Threaded_Server.thy ===== *)
theory Threaded_Server
  imports Server
begin

text \<open>
  \<open>minet/src/components/ThreadedServer.cpp\<close>: the server of \<open>Server\<close> whose loop submits every connection to
  the thread pool, with the pool's workers beside it. The world of the loop is the system together with the
  pool; a step of the whole server is a step of the loop, of a worker, or of the destructor's \<open>Stop\<close> on a
  worker. An exception in a task ends the process, which is the result \<open>None\<close>.
\<close>

section \<open>The loop\<close>

text \<open>\<open>Submit\<close> of the closure \<open>[this, data] { _HandleConnection(data); }\<close>: the task is the accept data.\<close>

definition SubmitConnection ::
    "'k sock_ops \<Rightarrow> ('q \<Rightarrow> AcceptData \<Rightarrow> (bool \<times> 'q) option) \<Rightarrow> AcceptData \<Rightarrow>
     ('k \<times> ('q, AcceptData) ThreadPool, unit) action" where
  "SubmitConnection os push data w =
     (case ThreadPool_Submit push data (snd w) of
        None \<Rightarrow> None
      | Some (submitted, tp) \<Rightarrow>
          if submitted then Some (Ret (), (fst w, tp))
          else let (r, k) = CloseSocket os (SocketFd data) (fst w) in Some (Ret (), (k, tp)))"

definition on_system :: "('k \<Rightarrow> 'x \<times> 'k) \<Rightarrow> 'k \<times> 'p \<Rightarrow> 'x \<times> ('k \<times> 'p)" where
  "on_system f w = (let (x, k) = f (fst w) in (x, (k, snd w)))"

definition ThreadedServer_env ::
    "'k sock_ops \<Rightarrow> ('q \<Rightarrow> AcceptData \<Rightarrow> (bool \<times> 'q) option) \<Rightarrow>
     ('k \<times> ('q, AcceptData) ThreadPool) server_env" where
  "ThreadedServer_env os push =
     \<lparr>se_open = (\<lambda>port. on_system (OpenSocket os port False)),
      se_accept = (\<lambda>fd w. case AcceptSocket os fd (fst w) of (ok, data, k) \<Rightarrow> (ok, data, (k, snd w))),
      se_close = (\<lambda>fd. on_system (CloseSocket os fd)),
      se_connection = SubmitConnection os push\<rparr>"

text \<open>The constructor makes the pool from the configuration.\<close>

definition ThreadedServer_new ::
    "AcceptData \<Rightarrow> nat \<Rightarrow> size_t \<Rightarrow> 'k \<Rightarrow> ('k \<times> (AcceptData Queue, AcceptData) ThreadPool) server outcome" where
  "ThreadedServer_new dflt threads capacity k =
     outcome_bind (ThreadPool_new dflt threads capacity) (\<lambda>tp. Ret (Server_new (k, tp)))"

text \<open>
  \<open>StartAsync\<close>, \<open>_OpenSocket\<close>, \<open>_CloseSocket\<close>, \<open>Stop\<close> and the loop have the code of \<open>BasicServer.cpp\<close>, except
  for what the loop does with a connection.
\<close>

definition ThreadedServer_OpenSocket ::
    "'k sock_ops \<Rightarrow> ('q \<Rightarrow> AcceptData \<Rightarrow> (bool \<times> 'q) option) \<Rightarrow> 16 word \<Rightarrow>
     ('k \<times> ('q, AcceptData) ThreadPool) server \<Rightarrow> unit outcome \<times> ('k \<times> ('q, AcceptData) ThreadPool) server" where
  [simp]: "ThreadedServer_OpenSocket os push = Server_OpenSocket (ThreadedServer_env os push)"

definition ThreadedServer_CloseSocket ::
    "'k sock_ops \<Rightarrow> ('q \<Rightarrow> AcceptData \<Rightarrow> (bool \<times> 'q) option) \<Rightarrow>
     ('k \<times> ('q, AcceptData) ThreadPool) server \<Rightarrow> ('k \<times> ('q, AcceptData) ThreadPool) server" where
  [simp]: "ThreadedServer_CloseSocket os push = Server_CloseSocket (ThreadedServer_env os push)"

definition ThreadedServer_StartAsync ::
    "'k sock_ops \<Rightarrow> ('q \<Rightarrow> AcceptData \<Rightarrow> (bool \<times> 'q) option) \<Rightarrow> 16 word \<Rightarrow> bool \<Rightarrow>
     ('k \<times> ('q, AcceptData) ThreadPool) server \<Rightarrow> bool outcome \<times> ('k \<times> ('q, AcceptData) ThreadPool) server" where
  [simp]: "ThreadedServer_StartAsync os push = Server_StartAsync (ThreadedServer_env os push)"

definition ThreadedServer_Stop ::
    "('k \<times> ('q, AcceptData) ThreadPool) server \<Rightarrow> ('k \<times> ('q, AcceptData) ThreadPool) server" where
  [simp]: "ThreadedServer_Stop = Server_Stop"

definition ThreadedServer_Serve ::
    "'k sock_ops \<Rightarrow> ('q \<Rightarrow> AcceptData \<Rightarrow> (bool \<times> 'q) option) \<Rightarrow>
     ('k \<times> ('q, AcceptData) ThreadPool) server \<Rightarrow> ('k \<times> ('q, AcceptData) ThreadPool) server option" where
  [simp]: "ThreadedServer_Serve os push = serve_step (ThreadedServer_env os push)"

definition ThreadedServer_HandleConnection ::
    "'k net_ops \<Rightarrow> ('k SocketStream HttpContext, unit) action \<Rightarrow> AcceptData \<Rightarrow> ('k, unit) action" where
  [simp]: "ThreadedServer_HandleConnection net onConnection = HandleConnection net ''Threaded'' onConnection"

section \<open>The whole server\<close>

abbreviation the_pool :: "('k \<times> ('q, 'a) ThreadPool) server \<Rightarrow> ('q, 'a) ThreadPool" where
  "the_pool s \<equiv> snd (sv_world s)"

abbreviation the_system :: "('k \<times> ('q, 'a) ThreadPool) server \<Rightarrow> 'k" where
  "the_system s \<equiv> fst (sv_world s)"

text \<open>
  \<open>handle\<close> is \<open>_HandleConnection\<close>, \<open>HandleConnection\<close> with the name and the callback of this server. A worker
  that is inside a task runs it as one step; every other step of a worker is one of \<open>Worker_Routine\<close>.
\<close>

inductive threaded_step ::
    "('k \<times> ('q, AcceptData) ThreadPool) server_env \<Rightarrow> ('q \<Rightarrow> (AcceptData option \<times> 'q) option) \<Rightarrow>
     (AcceptData \<Rightarrow> ('k, unit) action) \<Rightarrow> ('q \<Rightarrow> bool) \<Rightarrow>
     ('k \<times> ('q, AcceptData) ThreadPool) server \<Rightarrow> ('k \<times> ('q, AcceptData) ThreadPool) server option \<Rightarrow> bool"
  for env pop handle room where
  loop: "threaded_step env pop handle room s (Some s')"
    if "server_step env s s'" and "\<forall>q \<in> set (tp_workers (the_pool s)). room q"
| work: "threaded_step env pop handle room s (Some (s\<lparr>sv_world := (the_system s, tp)\<rparr>))"
    if "i < tp_threads (the_pool s)" and "task_of (tp_pcs (the_pool s) ! i) = {#}"
      and "Worker_Routine pop i (the_pool s) = Some tp"
| handled: "threaded_step env pop handle room s (Some (s\<lparr>sv_world := (k, tp)\<rparr>))"
    if "i < tp_threads (the_pool s)" and "tp_pcs (the_pool s) ! i = W_Task data"
      and "handle data (the_system s) = Some (Ret (), k)" and "Worker_Routine pop i (the_pool s) = Some tp"
| crash: "threaded_step env pop handle room s None"
    if "i < tp_threads (the_pool s)" and "tp_pcs (the_pool s) ! i = W_Task data"
      and "handle data (the_system s) = Some (Raise e, k)"
| stop_worker: "threaded_step env pop handle room s (Some (s\<lparr>sv_world := (the_system s, Worker_Stop i (the_pool s))\<rparr>))"
    if "i < tp_threads (the_pool s)"

text \<open>A run of the server, as long as the process lives.\<close>

inductive threaded_run ::
    "('k \<times> ('q, AcceptData) ThreadPool) server_env \<Rightarrow> ('q \<Rightarrow> (AcceptData option \<times> 'q) option) \<Rightarrow>
     (AcceptData \<Rightarrow> ('k, unit) action) \<Rightarrow> ('q \<Rightarrow> bool) \<Rightarrow>
     ('k \<times> ('q, AcceptData) ThreadPool) server \<Rightarrow> ('k \<times> ('q, AcceptData) ThreadPool) server \<Rightarrow> bool"
  for env pop handle room where
  begin_run: "threaded_run env pop handle room s s"
| more_run: "threaded_run env pop handle room s s1 \<Longrightarrow> threaded_step env pop handle room s1 (Some s2) \<Longrightarrow>
    threaded_run env pop handle room s s2"

section \<open>Pending connections\<close>

definition pending_tasks :: "('q, 'a) ThreadPool \<Rightarrow> 'a multiset" where
  "pending_tasks tp = mset (tp_accepted tp) - mset (tp_done tp)"

definition pending_fds :: "('q, AcceptData) ThreadPool \<Rightarrow> int multiset" where
  "pending_fds tp = image_mset SocketFd (pending_tasks tp)"

text \<open>
  The account of a threaded server: the descriptors of the pending connections are pairwise different and
  open, and none of them is the listening socket, which is open until the loop has closed it.
\<close>

definition threaded_inv ::
    "('q \<Rightarrow> AcceptData list \<Rightarrow> bool) \<Rightarrow> ('k \<Rightarrow> int set) \<Rightarrow> int \<Rightarrow>
     ('k \<times> ('q, AcceptData) ThreadPool) server \<Rightarrow> bool" where
  "threaded_inv contents owned lfd s \<longleftrightarrow>
     (\<exists>xss. pool_inv contents (the_pool s) xss) \<and>
     (\<forall>fd. count (pending_fds (the_pool s)) fd \<le> 1) \<and>
     (\<forall>fd \<in># pending_fds (the_pool s). 0 < fd \<and> fd \<in> owned (the_system s)) \<and>
     lfd \<notin># pending_fds (the_pool s) \<and> sv_pc s \<noteq> Serve_Idle \<and>
     (if sv_pc s = Serve_Exited then sv_listenFd s = 0 \<and> lfd \<notin> owned (the_system s)
      else sv_listenFd s = lfd \<and> lfd \<in> owned (the_system s))"

lemma pending_subset:
  "pool_inv contents tp xss \<Longrightarrow> pending_tasks tp = in_work (tp_pcs tp) + queued xss"
  by (simp add: pending_tasks_def pool_inv_def)

lemma pending_task:
  assumes "pool_inv contents tp xss" and "i < tp_threads tp" and "tp_pcs tp ! i = W_Task t"
  shows "t \<in># pending_tasks tp"
proof -
  have "W_Task t \<in> set (tp_pcs tp)" using assms by (metis nth_mem pool_inv_def)
  then have "t \<in># in_work (tp_pcs tp)"
    by (auto simp: in_work_def task_of_def intro!: bexI [of _ "W_Task t"])
  then show ?thesis by (simp add: pending_subset [OF assms(1)])
qed

lemma Submit_logs:
  assumes "ThreadPool_Submit push task tp = Some (b, tp')"
  shows "tp_accepted tp' = tp_accepted tp @ (if b then [task] else [])" and "tp_done tp' = tp_done tp"
  using assms by (auto simp: ThreadPool_Submit_def Let_def split: option.splits prod.splits)

lemma Routine_logs:
  assumes "Worker_Routine pop i tp = Some tp'"
  shows "tp_accepted tp' = tp_accepted tp"
    and "tp_done tp' = tp_done tp @ (case tp_pcs tp ! i of W_Task t \<Rightarrow> [t] | _ \<Rightarrow> [])"
  using assms
  by (auto simp: Worker_Routine_def take_from_def split: wpc.splits option.splits prod.splits if_splits)

lemma pending_Submit:
  assumes "ThreadPool_Submit push task tp = Some (b, tp')" and "pool_inv contents tp xss"
  shows "pending_tasks tp' = pending_tasks tp + (if b then {#task#} else {#})"
proof -
  have "mset (tp_done tp) \<subseteq># mset (tp_accepted tp)" using assms(2) by (simp add: pool_inv_def)
  then show ?thesis by (simp add: pending_tasks_def Submit_logs [OF assms(1)])
qed

lemma pending_Routine:
  assumes "Worker_Routine pop i tp = Some tp'"
  shows "pending_tasks tp' = pending_tasks tp - task_of (tp_pcs tp ! i)"
  using Routine_logs [OF assms] by (simp add: pending_tasks_def task_of_def split: wpc.splits)

locale threaded_system = fifo: bounded_fifo push pop contents bound budget + sys: socket_os os owned
  for push :: "'q \<Rightarrow> AcceptData \<Rightarrow> (bool \<times> 'q) option" and pop contents bound budget
    and os :: "'k sock_ops" and owned +
  fixes handle :: "AcceptData \<Rightarrow> ('k, unit) action"
  assumes handle_owned: "handle data k = Some (oc, k') \<Longrightarrow> 0 < SocketFd data \<Longrightarrow>
    owned k - {SocketFd data} \<subseteq> owned k' \<and> owned k' \<subseteq> owned k"
begin

abbreviation inv :: "int \<Rightarrow> ('k \<times> ('q, AcceptData) ThreadPool) server \<Rightarrow> bool" where
  "inv \<equiv> threaded_inv contents owned"

abbreviation env :: "('k \<times> ('q, AcceptData) ThreadPool) server_env" where
  "env \<equiv> ThreadedServer_env os push"

lemma inv_accept:
  assumes inv: "inv lfd s" and room: "\<forall>q \<in> set (tp_workers (the_pool s)). 0 < budget q"
    and pc: "sv_pc s = Serve_Accept" and step: "serve_step env s = Some s'"
  shows "inv lfd s'"
proof -
  obtain ok data k where a: "AcceptSocket os (sv_listenFd s) (the_system s) = (ok, data, k)" by (metis prod_cases3)
  note own = sys.AcceptSocket_owned [OF a]
  obtain xss where p: "pool_inv contents (the_pool s) xss" using inv by (auto simp: threaded_inv_def)
  show ?thesis
  proof (cases "ok \<and> sv_isRunning s")
    case False
    then have no: "(ok \<and> sv_isRunning s) = False" by simp
    have s': "s' = s\<lparr>sv_world := (k, the_pool s), sv_pc := Serve_Outer\<rparr>"
      using step pc a by (simp add: serve_step_def ThreadedServer_env_def no)
    have "owned (the_system s) \<subseteq> owned k" using own by (auto split: if_splits)
    then show ?thesis using inv pc unfolding s' threaded_inv_def by auto
  next
    case True
    with own have fresh: "0 < SocketFd data" "SocketFd data \<notin> owned (the_system s)"
      "owned k = insert (SocketFd data) (owned (the_system s))" by simp_all
    obtain b tp xss' where sub: "ThreadPool_Submit push data (the_pool s) = Some (b, tp)"
      "pool_inv contents tp xss'"
      using fifo.Submit_result [OF p room refl, of data] by blast
    note pend = pending_Submit [OF sub(1) p]
    have new: "SocketFd data \<notin># pending_fds (the_pool s)" "lfd \<noteq> SocketFd data"
      using inv fresh pc by (auto simp: threaded_inv_def)
    obtain r k1 where cl: "CloseSocket os (SocketFd data) k = (r, k1)" by fastforce
    have k1: "owned k1 = owned (the_system s)"
      using sys.close_gone [of k "SocketFd data"] cl fresh by (auto simp: CloseSocket_def)
    have s': "s' = s\<lparr>sv_world := (if b then k else k1, tp)\<rparr>"
      using step pc a True sub(1) cl
      by (cases b) (simp_all add: serve_step_def ThreadedServer_env_def SubmitConnection_def)
    have c0: "count (pending_fds (the_pool s)) (SocketFd data) = 0" using new(1) by (simp add: not_in_iff)
    show ?thesis
      using inv pc fresh new pend sub(2) k1 c0
      unfolding s' threaded_inv_def pending_fds_def
      by (cases b) auto
  qed
qed

lemma inv_serve:
  assumes inv: "inv lfd s" and room: "\<forall>q \<in> set (tp_workers (the_pool s)). 0 < budget q" and "lfd \<noteq> 0"
    and step: "serve_step env s = Some s'"
  shows "inv lfd s'"
proof (cases "sv_pc s")
  case Serve_Accept
  then show ?thesis by (rule inv_accept [OF inv room _ step])
next
  case Serve_Closing
  then have l: "sv_listenFd s = lfd" using inv by (simp add: threaded_inv_def)
  obtain r k where c: "CloseSocket os lfd (the_system s) = (r, k)" by fastforce
  then have "owned k = owned (the_system s) - {lfd}"
    using sys.close_gone [of "the_system s" lfd] by (simp add: CloseSocket_def)
  moreover have "s' = s\<lparr>sv_world := (k, the_pool s), sv_listenFd := 0, sv_pc := Serve_Exited\<rparr>"
    using step Serve_Closing l c \<open>lfd \<noteq> 0\<close>
    by (simp add: serve_step_def Server_CloseSocket_def ThreadedServer_env_def on_system_def)
  ultimately show ?thesis using inv unfolding threaded_inv_def by auto
next
  case Serve_Outer
  then have "s' = s\<lparr>sv_pc := if sv_isRunning s then Serve_Accept else Serve_Closing\<rparr>"
    using step by (simp add: serve_step_def)
  with inv Serve_Outer show ?thesis unfolding threaded_inv_def by simp
qed (use inv step in \<open>simp_all add: serve_step_def\<close>)

lemma inv_handled:
  assumes inv: "inv lfd s" and i: "i < tp_threads (the_pool s)" "tp_pcs (the_pool s) ! i = W_Task data"
    and k: "handle data (the_system s) = Some (Ret (), k)" and r: "Worker_Routine pop i (the_pool s) = Some tp"
  shows "inv lfd (s\<lparr>sv_world := (k, tp)\<rparr>)"
proof -
  obtain xss where p: "pool_inv contents (the_pool s) xss" using inv by (auto simp: threaded_inv_def)
  have d: "data \<in># pending_tasks (the_pool s)" by (rule pending_task [OF p i])
  then have fd: "SocketFd data \<in># pending_fds (the_pool s)" by (simp add: pending_fds_def)
  then have own: "0 < SocketFd data" "SocketFd data \<noteq> lfd" using inv by (auto simp: threaded_inv_def)
  have k1: "owned (the_system s) - {SocketFd data} \<subseteq> owned k" "owned k \<subseteq> owned (the_system s)"
    using handle_owned [OF k own(1)] by simp_all
  obtain xss' where p': "pool_inv contents tp xss'" using fifo.Routine_inv [OF p i(1)] r by auto
  have pend: "pending_fds tp = pending_fds (the_pool s) - {#SocketFd data#}"
    using pending_Routine [OF r] i(2) d by (simp add: pending_fds_def task_of_def image_mset_Diff)
  have "count (pending_fds (the_pool s)) (SocketFd data) \<le> 1" using inv by (simp add: threaded_inv_def)
  then have gone: "SocketFd data \<notin># pending_fds tp" by (simp add: pend not_in_iff)
  have sub: "fd \<in># pending_fds (the_pool s)" if "fd \<in># pending_fds tp" for fd
    using that by (simp add: pend in_diffD)
  have "count (pending_fds tp) fd \<le> 1" for fd using inv by (simp add: threaded_inv_def pend)
  moreover have "0 < fd \<and> fd \<in> owned k" if "fd \<in># pending_fds tp" for fd
    using that sub gone inv k1(1) by (auto simp: threaded_inv_def)
  moreover have "lfd \<notin># pending_fds tp" using sub inv by (auto simp: threaded_inv_def)
  moreover have "if sv_pc s = Serve_Exited then sv_listenFd s = 0 \<and> lfd \<notin> owned k
      else sv_listenFd s = lfd \<and> lfd \<in> owned k"
    using inv k1 own(2) by (auto simp: threaded_inv_def)
  ultimately show ?thesis using p' inv by (auto simp: threaded_inv_def)
qed

lemma inv_step:
  assumes "threaded_step env pop handle (\<lambda>q. 0 < budget q) s (Some s')" and inv: "inv lfd s" and "lfd \<noteq> 0"
  shows "inv lfd s'"
  using assms(1)
proof (cases rule: threaded_step.cases)
  case loop
  from loop(1) show ?thesis
  proof (cases rule: server_step.cases)
    case serve
    with inv_serve [OF inv loop(2) assms(3)] show ?thesis by simp
  next
    case stop
    with inv show ?thesis by (simp add: threaded_inv_def Server_Stop_def)
  qed
next
  case (work i tp)
  obtain xss where p: "pool_inv contents (the_pool s) xss" using inv by (auto simp: threaded_inv_def)
  from fifo.Routine_inv [OF p work(2)] work(4) obtain xss' where "pool_inv contents tp xss'" by auto
  moreover have "pending_fds tp = pending_fds (the_pool s)"
    using pending_Routine [OF work(4)] work(3) by (simp add: pending_fds_def)
  ultimately show ?thesis using inv work(1) by (auto simp: threaded_inv_def)
next
  case (handled i data k tp)
  with inv_handled [OF inv handled(2-5)] show ?thesis by simp
next
  case (stop_worker i)
  have "pending_fds (Worker_Stop i (the_pool s)) = pending_fds (the_pool s)"
    by (simp add: pending_fds_def pending_tasks_def Worker_Stop_def)
  moreover have "pool_inv contents (Worker_Stop i (the_pool s)) xss" if "pool_inv contents (the_pool s) xss" for xss
    using that by (auto simp: pool_inv_def Worker_Stop_def)
  ultimately show ?thesis using inv stop_worker(1) by (auto simp: threaded_inv_def)
qed

lemma inv_run:
  assumes "threaded_run env pop handle (\<lambda>q. 0 < budget q) s s'" and "inv lfd s" and "lfd \<noteq> 0"
  shows "inv lfd s'"
  using assms(1,2) by (induction rule: threaded_run.induct) (auto intro: inv_step [OF _ _ assms(3)])

lemma started_inv:
  assumes "Server_StartAsync env port cb s = (Ret True, s1)" and "pool_inv contents (the_pool s) xss"
    and "pending_tasks (the_pool s) = {#}"
  shows "inv (sv_listenFd s1) s1 \<and> sv_listenFd s1 \<noteq> 0"
proof -
  obtain u s2 where o: "Server_OpenSocket env port s = (Ret u, s2)" "sv_listenFd s2 \<noteq> 0"
    and s1: "s1 = s2\<lparr>sv_isRunning := True, sv_pc := Serve_Outer\<rparr>"
    using assms(1) by (auto simp: Server_StartAsync_def split: if_splits prod.splits outcome.splits)
  obtain fd k where f: "OpenSocket os port False (the_system s) = (Ret fd, k)" "\<not> fd < 0"
      "s2 = s\<lparr>sv_world := (k, the_pool s), sv_listenFd := fd\<rparr>"
    using o by (auto simp: Server_OpenSocket_def ThreadedServer_env_def on_system_def
        split: prod.splits outcome.splits if_splits)
  with sys.OpenSocket_owned [OF f(1)] o(2) s1 assms(2,3) show ?thesis
    by (auto simp: threaded_inv_def pending_fds_def)
qed

end

section \<open>The server over the real queues\<close>

context basic_system
begin

lemma connection_bounds:
  assumes "HandleConnection net name dispatch data k = Some (oc, k')" and "0 < SocketFd data"
  shows "owned k - {SocketFd data} \<subseteq> owned k' \<and> owned k' \<subseteq> owned k"
  using HandleConnection_owned [OF assms(1) handlers assms(2)] by (auto split: if_splits)

lemma threaded_system:
  "threaded_system (Push moved) (Pop moved) holds q_bound q_budget os owned (HandleConnection net ''Threaded'' dispatch)"
  by (intro threaded_system.intro mpmc.bounded_fifo_axioms socket_os_axioms threaded_system_axioms.intro)
    (rule connection_bounds)

end

sublocale basic_system \<subseteq> threaded: threaded_system "Push moved" "Pop moved" holds q_bound q_budget os owned
    "HandleConnection net ''Threaded'' dispatch" for moved :: "AcceptData \<Rightarrow> AcceptData"
  by (rule threaded_system)

lemma ThreadedServer_new_inv:
  assumes "ThreadedServer_new dflt threads capacity k = Ret s"
    and "2 \<le> unat (MakePowerOfTwo capacity)" "unat (MakePowerOfTwo capacity) < 2 ^ 63"
  shows "pool_inv holds (the_pool s) (replicate threads [])" and "pending_tasks (the_pool s) = {#}"
    and "the_system s = k"
proof -
  obtain tp where tp: "ThreadPool_new dflt threads capacity = Ret tp" "s = Server_new (k, tp)"
    using assms(1) by (cases "ThreadPool_new dflt threads capacity" rule: outcome.exhaust)
      (auto simp: ThreadedServer_new_def)
  then show "pool_inv holds (the_pool s) (replicate threads [])" "the_system s = k"
    using ThreadPool_new_inv(1) [OF tp(1) assms(2,3)] by (simp_all add: Server_new_def)
  from tp show "pending_tasks (the_pool s) = {#}"
    by (cases "replicate_outcome threads (Worker_new dflt capacity)")
      (auto simp: ThreadPool_new_def pending_tasks_def Server_new_def split: if_splits)
qed

text \<open>The invariant of the whole server, in every state it reaches.\<close>

lemma started_run_inv:
  assumes "basic_system os owned net d"
    and "ThreadedServer_new dflt threads capacity k = Ret s0"
    and "2 \<le> unat (MakePowerOfTwo capacity)" and "unat (MakePowerOfTwo capacity) < 2 ^ 63"
    and "ThreadedServer_StartAsync os (Push moved) port cb s0 = (Ret True, s1)"
    and "threaded_run (ThreadedServer_env os (Push moved)) (Pop moved)
      (ThreadedServer_HandleConnection net (Dispatch (SocketStream_Write net) (SocketStream_Close net) iter d))
      (\<lambda>q. 0 < q_budget q) s1 s2"
  shows "threaded_system (Push moved) (Pop moved) holds q_bound q_budget os owned
      (ThreadedServer_HandleConnection net (Dispatch (SocketStream_Write net) (SocketStream_Close net) iter d))"
    and "threaded_inv holds owned (sv_listenFd s1) s1" and "sv_listenFd s1 \<noteq> 0"
    and "threaded_inv holds owned (sv_listenFd s1) s2"
proof -
  show sys: "threaded_system (Push moved) (Pop moved) holds q_bound q_budget os owned
      (ThreadedServer_HandleConnection net (Dispatch (SocketStream_Write net) (SocketStream_Close net) iter d))"
    unfolding ThreadedServer_HandleConnection_def by (rule basic_system.threaded_system [OF assms(1)])
  show inv1: "threaded_inv holds owned (sv_listenFd s1) s1" "sv_listenFd s1 \<noteq> 0"
    using threaded_system.started_inv [OF sys assms(5) [unfolded ThreadedServer_StartAsync_def]]
      ThreadedServer_new_inv(1,2) [OF assms(2-4)] by blast+
  show "threaded_inv holds owned (sv_listenFd s1) s2"
    by (rule threaded_system.inv_run [OF sys assms(6) inv1])
qed

section \<open>Properties\<close>

text \<open>
  C8: waiting connections. A threaded server is made, started and run, its loop, its workers and the callers
  of \<open>Stop\<close> in any order: at every moment the connections it has accepted and not yet handled are those in
  the workers' queues and inside workers, each of them once; their descriptors are pairwise different, all
  still open, and different from the listening socket, which stays open until the loop has returned. So a
  connection is handled at most once, on its own open descriptor.
\<close>

theorem threaded_connections_stay_open:
  assumes "basic_system os owned net d"
    and "ThreadedServer_new dflt threads capacity k = Ret s0"
    and "2 \<le> unat (MakePowerOfTwo capacity)" and "unat (MakePowerOfTwo capacity) < 2 ^ 63"
    and "ThreadedServer_StartAsync os (Push moved) port cb s0 = (Ret True, s1)"
    and "threaded_run (ThreadedServer_env os (Push moved)) (Pop moved)
      (ThreadedServer_HandleConnection net (Dispatch (SocketStream_Write net) (SocketStream_Close net) iter d))
      (\<lambda>q. 0 < q_budget q) s1 s2"
  shows "\<exists>xss. list_all2 holds (tp_workers (the_pool s2)) xss \<and>
    pending_tasks (the_pool s2) = in_work (tp_pcs (the_pool s2)) + queued xss \<and>
    (\<forall>fd. count (pending_fds (the_pool s2)) fd \<le> 1) \<and>
    set_mset (pending_fds (the_pool s2)) \<subseteq> owned (the_system s2) - {sv_listenFd s1} \<and>
    (if sv_pc s2 = Serve_Exited then sv_listenFd s1 \<notin> owned (the_system s2)
     else sv_listenFd s1 \<in> owned (the_system s2))"
proof -
  note inv = started_run_inv(4) [OF assms]
  then obtain xss where "pool_inv holds (the_pool s2) xss" by (auto simp: threaded_inv_def)
  then have "list_all2 holds (tp_workers (the_pool s2)) xss"
    "pending_tasks (the_pool s2) = in_work (tp_pcs (the_pool s2)) + queued xss"
    by (simp_all add: pool_inv_def pending_tasks_def)
  then show ?thesis
    using inv by (intro exI [of _ xss]) (auto simp: threaded_inv_def)
qed

definition no_data :: AcceptData where
  "no_data = \<lparr>SocketFd = 0, sin_addr = 0, sin_port = 0\<rparr>"

text \<open>A started server with two workers, listening on descriptor 3.\<close>

lemma sample_threaded:
  fixes p :: 'p
  obtains s0 :: "((kernel \<times> 'p) \<times> (AcceptData Queue, AcceptData) ThreadPool) server"
    and s1 :: "((kernel \<times> 'p) \<times> (AcceptData Queue, AcceptData) ThreadPool) server"
  where "ThreadedServer_new no_data 2 3 (kernel_new [], p) = Ret s0" "MakePowerOfTwo 3 = 4"
    "ThreadedServer_StartAsync world_os (Push id) 80 True s0 = (Ret True, s1)"
    "sv_listenFd s1 = 3" "sv_pc s1 = Serve_Outer" "sv_isRunning s1"
    "the_system s1 = (\<lparr>k_open = [3], k_script = []\<rparr>, p)"
    "pool_inv holds (the_pool s1) [[], []]" "tp_next (the_pool s1) = 0" "tp_threads (the_pool s1) = 2"
    "length (tp_workers (the_pool s1)) = 2"
    "\<forall>q \<in> set (tp_workers (the_pool s1)). q_bound q = 4 \<and> 0 < q_budget q"
proof -
  obtain tp where pool: "ThreadPool_new no_data 2 3 = Ret tp" "tp_next tp = 0" "tp_threads tp = 2"
    "pool_inv holds tp [[], []]" "\<forall>q \<in> set (tp_workers tp). q_bound q = 4 \<and> 0 < q_budget q"
    "length (tp_workers tp) = 2" "MakePowerOfTwo 3 = 4"
    by (rule sample_pool)
  define s0 :: "((kernel \<times> 'p) \<times> (AcceptData Queue, AcceptData) ThreadPool) server"
    where "s0 = Server_new ((kernel_new [], p), tp)"
  have new: "ThreadedServer_new no_data 2 3 (kernel_new [], p) = Ret s0"
    using pool(1) by (simp add: ThreadedServer_new_def s0_def)
  have "OpenSocket world_os 80 False (kernel_new [], p) =
      (Ret 3, (\<lparr>k_open = [3], k_script = []\<rparr>, p))"
    by (simp add: OpenSocket_def MakeNonBlockingSocket_def TRY_WITH_ACTION_def world_os_def on_kernel_def kernel_ops_def k_new_fd_def k_answer_def
        kernel_new_def)
  then show ?thesis
    by (intro that [OF new pool(7), of "s0\<lparr>sv_world := ((\<lparr>k_open = [3], k_script = []\<rparr>, p), tp),
        sv_listenFd := 3, sv_isRunning := True, sv_pc := Serve_Outer\<rparr>"])
      (simp_all add: Server_StartAsync_def Server_OpenSocket_def ThreadedServer_env_def on_system_def
        s0_def Server_new_def pool)
qed

lemma threaded_connections_stay_open_witness:
  "\<exists>s1 :: (world \<times> (AcceptData Queue, AcceptData) ThreadPool) server.
    sv_pc s1 = Serve_Outer \<and> sv_listenFd s1 = 3 \<and> 3 \<in> world_owned (the_system s1)"
proof -
  obtain s0 s1 :: "(world \<times> (AcceptData Queue, AcceptData) ThreadPool) server" where
    s: "ThreadedServer_new no_data 2 3 (kernel_new [], peer_new []) = Ret s0" "MakePowerOfTwo 3 = 4"
    "ThreadedServer_StartAsync world_os (Push id) 80 True s0 = (Ret True, s1)"
    "sv_listenFd s1 = 3" "sv_pc s1 = Serve_Outer" by (rule sample_threaded)
  have c: "2 \<le> unat (MakePowerOfTwo 3)" "unat (MakePowerOfTwo 3) < 2 ^ 63" unfolding s(2) by simp_all
  from threaded_connections_stay_open [OF echo.basic_system_axioms s(1) c s(3) threaded_run.begin_run] s(4,5)
  show ?thesis by auto
qed

text \<open>
  A new connection at a threaded server. While the server is running, a connection it accepts goes to the
  worker whose turn it is: if that worker's queue has room, the connection waits there; if not, it is closed at
  once, whatever room the other workers have. In both cases the loop goes on with the next connection.
\<close>

theorem threaded_accept_outcome:
  assumes "socket_os os owned" and "pool_inv holds (the_pool s) xss"
    and "\<forall>q \<in> set (tp_workers (the_pool s)). 0 < q_budget q"
    and "sv_pc s = Serve_Accept" and "sv_isRunning s"
    and "AcceptSocket os (sv_listenFd s) (the_system s) = (True, data, k)"
    and "i = unat (tp_next (the_pool s)) mod tp_threads (the_pool s)"
    and "room \<longleftrightarrow> length (xss ! i) < q_bound (tp_workers (the_pool s) ! i)"
  shows "\<exists>s'. ThreadedServer_Serve os (Push moved) s = Some s' \<and> sv_pc s' = Serve_Accept \<and>
    pool_inv holds (the_pool s') (if room then xss[i := xss ! i @ [data]] else xss) \<and>
    owned (the_system s') = (if room then insert (SocketFd data) (owned (the_system s)) else owned (the_system s))"
proof -
  obtain tp where sub: "ThreadPool_Submit (Push moved) data (the_pool s) = Some (room, tp)"
    "pool_inv holds tp (if room then xss[i := xss ! i @ [data]] else xss)"
    using mpmc.Submit_result [OF assms(2,3,7), of moved data] assms(8) by auto
  obtain r k1 where cl: "CloseSocket os (SocketFd data) k = (r, k1)" by fastforce
  have fresh: "SocketFd data \<notin> owned (the_system s)" "owned k = insert (SocketFd data) (owned (the_system s))"
    using socket_os.AcceptSocket_owned [OF assms(1,6)] by simp_all
  then have "owned k1 = owned (the_system s)"
    using socket_os.close_gone [OF assms(1), of k "SocketFd data"] cl by (auto simp: CloseSocket_def)
  moreover have "ThreadedServer_Serve os (Push moved) s =
      Some (s\<lparr>sv_world := (if room then k else k1, tp)\<rparr>)"
    using assms(4-6) sub(1) cl
    by (cases room) (simp_all add: serve_step_def ThreadedServer_env_def SubmitConnection_def)
  ultimately show ?thesis using sub(2) fresh(2) assms(4) by (cases room) auto
qed

lemma threaded_accept_outcome_witness:
  "\<exists>(s :: (world \<times> (AcceptData Queue, AcceptData) ThreadPool) server) s'.
    ThreadedServer_Serve world_os (Push id) s = Some s' \<and>
    world_owned (the_system s) = {3} \<and> world_owned (the_system s') = {4, 3}"
proof -
  obtain s0 s1 :: "(world \<times> (AcceptData Queue, AcceptData) ThreadPool) server" where
    s: "sv_listenFd s1 = 3" "sv_isRunning s1" "the_system s1 = (\<lparr>k_open = [3], k_script = []\<rparr>, peer_new [])"
      "pool_inv holds (the_pool s1) [[], []]" "tp_next (the_pool s1) = 0" "tp_threads (the_pool s1) = 2"
      "length (tp_workers (the_pool s1)) = 2" "\<forall>q \<in> set (tp_workers (the_pool s1)). q_bound q = 4 \<and> 0 < q_budget q"
    by (rule sample_threaded) auto
  define s2 where "s2 = s1\<lparr>sv_pc := Serve_Accept\<rparr>"
  have a: "AcceptSocket world_os 3 (\<lparr>k_open = [3], k_script = []\<rparr>, peer_new []) =
      (True, \<lparr>SocketFd = 4, sin_addr = 0x0100007F, sin_port = 0\<rparr>, (\<lparr>k_open = [4, 3], k_script = []\<rparr>, peer_new []))"
    by code_simp
  have "tp_workers (the_pool s1) ! 0 \<in> set (tp_workers (the_pool s1))" using s(7) by simp
  then have room: "True = (length ([[], []] ! 0) < q_bound (tp_workers (the_pool s2) ! 0))"
    using s(8) by (simp add: s2_def)
  have i: "0 = unat (tp_next (the_pool s2)) mod tp_threads (the_pool s2)" by (simp add: s2_def s)
  have p: "pool_inv holds (the_pool s2) [[], []]" "\<forall>q \<in> set (tp_workers (the_pool s2)). 0 < q_budget q"
    "sv_pc s2 = Serve_Accept" "sv_isRunning s2"
    using s by (simp_all add: s2_def)
  have acc: "AcceptSocket world_os (sv_listenFd s2) (the_system s2) =
      (True, \<lparr>SocketFd = 4, sin_addr = 0x0100007F, sin_port = 0\<rparr>, (\<lparr>k_open = [4, 3], k_script = []\<rparr>, peer_new []))"
    using a by (simp add: s2_def s)
  from threaded_accept_outcome [OF wos.socket_os_axioms p acc i room, of id]
  obtain s' where "ThreadedServer_Serve world_os (Push id) s2 = Some s'" "world_owned (the_system s') = {4, 3}"
    by (auto simp: s2_def s world_owned_def k_owned_def)
  moreover have "world_owned (the_system s2) = {3}" by (simp add: s2_def s world_owned_def k_owned_def)
  ultimately show ?thesis by blast
qed

text \<open>
  A request whose Content-Length is not a number ends the process of a threaded server. The worker that
  handles the connection lets the exception out of its thread: its step has no next state, whatever the loop
  and the other workers are doing.
\<close>

theorem threaded_bad_length_ends_process:
  assumes "byte_source (SocketStream_Read net) pending sinv"
    and "i < tp_threads (the_pool s)" and "tp_pcs (the_pool s) ! i = W_Task data"
    and "sinv (SocketStream_new (SocketFd data) (the_system s))"
    and "pending (SocketStream_new (SocketFd data) (the_system s)) = HttpMethodToString m @ SPACE @ path @ SPACE @
      HTTP_VERSION @ NEW_LINE @ header_line ''Content-Length'' v @ rest"
    and "m \<in> {GET, POST}" and "CleanPath path = Ret q" and "path \<noteq> []" and "\<forall>c \<in> set path. plain token_chars c"
    and "sync_header_ok (''Content-Length'', v)" and "stoi v = Raise e"
  shows "threaded_step env pop (ThreadedServer_HandleConnection net onConnection) room s None"
  using bad_length_connection [OF assms(1,4-11)] by (auto intro: threaded_step.crash [OF assms(2,3)])

definition bad_length_message :: string where
  "bad_length_message = ''GET /a HTTP/1.1'' @ NEW_LINE @ ''Content-Length: x'' @ NEW_LINE @ NEW_LINE"

definition busy_pool :: "string \<Rightarrow> (world \<times> (AcceptData Queue, AcceptData) ThreadPool) server" where
  "busy_pool m = \<lparr>sv_listenFd = 3, sv_isRunning = True, sv_pc = Serve_Accept, sv_world =
    (echo_world m, \<lparr>tp_threads = 1, tp_workers = [], tp_running = [True], tp_pcs = [W_Task echo_client],
      tp_next = 1, tp_accepted = [echo_client], tp_done = []\<rparr>)\<rparr>"

lemma threaded_bad_length_ends_process_witness:
  "threaded_step (ThreadedServer_env world_os (Push id)) (Pop id) (ThreadedServer_HandleConnection world_net
      (\<lambda>ctx. Some (Ret (), ctx))) (\<lambda>q. True) (busy_pool bad_length_message) None"
proof -
  let ?s = "busy_pool bad_length_message"
  let ?t = "SocketStream_new (SocketFd echo_client) (the_system ?s)"
  have side: "peer_side ?t = SocketStream_new 4 (peer_new [bad_length_message])"
    by (simp add: peer_side_def SocketStream_new_def busy_pool_def echo_world_def echo_client_def)
  have i: "sock_inv (peer_side ?t)"
    and p: "sock_pending (peer_side ?t) = HttpMethodToString GET @ SPACE @ ''/a'' @ SPACE @
      HTTP_VERSION @ NEW_LINE @ header_line ''Content-Length'' ''x'' @ NEW_LINE"
    unfolding side
    by (simp_all add: sock_defs SocketStream_new_def peer_new_def header_line_def entities_def bad_length_message_def)
  have h: "CleanPath ''/a'' = Ret ''/a''" "''/a'' \<noteq> []" "\<forall>c \<in> set ''/a''. plain token_chars c"
    "sync_header_ok (''Content-Length'', ''x'')" "stoi ''x'' = Raise InvalidArgument"
    by code_simp+
  show ?thesis
    by (rule threaded_bad_length_ends_process [OF wsock.byte_source_axioms _ _ i p _ h, of 0]) (simp_all add: busy_pool_def)
qed

end
