(* ===== verification/Mayhem_Server.thy ===== *)
theory Mayhem_Server
  imports Epoll Threaded_Server
begin

text \<open>
  \<open>minet/src/components/MayhemServer.cpp\<close>: the server that watches all its connections with one epoll, feeds
  each of them to its own \<open>AsyncHttpContextBuilder\<close> and submits the completed requests to the thread pool.
  The loop is a step function that may be interrupted between any two steps by a worker or by \<open>Stop\<close>; one
  step waits, takes the next event, accepts one connection, or handles one event.

  The streams of the model hold the system they work on, so a stored builder or a submitted context is given
  the present system (\<open>resume_builder\<close>, \<open>RunContext\<close>) before it goes on.
\<close>

section \<open>State\<close>

definition MAX_FD :: int where "MAX_FD = 1024"
definition MAX_EVENTS :: nat where "MAX_EVENTS = 64"

text \<open>
  Where \<open>_Serve\<close> stands: before the test of \<open>_isRunning\<close>, before the wait, before the next of the events,
  inside the accept loop with the events after it, behind the loop, returned, or left by an exception.
\<close>

datatype mayhem_pc = Mayhem_Idle | Mayhem_Loop | Mayhem_Wait | Mayhem_Events "epoll_event list"
  | Mayhem_Accept "epoll_event list" | Mayhem_Closing | Mayhem_Exited | Mayhem_Threw fault

record ('k, 'q) mayhem =
  mv_pool :: "('q, 'k SocketStream HttpContext) ThreadPool"
  mv_handles :: "'k AsyncHttpContextBuilder option list"
  mv_listenFd :: int
  mv_epollFd :: int
  mv_isRunning :: bool
  mv_pc :: mayhem_pc
  mv_system :: 'k

text \<open>The system calls, and \<open>push\<close> of the workers' queues.\<close>

record ('k, 'q) mayhem_env =
  me_os :: "'k sock_ops"
  me_net :: "'k net_ops"
  me_ep :: "'k ep_ops"
  me_push :: "'q \<Rightarrow> 'k SocketStream HttpContext \<Rightarrow> (bool \<times> 'q) option"

definition MayhemServer_new ::
    "'k SocketStream HttpContext \<Rightarrow> nat \<Rightarrow> size_t \<Rightarrow> 'k \<Rightarrow>
     ('k, 'k SocketStream HttpContext Queue) mayhem outcome" where
  "MayhemServer_new dflt threads capacity k =
     outcome_bind (ThreadPool_new dflt threads capacity) (\<lambda>tp.
       Ret \<lparr>mv_pool = tp, mv_handles = replicate (nat MAX_FD) None, mv_listenFd = 0, mv_epollFd = 0,
         mv_isRunning = False, mv_pc = Mayhem_Idle, mv_system = k\<rparr>)"

definition MayhemServer_delete :: "('k, 'q) mayhem \<Rightarrow> ('k, 'q) mayhem" where
  "MayhemServer_delete s = s\<lparr>mv_handles := []\<rparr>"

section \<open>Sockets and the epoll\<close>

definition Mayhem_OpenSocket ::
    "('k, 'q) mayhem_env \<Rightarrow> 16 word \<Rightarrow> ('k, 'q) mayhem \<Rightarrow> unit outcome \<times> ('k, 'q) mayhem" where
  "Mayhem_OpenSocket env port s =
     (case OpenSocket (me_os env) port False (mv_system s) of
        (Raise e, k) \<Rightarrow> (Raise e, s\<lparr>mv_system := k\<rparr>)
      | (Ret fd, k) \<Rightarrow> (Ret (), s\<lparr>mv_system := k, mv_listenFd := (if fd < 0 then 0 else fd)\<rparr>))"

definition Mayhem_CloseSocket :: "('k, 'q) mayhem_env \<Rightarrow> ('k, 'q) mayhem \<Rightarrow> ('k, 'q) mayhem" where
  "Mayhem_CloseSocket env s =
     (if mv_listenFd s = 0 then s
      else let (r, k) = CloseSocket (me_os env) (mv_listenFd s) (mv_system s)
        in s\<lparr>mv_system := k, mv_listenFd := 0\<rparr>)"

definition Mayhem_OpenEpoll :: "('k, 'q) mayhem_env \<Rightarrow> ('k, 'q) mayhem \<Rightarrow> ('k, 'q) mayhem" where
  "Mayhem_OpenEpoll env s =
     (let (fd, k) = epoll_Create (me_ep env) (mv_system s)
      in s\<lparr>mv_system := k, mv_epollFd := (if fd = - 1 then 0 else fd)\<rparr>)"

definition Mayhem_CloseEpoll :: "('k, 'q) mayhem_env \<Rightarrow> ('k, 'q) mayhem \<Rightarrow> ('k, 'q) mayhem" where
  "Mayhem_CloseEpoll env s =
     (if mv_epollFd s = 0 then s
      else let (r, k) = epoll_Close (me_ep env) (mv_epollFd s) (mv_system s)
        in s\<lparr>mv_system := k, mv_epollFd := 0\<rparr>)"

definition Mayhem_MonitorFd :: "('k, 'q) mayhem_env \<Rightarrow> int \<Rightarrow> ('k, 'q) mayhem \<Rightarrow> bool \<times> ('k, 'q) mayhem" where
  "Mayhem_MonitorFd env fd s =
     (let (r, k) = epoll_Monitor (me_ep env) (mv_epollFd s) fd (EPOLLIN OR EPOLLET) (mv_system s)
      in (r = 0, s\<lparr>mv_system := k\<rparr>))"

definition Mayhem_UnmonitorFd :: "('k, 'q) mayhem_env \<Rightarrow> int \<Rightarrow> ('k, 'q) mayhem \<Rightarrow> bool \<times> ('k, 'q) mayhem" where
  "Mayhem_UnmonitorFd env fd s =
     (let (r, k) = epoll_Unmonitor (me_ep env) (mv_epollFd s) fd (mv_system s)
      in (r = 0, s\<lparr>mv_system := k\<rparr>))"

text \<open>\<open>True\<close> when a task that runs \<open>_Serve\<close> is returned, \<open>False\<close> for a completed one.\<close>

definition Mayhem_StartAsync ::
    "('k, 'q) mayhem_env \<Rightarrow> 16 word \<Rightarrow> bool \<Rightarrow> ('k, 'q) mayhem \<Rightarrow> bool outcome \<times> ('k, 'q) mayhem" where
  "Mayhem_StartAsync env port hasCallback s =
     (if mv_isRunning s then (Ret False, s)
      else if \<not> hasCallback then (Ret False, s)
      else case Mayhem_OpenSocket env port s of
          (Raise e, s1) \<Rightarrow> (Raise e, s1)
        | (Ret u, s1) \<Rightarrow>
            if mv_listenFd s1 = 0 then (Ret False, s1)
            else
              let s2 = Mayhem_OpenEpoll env s1 in
              if mv_epollFd s2 = 0 then (Ret False, Mayhem_CloseSocket env s2)
              else
                let (r, k) = epoll_Monitor (me_ep env) (mv_epollFd s2) (mv_listenFd s2) EPOLLIN (mv_system s2);
                    s3 = s2\<lparr>mv_system := k\<rparr>
                in if r \<noteq> 0 then (Ret False, Mayhem_CloseEpoll env (Mayhem_CloseSocket env s3))
                  else (Ret True, s3\<lparr>mv_isRunning := True, mv_pc := Mayhem_Loop\<rparr>))"

definition Mayhem_Stop :: "('k, 'q) mayhem \<Rightarrow> ('k, 'q) mayhem" where
  "Mayhem_Stop s = s\<lparr>mv_isRunning := False\<rparr>"

section \<open>Connections\<close>

definition Mayhem_Close :: "('k, 'q) mayhem_env \<Rightarrow> int \<Rightarrow> ('k, 'q) mayhem \<Rightarrow> ('k, 'q) mayhem" where
  \<comment> \<open>\<open>network::CloseSocket(fd)\<close>, whose result is ignored\<close>
  "Mayhem_Close env fd s = s\<lparr>mv_system := snd (CloseSocket (me_os env) fd (mv_system s))\<rparr>"

definition in_handles :: "int \<Rightarrow> ('k, 'q) mayhem \<Rightarrow> bool" where
  "in_handles fd s \<longleftrightarrow> 0 \<le> fd \<and> nat fd < length (mv_handles s)"

definition set_handle :: "int \<Rightarrow> 'k AsyncHttpContextBuilder option \<Rightarrow> ('k, 'q) mayhem \<Rightarrow> ('k, 'q) mayhem" where
  "set_handle fd h s =
     (if in_handles fd s then s\<lparr>mv_handles := (mv_handles s)[nat fd := h]\<rparr>
      else s\<lparr>mv_pc := Mayhem_Threw (Undefined ''_handles[fd] out of range'')\<rparr>)"

text \<open>One turn of the accept loop, which goes on with \<open>es\<close> when it ends.\<close>

definition Mayhem_accept :: "('k, 'q) mayhem_env \<Rightarrow> epoll_event list \<Rightarrow> ('k, 'q) mayhem \<Rightarrow> ('k, 'q) mayhem" where
  "Mayhem_accept env es s =
     (case AcceptSocket (me_os env) (mv_listenFd s) (mv_system s) of
        (ok, data, k) \<Rightarrow>
          let s1 = s\<lparr>mv_system := k\<rparr> in
          if \<not> ok then s1\<lparr>mv_pc := Mayhem_Events es\<rparr>
          else if SocketFd data \<ge> MAX_FD
          then (Mayhem_Close env (SocketFd data) s1)\<lparr>mv_pc := Mayhem_Events es\<rparr>
          else
            let (monitored, s2) = Mayhem_MonitorFd env (SocketFd data) s1;
                s3 = (if monitored then s2 else Mayhem_Close env (SocketFd data) s2)
            in set_handle (SocketFd data) (Some (AsyncHttpContextBuilder_new data (mv_system s3))) s3)"

definition resume_builder :: "'k \<Rightarrow> 'k AsyncHttpContextBuilder \<Rightarrow> 'k AsyncHttpContextBuilder" where
  "resume_builder k b = b\<lparr>cb_reader := (cb_reader b)\<lparr>br_stream := (br_stream (cb_reader b))\<lparr>ss_kernel := k\<rparr>\<rparr>\<rparr>"

definition builder_system :: "'k AsyncHttpContextBuilder \<Rightarrow> 'k" where
  "builder_system b = ss_kernel (br_stream (cb_reader b))"

definition builder_fd :: "'k AsyncHttpContextBuilder \<Rightarrow> int" where
  "builder_fd b = ss_fd (br_stream (cb_reader b))"

text \<open>A completed request: the context, which the builder shares, is decorated and submitted.\<close>

definition Mayhem_submit ::
    "('k, 'q) mayhem_env \<Rightarrow> int \<Rightarrow> 'k AsyncHttpContextBuilder \<Rightarrow> ('k, 'q) mayhem \<Rightarrow> ('k, 'q) mayhem option" where
  "Mayhem_submit env fd b s =
     (let (u, s1) = Mayhem_UnmonitorFd env fd s;
          context = DecorateContext ''Mayhem'' (builder_GetContext b);
          s2 = set_handle fd (Some (b\<lparr>cb_response := Response context\<rparr>)) s1
      in case ThreadPool_Submit (me_push env) context (mv_pool s2) of
          None \<Rightarrow> None
        | Some (submitted, tp) \<Rightarrow>
            let s3 = s2\<lparr>mv_pool := tp\<rparr> in
            Some (if submitted then s3 else set_handle fd None (Mayhem_Close env fd s3)))"

definition Mayhem_parse :: "('k, 'q) mayhem_env \<Rightarrow> int \<Rightarrow> ('k, 'q) mayhem \<Rightarrow> ('k, 'q) mayhem option" where
  "Mayhem_parse env fd s =
     (if \<not> in_handles fd s then Some (s\<lparr>mv_pc := Mayhem_Threw (Undefined ''_handles[fd] out of range'')\<rparr>)
      else case mv_handles s ! nat fd of
          None \<Rightarrow> Some (s\<lparr>mv_pc := Mayhem_Threw AssertFailed\<rparr>)
        | Some b \<Rightarrow>
            (case builder_Parse (me_net env) (resume_builder (mv_system s) b) of
               None \<Rightarrow> None
             | Some (res, b1) \<Rightarrow>
                 let s1 = set_handle fd (Some b1) (s\<lparr>mv_system := builder_system b1\<rparr>) in
                 (case res of
                    Raise e \<Rightarrow> Some (s1\<lparr>mv_pc := Mayhem_Threw e\<rparr>)
                  | Ret r \<Rightarrow>
                      if r = 1 then Mayhem_submit env fd b1 s1
                      else if r < 0 then Some (set_handle fd None (Mayhem_Close env fd s1))
                      else Some s1)))"

definition Mayhem_step :: "('k, 'q) mayhem_env \<Rightarrow> ('k, 'q) mayhem \<Rightarrow> ('k, 'q) mayhem option" where
  "Mayhem_step env s =
     (case mv_pc s of
        Mayhem_Loop \<Rightarrow> Some (s\<lparr>mv_pc := if mv_isRunning s then Mayhem_Wait else Mayhem_Closing\<rparr>)
      | Mayhem_Wait \<Rightarrow>
          (case epoll_Wait (me_ep env) (mv_epollFd s) MAX_EVENTS 5000 (mv_system s) of
             (cnt, events, k) \<Rightarrow>
               let s1 = s\<lparr>mv_system := k, mv_pc := Mayhem_Events (take (nat cnt) events)\<rparr>
               in Some (if cnt = - 1 then Mayhem_Stop s1 else s1))
      | Mayhem_Events [] \<Rightarrow> Some (s\<lparr>mv_pc := Mayhem_Loop\<rparr>)
      | Mayhem_Events (e # es) \<Rightarrow>
          if data_fd (ev_data e) = mv_listenFd s then Some (s\<lparr>mv_pc := Mayhem_Accept es\<rparr>)
          else if ev_events e AND EPOLLIN \<noteq> 0
          then Mayhem_parse env (data_fd (ev_data e)) (s\<lparr>mv_pc := Mayhem_Events es\<rparr>)
          else Some (s\<lparr>mv_pc := Mayhem_Events es\<rparr>)
      | Mayhem_Accept es \<Rightarrow> Some (Mayhem_accept env es s)
      | Mayhem_Closing \<Rightarrow> Some ((Mayhem_CloseEpoll env (Mayhem_CloseSocket env s))\<lparr>mv_pc := Mayhem_Exited\<rparr>)
      | pc \<Rightarrow> Some s)"

text \<open>\<open>_HandleConnection\<close>, which nothing calls.\<close>

definition Mayhem_HandleConnection ::
    "'k net_ops \<Rightarrow> ('k SocketStream HttpContext, unit) action \<Rightarrow> int \<Rightarrow> ('k, unit) action" where
  "Mayhem_HandleConnection net onConnection fd k =
     (case CreateHttpContext_fd net fd k of
        None \<Rightarrow> None
      | Some (Raise e, context, k1) \<Rightarrow> Some (Raise e, k1)
      | Some (Ret r, context, k1) \<Rightarrow>
          (case (r = 0, context) of
             (True, Some ctx) \<Rightarrow>
               (case onConnection (DecorateContext ''Mayhem'' ctx) of
                  None \<Rightarrow> None
                | Some (oc, ctx') \<Rightarrow> Some (oc, ss_kernel (BodyStream ctx')))
           | _ \<Rightarrow> Some (Ret (), k1)))"

section \<open>The whole server\<close>

text \<open>The task \<open>[this, context] { _onConnectionCallback(context); }\<close>.\<close>

definition RunContext ::
    "('k SocketStream HttpContext, unit) action \<Rightarrow> 'k SocketStream HttpContext \<Rightarrow> ('k, unit) action" where
  "RunContext onConnection ctx k =
     (case onConnection (ctx\<lparr>BodyStream := (BodyStream ctx)\<lparr>ss_kernel := k\<rparr>\<rparr>) of
        None \<Rightarrow> None
      | Some (oc, ctx') \<Rightarrow> Some (oc, ss_kernel (BodyStream ctx')))"

inductive mayhem_step ::
    "('k, 'q) mayhem_env \<Rightarrow> ('q \<Rightarrow> ('k SocketStream HttpContext option \<times> 'q) option) \<Rightarrow>
     ('k SocketStream HttpContext \<Rightarrow> ('k, unit) action) \<Rightarrow> ('q \<Rightarrow> bool) \<Rightarrow>
     ('k, 'q) mayhem \<Rightarrow> ('k, 'q) mayhem option \<Rightarrow> bool"
  for env pop run room where
  loop: "mayhem_step env pop run room s (Some s')"
    if "Mayhem_step env s = Some s'" and "\<forall>q \<in> set (tp_workers (mv_pool s)). room q"
| stop: "mayhem_step env pop run room s (Some (Mayhem_Stop s))"
| work: "mayhem_step env pop run room s (Some (s\<lparr>mv_pool := tp\<rparr>))"
    if "i < tp_threads (mv_pool s)" and "task_of (tp_pcs (mv_pool s) ! i) = {#}"
      and "Worker_Routine pop i (mv_pool s) = Some tp"
| handled: "mayhem_step env pop run room s (Some (s\<lparr>mv_system := k, mv_pool := tp\<rparr>))"
    if "i < tp_threads (mv_pool s)" and "tp_pcs (mv_pool s) ! i = W_Task ctx"
      and "run ctx (mv_system s) = Some (Ret (), k)" and "Worker_Routine pop i (mv_pool s) = Some tp"
| crash: "mayhem_step env pop run room s None"
    if "i < tp_threads (mv_pool s)" and "tp_pcs (mv_pool s) ! i = W_Task ctx"
      and "run ctx (mv_system s) = Some (Raise e, k)"
| stop_worker: "mayhem_step env pop run room s (Some (s\<lparr>mv_pool := Worker_Stop i (mv_pool s)\<rparr>))"
    if "i < tp_threads (mv_pool s)"

inductive mayhem_run ::
    "('k, 'q) mayhem_env \<Rightarrow> ('q \<Rightarrow> ('k SocketStream HttpContext option \<times> 'q) option) \<Rightarrow>
     ('k SocketStream HttpContext \<Rightarrow> ('k, unit) action) \<Rightarrow> ('q \<Rightarrow> bool) \<Rightarrow>
     ('k, 'q) mayhem \<Rightarrow> ('k, 'q) mayhem \<Rightarrow> bool"
  for env pop run room where
  begin_run: "mayhem_run env pop run room s s"
| more_run: "mayhem_run env pop run room s s1 \<Longrightarrow> mayhem_step env pop run room s1 (Some s2) \<Longrightarrow>
    mayhem_run env pop run room s s2"

section \<open>The account of the descriptors\<close>

definition context_fds :: "('q, 'k SocketStream HttpContext) ThreadPool \<Rightarrow> int multiset" where
  "context_fds tp = image_mset (\<lambda>ctx. ss_fd (BodyStream ctx)) (pending_tasks tp)"

text \<open>
  For the owned descriptors \<open>ds\<close>, the interest list \<open>w\<close> and the descriptors \<open>ps\<close> of the submitted contexts:
  every watched descriptor but the listening one is open, is an index of \<open>_handles\<close> and has a builder there,
  which reads from it; a submitted context has its own open descriptor, which is not watched.
\<close>

definition conn_inv ::
    "int \<Rightarrow> int \<Rightarrow> int set \<Rightarrow> (int \<Rightarrow> epoll_data option) \<Rightarrow> 'k AsyncHttpContextBuilder option list \<Rightarrow> int multiset \<Rightarrow> bool"
  where
  "conn_inv lfd efd ds w hs ps \<longleftrightarrow>
     length hs = nat MAX_FD \<and>
     (\<forall>fd b. 0 \<le> fd \<longrightarrow> fd < MAX_FD \<longrightarrow> hs ! nat fd = Some b \<longrightarrow> builder_fd b = fd) \<and>
     (\<forall>fd d. w fd = Some d \<longrightarrow> d = Data_fd fd \<and>
        (fd \<noteq> lfd \<longrightarrow> 0 < fd \<and> fd < MAX_FD \<and> fd \<in> ds \<and> fd \<noteq> efd \<and> hs ! nat fd \<noteq> None)) \<and>
     (\<forall>fd. count ps fd \<le> 1) \<and>
     (\<forall>fd \<in># ps. 0 < fd \<and> fd \<in> ds \<and> fd \<noteq> lfd \<and> fd \<noteq> efd \<and> w fd = None) \<and>
     lfd \<in> ds \<and> efd \<in> ds \<and> lfd \<noteq> efd \<and> lfd \<noteq> 0 \<and> efd \<noteq> 0"

lemma conn_grow: "conn_inv lfd efd ds w hs ps \<Longrightarrow> ds \<subseteq> ds' \<Longrightarrow> conn_inv lfd efd ds' w hs ps"
  by (auto simp: conn_inv_def)

lemma nth_handle_update:
  "length hs = nat MAX_FD \<Longrightarrow> 0 \<le> g \<Longrightarrow> g < MAX_FD \<Longrightarrow> 0 \<le> fd \<Longrightarrow>
    hs[nat g := h] ! nat fd = (if fd = g then h else hs ! nat fd)"
  by (auto simp: nth_list_update nat_eq_iff2)

lemma conn_set:
  assumes "conn_inv lfd efd ds w hs ps" and "0 \<le> g" "g < MAX_FD" and "\<And>b. h = Some b \<Longrightarrow> builder_fd b = g"
    and "h = None \<Longrightarrow> w g = None \<or> g = lfd"
  shows "conn_inv lfd efd ds w (hs[nat g := h]) ps"
proof -
  have len: "length hs = nat MAX_FD" using assms(1) by (simp add: conn_inv_def)
  note upd = nth_handle_update [OF len assms(2,3), where h = h]
  have "builder_fd b = fd" if "0 \<le> fd" "fd < MAX_FD" "hs[nat g := h] ! nat fd = Some b" for fd b
    using that assms(1,4) upd [OF that(1)] by (auto simp: conn_inv_def split: if_splits)
  moreover have "d = Data_fd fd \<and>
      (fd \<noteq> lfd \<longrightarrow> 0 < fd \<and> fd < MAX_FD \<and> fd \<in> ds \<and> fd \<noteq> efd \<and> hs[nat g := h] ! nat fd \<noteq> None)"
    if "w fd = Some d" for fd d
  proof -
    have old: "d = Data_fd fd" "fd \<noteq> lfd \<Longrightarrow> 0 < fd \<and> fd < MAX_FD \<and> fd \<in> ds \<and> fd \<noteq> efd \<and> hs ! nat fd \<noteq> None"
      using that assms(1) by (simp_all add: conn_inv_def)
    have "hs[nat g := h] ! nat fd \<noteq> None" if "fd \<noteq> lfd"
      using old(2) [OF that] upd [of fd] assms(5) \<open>w fd = Some d\<close> that by (cases "fd = g") auto
    with old show ?thesis by blast
  qed
  ultimately show ?thesis using assms(1) by (simp add: conn_inv_def)
qed

lemma conn_watch:
  assumes "conn_inv lfd efd ds w hs ps" and "g \<in> ds" "0 < g" "g < MAX_FD" "g \<noteq> lfd" "g \<noteq> efd" "g \<notin># ps"
    and "hs ! nat g \<noteq> None"
  shows "conn_inv lfd efd ds (w(g \<mapsto> Data_fd g)) hs ps"
  using assms by (auto simp: conn_inv_def)

lemma conn_unwatch:
  assumes "conn_inv lfd efd ds w hs ps" shows "conn_inv lfd efd ds (w(g := None)) hs ps"
  using assms by (auto simp: conn_inv_def)

lemma conn_close:
  assumes "conn_inv lfd efd ds w hs ps" and "w g = None" "g \<noteq> lfd" "g \<noteq> efd" "g \<notin># ps"
  shows "conn_inv lfd efd (ds - {g}) w hs ps"
  using assms by (auto simp: conn_inv_def)

lemma conn_submit:
  assumes "conn_inv lfd efd ds w hs ps" and "w g = None" "g \<in> ds" "0 < g" "g \<noteq> lfd" "g \<noteq> efd" "g \<notin># ps"
  shows "conn_inv lfd efd ds w hs (add_mset g ps)"
  using assms by (auto simp: conn_inv_def not_in_iff)

lemma conn_done:
  assumes "conn_inv lfd efd ds w hs ps" and "g \<in># ps" and "ds - {g} \<subseteq> ds'" "ds' \<subseteq> ds"
  shows "conn_inv lfd efd ds' w hs (ps - {#g#})"
proof -
  have one: "count ps g = 1" using assms(1,2) by (metis antisym conn_inv_def count_greater_eq_one_iff)
  then have out: "g \<notin># ps - {#g#}" by (simp add: not_in_iff)
  have sub: "fd \<in># ps" if "fd \<in># ps - {#g#}" for fd using that by (rule in_diffD)
  have g: "w g = None" "g \<noteq> lfd" "g \<noteq> efd" using assms(1,2) by (auto simp: conn_inv_def)
  have "fd \<in> ds'" if "fd \<in># ps - {#g#}" for fd
    using that sub out assms(1,3) by (auto simp: conn_inv_def)
  moreover have "fd \<in> ds'" if "w fd = Some d" "fd \<noteq> lfd" for fd d
    using that g assms(1,3) by (auto simp: conn_inv_def)
  moreover have "lfd \<in> ds'" "efd \<in> ds'" using g assms(1,3) by (auto simp: conn_inv_def)
  moreover have "count (ps - {#g#}) fd \<le> 1" for fd
    using assms(1) by (auto simp: conn_inv_def intro: le_trans [OF diff_le_self])
  ultimately show ?thesis
    using assms(1) sub by (auto simp: conn_inv_def)
qed

text \<open>Events still to be handled are about watched descriptors, each of them once.\<close>

definition event_fds :: "epoll_event list \<Rightarrow> int list" where
  "event_fds es = map (data_fd \<circ> ev_data) es"

definition events_inv :: "(int \<Rightarrow> epoll_data option) \<Rightarrow> mayhem_pc \<Rightarrow> bool" where
  "events_inv w pc \<longleftrightarrow>
     (case pc of
        Mayhem_Events es \<Rightarrow> distinct (event_fds es) \<and> set (event_fds es) \<subseteq> dom w
      | Mayhem_Accept es \<Rightarrow> distinct (event_fds es) \<and> set (event_fds es) \<subseteq> dom w
      | _ \<Rightarrow> True)"

text \<open>
  The whole account. When the loop has returned, the listening socket and the epoll are closed, and
  nothing is watched any more.
\<close>

definition mayhem_inv ::
    "('q \<Rightarrow> 'k SocketStream HttpContext list \<Rightarrow> bool) \<Rightarrow> ('k \<Rightarrow> int set) \<Rightarrow> ('k \<Rightarrow> int \<Rightarrow> int \<Rightarrow> epoll_data option) \<Rightarrow>
     int \<Rightarrow> int \<Rightarrow> ('k, 'q) mayhem \<Rightarrow> bool" where
  "mayhem_inv contents owned watched lfd efd s \<longleftrightarrow>
     (\<exists>xss. pool_inv contents (mv_pool s) xss) \<and> mv_pc s \<noteq> Mayhem_Idle \<and>
     (if mv_pc s = Mayhem_Exited
      then mv_listenFd s = 0 \<and> mv_epollFd s = 0 \<and> lfd \<notin> owned (mv_system s) \<and> efd \<notin> owned (mv_system s) \<and>
        conn_inv lfd efd (insert lfd (insert efd (owned (mv_system s)))) Map.empty (mv_handles s)
          (context_fds (mv_pool s))
      else mv_listenFd s = lfd \<and> mv_epollFd s = efd \<and>
        conn_inv lfd efd (owned (mv_system s)) (watched (mv_system s) efd) (mv_handles s) (context_fds (mv_pool s)) \<and>
        events_inv (watched (mv_system s) efd) (mv_pc s))"

section \<open>Every step keeps the account\<close>

context stream_frame
begin

lemma builder_loop_keeps:
  assumes "rI (snd s)" and "builder_loop rd ch s = Some (oc, s')"
  shows "rI (snd s')"
proof -
  define P where "P rd' ch s res \<longleftrightarrow> (rd' = rd \<longrightarrow> rI (snd s) \<longrightarrow> rI (snd (snd res)))"
    for rd' and ch :: int and s :: "AsyncHttpRequestParser \<times> 's BufferedStreamReader"
      and res :: "int outcome \<times> AsyncHttpRequestParser \<times> 's BufferedStreamReader"
  have "P rd ch s (oc, s')"
    by (rule builder_loop.raw_induct [of P, OF _ assms(2)])
      (auto simp: P_def split: if_splits prod.splits outcome.splits dest!: Read_keeps [rotated])
  with assms(1) show ?thesis by (simp add: P_def)
qed

end

text \<open>A parse keeps the descriptor, and whatever a \<open>recv\<close> on it does not change.\<close>

lemma builder_Parse_frame:
  assumes "builder_Parse net b = Some (oc, b1)" and "J (builder_system b)"
    and "\<And>k n. J k \<Longrightarrow> J (snd (net_recv net k (builder_fd b) n))"
  shows "builder_fd b1 = builder_fd b \<and> J (builder_system b1)"
proof -
  let ?I = "\<lambda>s. ss_fd s = builder_fd b \<and> J (ss_kernel s)" and ?rd = "reader_Read (SocketStream_Read net)"
  have f: "stream_frame (SocketStream_Read net) ?I" by (rule socket_frame) (rule assms(3))
  obtain ch r where r: "?rd (cb_reader b) = (ch, r)" by fastforce
  have "?I (br_stream (cb_reader b))" using assms(2) by (simp add: builder_fd_def builder_system_def)
  note r1 = stream_frame.Read_keeps [OF f this r]
  obtain p r2 where l: "builder_loop ?rd ch (cb_parser b, r) = Some (oc, p, r2)" "b1 = b\<lparr>cb_parser := p, cb_reader := r2\<rparr>"
    using assms(1) r by (auto simp: builder_Parse_def split: option.splits)
  from stream_frame.builder_loop_keeps [OF f _ l(1)] r1 have "?I (br_stream r2)" by simp
  then show ?thesis by (simp add: l(2) builder_fd_def builder_system_def)
qed

definition mayhem_sys_env ::
    "'k sock_ops \<Rightarrow> 'k net_ops \<Rightarrow> 'k ep_ops \<Rightarrow> ('q \<Rightarrow> 'k SocketStream HttpContext \<Rightarrow> (bool \<times> 'q) option) \<Rightarrow>
     ('k, 'q) mayhem_env" where
  "mayhem_sys_env os net ep push = \<lparr>me_os = os, me_net = net, me_ep = ep, me_push = push\<rparr>"

lemma mayhem_sys_env_simps [simp]:
  "me_os (mayhem_sys_env os net ep push) = os" "me_net (mayhem_sys_env os net ep push) = net"
  "me_ep (mayhem_sys_env os net ep push) = ep" "me_push (mayhem_sys_env os net ep push) = push"
  by (simp_all add: mayhem_sys_env_def)

context epoll_os
begin

lemma Close_sets:
  "owned (snd (CloseSocket os fd k)) = owned k - {fd}"
  "e \<noteq> fd \<Longrightarrow> watched (snd (CloseSocket os fd k)) e = (watched k e)(fd := None)"
  by (simp_all add: CloseSocket_def close_gone close_watched)

lemma Monitor_sets:
  assumes "Mayhem_MonitorFd (mayhem_sys_env os net ep push) g s = (ok, s1)" and "mv_epollFd s = efd"
  shows "\<exists>k. s1 = s\<lparr>mv_system := k\<rparr> \<and> owned k = owned (mv_system s) \<and>
    watched k efd = (if ok then (watched (mv_system s) efd)(g \<mapsto> Data_fd g) else watched (mv_system s) efd)"
proof -
  let ?ev = "\<lparr>ev_events = EPOLLIN OR EPOLLET, ev_data = Data_fd g\<rparr>"
  obtain r k where c: "ep_ctl ep (mv_system s) efd EPOLL_CTL_ADD g (Some ?ev) = (r, k)" by fastforce
  have "owned k = owned (mv_system s)" using ctl_owned [of "mv_system s" efd EPOLL_CTL_ADD g "Some ?ev"] c by simp
  with assms ctl_add [OF c] c show ?thesis
    by (intro exI [of _ k]) (auto simp: Mayhem_MonitorFd_def epoll_Monitor_def)
qed

lemma Unmonitor_sets:
  "\<exists>u k. Mayhem_UnmonitorFd (mayhem_sys_env os net ep push) g s = (u, s\<lparr>mv_system := k\<rparr>) \<and> owned k = owned (mv_system s) \<and>
    watched k (mv_epollFd s) = (watched (mv_system s) (mv_epollFd s))(g := None)"
  using ctl_owned [of "mv_system s" "mv_epollFd s" EPOLL_CTL_DEL g None]
    ctl_del [of "mv_system s" "mv_epollFd s" g None]
  by (auto simp: Mayhem_UnmonitorFd_def epoll_Unmonitor_def split: prod.splits)

lemma parse_keeps:
  assumes "builder_Parse net (resume_builder k b) = Some (oc, b1)"
  shows "builder_fd b1 = builder_fd b" and "owned (builder_system b1) = owned k"
    and "watched (builder_system b1) = watched k"
proof -
  have b: "builder_fd (resume_builder k b) = builder_fd b" "builder_system (resume_builder k b) = k"
    by (simp_all add: resume_builder_def builder_fd_def builder_system_def)
  show "builder_fd b1 = builder_fd b" "owned (builder_system b1) = owned k" "watched (builder_system b1) = watched k"
    using builder_Parse_frame [OF assms, of "\<lambda>k'. owned k' = owned k \<and> watched k' = watched k"]
    by (simp_all add: b recv_owned recv_watched)
qed

end

locale mayhem_system = fifo: bounded_fifo push pop contents bound budget + epoll_os os owned net ep watched
  for push :: "'q \<Rightarrow> 'k SocketStream HttpContext \<Rightarrow> (bool \<times> 'q) option" and pop contents bound budget
    and os :: "'k sock_ops" and owned net ep watched +
  fixes run :: "'k SocketStream HttpContext \<Rightarrow> ('k, unit) action"
  assumes run_keeps: "run ctx k = Some (oc, k') \<Longrightarrow> 0 < ss_fd (BodyStream ctx) \<Longrightarrow>
    owned k - {ss_fd (BodyStream ctx)} \<subseteq> owned k' \<and> owned k' \<subseteq> owned k \<and>
    (e \<noteq> ss_fd (BodyStream ctx) \<longrightarrow>
      watched k' e = watched k e \<or> watched k' e = (watched k e)(ss_fd (BodyStream ctx) := None))"
begin

abbreviation env :: "('k, 'q) mayhem_env" where "env \<equiv> mayhem_sys_env os net ep push"

abbreviation inv :: "int \<Rightarrow> int \<Rightarrow> ('k, 'q) mayhem \<Rightarrow> bool" where "inv \<equiv> mayhem_inv contents owned watched"

abbreviation conn :: "int \<Rightarrow> int \<Rightarrow> ('k, 'q) mayhem \<Rightarrow> bool" where
  "conn lfd efd s \<equiv> conn_inv lfd efd (owned (mv_system s)) (watched (mv_system s) efd) (mv_handles s)
     (context_fds (mv_pool s))"

abbreviation room :: "('k, 'q) mayhem \<Rightarrow> bool" where
  "room s \<equiv> \<forall>q \<in> set (tp_workers (mv_pool s)). 0 < budget q"

text \<open>The account of a server whose loop has not returned.\<close>

definition live :: "int \<Rightarrow> int \<Rightarrow> ('k, 'q) mayhem \<Rightarrow> bool" where
  "live lfd efd s \<longleftrightarrow> (\<exists>xss. pool_inv contents (mv_pool s) xss) \<and> mv_listenFd s = lfd \<and> mv_epollFd s = efd \<and>
     conn lfd efd s"

lemma inv_live:
  assumes "mv_pc s \<noteq> Mayhem_Idle" and "mv_pc s \<noteq> Mayhem_Exited"
  shows "inv lfd efd s \<longleftrightarrow> live lfd efd s \<and> events_inv (watched (mv_system s) efd) (mv_pc s)"
  using assms by (auto simp: mayhem_inv_def live_def)

lemma live_pc: "live lfd efd (s\<lparr>mv_pc := pc\<rparr>) = live lfd efd s"
  by (simp add: live_def)

lemma Close_live:
  assumes "live lfd efd s" and "watched (mv_system s) efd g = None" "g \<noteq> lfd" "g \<noteq> efd"
    "g \<notin># context_fds (mv_pool s)"
  shows "live lfd efd (Mayhem_Close env g s) \<and>
    watched (mv_system (Mayhem_Close env g s)) efd = watched (mv_system s) efd"
proof -
  have w: "watched (snd (CloseSocket os g (mv_system s))) efd = watched (mv_system s) efd"
    using assms(2,4) Close_sets(2) [of efd g "mv_system s"] by (auto simp: fun_eq_iff)
  with assms conn_close [of lfd efd _ "watched (mv_system s) efd" _ _ g] show ?thesis
    by (auto simp: live_def Mayhem_Close_def Close_sets(1))
qed

lemma in_handles_iff: "conn lfd efd s \<Longrightarrow> in_handles fd s \<longleftrightarrow> 0 \<le> fd \<and> fd < MAX_FD"
  by (auto simp: in_handles_def conn_inv_def)

lemma set_live:
  assumes "live lfd efd s" and "0 \<le> g" "g < MAX_FD" and "\<And>b. h = Some b \<Longrightarrow> builder_fd b = g"
    and "h = None \<Longrightarrow> watched (mv_system s) efd g = None \<or> g = lfd"
  shows "live lfd efd (set_handle g h s)"
    and "set_handle g h s = s\<lparr>mv_handles := (mv_handles s)[nat g := h]\<rparr>"
proof -
  have "in_handles g s" using assms(1-3) in_handles_iff [of lfd efd s g] by (simp add: live_def)
  then show eq: "set_handle g h s = s\<lparr>mv_handles := (mv_handles s)[nat g := h]\<rparr>" by (simp add: set_handle_def)
  show "live lfd efd (set_handle g h s)"
    using assms(1) conn_set [of lfd efd "owned (mv_system s)" "watched (mv_system s) efd" "mv_handles s" _ g h] assms(2-5)
    by (auto simp: eq live_def)
qed

lemma system_live:
  assumes "live lfd efd s" and "owned k = owned (mv_system s)" and "watched k efd = watched (mv_system s) efd"
  shows "live lfd efd (s\<lparr>mv_system := k\<rparr>)"
  using assms by (simp add: live_def)

text \<open>A connection that is monitored (or closed at once) and given its builder.\<close>

lemma new_connection_inv:
  assumes l: "live lfd efd s" and ev: "events_inv (watched (mv_system s) efd) (mv_pc s)"
    and pc: "mv_pc s = Mayhem_Accept es"
    and g: "0 < g" "g < MAX_FD" "g \<in> owned (mv_system s)" "g \<noteq> lfd" "g \<noteq> efd" "g \<notin># context_fds (mv_pool s)"
      "watched (mv_system s) efd g = None"
    and m: "Mayhem_MonitorFd env g s = (m, s2)" and s3: "s3 = (if m then s2 else Mayhem_Close env g s2)"
    and b: "builder_fd b = g"
  shows "inv lfd efd (set_handle g (Some b) s3)"
proof -
  have lf: "mv_listenFd s = lfd" "mv_epollFd s = efd" and c: "conn lfd efd s" using l by (simp_all add: live_def)
  from Monitor_sets [OF m lf(2)] obtain k where k: "s2 = s\<lparr>mv_system := k\<rparr>" "owned k = owned (mv_system s)"
    "watched k efd = (if m then (watched (mv_system s) efd)(g \<mapsto> Data_fd g) else watched (mv_system s) efd)"
    by blast
  show ?thesis
  proof (cases m)
    case False
    then have "live lfd efd s2" using l k by (auto intro: system_live)
    with Close_live [OF this, of g] False g k have l3: "live lfd efd s3"
      "watched (mv_system s3) efd = watched (mv_system s) efd" by (simp_all add: s3)
    from set_live [OF l3(1), of g "Some b"] g b
    have "live lfd efd (set_handle g (Some b) s3)"
      "set_handle g (Some b) s3 = s3\<lparr>mv_handles := (mv_handles s3)[nat g := Some b]\<rparr>" by simp_all
    moreover have "mv_pc s3 = mv_pc s" using False k by (simp add: s3 Mayhem_Close_def)
    ultimately show ?thesis using ev l3(2) pc by (simp add: inv_live)
  next
    case True
    let ?hs = "(mv_handles s)[nat g := Some b]" and ?w = "watched (mv_system s) efd"
    from set_live [OF l, of g "Some b"] g b have "live lfd efd (s\<lparr>mv_handles := ?hs\<rparr>)" by simp
    then have c1: "conn_inv lfd efd (owned (mv_system s)) ?w ?hs (context_fds (mv_pool s))" by (simp add: live_def)
    have len: "nat g < length (mv_handles s)" using c g(1,2) by (simp add: conn_inv_def)
    then have "?hs ! nat g \<noteq> None" by simp
    then have c2: "conn_inv lfd efd (owned k) (?w(g \<mapsto> Data_fd g)) ?hs (context_fds (mv_pool s))"
      unfolding k(2) by (rule conn_watch [OF c1 g(3,1,2,4-6)])
    have "set_handle g (Some b) s3 = s3\<lparr>mv_handles := ?hs\<rparr>"
      using True k g(1) len by (simp add: s3 set_handle_def in_handles_def)
    moreover have "events_inv (?w(g \<mapsto> Data_fd g)) (mv_pc s)"
      using ev pc by (auto simp: events_inv_def)
    ultimately show ?thesis using c2 l k True pc by (simp add: s3 inv_live live_def)
  qed
qed

lemma accept_inv:
  assumes inv: "inv lfd efd s" and pc: "mv_pc s = Mayhem_Accept es"
  shows "inv lfd efd (Mayhem_accept env es s)"
proof -
  have l: "live lfd efd s" and ev: "events_inv (watched (mv_system s) efd) (Mayhem_Events es)"
    "events_inv (watched (mv_system s) efd) (Mayhem_Accept es)"
    using inv pc by (simp_all add: inv_live events_inv_def)
  obtain ok data k where a: "AcceptSocket os lfd (mv_system s) = (ok, data, k)" by (metis prod_cases3)
  let ?g = "SocketFd data" and ?s1 = "s\<lparr>mv_system := k\<rparr>"
  have w: "watched k = watched (mv_system s)" using AcceptSocket_watched [of lfd "mv_system s"] a by simp
  note own = AcceptSocket_owned [OF a]
  have lf: "mv_listenFd s = lfd" "mv_epollFd s = efd" and c: "conn lfd efd s" using l by (simp_all add: live_def)
  have "owned (mv_system s) \<subseteq> owned k" using own by (auto split: if_splits)
  with l w have l1: "live lfd efd ?s1" by (auto simp: live_def intro: conn_grow)
  show ?thesis
  proof (cases ok)
    case False
    then have "Mayhem_accept env es s = ?s1\<lparr>mv_pc := Mayhem_Events es\<rparr>"
      using a lf by (simp add: Mayhem_accept_def)
    with l1 ev w show ?thesis by (simp add: inv_live live_pc)
  next
    case True
    have g: "0 < ?g" "?g \<notin> owned (mv_system s)" "?g \<in> owned k" using own True by simp_all
    with c have g': "?g \<noteq> lfd" "?g \<noteq> efd" "?g \<notin># context_fds (mv_pool s)" "watched k efd ?g = None"
      unfolding w by (auto simp: conn_inv_def) (metis not_None_eq)
    show ?thesis
    proof (cases "?g \<ge> MAX_FD")
      case True
      then have "Mayhem_accept env es s = (Mayhem_Close env ?g ?s1)\<lparr>mv_pc := Mayhem_Events es\<rparr>"
        using a lf \<open>ok\<close> by (simp add: Mayhem_accept_def)
      moreover have "live lfd efd (Mayhem_Close env ?g ?s1) \<and>
          watched (mv_system (Mayhem_Close env ?g ?s1)) efd = watched k efd"
        using Close_live [OF l1, of ?g] g' by simp
      ultimately show ?thesis using ev w by (simp add: inv_live live_pc)
    next
      case False
      obtain m s2 where m: "Mayhem_MonitorFd env ?g ?s1 = (m, s2)" by fastforce
      define s3 where "s3 = (if m then s2 else Mayhem_Close env ?g s2)"
      have "Mayhem_accept env es s = set_handle ?g (Some (AsyncHttpContextBuilder_new data (mv_system s3))) s3"
        using a lf \<open>ok\<close> False m by (simp add: Mayhem_accept_def s3_def Let_def)
      moreover have "builder_fd (AsyncHttpContextBuilder_new data k') = ?g" for k' :: 'k
        by (simp add: builder_fd_def AsyncHttpContextBuilder_new_def BufferedStreamReader_new_def SocketStream_new_def)
      moreover have "inv lfd efd (set_handle ?g (Some b) s3)" if "builder_fd b = ?g" for b :: "'k AsyncHttpContextBuilder"
        by (rule new_connection_inv [OF l1 _ _ g(1) _ _ g'(1,2) _ _ m s3_def that])
          (use False g ev pc w g' in simp_all)
      ultimately show ?thesis by simp
    qed
  qed
qed

text \<open>The three ways of a parse: its descriptor is closed, handed to the pool, or watched as before.\<close>

lemma drop_connection_live:
  assumes l: "live lfd efd s" and g: "0 < g" "g < MAX_FD" "g \<noteq> lfd" "g \<noteq> efd" "g \<notin># context_fds (mv_pool s)"
  shows "\<exists>k. set_handle g None (Mayhem_Close env g s) =
      s\<lparr>mv_system := k, mv_handles := (mv_handles s)[nat g := None]\<rparr> \<and>
    watched k efd = (watched (mv_system s) efd)(g := None) \<and>
    live lfd efd (s\<lparr>mv_system := k, mv_handles := (mv_handles s)[nat g := None]\<rparr>)"
proof -
  define k where "k = snd (CloseSocket os g (mv_system s))"
  have w: "watched k efd = (watched (mv_system s) efd)(g := None)" and o: "owned k = owned (mv_system s) - {g}"
    using Close_sets(1) [of g "mv_system s"] Close_sets(2) [of efd g "mv_system s"] g(4) by (simp_all add: k_def)
  have cl: "Mayhem_Close env g s = s\<lparr>mv_system := k\<rparr>" by (simp add: Mayhem_Close_def k_def)
  have "conn lfd efd s" using l by (simp add: live_def)
  from conn_close [OF conn_unwatch [OF this, of g] _ g(3-5)]
  have l1: "live lfd efd (s\<lparr>mv_system := k\<rparr>)" using l by (simp add: live_def w o)
  show ?thesis
    using set_live [OF l1, of g None] g w by (intro exI [of _ k]) (simp add: cl)
qed

lemma submit_live:
  assumes l: "live lfd efd s" and r: "room s" and b: "builder_fd b = g"
    and g: "0 < g" "g < MAX_FD" "g \<noteq> lfd" "g \<noteq> efd" "g \<notin># context_fds (mv_pool s)" "g \<in> owned (mv_system s)"
    and run: "Mayhem_submit env g b s = Some s'"
  shows "live lfd efd s' \<and> mv_pc s' = mv_pc s \<and>
    watched (mv_system s') efd = (watched (mv_system s) efd)(g := None)"
proof -
  have lf: "mv_epollFd s = efd" using l by (simp add: live_def)
  obtain u k where u: "Mayhem_UnmonitorFd env g s = (u, s\<lparr>mv_system := k\<rparr>)" "owned k = owned (mv_system s)"
    "watched k efd = (watched (mv_system s) efd)(g := None)"
    using Unmonitor_sets [of push g s] unfolding lf by blast
  let ?ctx = "DecorateContext ''Mayhem'' (builder_GetContext b)"
  let ?b = "b\<lparr>cb_response := Response ?ctx\<rparr>" and ?hs = "(mv_handles s)[nat g := Some (b\<lparr>cb_response := Response ?ctx\<rparr>)]"
  let ?s2 = "s\<lparr>mv_system := k, mv_handles := ?hs\<rparr>"
  have "conn lfd efd s" using l by (simp add: live_def)
  from conn_unwatch [OF this, of g] have l1: "live lfd efd (s\<lparr>mv_system := k\<rparr>)"
    using l u by (simp add: live_def)
  have "builder_fd ?b = g" using b by (simp add: builder_fd_def)
  with set_live [OF l1, of g "Some ?b"] g have s2: "set_handle g (Some ?b) (s\<lparr>mv_system := k\<rparr>) = ?s2" "live lfd efd ?s2"
    by simp_all
  obtain xss where p: "pool_inv contents (mv_pool s) xss" using l by (auto simp: live_def)
  obtain ok tp xss' where sub: "ThreadPool_Submit push ?ctx (mv_pool s) = Some (ok, tp)" "pool_inv contents tp xss'"
    using fifo.Submit_result [OF p r refl, of ?ctx] by blast
  have fd: "ss_fd (BodyStream ?ctx) = g"
    using b by (simp add: builder_fd_def DecorateContext_def builder_GetContext_def)
  have pend: "context_fds tp = (if ok then add_mset g (context_fds (mv_pool s)) else context_fds (mv_pool s))"
    using pending_Submit [OF sub(1) p] fd by (simp add: context_fds_def)
  have s': "s' = (if ok then ?s2\<lparr>mv_pool := tp\<rparr> else set_handle g None (Mayhem_Close env g (?s2\<lparr>mv_pool := tp\<rparr>)))"
    using run u s2(1) sub(1) by (simp add: Mayhem_submit_def Let_def)
  show ?thesis
  proof (cases ok)
    case True
    have "conn_inv lfd efd (owned k) (watched k efd) ?hs (context_fds (mv_pool s))"
      using s2(2) by (simp add: live_def)
    from conn_submit [OF this _ _ g(1,3-5)] True pend sub(2) s2(2) u g(6) show ?thesis
      by (auto simp: s' live_def)
  next
    case False
    with s2(2) pend sub(2) have "live lfd efd (?s2\<lparr>mv_pool := tp\<rparr>)" by (auto simp: live_def)
    from drop_connection_live [OF this g(1-4)] g(5) False pend u show ?thesis by (auto simp: s')
  qed
qed

lemma event_handle:
  assumes "live lfd efd s" and "fd \<in> dom (watched (mv_system s) efd)" and "fd \<noteq> lfd"
  shows "0 < fd \<and> fd < MAX_FD \<and> fd \<in> owned (mv_system s) \<and> fd \<noteq> efd \<and> fd \<notin># context_fds (mv_pool s) \<and>
    in_handles fd s \<and> (\<exists>b. mv_handles s ! nat fd = Some b \<and> builder_fd b = fd)"
proof -
  have c: "conn lfd efd s" using assms(1) by (simp add: live_def)
  obtain d where d: "watched (mv_system s) efd fd = Some d" using assms(2) by blast
  have fd: "0 < fd" "fd < MAX_FD" "fd \<in> owned (mv_system s)" "fd \<noteq> efd" "mv_handles s ! nat fd \<noteq> None"
    using c d assms(3) by (simp_all add: conn_inv_def)
  moreover have "fd \<notin># context_fds (mv_pool s)" using c d by (auto simp: conn_inv_def)
  moreover have "builder_fd b = fd" if "mv_handles s ! nat fd = Some b" for b
    using c fd(1,2) that by (simp add: conn_inv_def)
  ultimately show ?thesis using in_handles_iff [OF c, of fd] by auto
qed

lemma parse_live:
  assumes l: "live lfd efd s" and r: "room s" and g: "g \<in> dom (watched (mv_system s) efd)" "g \<noteq> lfd"
    and run: "Mayhem_parse env g s = Some s'"
  shows "live lfd efd s' \<and> (mv_pc s' = mv_pc s \<or> (\<exists>e. mv_pc s' = Mayhem_Threw e)) \<and>
    (watched (mv_system s') efd = watched (mv_system s) efd \<or>
     watched (mv_system s') efd = (watched (mv_system s) efd)(g := None))"
proof -
  note fd = event_handle [OF l g]
  then obtain b where b: "in_handles g s" "mv_handles s ! nat g = Some b" "builder_fd b = g" by blast
  then obtain oc b1 where p: "builder_Parse net (resume_builder (mv_system s) b) = Some (oc, b1)"
    using run by (auto simp: Mayhem_parse_def split: option.splits)
  note keep = parse_keeps [OF p]
  let ?s0 = "s\<lparr>mv_system := builder_system b1\<rparr>" and ?hs = "(mv_handles s)[nat g := Some b1]"
  have l0: "live lfd efd ?s0" using l keep by (intro system_live) simp_all
  with set_live [OF l0, of g "Some b1"] fd b(3) keep(1)
  have s1: "set_handle g (Some b1) ?s0 = ?s0\<lparr>mv_handles := ?hs\<rparr>" "live lfd efd (?s0\<lparr>mv_handles := ?hs\<rparr>)"
    by simp_all
  show ?thesis
  proof (cases oc)
    case (Raise e)
    then have "s' = ?s0\<lparr>mv_handles := ?hs, mv_pc := Mayhem_Threw e\<rparr>"
      using run b p s1(1) by (simp add: Mayhem_parse_def Let_def)
    with s1(2) keep show ?thesis by (simp add: live_pc)
  next
    case (Ret v)
    have run1: "(if v = 1 then Mayhem_submit env g b1 (?s0\<lparr>mv_handles := ?hs\<rparr>)
        else if v < 0 then Some (set_handle g None (Mayhem_Close env g (?s0\<lparr>mv_handles := ?hs\<rparr>)))
        else Some (?s0\<lparr>mv_handles := ?hs\<rparr>)) = Some s'"
      unfolding s1(1) [symmetric] using run b p Ret by (simp add: Mayhem_parse_def Let_def)
    show ?thesis
    proof (cases "v = 1")
      case True
      from submit_live [OF s1(2) _ _ _ _ g(2), of b1 s'] run1 True r fd b(3) keep show ?thesis by auto
    next
      case False
      show ?thesis
      proof (cases "v < 0")
        case True
        from drop_connection_live [OF s1(2), of g] g(2) fd obtain k where
          "set_handle g None (Mayhem_Close env g (?s0\<lparr>mv_handles := ?hs\<rparr>)) =
            ?s0\<lparr>mv_system := k, mv_handles := ?hs[nat g := None]\<rparr>"
          "watched k efd = (watched (builder_system b1) efd)(g := None)"
          "live lfd efd (?s0\<lparr>mv_system := k, mv_handles := ?hs[nat g := None]\<rparr>)" by auto
        moreover have "s' = set_handle g None (Mayhem_Close env g (?s0\<lparr>mv_handles := ?hs\<rparr>))"
          using run1 True False by simp
        ultimately show ?thesis using keep by simp
      next
        case nonneg: False
        with run1 False have "s' = ?s0\<lparr>mv_handles := ?hs\<rparr>" by simp
        with s1(2) keep show ?thesis by simp
      qed
    qed
  qed
qed

lemma closing_inv:
  assumes "inv lfd efd s" and "mv_pc s = Mayhem_Closing"
  shows "inv lfd efd ((Mayhem_CloseEpoll env (Mayhem_CloseSocket env s))\<lparr>mv_pc := Mayhem_Exited\<rparr>)"
proof -
  have l: "live lfd efd s" using assms by (simp add: inv_live)
  then have c: "conn lfd efd s" and lf: "mv_listenFd s = lfd" "mv_epollFd s = efd" by (simp_all add: live_def)
  have nz: "lfd \<noteq> 0" "efd \<noteq> 0" "lfd \<in> owned (mv_system s)" "efd \<in> owned (mv_system s)"
    using c by (simp_all add: conn_inv_def)
  define k where "k = snd (ep_close ep (snd (CloseSocket os lfd (mv_system s))) efd)"
  have s': "Mayhem_CloseEpoll env (Mayhem_CloseSocket env s) =
      s\<lparr>mv_system := k, mv_listenFd := 0, mv_epollFd := 0\<rparr>"
    using lf nz by (simp add: Mayhem_CloseEpoll_def Mayhem_CloseSocket_def epoll_Close_def k_def split: prod.splits)
  have o: "owned k = owned (mv_system s) - {lfd} - {efd}"
    by (simp add: k_def ep_close_owned Close_sets(1))
  then have "insert lfd (insert efd (owned k)) = owned (mv_system s)" using nz by auto
  moreover have "conn_inv lfd efd (owned (mv_system s)) Map.empty (mv_handles s) (context_fds (mv_pool s))"
    using c by (simp add: conn_inv_def)
  ultimately show ?thesis using l o by (simp add: s' mayhem_inv_def live_def)
qed

lemma wait_inv:
  assumes "inv lfd efd s" and "mv_pc s = Mayhem_Wait" and "Mayhem_step env s = Some s'"
  shows "inv lfd efd s'"
proof -
  have l: "live lfd efd s" using assms(1,2) by (simp add: inv_live)
  then have "watches_by_fd (mv_system s) efd" by (simp add: live_def conn_inv_def watches_by_fd_def)
  moreover obtain cnt evs k where w: "epoll_Wait ep efd MAX_EVENTS 5000 (mv_system s) = (cnt, evs, k)"
    by (metis prod_cases3)
  ultimately have k: "owned k = owned (mv_system s)" "watched k = watched (mv_system s)"
    "distinct (event_fds (take (nat cnt) evs))" "set (event_fds (take (nat cnt) evs)) \<subseteq> dom (watched k efd)"
    using wait_reports [of efd MAX_EVENTS 5000 "mv_system s" cnt evs k] by (simp_all add: event_fds_def)
  have l1: "live lfd efd (s\<lparr>mv_system := k\<rparr>)" using l k(1,2) by (intro system_live) simp_all
  define r where "r = (if cnt = - 1 then False else mv_isRunning s)"
  have "s' = s\<lparr>mv_system := k, mv_pc := Mayhem_Events (take (nat cnt) evs), mv_isRunning := r\<rparr>"
    using assms(2,3) l w by (auto simp: Mayhem_step_def Mayhem_Stop_def live_def Let_def r_def)
  then show ?thesis using l1 k(3,4) by (simp add: inv_live live_def events_inv_def)
qed

lemma event_inv:
  assumes "inv lfd efd s" and pc: "mv_pc s = Mayhem_Events (e # es)" and "room s"
    and step: "Mayhem_step env s = Some s'"
  shows "inv lfd efd s'"
proof -
  have l: "live lfd efd s" and ev: "events_inv (watched (mv_system s) efd) (Mayhem_Events (e # es))"
    using assms(1) pc by (simp_all add: inv_live)
  then have lf: "mv_listenFd s = lfd" by (simp add: live_def)
  let ?fd = "data_fd (ev_data e)" and ?w = "watched (mv_system s) efd"
  have es: "distinct (event_fds es)" "set (event_fds es) \<subseteq> dom ?w" "?fd \<notin> set (event_fds es)" "?fd \<in> dom ?w"
    using ev by (simp_all add: events_inv_def event_fds_def)
  show ?thesis
  proof (cases "?fd = lfd")
    case True
    then have "s' = s\<lparr>mv_pc := Mayhem_Accept es\<rparr>" using step pc lf by (simp add: Mayhem_step_def)
    with l es show ?thesis by (simp add: inv_live live_pc events_inv_def)
  next
    case other: False
    show ?thesis
    proof (cases "ev_events e AND EPOLLIN \<noteq> 0")
      case False
      then have "s' = s\<lparr>mv_pc := Mayhem_Events es\<rparr>" using step pc lf other by (simp add: Mayhem_step_def)
      with l es show ?thesis by (simp add: inv_live live_pc events_inv_def)
    next
      case True
      let ?s0 = "s\<lparr>mv_pc := Mayhem_Events es\<rparr>"
      have run: "Mayhem_parse env ?fd ?s0 = Some s'" using step pc lf other True by (simp add: Mayhem_step_def)
      have "live lfd efd ?s0" using l by (simp add: live_pc)
      from parse_live [OF this _ _ other run] assms(3) es(4)
      have s': "live lfd efd s'" "mv_pc s' = Mayhem_Events es \<or> (\<exists>e. mv_pc s' = Mayhem_Threw e)"
        "watched (mv_system s') efd = ?w \<or> watched (mv_system s') efd = ?w(?fd := None)" by simp_all
      then have "set (event_fds es) \<subseteq> dom (watched (mv_system s') efd)" using es by auto
      with s'(1,2) es(1) show ?thesis by (auto simp: inv_live events_inv_def)
    qed
  qed
qed

lemma serve_inv:
  assumes "inv lfd efd s" and "room s" and "Mayhem_step env s = Some s'"
  shows "inv lfd efd s'"
proof (cases "mv_pc s")
  case (Mayhem_Events es)
  show ?thesis
  proof (cases es)
    case Nil
    then have "s' = s\<lparr>mv_pc := Mayhem_Loop\<rparr>" using assms(3) Mayhem_Events by (simp add: Mayhem_step_def)
    with assms(1) Mayhem_Events show ?thesis by (simp add: inv_live live_pc events_inv_def)
  qed (use event_inv [OF assms(1) _ assms(2,3)] Mayhem_Events in simp)
next
  case (Mayhem_Accept es)
  with accept_inv [OF assms(1)] assms(3) show ?thesis by (simp add: Mayhem_step_def)
next
  case Mayhem_Closing
  with closing_inv [OF assms(1)] assms(3) show ?thesis by (simp add: Mayhem_step_def)
next
  case Mayhem_Wait
  with wait_inv [OF assms(1) _ assms(3)] show ?thesis by simp
next
  case Mayhem_Loop
  then have "s' = s\<lparr>mv_pc := if mv_isRunning s then Mayhem_Wait else Mayhem_Closing\<rparr>"
    using assms(3) by (simp add: Mayhem_step_def)
  with assms(1) Mayhem_Loop show ?thesis by (simp add: inv_live live_pc events_inv_def)
qed (use assms in \<open>simp_all add: Mayhem_step_def\<close>)

lemma pool_part:
  assumes "inv lfd efd s" and "pool_inv contents tp xss" and "context_fds tp = context_fds (mv_pool s)"
  shows "inv lfd efd (s\<lparr>mv_pool := tp\<rparr>)"
  using assms by (auto simp: mayhem_inv_def)

lemma handled_inv:
  assumes inv: "inv lfd efd s" and i: "i < tp_threads (mv_pool s)" "tp_pcs (mv_pool s) ! i = W_Task ctx"
    and k: "run ctx (mv_system s) = Some (Ret (), k)" and r: "Worker_Routine pop i (mv_pool s) = Some tp"
  shows "inv lfd efd (s\<lparr>mv_system := k, mv_pool := tp\<rparr>)"
proof -
  let ?g = "ss_fd (BodyStream ctx)"
  obtain xss where p: "pool_inv contents (mv_pool s) xss" using inv by (auto simp: mayhem_inv_def)
  have d: "ctx \<in># pending_tasks (mv_pool s)" by (rule pending_task [OF p i])
  then have g: "?g \<in># context_fds (mv_pool s)" by (auto simp: context_fds_def)
  obtain xss' where p': "pool_inv contents tp xss'" using fifo.Routine_inv [OF p i(1)] r by auto
  have pend: "context_fds tp = context_fds (mv_pool s) - {#?g#}"
    using pending_Routine [OF r] i(2) d by (simp add: context_fds_def task_of_def image_mset_Diff)
  show ?thesis
  proof (cases "mv_pc s = Mayhem_Exited")
    case True
    let ?ds = "\<lambda>k. insert lfd (insert efd (owned k))"
    have c: "conn_inv lfd efd (?ds (mv_system s)) Map.empty (mv_handles s) (context_fds (mv_pool s))"
      and out: "lfd \<notin> owned (mv_system s)" "efd \<notin> owned (mv_system s)"
      using inv True by (simp_all add: mayhem_inv_def)
    have "0 < ?g" "?g \<noteq> lfd" "?g \<noteq> efd" using c g by (simp_all add: conn_inv_def)
    with run_keeps [OF k] have "owned (mv_system s) - {?g} \<subseteq> owned k" "owned k \<subseteq> owned (mv_system s)" by simp_all
    then have "?ds (mv_system s) - {?g} \<subseteq> ?ds k" "?ds k \<subseteq> ?ds (mv_system s)" "lfd \<notin> owned k" "efd \<notin> owned k"
      using out by auto
    with conn_done [OF c g, of "?ds k"] p' inv True show ?thesis by (auto simp: mayhem_inv_def pend)
  next
    case False
    then have l: "live lfd efd s" and ev: "events_inv (watched (mv_system s) efd) (mv_pc s)"
      and idle: "mv_pc s \<noteq> Mayhem_Idle"
      using inv inv_live by (auto simp: mayhem_inv_def)
    then have c: "conn lfd efd s" by (simp add: live_def)
    then have g': "0 < ?g" "efd \<noteq> ?g" "watched (mv_system s) efd ?g = None" using g by (auto simp: conn_inv_def)
    note keep = run_keeps [OF k g'(1), of efd]
    then have w: "watched k efd = watched (mv_system s) efd" using g'(2,3) by (auto simp: fun_eq_iff)
    from keep conn_done [OF c g, of "owned k"] l p' ev w idle False show ?thesis
      by (auto simp: inv_live live_def pend)
  qed
qed

lemma step_inv:
  assumes "mayhem_step env pop run (\<lambda>q. 0 < budget q) s (Some s')" and inv: "inv lfd efd s"
  shows "inv lfd efd s'"
  using assms(1)
proof (cases rule: mayhem_step.cases)
  case loop
  then show ?thesis by (intro serve_inv [OF inv]) auto
next
  case stop
  with inv show ?thesis by (simp add: Mayhem_Stop_def mayhem_inv_def)
next
  case (work i tp)
  obtain xss where p: "pool_inv contents (mv_pool s) xss" using inv by (auto simp: mayhem_inv_def)
  from fifo.Routine_inv [OF p work(2)] work(4) obtain xss' where p': "pool_inv contents tp xss'" by auto
  have "context_fds tp = context_fds (mv_pool s)"
    using pending_Routine [OF work(4)] work(3) by (simp add: context_fds_def)
  with pool_part [OF inv p'] work(1) show ?thesis by simp
next
  case (handled i ctx k tp)
  with handled_inv [OF inv handled(2-5)] show ?thesis by simp
next
  case (stop_worker i)
  obtain xss where p: "pool_inv contents (mv_pool s) xss" using inv by (auto simp: mayhem_inv_def)
  have "context_fds (Worker_Stop i (mv_pool s)) = context_fds (mv_pool s)"
    by (simp add: context_fds_def pending_tasks_def Worker_Stop_def)
  moreover have "pool_inv contents (Worker_Stop i (mv_pool s)) xss"
    using p by (auto simp: pool_inv_def Worker_Stop_def)
  ultimately show ?thesis using pool_part [OF inv] stop_worker(1) by auto
qed

lemma run_inv:
  assumes "mayhem_run env pop run (\<lambda>q. 0 < budget q) s s'" and "inv lfd efd s"
  shows "inv lfd efd s'"
  using assms by (induction rule: mayhem_run.induct) (auto intro: step_inv)

lemma started_inv:
  assumes start: "Mayhem_StartAsync env port cb s = (Ret True, s1)"
    and pool: "pool_inv contents (mv_pool s) xss" "pending_tasks (mv_pool s) = {#}"
    and hs: "mv_handles s = replicate (nat MAX_FD) None"
  shows "inv (mv_listenFd s1) (mv_epollFd s1) s1"
proof -
  obtain u s2 where o: "Mayhem_OpenSocket env port s = (Ret u, s2)" "mv_listenFd s2 \<noteq> 0"
    using start by (auto simp: Mayhem_StartAsync_def split: if_splits prod.splits outcome.splits)
  obtain lfd k where f: "OpenSocket os port False (mv_system s) = (Ret lfd, k)" "\<not> lfd < 0" "lfd \<noteq> 0"
      "s2 = s\<lparr>mv_system := k, mv_listenFd := lfd\<rparr>"
    using o by (auto simp: Mayhem_OpenSocket_def split: prod.splits outcome.splits if_splits)
  obtain efd k1 where c: "ep_create1 ep k = (efd, k1)" by fastforce
  let ?s3 = "Mayhem_OpenEpoll env s2"
  have s3: "?s3 = s2\<lparr>mv_system := k1, mv_epollFd := (if efd = - 1 then 0 else efd)\<rparr>"
    using f(4) c by (simp add: Mayhem_OpenEpoll_def epoll_Create_def)
  let ?ev = "\<lparr>ev_events = EPOLLIN, ev_data = Data_fd lfd\<rparr>"
  obtain r k2 where m: "ep_ctl ep k1 efd EPOLL_CTL_ADD lfd (Some ?ev) = (r, k2)" by fastforce
  have ok: "mv_epollFd ?s3 \<noteq> 0"
    using start o by (auto simp: Mayhem_StartAsync_def Let_def split: if_splits)
  then have efd: "efd \<noteq> - 1" "efd \<noteq> 0" "mv_epollFd ?s3 = efd" by (simp_all add: s3 split: if_splits)
  have s3': "Mayhem_OpenEpoll env (s\<lparr>mv_system := k, mv_listenFd := lfd\<rparr>) =
      s\<lparr>mv_system := k1, mv_listenFd := lfd, mv_epollFd := efd\<rparr>"
    using s3 f(4) efd(1) by simp
  have s1: "r = 0" "s1 = s\<lparr>mv_system := k2, mv_listenFd := lfd, mv_epollFd := efd, mv_isRunning := True,
      mv_pc := Mayhem_Loop\<rparr>"
    using start o(1) f(3,4) efd(2) m
    by (auto simp: Mayhem_StartAsync_def epoll_Monitor_def Let_def s3' split: if_splits)
  have own: "lfd \<in> owned k" using OpenSocket_owned [OF f(1)] f(2) by simp
  from create_new [OF c] efd(1) have k1: "efd \<notin> owned k" "owned k1 = insert efd (owned k)" "watched k1 efd = Map.empty"
    by simp_all
  have k2: "owned k2 = owned k1" "watched k2 efd = [lfd \<mapsto> Data_fd lfd]"
    using ctl_owned [of k1 efd EPOLL_CTL_ADD lfd "Some ?ev"] m ctl_add [OF m] s1(1) k1(3) by simp_all
  have "replicate (nat MAX_FD) None ! nat fd = None" if "0 \<le> fd" "fd < MAX_FD" for fd using that by simp
  then have "conn_inv lfd efd (owned k2) (watched k2 efd) (mv_handles s) {#}"
    using own k1 f(3) efd(2) by (auto simp: conn_inv_def k2 hs)
  with s1 pool show ?thesis by (auto simp: inv_live live_def events_inv_def context_fds_def)
qed

end

section \<open>The server over the real queues and dispatcher\<close>

text \<open>What a task keeps: everything that neither a write nor a handler of its connection changes, up to the close.\<close>

lemma RunContext_frame:
  assumes "RunContext (Dispatch (SocketStream_Write net) (SocketStream_Close net) iter d) ctx k = Some (oc, k')"
    and "\<And>k bs. J k \<Longrightarrow> J (snd (net_send net k (ss_fd (BodyStream ctx)) bs))"
    and "handlers_keep (\<lambda>s. ss_fd s = ss_fd (BodyStream ctx) \<and> J (ss_kernel s)) d"
    and "0 < ss_fd (BodyStream ctx)" and "J k"
  shows "case oc of
      Ret u \<Rightarrow> \<exists>k2. J k2 \<and> k' = snd (net_close net k2 (ss_fd (BodyStream ctx)))
    | Raise e \<Rightarrow> J k'"
proof -
  let ?ctx = "ctx\<lparr>BodyStream := (BodyStream ctx)\<lparr>ss_kernel := k\<rparr>\<rparr>"
  obtain ctx' where d: "Dispatch (SocketStream_Write net) (SocketStream_Close net) iter d ?ctx = Some (oc, ctx')"
    "k' = ss_kernel (BodyStream ctx')"
    using assms(1) by (auto simp: RunContext_def split: option.splits)
  from Dispatch_frame [OF d(1) assms(2,3) _ assms(4)] assms(5) show ?thesis by (simp add: d(2) split: outcome.splits)
qed

text \<open>A mayhem server whose handlers leave the descriptors and the interest lists alone.\<close>

locale epoll_handlers = epoll_os os owned net ep watched
  for os :: "'k sock_ops" and owned net ep watched +
  fixes d :: "'k SocketStream RequestDispatcher" and iter :: "headers \<Rightarrow> headers"
  assumes handlers: "handlers_keep (\<lambda>s. ss_fd s = fd \<and> owned (ss_kernel s) = X \<and> watched (ss_kernel s) = Y) d"
begin

abbreviation dispatch :: "('k SocketStream HttpContext, unit) action" where
  "dispatch \<equiv> Dispatch (SocketStream_Write net) (SocketStream_Close net) iter d"

lemma RunContext_keeps:
  assumes "RunContext dispatch ctx k = Some (oc, k')" and g: "0 < ss_fd (BodyStream ctx)"
  shows "owned k - {ss_fd (BodyStream ctx)} \<subseteq> owned k' \<and> owned k' \<subseteq> owned k \<and>
    (e \<noteq> ss_fd (BodyStream ctx) \<longrightarrow>
      watched k' e = watched k e \<or> watched k' e = (watched k e)(ss_fd (BodyStream ctx) := None))"
  using RunContext_frame [OF assms(1) _ handlers g, of "owned k" "watched k"]
  by (auto simp: send_owned send_watched net_close_owned close_watched split: outcome.splits)

lemma mayhem_system:
  "mayhem_system (Push moved) (Pop moved) holds q_bound q_budget os owned net ep watched (RunContext dispatch)"
  by (intro mayhem_system.intro mpmc.bounded_fifo_axioms epoll_os_axioms mayhem_system_axioms.intro)
    (rule RunContext_keeps)

end

sublocale epoll_handlers \<subseteq> mayhem: mayhem_system "Push moved" "Pop moved" holds q_bound q_budget os owned net ep
    watched "RunContext dispatch" for moved
  by (rule mayhem_system)

lemma MayhemServer_new_pool:
  assumes "MayhemServer_new dflt threads capacity k = Ret s"
    and "2 \<le> unat (MakePowerOfTwo capacity)" "unat (MakePowerOfTwo capacity) < 2 ^ 63"
  shows "pool_inv holds (mv_pool s) (replicate threads [])" and "pending_tasks (mv_pool s) = {#}"
    and "mv_handles s = replicate (nat MAX_FD) None" and "mv_system s = k" and "\<not> mv_isRunning s"
proof -
  obtain tp where tp: "ThreadPool_new dflt threads capacity = Ret tp"
    and s: "s = \<lparr>mv_pool = tp, mv_handles = replicate (nat MAX_FD) None, mv_listenFd = 0, mv_epollFd = 0,
         mv_isRunning = False, mv_pc = Mayhem_Idle, mv_system = k\<rparr>"
    using assms(1) by (cases "ThreadPool_new dflt threads capacity" rule: outcome.exhaust)
      (auto simp: MayhemServer_new_def)
  show "pool_inv holds (mv_pool s) (replicate threads [])" using ThreadPool_new_inv(1) [OF tp assms(2,3)] s by simp
  show "pending_tasks (mv_pool s) = {#}"
    using tp s by (cases "replicate_outcome threads (Worker_new dflt capacity)")
      (auto simp: ThreadPool_new_def pending_tasks_def split: if_splits)
qed (use assms(1) in \<open>cases "ThreadPool_new dflt threads capacity" rule: outcome.exhaust;
  auto simp: MayhemServer_new_def\<close>)+

section \<open>Properties\<close>

abbreviation mayhem_task ::
    "'k net_ops \<Rightarrow> (headers \<Rightarrow> headers) \<Rightarrow> 'k SocketStream RequestDispatcher \<Rightarrow>
     'k SocketStream HttpContext \<Rightarrow> ('k, unit) action" where
  "mayhem_task net iter d \<equiv> RunContext (Dispatch (SocketStream_Write net) (SocketStream_Close net) iter d)"

lemma mayhem_reachable:
  assumes "epoll_handlers os owned net ep watched d"
    and "MayhemServer_new dflt threads capacity k = Ret s0"
    and "2 \<le> unat (MakePowerOfTwo capacity)" and "unat (MakePowerOfTwo capacity) < 2 ^ 63"
    and "Mayhem_StartAsync (mayhem_sys_env os net ep (Push moved)) port cb s0 = (Ret True, s1)"
    and "mayhem_run (mayhem_sys_env os net ep (Push moved)) (Pop moved) (mayhem_task net iter d)
      (\<lambda>q. 0 < q_budget q) s1 s2"
  shows "mayhem_inv holds owned watched (mv_listenFd s1) (mv_epollFd s1) s2"
proof -
  note sys = epoll_handlers.mayhem_system [OF assms(1), of moved iter]
  note new = MayhemServer_new_pool [OF assms(2-4)]
  from mayhem_system.started_inv [OF sys assms(5) new(1-3)]
  show ?thesis by (rule mayhem_system.run_inv [OF sys assms(6)])
qed

text \<open>An event of the loop and its descriptor.\<close>

lemma mayhem_event_fd:
  assumes "epoll_handlers os owned net ep watched d"
    and "MayhemServer_new dflt threads capacity k = Ret s0"
    and "2 \<le> unat (MakePowerOfTwo capacity)" and "unat (MakePowerOfTwo capacity) < 2 ^ 63"
    and "Mayhem_StartAsync (mayhem_sys_env os net ep (Push moved)) port cb s0 = (Ret True, s1)"
    and "mayhem_run (mayhem_sys_env os net ep (Push moved)) (Pop moved) (mayhem_task net iter d)
      (\<lambda>q. 0 < q_budget q) s1 s2"
    and "mv_pc s2 = Mayhem_Events (e # es)" and "fd = data_fd (ev_data e)" and "fd \<noteq> mv_listenFd s2"
  shows "0 < fd \<and> fd < MAX_FD \<and> fd \<noteq> mv_epollFd s2 \<and> in_handles fd s2 \<and>
    (\<exists>b. mv_handles s2 ! nat fd = Some b \<and> builder_fd b = fd)"
proof -
  note sys = epoll_handlers.mayhem_system [OF assms(1), of moved iter]
  have inv: "mayhem_inv holds owned watched (mv_listenFd s1) (mv_epollFd s1) s2"
    by (rule mayhem_reachable [OF assms(1-6)])
  have l: "mayhem_system.live holds owned watched (mv_listenFd s1) (mv_epollFd s1) s2"
    and ev: "events_inv (watched (mv_system s2) (mv_epollFd s1)) (mv_pc s2)"
    using inv assms(7) mayhem_system.inv_live [OF sys, of s2] by simp_all
  have "fd \<in> dom (watched (mv_system s2) (mv_epollFd s1))"
    using ev assms(7,8) by (simp add: events_inv_def event_fds_def)
  moreover have "fd \<noteq> mv_listenFd s1" using inv assms(7,9) by (simp add: mayhem_inv_def)
  ultimately show ?thesis using mayhem_system.event_handle [OF sys l] l mayhem_system.live_def [OF sys] by auto
qed

text \<open>
  C9: every event finds its builder. A mayhem server is made, started and run, its loop, its workers and the
  callers of \<open>Stop\<close> in any order. Whenever the loop is about to handle an event that is not the listening
  socket's, the descriptor is an index of \<open>_handles\<close>, and the builder stored there reads from that very
  descriptor: the array is not accessed out of bounds, and \<open>MINET_ASSERT(handle)\<close> holds.
\<close>

theorem mayhem_events_have_builders:
  assumes "epoll_handlers os owned net ep watched d"
    and "MayhemServer_new dflt threads capacity k = Ret s0"
    and "2 \<le> unat (MakePowerOfTwo capacity)" and "unat (MakePowerOfTwo capacity) < 2 ^ 63"
    and "Mayhem_StartAsync (mayhem_sys_env os net ep (Push moved)) port cb s0 = (Ret True, s1)"
    and "mayhem_run (mayhem_sys_env os net ep (Push moved)) (Pop moved) (mayhem_task net iter d)
      (\<lambda>q. 0 < q_budget q) s1 s2"
    and "mv_pc s2 = Mayhem_Events (e # es)" and "fd = data_fd (ev_data e)" and "fd \<noteq> mv_listenFd s2"
  shows "0 < fd \<and> fd < MAX_FD \<and> nat fd < length (mv_handles s2) \<and>
    (\<exists>b. mv_handles s2 ! nat fd = Some b \<and> builder_fd b = fd)"
  using mayhem_event_fd [OF assms] by (auto simp: in_handles_def)

text \<open>
  C6: a submitted request belongs to its worker. In every run of a mayhem server the contexts that wait in
  the pool or are inside a worker have pairwise different open descriptors, and the epoll of the running
  loop watches none of them, so the loop never works on a context at the same time as a worker; neither is
  the listening socket or the epoll. When the loop has returned, both of these are closed.
\<close>

theorem mayhem_contexts_not_shared:
  assumes "epoll_handlers os owned net ep watched d"
    and "MayhemServer_new dflt threads capacity k = Ret s0"
    and "2 \<le> unat (MakePowerOfTwo capacity)" and "unat (MakePowerOfTwo capacity) < 2 ^ 63"
    and "Mayhem_StartAsync (mayhem_sys_env os net ep (Push moved)) port cb s0 = (Ret True, s1)"
    and "mayhem_run (mayhem_sys_env os net ep (Push moved)) (Pop moved) (mayhem_task net iter d)
      (\<lambda>q. 0 < q_budget q) s1 s2"
  shows "(\<forall>fd. count (context_fds (mv_pool s2)) fd \<le> 1) \<and>
    set_mset (context_fds (mv_pool s2)) \<subseteq> owned (mv_system s2) - {mv_listenFd s1, mv_epollFd s1} \<and>
    (if mv_pc s2 = Mayhem_Exited then {mv_listenFd s1, mv_epollFd s1} \<inter> owned (mv_system s2) = {}
     else {mv_listenFd s1, mv_epollFd s1} \<subseteq> owned (mv_system s2) \<and>
       set_mset (context_fds (mv_pool s2)) \<inter> dom (watched (mv_system s2) (mv_epollFd s1)) = {})"
  using mayhem_reachable [OF assms]
  by (cases "mv_pc s2 = Mayhem_Exited") (auto simp: mayhem_inv_def conn_inv_def)

lemma resume_new: "resume_builder k (AsyncHttpContextBuilder_new data k0) = AsyncHttpContextBuilder_new data k"
  by (simp add: resume_builder_def AsyncHttpContextBuilder_new_def BufferedStreamReader_new_def SocketStream_new_def)

text \<open>The step of an event on a connection is the parse of its builder.\<close>

lemma Mayhem_step_event:
  assumes "mv_pc s = Mayhem_Events (e # es)" and "data_fd (ev_data e) = fd" and "fd \<noteq> mv_listenFd s"
    and "ev_events e AND EPOLLIN \<noteq> 0" and "in_handles fd s" and "mv_handles s ! nat fd = Some b"
    and "builder_Parse (me_net env) (resume_builder (mv_system s) b) = Some (oc, b1)"
  defines "s1 \<equiv> s\<lparr>mv_pc := Mayhem_Events es, mv_system := builder_system b1,
      mv_handles := (mv_handles s)[nat fd := Some b1]\<rparr>"
  shows "Mayhem_step env s =
    (case oc of
       Raise e \<Rightarrow> Some (s1\<lparr>mv_pc := Mayhem_Threw e\<rparr>)
     | Ret r \<Rightarrow> if r = 1 then Mayhem_submit env fd b1 s1
         else if r < 0 then Some (set_handle fd None (Mayhem_Close env fd s1)) else Some s1)"
proof -
  have "in_handles fd (s\<lparr>mv_pc := pc\<rparr>)" for pc using assms(5) by (simp add: in_handles_def)
  moreover have "set_handle fd (Some b1) (s\<lparr>mv_pc := Mayhem_Events es, mv_system := builder_system b1\<rparr>) = s1"
    using assms(5) by (simp add: set_handle_def in_handles_def s1_def)
  ultimately show ?thesis
    using assms(1-4,6,7) by (cases oc) (simp_all add: Mayhem_step_def Mayhem_parse_def Let_def)
qed

text \<open>The step that parses a printed request and submits its context.\<close>

lemma request_submitted:
  assumes "epoll_os os owned net ep watched" and "byte_source (SocketStream_Read net) pending sinv"
    and ev: "mv_pc s = Mayhem_Events (e # es)" "data_fd (ev_data e) = SocketFd data"
      "SocketFd data \<noteq> mv_listenFd s" "ev_events e AND EPOLLIN \<noteq> 0"
    and h: "in_handles (SocketFd data) s"
      "mv_handles s ! nat (SocketFd data) = Some (AsyncHttpContextBuilder_new data k0)"
    and "SocketFd data \<noteq> mv_epollFd s"
    and "sinv (SocketStream_new (SocketFd data) (mv_system s))"
    and "pending (SocketStream_new (SocketFd data) (mv_system s)) = HttpRequest_ToString iter q @ later"
    and "async_printable q" and "iteration iter" and "Host q \<noteq> []"
    and "\<forall>c \<in> set (HttpRequest_ToString iter q). is_ascii c"
    and pool: "pool_inv holds (mv_pool s) xss" "\<forall>q \<in> set (tp_workers (mv_pool s)). 0 < q_budget q"
      "i = unat (tp_next (mv_pool s)) mod tp_threads (mv_pool s)"
    and "room \<longleftrightarrow> length (xss ! i) < q_bound (tp_workers (mv_pool s) ! i)"
  shows "\<exists>b1 k s' ctx.
    builder_Parse net (AsyncHttpContextBuilder_new data (mv_system s)) = Some (Ret 1, b1) \<and>
    k = snd (epoll_Unmonitor ep (mv_epollFd s) (SocketFd data) (builder_system b1)) \<and>
    mv_system s' = (if room then k else snd (CloseSocket os (SocketFd data) k)) \<and>
    ThreadPool_Submit (Push moved) ctx (mv_pool s) = Some (room, mv_pool s') \<and>
    Mayhem_step (mayhem_sys_env os net ep (Push moved)) s = Some s' \<and>
    Request ctx = q\<lparr>Headers := iter (Headers q)\<rparr> \<and> Response ctx = fresh_response ''Mayhem'' \<and>
    ss_fd (BodyStream ctx) = SocketFd data \<and>
    pool_inv holds (mv_pool s') (if room then xss[i := xss ! i @ [ctx]] else xss) \<and>
    watched (mv_system s') (mv_epollFd s) = (watched (mv_system s) (mv_epollFd s))(SocketFd data := None) \<and>
    owned (mv_system s') = (if room then owned (mv_system s) else owned (mv_system s) - {SocketFd data}) \<and>
    mv_pc s' = Mayhem_Events es \<and> mv_listenFd s' = mv_listenFd s \<and>
    (\<forall>j. j \<noteq> nat (SocketFd data) \<longrightarrow> mv_handles s' ! j = mv_handles s ! j)"
proof -
  let ?fd = "SocketFd data" and ?env = "mayhem_sys_env os net ep (Push moved)"
  obtain b1 where b1: "builder_Parse net (AsyncHttpContextBuilder_new data (mv_system s)) = Some (Ret 1, b1)"
    "Request (builder_GetContext b1) = q\<lparr>Headers := iter (Headers q)\<rparr>"
    "Response (builder_GetContext b1) = HttpResponse_zero\<lparr>StatusCode := 200\<rparr>"
    using builder_parse_printed [OF assms(2,10-15)] by blast
  have p: "builder_Parse (me_net ?env) (resume_builder (mv_system s) (AsyncHttpContextBuilder_new data k0)) = Some (Ret 1, b1)"
    using b1(1) by (simp add: resume_new)
  have keep: "builder_fd b1 = ?fd" "owned (builder_system b1) = owned (mv_system s)"
    "watched (builder_system b1) = watched (mv_system s)"
    using epoll_os.parse_keeps [OF assms(1) p [simplified]]
    by (simp_all add: builder_fd_def AsyncHttpContextBuilder_new_def BufferedStreamReader_new_def SocketStream_new_def)
  let ?s1 = "s\<lparr>mv_pc := Mayhem_Events es, mv_system := builder_system b1,
      mv_handles := (mv_handles s)[nat ?fd := Some b1]\<rparr>"
  have step: "Mayhem_step ?env s = Mayhem_submit ?env ?fd b1 ?s1"
    using Mayhem_step_event [OF ev h p] by simp
  obtain u k where u: "Mayhem_UnmonitorFd ?env ?fd ?s1 = (u, ?s1\<lparr>mv_system := k\<rparr>)" "owned k = owned (mv_system s)"
    "watched k (mv_epollFd s) = (watched (mv_system s) (mv_epollFd s))(?fd := None)"
    using epoll_os.Unmonitor_sets [OF assms(1), of "Push moved" ?fd ?s1] keep by auto
  have k: "k = snd (epoll_Unmonitor ep (mv_epollFd s) ?fd (builder_system b1))"
    using u(1) by (cases s) (auto simp: Mayhem_UnmonitorFd_def split: prod.splits)
  define ctx where "ctx = DecorateContext ''Mayhem'' (builder_GetContext b1)"
  have ctx: "Request ctx = q\<lparr>Headers := iter (Headers q)\<rparr>" "Response ctx = fresh_response ''Mayhem''"
    "ss_fd (BodyStream ctx) = ?fd"
    using b1(2,3) keep(1) by (simp_all add: ctx_def DecorateContext_def fresh_response_def headers_set_def
        HttpResponse_zero_def builder_GetContext_def builder_fd_def)
  define hs where "hs = (mv_handles s)[nat ?fd := Some (b1\<lparr>cb_response := Response ctx\<rparr>)]"
  obtain tp where sub: "ThreadPool_Submit (Push moved) ctx (mv_pool s) = Some (room, tp)"
    "pool_inv holds tp (if room then xss[i := xss ! i @ [ctx]] else xss)"
    using mpmc.Submit_result [OF pool, of moved ctx] assms(19) by auto
  let ?s3 = "?s1\<lparr>mv_system := k, mv_handles := hs, mv_pool := tp\<rparr>"
  have "Mayhem_submit ?env ?fd b1 ?s1 =
      Some (if room then ?s3 else set_handle ?fd None (Mayhem_Close ?env ?fd ?s3))"
    using u(1) sub(1) h(1)
    by (simp add: Mayhem_submit_def Let_def set_handle_def in_handles_def hs_def ctx_def [symmetric])
  moreover have "set_handle ?fd None (Mayhem_Close ?env ?fd ?s3) =
      ?s3\<lparr>mv_system := snd (CloseSocket os ?fd k), mv_handles := hs[nat ?fd := None]\<rparr>"
    using h(1) by (simp add: set_handle_def in_handles_def Mayhem_Close_def hs_def)
  ultimately have run: "Mayhem_step ?env s = Some (if room then ?s3
      else ?s3\<lparr>mv_system := snd (CloseSocket os ?fd k), mv_handles := hs[nat ?fd := None]\<rparr>)"
    by (simp add: step)
  note cl = epoll_os.Close_sets [OF assms(1), where k = k and fd = ?fd]
  show ?thesis
  proof (cases room)
    case True
    with run ctx sub u(2,3) b1(1) k show ?thesis
      by (intro exI [of _ b1] exI [of _ k] exI [of _ ?s3] exI [of _ ctx]) (simp add: hs_def)
  next
    case False
    let ?s4 = "?s3\<lparr>mv_system := snd (CloseSocket os ?fd k), mv_handles := hs[nat ?fd := None]\<rparr>"
    from False run ctx sub u(2,3) b1(1) k cl(1) cl(2) [of "mv_epollFd s"] assms(9)
    show ?thesis
      by (intro exI [of _ b1] exI [of _ k] exI [of _ ?s4] exI [of _ ctx]) (simp add: hs_def)
  qed
qed

text \<open>
  C16: a request that has arrived is submitted. When the loop handles an event of a connection on which the
  printed form of a request in the parser's grammar has arrived, the request is parsed, the connection is
  taken out of the epoll, and the context goes to the worker whose turn it is: it holds that very request
  and a fresh response that names the server. When that worker's queue is full, the connection is closed.
\<close>

theorem mayhem_request_submitted:
  assumes "epoll_os os owned net ep watched" and "byte_source (SocketStream_Read net) pending sinv"
    and ev: "mv_pc s = Mayhem_Events (e # es)" "data_fd (ev_data e) = SocketFd data"
      "SocketFd data \<noteq> mv_listenFd s" "ev_events e AND EPOLLIN \<noteq> 0"
    and h: "in_handles (SocketFd data) s"
      "mv_handles s ! nat (SocketFd data) = Some (AsyncHttpContextBuilder_new data k0)"
    and "SocketFd data \<noteq> mv_epollFd s"
    and "sinv (SocketStream_new (SocketFd data) (mv_system s))"
    and "pending (SocketStream_new (SocketFd data) (mv_system s)) = HttpRequest_ToString iter q @ later"
    and "async_printable q" and "iteration iter" and "Host q \<noteq> []"
    and "\<forall>c \<in> set (HttpRequest_ToString iter q). is_ascii c"
    and pool: "pool_inv holds (mv_pool s) xss" "\<forall>q \<in> set (tp_workers (mv_pool s)). 0 < q_budget q"
      "i = unat (tp_next (mv_pool s)) mod tp_threads (mv_pool s)"
    and "room \<longleftrightarrow> length (xss ! i) < q_bound (tp_workers (mv_pool s) ! i)"
  shows "\<exists>s' ctx. Mayhem_step (mayhem_sys_env os net ep (Push moved)) s = Some s' \<and>
    Request ctx = q\<lparr>Headers := iter (Headers q)\<rparr> \<and> Response ctx = fresh_response ''Mayhem'' \<and>
    ss_fd (BodyStream ctx) = SocketFd data \<and>
    pool_inv holds (mv_pool s') (if room then xss[i := xss ! i @ [ctx]] else xss) \<and>
    watched (mv_system s') (mv_epollFd s) = (watched (mv_system s) (mv_epollFd s))(SocketFd data := None) \<and>
    owned (mv_system s') = (if room then owned (mv_system s) else owned (mv_system s) - {SocketFd data})"
  using request_submitted [OF assms(1-18), of room] assms(19) by blast

text \<open>
  A request whose Content-Length is not a number ends the loop of a mayhem server. The exception that
  \<open>Feed\<close> lets out leaves \<open>_Serve\<close>; whatever the workers and the callers of \<open>Stop\<close> do after that, the loop
  stays there, with the listening socket and the epoll open.
\<close>

theorem mayhem_bad_length_ends_server:
  assumes "epoll_os os owned net ep watched" and "byte_source (SocketStream_Read net) pending sinv"
    and "env = mayhem_sys_env os net ep push"
    and ev: "mv_pc s = Mayhem_Events (e # es)" "data_fd (ev_data e) = fd" "fd \<noteq> mv_listenFd s"
      "ev_events e AND EPOLLIN \<noteq> 0"
    and h: "in_handles fd s" "mv_handles s ! nat fd = Some b"
    and "reader_inv pending sinv (cb_reader (resume_builder (mv_system s) b))"
    and "reader_unread pending (cb_reader (resume_builder (mv_system s) b)) = us"
    and "feed_string (cb_parser b) (takeWhile is_ascii us) = (Raise err, p, rest)"
  shows "\<exists>s1. Mayhem_step env s = Some s1 \<and> mv_pc s1 = Mayhem_Threw err \<and> owned (mv_system s1) = owned (mv_system s) \<and>
    (\<forall>s2. mayhem_run env pop run room s1 s2 \<longrightarrow> mv_pc s2 = Mayhem_Threw err \<and>
      mv_listenFd s2 = mv_listenFd s \<and> mv_epollFd s2 = mv_epollFd s)"
proof -
  have "cb_parser (resume_builder (mv_system s) b) = cb_parser b" by (simp add: resume_builder_def)
  with assms(12) have "builder_result (cb_parser (resume_builder (mv_system s) b)) us =
      (Raise err, p, rest @ dropWhile is_ascii us)" by (simp add: builder_result_def)
  from builder_Parse_result [OF assms(2,10), unfolded assms(11), OF this]
  obtain b1 where p: "builder_Parse (me_net env) (resume_builder (mv_system s) b) = Some (Raise err, b1)"
    by (auto simp: assms(3))
  let ?s1 = "s\<lparr>mv_pc := Mayhem_Threw err, mv_system := builder_system b1,
      mv_handles := (mv_handles s)[nat fd := Some b1]\<rparr>"
  have step: "Mayhem_step env s = Some ?s1" using Mayhem_step_event [OF ev h p] by simp
  have dead: "mv_pc s2 = Mayhem_Threw err \<and> mv_listenFd s2 = mv_listenFd s \<and> mv_epollFd s2 = mv_epollFd s"
    if "mayhem_run env pop run room ?s1 s2" for s2
    using that
  proof (induction "?s1" s2 rule: mayhem_run.induct)
    case (more_run s2 s3)
    from more_run(3) show ?case
      by (cases rule: mayhem_step.cases) (use more_run(2) in \<open>auto simp: Mayhem_step_def Mayhem_Stop_def\<close>)
  qed simp
  have "owned (builder_system b1) = owned (mv_system s)"
    using epoll_os.parse_keeps(2) [OF assms(1)] p by (simp add: assms(3))
  with step dead show ?thesis by auto
qed

section \<open>A sample server\<close>

definition ew_dispatcher :: "ep_world SocketStream RequestDispatcher" where
  "ew_dispatcher = RequestDispatcher_new\<lparr>rd_handlers := [''/echo'' \<mapsto> [POST \<mapsto> Some (text_endpoint echo)]]\<rparr>"

interpretation ewm: epoll_handlers ew_os ew_owned ew_net ew_ep ew_watched ew_dispatcher "\<lambda>hs. hs"
proof
  fix fd X Y
  show "handlers_keep (\<lambda>s. ss_fd s = fd \<and> ew_owned (ss_kernel s) = X \<and> ew_watched (ss_kernel s) = Y) ew_dispatcher"
    using text_endpoint_keeps [of _ echo]
    by (auto simp: handlers_keep_def ew_dispatcher_def RequestDispatcher_new_def split: if_splits)
qed

text \<open>A client on descriptor \<open>fd\<close> has sent \<open>m fd\<close>; nobody else sends anything.\<close>

definition mayhem_world :: "int list \<Rightarrow> int list \<Rightarrow> (int \<Rightarrow> string) \<Rightarrow> int list \<Rightarrow> ep_world" where
  "mayhem_world fds script m ws =
     \<lparr>ew_world = (\<lparr>k_open = fds, k_script = script\<rparr>, \<lambda>fd. peer_new [m fd]), ew_fds = ws,
      ew_table = (\<lambda>fd. if fd \<in> set ws then Some (Data_fd fd) else None)\<rparr>"

abbreviation ew_event :: "int \<Rightarrow> epoll_event" where
  "ew_event fd \<equiv> \<lparr>ev_events = EPOLLIN, ev_data = Data_fd fd\<rparr>"

definition mayhem_client :: AcceptData where
  "mayhem_client = \<lparr>SocketFd = 6, sin_addr = 0x0100007F, sin_port = 0\<rparr>"

definition mayhem_other :: AcceptData where
  "mayhem_other = \<lparr>SocketFd = 5, sin_addr = 0x0100007F, sin_port = 0\<rparr>"

text \<open>Before the server is made, and when two clients, on 5 and 6, have been accepted and the epoll has reported them.\<close>

abbreviation mayhem_start :: "(int \<Rightarrow> string) \<Rightarrow> ep_world" where
  "mayhem_start m \<equiv> mayhem_world [] [0, 0, 0, 0, 0, 0, 0, 0, 0, - 1] m []"

abbreviation mayhem_ready :: "(int \<Rightarrow> string) \<Rightarrow> ep_world" where
  "mayhem_ready m \<equiv> mayhem_world [6, 5, 4, 3] [] m [6, 5, 3]"

abbreviation mayhem_events :: "epoll_event list" where
  "mayhem_events \<equiv> [ew_event 6, ew_event 5, ew_event 3]"

abbreviation client_builder :: "(int \<Rightarrow> string) \<Rightarrow> ep_world AsyncHttpContextBuilder" where
  "client_builder m \<equiv> AsyncHttpContextBuilder_new mayhem_client (mayhem_world [6, 5, 4, 3] [- 1] m [6, 5, 3])"

abbreviation other_builder :: "(int \<Rightarrow> string) \<Rightarrow> ep_world AsyncHttpContextBuilder" where
  "other_builder m \<equiv> AsyncHttpContextBuilder_new mayhem_other (mayhem_world [5, 4, 3] [0, - 1] m [5, 3])"

lemmas ew_defs = ew_os_def ew_net_def ew_ep_def on_world_def world_os_def on_kernel_def kernel_ops_def k_new_fd_def
  k_answer_def

lemma mayhem_world_calls:
  "OpenSocket ew_os 80 False (mayhem_start m) = (Ret 3, mayhem_world [3] [0, 0, 0, - 1] m [])"
  "epoll_Create ew_ep (mayhem_world [3] [0, 0, 0, - 1] m []) = (4, mayhem_world [4, 3] [0, 0, - 1] m [])"
  "epoll_Monitor ew_ep 4 3 EPOLLIN (mayhem_world [4, 3] [0, 0, - 1] m []) = (0, mayhem_world [4, 3] [0, 0, - 1] m [3])"
  "epoll_Wait ew_ep 4 MAX_EVENTS 5000 (mayhem_world [4, 3] [0, 0, - 1] m [3]) =
    (1, [ew_event 3], mayhem_world [4, 3] [0, 0, - 1] m [3])"
  "AcceptSocket ew_os 3 (mayhem_world [4, 3] [0, 0, - 1] m [3]) =
    (True, mayhem_other, mayhem_world [5, 4, 3] [0, - 1] m [3])"
  "epoll_Monitor ew_ep 4 5 (EPOLLIN OR EPOLLET) (mayhem_world [5, 4, 3] [0, - 1] m [3]) =
    (0, mayhem_world [5, 4, 3] [0, - 1] m [5, 3])"
  "AcceptSocket ew_os 3 (mayhem_world [5, 4, 3] [0, - 1] m [5, 3]) =
    (True, mayhem_client, mayhem_world [6, 5, 4, 3] [- 1] m [5, 3])"
  "epoll_Monitor ew_ep 4 6 (EPOLLIN OR EPOLLET) (mayhem_world [6, 5, 4, 3] [- 1] m [5, 3]) =
    (0, mayhem_world [6, 5, 4, 3] [- 1] m [6, 5, 3])"
  "fst (AcceptSocket ew_os 3 (mayhem_world [6, 5, 4, 3] [- 1] m [6, 5, 3])) = False"
  "snd (snd (AcceptSocket ew_os 3 (mayhem_world [6, 5, 4, 3] [- 1] m [6, 5, 3]))) = mayhem_ready m"
  "epoll_Wait ew_ep 4 MAX_EVENTS 5000 (mayhem_ready m) = (3, mayhem_events, mayhem_ready m)"
proof -
  show "OpenSocket ew_os 80 False (mayhem_start m) = (Ret 3, mayhem_world [3] [0, 0, 0, - 1] m [])"
    by (simp add: mayhem_world_def OpenSocket_def TRY_WITH_ACTION_def MakeNonBlockingSocket_def ew_defs)
  show "epoll_Create ew_ep (mayhem_world [3] [0, 0, 0, - 1] m []) = (4, mayhem_world [4, 3] [0, 0, - 1] m [])"
    by (simp add: mayhem_world_def epoll_Create_def ew_defs)
  show "epoll_Monitor ew_ep 4 3 EPOLLIN (mayhem_world [4, 3] [0, 0, - 1] m []) = (0, mayhem_world [4, 3] [0, 0, - 1] m [3])"
    "epoll_Monitor ew_ep 4 5 (EPOLLIN OR EPOLLET) (mayhem_world [5, 4, 3] [0, - 1] m [3]) =
      (0, mayhem_world [5, 4, 3] [0, - 1] m [5, 3])"
    "epoll_Monitor ew_ep 4 6 (EPOLLIN OR EPOLLET) (mayhem_world [6, 5, 4, 3] [- 1] m [5, 3]) =
      (0, mayhem_world [6, 5, 4, 3] [- 1] m [6, 5, 3])"
    by (auto simp: mayhem_world_def epoll_Monitor_def ew_ep_def ew_ctl_def)
  show "epoll_Wait ew_ep 4 MAX_EVENTS 5000 (mayhem_world [4, 3] [0, 0, - 1] m [3]) =
      (1, [ew_event 3], mayhem_world [4, 3] [0, 0, - 1] m [3])"
    "epoll_Wait ew_ep 4 MAX_EVENTS 5000 (mayhem_ready m) = (3, mayhem_events, mayhem_ready m)"
    by (simp_all add: mayhem_world_def epoll_Wait_def ew_ep_def MAX_EVENTS_def)
  show "AcceptSocket ew_os 3 (mayhem_world [4, 3] [0, 0, - 1] m [3]) =
      (True, mayhem_other, mayhem_world [5, 4, 3] [0, - 1] m [3])"
    "AcceptSocket ew_os 3 (mayhem_world [5, 4, 3] [0, - 1] m [5, 3]) =
      (True, mayhem_client, mayhem_world [6, 5, 4, 3] [- 1] m [5, 3])"
    "fst (AcceptSocket ew_os 3 (mayhem_world [6, 5, 4, 3] [- 1] m [6, 5, 3])) = False"
    "snd (snd (AcceptSocket ew_os 3 (mayhem_world [6, 5, 4, 3] [- 1] m [6, 5, 3]))) = mayhem_ready m"
    by (simp_all add: mayhem_world_def AcceptSocket_def ew_defs mayhem_client_def mayhem_other_def)
qed

abbreviation ew_env :: "(ep_world, ep_world SocketStream HttpContext Queue) mayhem_env" where
  "ew_env \<equiv> mayhem_sys_env ew_os ew_net ew_ep (Push id)"

lemma run_loop:
  assumes "mayhem_run env pop run room s s1" and "\<forall>q \<in> set (tp_workers (mv_pool s1)). room q"
    and "Mayhem_step env s1 = Some s2"
  shows "mayhem_run env pop run room s s2"
  using assms by (blast intro: mayhem_run.more_run mayhem_step.loop)

definition client_context :: "ep_world SocketStream HttpContext" where
  "client_context = builder_GetContext (AsyncHttpContextBuilder_new mayhem_client (mayhem_world [] [] (\<lambda>_. []) []))"

text \<open>A started server with two workers whose loop is about to handle the events of both clients.\<close>

lemma sample_mayhem:
  fixes m :: "int \<Rightarrow> string"
  obtains s0 s1 s2 :: "(ep_world, ep_world SocketStream HttpContext Queue) mayhem"
  where "MayhemServer_new client_context 2 3 (mayhem_start m) = Ret s0" "MakePowerOfTwo 3 = 4"
    "Mayhem_StartAsync ew_env 80 True s0 = (Ret True, s1)" "mv_listenFd s1 = 3" "mv_epollFd s1 = 4"
    "mayhem_run ew_env (Pop id) run (\<lambda>q. 0 < q_budget q) s1 s2"
    "mv_pc s2 = Mayhem_Events mayhem_events" "mv_listenFd s2 = 3" "mv_epollFd s2 = 4"
    "in_handles 6 s2" "in_handles 5 s2" "mv_system s2 = mayhem_ready m"
    "mv_handles s2 ! nat 6 = Some (client_builder m)" "mv_handles s2 ! nat 5 = Some (other_builder m)"
    "pool_inv holds (mv_pool s2) [[], []]" "tp_next (mv_pool s2) = 0" "tp_threads (mv_pool s2) = 2"
    "\<forall>q \<in> set (tp_workers (mv_pool s2)). q_bound q = 4 \<and> 0 < q_budget q" "length (tp_workers (mv_pool s2)) = 2"
    "mv_pool s2 = mv_pool s0"
proof -
  obtain tp where pool: "ThreadPool_new client_context 2 3 = Ret tp" "tp_next tp = 0" "tp_threads tp = 2"
    "pool_inv holds tp [[], []]" "\<forall>q \<in> set (tp_workers tp). q_bound q = 4 \<and> 0 < q_budget q"
    "length (tp_workers tp) = 2" "MakePowerOfTwo 3 = 4"
    by (rule sample_pool)
  define st where "st run l e pc k hs = \<lparr>mv_pool = tp, mv_handles = hs, mv_listenFd = l, mv_epollFd = e,
      mv_isRunning = run, mv_pc = pc, mv_system = k\<rparr>" for run l e pc k hs
  let ?none = "replicate (nat MAX_FD) None"
  let ?ka = "mayhem_world [4, 3] [0, 0, - 1] m [3]" and ?kb = "mayhem_world [5, 4, 3] [0, - 1] m [5, 3]"
    and ?kc = "mayhem_world [6, 5, 4, 3] [- 1] m [6, 5, 3]" and ?w = "mayhem_ready m"
  let ?ha = "?none[5 := Some (other_builder m)]" let ?hs = "?ha[6 := Some (client_builder m)]"
  let ?sta = "st False 0 0 Mayhem_Idle (mayhem_start m) ?none" and ?stb = "st True 3 4 Mayhem_Loop ?ka ?none"
  let ?stc = "st True 3 4 (Mayhem_Events mayhem_events) ?w ?hs"
  have new: "MayhemServer_new client_context 2 3 (mayhem_start m) = Ret ?sta"
    using pool(1) by (simp add: MayhemServer_new_def st_def)
  have start: "Mayhem_StartAsync ew_env 80 True ?sta = (Ret True, ?stb)"
    by (simp add: Mayhem_StartAsync_def Mayhem_OpenSocket_def Mayhem_OpenEpoll_def st_def mayhem_world_calls)
  obtain data where acc: "AcceptSocket ew_os 3 ?kc = (False, data, ?w)"
    using mayhem_world_calls(9,10) [of m] by (metis prod.collapse)
  note defs = Mayhem_step_def st_def mayhem_world_calls
  have len: "5 < nat MAX_FD" "6 < nat MAX_FD" by (simp_all add: MAX_FD_def)
  have step:
    "Mayhem_step ew_env ?stb = Some (st True 3 4 Mayhem_Wait ?ka ?none)"
    "Mayhem_step ew_env (st True 3 4 Mayhem_Wait ?ka ?none) = Some (st True 3 4 (Mayhem_Events [ew_event 3]) ?ka ?none)"
    "Mayhem_step ew_env (st True 3 4 (Mayhem_Events [ew_event 3]) ?ka ?none) = Some (st True 3 4 (Mayhem_Accept []) ?ka ?none)"
    "Mayhem_step ew_env (st True 3 4 (Mayhem_Accept []) ?ka ?none) = Some (st True 3 4 (Mayhem_Accept []) ?kb ?ha)"
    "Mayhem_step ew_env (st True 3 4 (Mayhem_Accept []) ?kb ?ha) = Some (st True 3 4 (Mayhem_Accept []) ?kc ?hs)"
    "Mayhem_step ew_env (st True 3 4 (Mayhem_Accept []) ?kc ?hs) = Some (st True 3 4 (Mayhem_Events []) ?w ?hs)"
    "Mayhem_step ew_env (st True 3 4 (Mayhem_Events []) ?w ?hs) = Some (st True 3 4 Mayhem_Loop ?w ?hs)"
    "Mayhem_step ew_env (st True 3 4 Mayhem_Loop ?w ?hs) = Some (st True 3 4 Mayhem_Wait ?w ?hs)"
    "Mayhem_step ew_env (st True 3 4 Mayhem_Wait ?w ?hs) = Some ?stc"
    using acc len
    by (simp_all add: defs Mayhem_accept_def Mayhem_MonitorFd_def set_handle_def in_handles_def
        mayhem_client_def mayhem_other_def MAX_FD_def)
  have "mv_pool (st run l e pc k hs) = tp" for run l e pc k hs by (simp add: st_def)
  then have room: "\<forall>q \<in> set (tp_workers (mv_pool (st run l e pc k hs))). 0 < q_budget q" for run l e pc k hs
    using pool(5) by simp
  note go = run_loop [OF _ room]
  have run: "mayhem_run ew_env (Pop id) run (\<lambda>q. 0 < q_budget q) ?stb ?stc"
    by (rule go [OF go [OF go [OF go [OF go [OF go [OF go [OF go [OF go [OF mayhem_run.begin_run
        step(1)] step(2)] step(3)] step(4)] step(5)] step(6)] step(7)] step(8)] step(9)])
  show ?thesis
    by (rule that [OF new pool(7) start _ _ run]) (use pool len in \<open>simp_all add: st_def in_handles_def nth_list_update\<close>)
qed

text \<open>The stream of the client, descriptor 6.\<close>

abbreviation client_waiting :: "ep_world SocketStream \<Rightarrow> string" where
  "client_waiting s \<equiv> peer_waiting (ew_line 6 (ss_kernel s))"

abbreviation client_up :: "ep_world SocketStream \<Rightarrow> bool" where
  "client_up s \<equiv> 0 < (6 :: int) \<and> ss_fd s = 6 \<and> peer_up (ew_line 6 (ss_kernel s))"

lemmas client_source = ewlines.source [of 6]

lemma mayhem_world_line:
  "m fd \<noteq> [] \<Longrightarrow> peer_up (ew_line fd (mayhem_world fds sc m ws))"
  "peer_waiting (ew_line fd (mayhem_world fds sc m ws)) = m fd" "outbound (ew_line fd (mayhem_world fds sc m ws)) = []"
  by (simp_all add: ew_line_def peer_line_def peer_up_def mayhem_world_def peer_new_def)

lemma mayhem_world_stream:
  "m 6 \<noteq> [] \<Longrightarrow> client_up (SocketStream_new 6 (mayhem_world fds sc m ws))"
  "client_waiting (SocketStream_new 6 (mayhem_world fds sc m ws)) = m 6"
  by (simp_all add: SocketStream_new_def mayhem_world_line)

lemma ew_owned_world: "ew_owned (mayhem_world fds sc m ws) = set fds"
  by (simp add: ew_owned_def world_owned_def k_owned_def mayhem_world_def)

lemma capacity_three: "MakePowerOfTwo 3 = 4 \<Longrightarrow> 2 \<le> unat (MakePowerOfTwo 3) \<and> unat (MakePowerOfTwo 3) < 2 ^ 63"
  by simp

lemma mayhem_events_have_builders_witness:
  "\<exists>(s :: (ep_world, ep_world SocketStream HttpContext Queue) mayhem) b.
    mv_pc s = Mayhem_Events mayhem_events \<and> mv_handles s ! 6 = Some b \<and> builder_fd b = 6"
proof -
  obtain s0 s1 s2 where s: "MayhemServer_new client_context 2 3
      (mayhem_start (\<lambda>_. ''x'')) = Ret s0" "MakePowerOfTwo 3 = 4"
    "Mayhem_StartAsync ew_env 80 True s0 = (Ret True, s1)"
    "mayhem_run ew_env (Pop id) (mayhem_task ew_net (\<lambda>hs. hs) ew_dispatcher) (\<lambda>q. 0 < q_budget q) s1 s2"
    "mv_pc s2 = Mayhem_Events mayhem_events" "mv_listenFd s2 = 3"
    by (rule sample_mayhem) blast
  note c = conjunct1 [OF capacity_three [OF s(2)]] conjunct2 [OF capacity_three [OF s(2)]]
  from mayhem_events_have_builders [OF ewm.epoll_handlers_axioms s(1) c s(3-5), of 6] s(5,6) show ?thesis
    by auto
qed

lemma mayhem_contexts_not_shared_witness:
  "\<exists>s :: (ep_world, ep_world SocketStream HttpContext Queue) mayhem.
    mv_pc s = Mayhem_Events mayhem_events \<and> {3, 4} \<subseteq> ew_owned (mv_system s)"
proof -
  obtain s0 s1 s2 where s: "MayhemServer_new client_context 2 3
      (mayhem_start (\<lambda>_. ''x'')) = Ret s0" "MakePowerOfTwo 3 = 4"
    "Mayhem_StartAsync ew_env 80 True s0 = (Ret True, s1)" "mv_listenFd s1 = 3" "mv_epollFd s1 = 4"
    "mayhem_run ew_env (Pop id) (mayhem_task ew_net (\<lambda>hs. hs) ew_dispatcher) (\<lambda>q. 0 < q_budget q) s1 s2"
    "mv_pc s2 = Mayhem_Events mayhem_events"
    by (rule sample_mayhem) blast
  note c = conjunct1 [OF capacity_three [OF s(2)]] conjunct2 [OF capacity_three [OF s(2)]]
  from mayhem_contexts_not_shared [OF ewm.epoll_handlers_axioms s(1) c s(3,6)] s(4,5,7) show ?thesis
    by auto
qed

lemma mayhem_request_submitted_witness:
  "\<exists>(s :: (ep_world, ep_world SocketStream HttpContext Queue) mayhem) s' ctx. Mayhem_step ew_env s = Some s' \<and>
    Request ctx = sample_post \<and> pool_inv holds (mv_pool s') [[ctx], []] \<and> ew_owned (mv_system s') = {3, 4, 5, 6}"
proof -
  let ?m = "HttpRequest_ToString (\<lambda>hs. hs) sample_post"
  have m: "?m \<noteq> []" "\<forall>c \<in> set ?m. is_ascii c" by code_simp+
  obtain s :: "(ep_world, ep_world SocketStream HttpContext Queue) mayhem" where
    s: "mv_pc s = Mayhem_Events mayhem_events" "mv_listenFd s = 3" "mv_epollFd s = 4" "in_handles 6 s"
    "mv_system s = mayhem_ready (\<lambda>_. ?m)"
    "mv_handles s ! nat 6 = Some (client_builder (\<lambda>_. ?m))"
    "pool_inv holds (mv_pool s) [[], []]" "tp_next (mv_pool s) = 0" "tp_threads (mv_pool s) = 2"
    "\<forall>q \<in> set (tp_workers (mv_pool s)). q_bound q = 4 \<and> 0 < q_budget q" "length (tp_workers (mv_pool s)) = 2"
    by (rule sample_mayhem) blast
  have fd: "SocketFd mayhem_client = 6" by (simp add: mayhem_client_def)
  have b: "\<forall>q \<in> set (tp_workers (mv_pool s)). 0 < q_budget q" using s(10) by blast
  have "tp_workers (mv_pool s) ! 0 \<in> set (tp_workers (mv_pool s))" using s(11) by simp
  then have room: "True = (length ([[], []] ! 0) < q_bound (tp_workers (mv_pool s) ! 0))" using s(10) by simp
  have i: "0 = unat (tp_next (mv_pool s)) mod tp_threads (mv_pool s)" by (simp add: s)
  have ev: "data_fd (ev_data (ew_event 6)) = SocketFd mayhem_client" "SocketFd mayhem_client \<noteq> mv_listenFd s"
    "ev_events (ew_event 6) AND EPOLLIN \<noteq> 0" "SocketFd mayhem_client \<noteq> mv_epollFd s"
    by (simp_all add: fd s EPOLLIN_def)
  have h: "in_handles (SocketFd mayhem_client) s" "mv_handles s ! nat (SocketFd mayhem_client) =
      Some (client_builder (\<lambda>_. ?m))"
    using s(4,6) by (simp_all add: fd)
  have str: "client_up (SocketStream_new (SocketFd mayhem_client) (mv_system s))"
    "client_waiting (SocketStream_new (SocketFd mayhem_client) (mv_system s)) = ?m @ []"
    unfolding s(5) fd using m(1) by (simp_all add: mayhem_world_stream)
  have host: "Host sample_post \<noteq> []" "sample_post\<lparr>Headers := Headers sample_post\<rparr> = sample_post"
    by (simp_all add: sample_post_def)
  from mayhem_request_submitted [OF ew.epoll_os_axioms client_source s(1) ev(1-3) h ev(4) str
      sample_post_printable iteration_id host(1) m(2) s(7) b i room, of id] host(2)
  show ?thesis by (rule_tac exI [of _ s]) (auto simp: s(5) ew_owned_world insert_commute)
qed

lemma mayhem_bad_length_ends_server_witness:
  "\<exists>(s :: (ep_world, ep_world SocketStream HttpContext Queue) mayhem) s1. Mayhem_step ew_env s = Some s1 \<and>
    mv_pc s1 = Mayhem_Threw InvalidArgument \<and> ew_owned (mv_system s1) = {3, 4, 5, 6}"
proof -
  let ?b = "client_builder (\<lambda>_. bad_length_message)"
  have m: "bad_length_message \<noteq> []" "takeWhile is_ascii bad_length_message = bad_length_message" by code_simp+
  obtain s :: "(ep_world, ep_world SocketStream HttpContext Queue) mayhem" where
    s: "mv_pc s = Mayhem_Events mayhem_events" "mv_listenFd s = 3" "in_handles 6 s"
    "mv_system s = mayhem_ready (\<lambda>_. bad_length_message)" "mv_handles s ! nat 6 = Some ?b"
    by (rule sample_mayhem) blast
  have ev: "data_fd (ev_data (ew_event 6)) = 6" "6 \<noteq> mv_listenFd s" "ev_events (ew_event 6) AND EPOLLIN \<noteq> 0"
    by (simp_all add: s EPOLLIN_def)
  have "fst (feed_string (AsyncHttpRequestParser_new (HttpRequest_zero\<lparr>Host := AddressToHost 0x0100007F 0\<rparr>))
      bad_length_message) = Raise InvalidArgument" by code_simp
  then obtain p rest where f: "feed_string (cb_parser ?b) (takeWhile is_ascii bad_length_message) =
      (Raise InvalidArgument, p, rest)"
    by (cases "feed_string (cb_parser ?b) bad_length_message") (simp add: m(2) AsyncHttpContextBuilder_new_def mayhem_client_def)
  have r: "reader_inv client_waiting client_up (cb_reader (resume_builder (mv_system s) ?b))"
    "reader_unread client_waiting (cb_reader (resume_builder (mv_system s) ?b)) = bad_length_message"
    unfolding resume_new s(4) using m(1)
    by (simp_all add: AsyncHttpContextBuilder_new_def mayhem_world_stream mayhem_client_def)
  from mayhem_bad_length_ends_server [OF ew.epoll_os_axioms client_source refl s(1) ev s(3,5) r f,
      where pop = "Pop id" and run = "\<lambda>ctx k. Some (Ret (), k)" and room = "\<lambda>q. True" and push = "Push id"]
  show ?thesis by (rule_tac exI [of _ s]) (auto simp: s(4) ew_owned_world insert_commute)
qed


end
