(* ===== verification/Task.thy ===== *)
theory Task
  imports Prelude
begin

text \<open>
  \<open>minet/src/threading/Task.h\<close>: a task wraps a \<open>std::packaged_task\<close>, its future and the thread that runs it.
  \<open>Task\<close> and \<open>ValueTask\<close> have the same code but for the result, so \<open>Task\<close> is \<open>ValueTask\<close> at the unit type.
  The standard library's objects are modelled by what the code can see of them: a packaged task has a shared
  state (a number into \<open>ts_results\<close>) and a routine, and may have given away its future; a future refers to a
  shared state or to none; a thread calls a packaged task once and is joinable, also when it has ended, until it is joined.
\<close>

section \<open>State\<close>

record ('w, 'a) packaged =
  pk_state :: nat
  pk_routine :: "('w, 'a) action"
  pk_retrieved :: bool

datatype ('w, 'a) thread = No_Thread | Running "('w, 'a) packaged" | Ended

record ('w, 'a) ValueTask =
  vt_task :: "('w, 'a) packaged option"
  vt_future :: "nat option"
  vt_thread :: "('w, 'a) thread"

text \<open>The world of the routines, and the shared states that are ready.\<close>

record ('w, 'a) task_system =
  ts_world :: 'w
  ts_results :: "nat \<Rightarrow> 'a outcome option"

type_synonym ('w, 'a) task_conf = "('w, 'a) ValueTask \<times> ('w, 'a) task_system"

section \<open>The standard library\<close>

definition get_future :: "('w, 'a) packaged option \<Rightarrow> nat outcome" where
  "get_future t =
     (case t of
        None \<Rightarrow> Raise (FutureError ''no_state'')
      | Some p \<Rightarrow> if pk_retrieved p then Raise (FutureError ''future_already_retrieved'') else Ret (pk_state p))"

text \<open>
  \<open>std::packaged_task::operator()\<close> runs the routine and makes the shared state ready, with the result or the
  exception; when the state is ready already it throws.
\<close>

definition packaged_call :: "('w, 'a) packaged \<Rightarrow> (('w, 'a) task_system, unit) action" where
  "packaged_call p sys =
     (if ts_results sys (pk_state p) \<noteq> None then Some (Raise (FutureError ''promise_already_satisfied''), sys)
      else case pk_routine p (ts_world sys) of
          None \<Rightarrow> None
        | Some (r, w) \<Rightarrow> Some (Ret (), \<lparr>ts_world = w, ts_results = (ts_results sys)(pk_state p \<mapsto> r)\<rparr>))"

text \<open>The function of a thread: what leaves it ends the process.\<close>

definition thread_run :: "('w, 'a) packaged \<Rightarrow> (('w, 'a) task_system, unit) action" where
  "thread_run p sys =
     (case packaged_call p sys of
        Some (Raise e, sys') \<Rightarrow> Some (Raise Terminate, sys')
      | r \<Rightarrow> r)"

text \<open>\<open>std::thread::join\<close>: it waits for the end of the thread.\<close>

definition thread_join :: "('w, 'a) thread \<Rightarrow> (('w, 'a) task_system, unit) action" where
  "thread_join th sys =
     (case th of
        No_Thread \<Rightarrow> Some (Raise (OtherException ''std::system_error''), sys)
      | Running p \<Rightarrow> thread_run p sys
      | Ended \<Rightarrow> Some (Ret (), sys))"

section \<open>Operations\<close>

definition ValueTask_new :: "nat \<Rightarrow> ('w, 'a) action \<Rightarrow> ('w, 'a) ValueTask" where
  "ValueTask_new i routine =
     \<lparr>vt_task = Some \<lparr>pk_state = i, pk_routine = routine, pk_retrieved = False\<rparr>, vt_future = None, vt_thread = No_Thread\<rparr>"

definition ValueTask_Create :: "nat \<Rightarrow> ('w, 'a) action \<Rightarrow> ('w, 'a) ValueTask" where
  "ValueTask_Create i routine = ValueTask_new i routine"

text \<open>The moves return the new (or assigned) task and what is left of the source; neither touches a thread.\<close>

definition ValueTask_move :: "('w, 'a) ValueTask \<Rightarrow> ('w, 'a) ValueTask \<times> ('w, 'a) ValueTask" where
  "ValueTask_move other =
     (\<lparr>vt_task = vt_task other, vt_future = vt_future other, vt_thread = No_Thread\<rparr>,
      other\<lparr>vt_task := None, vt_future := None\<rparr>)"

definition ValueTask_assign ::
    "bool \<Rightarrow> ('w, 'a) ValueTask \<Rightarrow> ('w, 'a) ValueTask \<Rightarrow> ('w, 'a) ValueTask \<times> ('w, 'a) ValueTask" where
  "ValueTask_assign same this other =
     (if \<not> same
      then (this\<lparr>vt_task := vt_task other, vt_future := vt_future other\<rparr>, other\<lparr>vt_task := None, vt_future := None\<rparr>)
      else (this, other))"

text \<open>A thread that is assigned to a joinable one ends the process.\<close>

definition ValueTask_StartAsync :: "('w, 'a) ValueTask \<Rightarrow> unit outcome \<times> ('w, 'a) ValueTask" where
  "ValueTask_StartAsync t =
     (if vt_future t \<noteq> None then (Raise (RuntimeError ''Task already started''), t)
      else case get_future (vt_task t) of
          Raise e \<Rightarrow> (Raise e, t)
        | Ret i \<Rightarrow>
            (let t1 = t\<lparr>vt_future := Some i, vt_task := None\<rparr> in
             if vt_thread t \<noteq> No_Thread then (Raise Terminate, t1)
             else (Ret (), t1\<lparr>vt_thread := Running ((the (vt_task t))\<lparr>pk_retrieved := True\<rparr>)\<rparr>)))"

text \<open>
  \<open>None\<close> when the wait does not end. \<open>join\<close> waits for the thread, \<open>get\<close> for the shared state, which the
  thread of another task may be at.
\<close>

definition ValueTask_Await :: "('w, 'a) task_conf \<Rightarrow> ('a outcome \<times> ('w, 'a) task_conf) option" where
  "ValueTask_Await c =
     (let (t, sys) = c in
      case vt_future t of
        None \<Rightarrow> Some (Raise (RuntimeError ''Task not started''), c)
      | Some i \<Rightarrow>
          (case thread_join (vt_thread t) sys of
             None \<Rightarrow> None
           | Some (Raise e, sys1) \<Rightarrow> Some (Raise e, (t, sys1))
           | Some (Ret u, sys1) \<Rightarrow>
               (case ts_results sys1 i of
                  None \<Rightarrow> None
                | Some r \<Rightarrow> Some (r, (t\<lparr>vt_thread := No_Thread, vt_future := None\<rparr>, sys1)))))"

definition ValueTask_Run :: "('w, 'a) task_conf \<Rightarrow> ('a outcome \<times> ('w, 'a) task_conf) option" where
  "ValueTask_Run c =
     (let (t, sys) = c; (oc, t1) = ValueTask_StartAsync t in
      case oc of
        Raise e \<Rightarrow> Some (Raise e, (t1, sys))
      | Ret u \<Rightarrow> ValueTask_Await (t1, sys))"

definition ValueTask_Completed :: "nat \<Rightarrow> 'a \<Rightarrow> ('w, 'a) ValueTask" where
  "ValueTask_Completed i result = snd (ValueTask_StartAsync (ValueTask_Create i (ret result)))"

text \<open>The destructor of a joinable thread ends the process: \<open>False\<close>.\<close>

definition ValueTask_delete :: "('w, 'a) ValueTask \<Rightarrow> bool" where
  "ValueTask_delete t \<longleftrightarrow> vt_thread t = No_Thread"

text \<open>\<open>Task\<close>.\<close>

type_synonym 'w Task = "('w, unit) ValueTask"

definition Task_new :: "nat \<Rightarrow> ('w, unit) action \<Rightarrow> 'w Task" where
  [simp]: "Task_new = ValueTask_new"

definition Task_Create :: "nat \<Rightarrow> ('w, unit) action \<Rightarrow> 'w Task" where
  [simp]: "Task_Create = ValueTask_Create"

definition Task_move :: "'w Task \<Rightarrow> 'w Task \<times> 'w Task" where
  [simp]: "Task_move = ValueTask_move"

definition Task_assign :: "bool \<Rightarrow> 'w Task \<Rightarrow> 'w Task \<Rightarrow> 'w Task \<times> 'w Task" where
  [simp]: "Task_assign = ValueTask_assign"

definition Task_Completed :: "nat \<Rightarrow> 'w Task" where
  [simp]: "Task_Completed i = ValueTask_Completed i ()"

definition Task_StartAsync :: "'w Task \<Rightarrow> unit outcome \<times> 'w Task" where
  [simp]: "Task_StartAsync = ValueTask_StartAsync"

definition Task_Await :: "('w, unit) task_conf \<Rightarrow> (unit outcome \<times> ('w, unit) task_conf) option" where
  [simp]: "Task_Await = ValueTask_Await"

definition Task_Run :: "('w, unit) task_conf \<Rightarrow> (unit outcome \<times> ('w, unit) task_conf) option" where
  [simp]: "Task_Run = ValueTask_Run"

section \<open>The life of a task\<close>

text \<open>What the owner of a task may call, with the outcome of the call, and the end of its thread.\<close>

datatype 'a task_event =
    Ev_Start "unit outcome" | Ev_Await "'a outcome" | Ev_Run "'a outcome" | Ev_Thread "unit outcome"

inductive task_act :: "('w, 'a) task_conf \<Rightarrow> 'a task_event \<Rightarrow> ('w, 'a) task_conf \<Rightarrow> bool" where
  start: "ValueTask_StartAsync t = (oc, t') \<Longrightarrow> task_act (t, sys) (Ev_Start oc) (t', sys)"
| await: "ValueTask_Await c = Some (oc, c') \<Longrightarrow> task_act c (Ev_Await oc) c'"
| run: "ValueTask_Run c = Some (oc, c') \<Longrightarrow> task_act c (Ev_Run oc) c'"
| thread: "vt_thread t = Running p \<Longrightarrow> thread_run p sys = Some (oc, sys') \<Longrightarrow>
    task_act (t, sys) (Ev_Thread oc) (t\<lparr>vt_thread := Ended\<rparr>, sys')"

definition task_step :: "('w, 'a) task_conf \<Rightarrow> ('w, 'a) task_conf \<Rightarrow> bool" where
  "task_step c c' \<longleftrightarrow> (\<exists>e. task_act c e c')"

inductive task_trace :: "('w, 'a) task_conf \<Rightarrow> 'a task_event list \<Rightarrow> ('w, 'a) task_conf \<Rightarrow> bool" where
  none: "task_trace c [] c"
| more: "task_act c e c1 \<Longrightarrow> task_trace c1 es c2 \<Longrightarrow> task_trace c (e # es) c2"

lemma steps_trace: "task_step\<^sup>*\<^sup>* c c' \<Longrightarrow> \<exists>es. task_trace c es c'"
  by (induction rule: converse_rtranclp_induct) (auto simp: task_step_def intro: task_trace.intros)

section \<open>What a task promises\<close>

text \<open>
  The machine a task implements: four phases, with the one reply each call has in each of them. \<open>fr\<close> is the outcome
  of the routine, when it has one.
\<close>

datatype task_phase = Fresh | Started | Finished | Spent

fun phase_move :: "'a outcome option \<Rightarrow> task_phase \<Rightarrow> 'a task_event \<Rightarrow> task_phase option" where
  "phase_move fr Fresh (Ev_Start oc) = (if oc = Ret () then Some Started else None)"
| "phase_move fr Spent (Ev_Start oc) = (if oc = Raise (FutureError ''no_state'') then Some Spent else None)"
| "phase_move fr ph (Ev_Start oc) = (if oc = Raise (RuntimeError ''Task already started'') then Some ph else None)"
| "phase_move fr Fresh (Ev_Run oc) = (if fr = Some oc then Some Spent else None)"
| "phase_move fr Spent (Ev_Run oc) = (if oc = Raise (FutureError ''no_state'') then Some Spent else None)"
| "phase_move fr ph (Ev_Run oc) = (if oc = Raise (RuntimeError ''Task already started'') then Some ph else None)"
| "phase_move fr Started (Ev_Await oc) = (if fr = Some oc then Some Spent else None)"
| "phase_move fr Finished (Ev_Await oc) = (if fr = Some oc then Some Spent else None)"
| "phase_move fr ph (Ev_Await oc) = (if oc = Raise (RuntimeError ''Task not started'') then Some ph else None)"
| "phase_move fr Started (Ev_Thread oc) = (if oc = Ret () \<and> fr \<noteq> None then Some Finished else None)"
| "phase_move fr ph (Ev_Thread oc) = None"

fun phase_run :: "'a outcome option \<Rightarrow> task_phase \<Rightarrow> 'a task_event list \<Rightarrow> task_phase option" where
  "phase_run fr ph [] = Some ph"
| "phase_run fr ph (e # es) = (case phase_move fr ph e of None \<Rightarrow> None | Some ph' \<Rightarrow> phase_run fr ph' es)"

text \<open>The state of a task of the routine \<open>f\<close> that was made in the world \<open>w\<close>, in each phase.\<close>

definition task_at :: "nat \<Rightarrow> ('w, 'a) action \<Rightarrow> 'w \<Rightarrow> task_phase \<Rightarrow> ('w, 'a) task_conf \<Rightarrow> bool" where
  "task_at i f w ph c \<longleftrightarrow>
     (case ph of
        Fresh \<Rightarrow> fst c = ValueTask_new i f \<and> ts_results (snd c) i = None \<and> ts_world (snd c) = w
      | Started \<Rightarrow> vt_task (fst c) = None \<and> vt_future (fst c) = Some i \<and>
          vt_thread (fst c) = Running \<lparr>pk_state = i, pk_routine = f, pk_retrieved = True\<rparr> \<and>
          ts_results (snd c) i = None \<and> ts_world (snd c) = w
      | Finished \<Rightarrow> vt_task (fst c) = None \<and> vt_future (fst c) = Some i \<and> vt_thread (fst c) = Ended \<and>
          (\<exists>r. ts_results (snd c) i = Some r \<and> f w = Some (r, ts_world (snd c)))
      | Spent \<Rightarrow> vt_task (fst c) = None \<and> vt_future (fst c) = None \<and> vt_thread (fst c) = No_Thread \<and>
          (\<exists>r. f w = Some (r, ts_world (snd c))))"

lemmas task_operation_defs = ValueTask_StartAsync_def ValueTask_Await_def ValueTask_new_def get_future_def
  thread_join_def thread_run_def packaged_call_def

lemma start_phase:
  "task_at i f w Fresh (t, sys) \<Longrightarrow> \<exists>t'. ValueTask_StartAsync t = (Ret (), t') \<and> task_at i f w Started (t', sys)"
  "task_at i f w Started (t, sys) \<Longrightarrow> ValueTask_StartAsync t = (Raise (RuntimeError ''Task already started''), t)"
  "task_at i f w Finished (t, sys) \<Longrightarrow> ValueTask_StartAsync t = (Raise (RuntimeError ''Task already started''), t)"
  "task_at i f w Spent (t, sys) \<Longrightarrow> ValueTask_StartAsync t = (Raise (FutureError ''no_state''), t)"
  by (simp_all add: task_at_def task_operation_defs)

lemma await_phase:
  "task_at i f w Fresh c \<Longrightarrow> ValueTask_Await c = Some (Raise (RuntimeError ''Task not started''), c)"
  "task_at i f w Spent c \<Longrightarrow> ValueTask_Await c = Some (Raise (RuntimeError ''Task not started''), c)"
  by (auto simp: task_at_def task_operation_defs split: prod.splits)

lemma await_started:
  assumes "task_at i f w ph c" and "ph \<in> {Started, Finished}"
  shows "case f w of
      None \<Rightarrow> ValueTask_Await c = None
    | Some (r, w') \<Rightarrow> \<exists>c'. ValueTask_Await c = Some (r, c') \<and> task_at i f w Spent c' \<and> ts_world (snd c') = w'"
  using assms by (cases c; cases "f w") (auto simp: task_at_def task_operation_defs)

lemma await_started_Some:
  assumes "task_at i f w ph c" and "ph \<in> {Started, Finished}" and "ValueTask_Await c = Some (oc, c')"
  shows "map_option fst (f w) = Some oc \<and> task_at i f w Spent c'"
  using await_started [OF assms(1,2)] assms(3) by (cases "f w") auto

lemma thread_phase:
  assumes "task_at i f w ph (t, sys)" and "vt_thread t = Running p" and "thread_run p sys = Some (oc, sys')"
  shows "ph = Started \<and> oc = Ret () \<and> f w \<noteq> None \<and> task_at i f w Finished (t\<lparr>vt_thread := Ended\<rparr>, sys')"
  using assms by (cases ph) (auto simp: task_at_def task_operation_defs split: option.splits)

text \<open>Every move of a task is a move of the machine.\<close>

lemma move_phase:
  assumes "task_act c e c'" and "task_at i f w ph c"
  shows "\<exists>ph'. phase_move (map_option fst (f w)) ph e = Some ph' \<and> task_at i f w ph' c'"
  using assms(1)
proof (cases rule: task_act.cases)
  case (start t oc t' sys)
  with assms(2) show ?thesis using start_phase [of i f w t sys] by (cases ph) auto
next
  case (await oc)
  with assms(2) await_phase [of i f w c] await_started_Some [of i f w ph c oc c'] show ?thesis by (cases ph) auto
next
  case (run oc)
  obtain t sys where c: "c = (t, sys)" by (cases c)
  obtain oc1 t1 where s: "ValueTask_StartAsync t = (oc1, t1)" by (cases "ValueTask_StartAsync t")
  show ?thesis
  proof (cases ph)
    case Fresh
    with assms(2) start_phase(1) [of i f w t sys] s c have "oc1 = Ret ()" "task_at i f w Started (t1, sys)" by auto
    with await_started_Some [of i f w Started "(t1, sys)" oc c'] run s c Fresh show ?thesis by (auto simp: ValueTask_Run_def)
  qed (use assms(2) start_phase(2-4) [of i f w t sys] s c run in \<open>auto simp: ValueTask_Run_def\<close>)
next
  case (thread t p sys oc sys')
  with assms(2) thread_phase [of i f w ph t sys p oc sys'] show ?thesis by auto
qed

lemma trace_phase:
  assumes "task_trace c es c'" and "task_at i f w ph c"
  shows "\<exists>ph'. phase_run (map_option fst (f w)) ph es = Some ph' \<and> task_at i f w ph' c'"
  using assms
proof (induction arbitrary: ph rule: task_trace.induct)
  case (more c e c1 es c2)
  from move_phase [OF more(1,4)] obtain ph1 where
    "phase_move (map_option fst (f w)) ph e = Some ph1" "task_at i f w ph1 c1" by blast
  with more.IH [of ph1] show ?case by auto
qed auto

lemma steps_phase: "task_step\<^sup>*\<^sup>* c c' \<Longrightarrow> task_at i f w ph c \<Longrightarrow> \<exists>ph'. task_at i f w ph' c'"
  by (blast dest: steps_trace trace_phase)

lemma created_fresh: "ts_results sys i = None \<Longrightarrow> task_at i f (ts_world sys) Fresh (ValueTask_Create i f, sys)"
  by (simp add: task_at_def ValueTask_Create_def)

section \<open>Properties\<close>

text \<open>
  C26: a task is a machine of four phases that runs its routine once. Whatever the owner of a created task calls, in
  whatever order, and whenever its thread ends, the outcomes of the calls are those of \<open>phase_run\<close>: a second start and
  a wait without a start are refused, exactly one wait gives the outcome of the routine, the thread ends at most once, and nothing ends
  the process. A wait for a task that is started returns unless the routine does not. The world is untouched as long as the machine has not passed the end of the thread, and what one run of
  the routine has made of it from then on.
\<close>

theorem task_runs_once:
  assumes "ts_results sys i = None" and "task_trace (ValueTask_Create i f, sys) es (t, sys')"
  shows "\<exists>ph. phase_run (map_option fst (f (ts_world sys))) Fresh es = Some ph \<and>
    (if ph \<in> {Fresh, Started} then ts_world sys' = ts_world sys
     else map_option snd (f (ts_world sys)) = Some (ts_world sys')) \<and>
    (ph \<in> {Started, Finished} \<longrightarrow> (ValueTask_Await (t, sys') = None \<longleftrightarrow> f (ts_world sys) = None))"
proof -
  from trace_phase [OF assms(2) created_fresh [OF assms(1)]] obtain ph where
    "phase_run (map_option fst (f (ts_world sys))) Fresh es = Some ph" "task_at i f (ts_world sys) ph (t, sys')" by blast
  moreover from this have "ph \<in> {Started, Finished} \<longrightarrow> (ValueTask_Await (t, sys') = None \<longleftrightarrow> f (ts_world sys) = None)"
    using await_started [of i f "ts_world sys" ph "(t, sys')"] by (auto split: option.splits)
  ultimately show ?thesis by (intro exI [of _ ph]) (cases ph; auto simp: task_at_def)
qed

definition task_sample :: "(nat, nat) task_conf" where
  "task_sample = (ValueTask_Create 0 (\<lambda>w. Some (Ret (w + 5), Suc w)), \<lparr>ts_world = 1, ts_results = \<lambda>_. None\<rparr>)"

text \<open>The thread ends between the start and the wait.\<close>

lemma task_runs_once_witness:
  "\<exists>t sys. task_trace task_sample [Ev_Start (Ret ()), Ev_Thread (Ret ()), Ev_Await (Ret 6)] (t, sys) \<and> ts_world sys = 2"
proof -
  obtain t1 t2 t3 sys2 sys3 where m:
    "task_act task_sample (Ev_Start (Ret ())) (t1, snd task_sample)"
    "task_act (t1, snd task_sample) (Ev_Thread (Ret ())) (t2, sys2)"
    "task_act (t2, sys2) (Ev_Await (Ret 6)) (t3, sys3)"
  proof
    show "task_act task_sample (Ev_Start (Ret ())) (snd (ValueTask_StartAsync (fst task_sample)), snd task_sample)"
      unfolding task_sample_def fst_conv snd_conv
      by (rule task_act.start) (simp add: ValueTask_Create_def task_operation_defs)
    show "task_act (snd (ValueTask_StartAsync (fst task_sample)), snd task_sample) (Ev_Thread (Ret ()))
        ((snd (ValueTask_StartAsync (fst task_sample)))\<lparr>vt_thread := Ended\<rparr>, \<lparr>ts_world = 2, ts_results = [0 \<mapsto> Ret 6]\<rparr>)"
      by (rule task_act.thread [where p = "\<lparr>pk_state = 0, pk_routine = \<lambda>w. Some (Ret (w + 5), Suc w), pk_retrieved = True\<rparr>"])
        (simp_all add: task_sample_def ValueTask_Create_def task_operation_defs)
    show "task_act ((snd (ValueTask_StartAsync (fst task_sample)))\<lparr>vt_thread := Ended\<rparr>, \<lparr>ts_world = 2, ts_results = [0 \<mapsto> Ret 6]\<rparr>)
        (Ev_Await (Ret 6)) ((snd (ValueTask_StartAsync (fst task_sample)))\<lparr>vt_thread := No_Thread, vt_future := None\<rparr>,
          \<lparr>ts_world = 2, ts_results = [0 \<mapsto> Ret 6]\<rparr>)"
      by (rule task_act.await) (simp add: task_sample_def ValueTask_Create_def task_operation_defs)
  qed
  have tr: "task_trace task_sample [Ev_Start (Ret ()), Ev_Thread (Ret ()), Ev_Await (Ret 6)] (t3, sys3)"
    by (rule task_trace.more [OF m(1) task_trace.more [OF m(2) task_trace.more [OF m(3) task_trace.none]]])
  from task_runs_once [OF _ tr [unfolded task_sample_def]] have "ts_world sys3 = 2" by (simp add: numeral_2_eq_2)
  with tr show ?thesis by blast
qed

text \<open>
  C27: the life of a task. A created task that is started and awaited, whether its thread has run before the
  wait or not, gives exactly the outcome of its routine, an exception included; before the start a wait is
  an error, a second start is an error, and after the wait both are, with the world as the one run left it.
\<close>

theorem task_life:
  assumes "ts_results sys i = None" and "f (ts_world sys) = Some (r, w)"
  shows "ValueTask_Await (ValueTask_Create i f, sys) =
      Some (Raise (RuntimeError ''Task not started''), (ValueTask_Create i f, sys)) \<and>
    (\<exists>t1. ValueTask_StartAsync (ValueTask_Create i f) = (Ret (), t1) \<and>
      ValueTask_StartAsync t1 = (Raise (RuntimeError ''Task already started''), t1) \<and>
      (\<forall>t2 sys2. task_step\<^sup>*\<^sup>* (t1, sys) (t2, sys2) \<and> vt_future t2 \<noteq> None \<longrightarrow>
        (\<exists>t3 sys3. ValueTask_Await (t2, sys2) = Some (r, (t3, sys3)) \<and> ts_world sys3 = w \<and> ValueTask_delete t3 \<and>
          ValueTask_Await (t3, sys3) = Some (Raise (RuntimeError ''Task not started''), (t3, sys3)) \<and>
          ValueTask_StartAsync t3 = (Raise (FutureError ''no_state''), t3))))"
proof -
  let ?w = "ts_world sys"
  note fresh = created_fresh [OF assms(1), of f]
  obtain t1 where t1: "ValueTask_StartAsync (ValueTask_Create i f) = (Ret (), t1)" "task_at i f ?w Started (t1, sys)"
    using start_phase(1) [OF fresh] by blast
  have "\<exists>t3 sys3. ValueTask_Await (t2, sys2) = Some (r, (t3, sys3)) \<and> ts_world sys3 = w \<and> ValueTask_delete t3 \<and>
      ValueTask_Await (t3, sys3) = Some (Raise (RuntimeError ''Task not started''), (t3, sys3)) \<and>
      ValueTask_StartAsync t3 = (Raise (FutureError ''no_state''), t3)"
    if steps: "task_step\<^sup>*\<^sup>* (t1, sys) (t2, sys2)" "vt_future t2 \<noteq> None" for t2 sys2
  proof -
    obtain ph where ph: "task_at i f ?w ph (t2, sys2)" using steps_phase [OF steps(1) t1(2)] by blast
    with steps(2) have "ph \<in> {Started, Finished}"
      by (cases ph) (auto simp: task_at_def ValueTask_new_def)
    from await_started [OF ph this] assms(2) obtain t3 sys3 where
      c3: "ValueTask_Await (t2, sys2) = Some (r, (t3, sys3))" "task_at i f ?w Spent (t3, sys3)" "ts_world sys3 = w"
      by auto
    with await_phase(2) [OF c3(2)] start_phase(4) [OF c3(2)] show ?thesis
      by (auto simp: ValueTask_delete_def task_at_def)
  qed
  with await_phase(1) [OF fresh] t1(1) start_phase(2) [OF t1(2)] show ?thesis by blast
qed

lemma task_life_witness:
  "\<exists>t3 sys3. ValueTask_Await (snd (ValueTask_StartAsync (fst task_sample)), snd task_sample) = Some (Ret 6, (t3, sys3)) \<and>
    ts_world sys3 = 2"
proof -
  have t: "fst task_sample = ValueTask_Create 0 (\<lambda>w. Some (Ret (w + 5), Suc w))"
    "ts_world (snd task_sample) = 1" "ts_results (snd task_sample) 0 = None"
    by (simp_all add: task_sample_def)
  obtain t1 where t1: "ValueTask_StartAsync (fst task_sample) = (Ret (), t1)"
    by (simp add: task_sample_def ValueTask_Create_def task_operation_defs)
  from task_life [OF t(3), of "\<lambda>w. Some (Ret (w + 5), Suc w)" "Ret 6" 2, folded t(1)] t(2) t1
  have later: "\<exists>t3 sys3. ValueTask_Await (t2, sys2) = Some (Ret 6, (t3, sys3)) \<and> ts_world sys3 = 2"
    if "task_step\<^sup>*\<^sup>* (t1, snd task_sample) (t2, sys2)" "vt_future t2 \<noteq> None" for t2 sys2
    using that by simp blast
  have "vt_future t1 \<noteq> None"
    using t1 unfolding t(1) by (auto simp: ValueTask_StartAsync_def ValueTask_Create_def ValueTask_new_def get_future_def)
  with later [of t1 "snd task_sample"] t1 show ?thesis by simp
qed

text \<open>
  A started task does not survive a move. The new object owns the future but not the thread, so waiting
  for it throws \<open>std::system_error\<close>, and the destructor of the source, whose thread is joinable, ends the
  process.
\<close>

theorem moved_task_unusable:
  assumes "ValueTask_StartAsync t = (Ret (), t1)" and "ValueTask_move t1 = (t2, t3)"
  shows "ValueTask_Await (t2, sys) = Some (Raise (OtherException ''std::system_error''), (t2, sys)) \<and>
    \<not> ValueTask_delete t3"
  using assms
  by (auto simp: ValueTask_StartAsync_def ValueTask_move_def ValueTask_Await_def ValueTask_delete_def get_future_def
      thread_join_def Let_def split: if_splits option.splits)

lemma moved_task_unusable_witness:
  "\<exists>t2 t3. ValueTask_move (snd (ValueTask_StartAsync (fst task_sample))) = (t2, t3) \<and> \<not> ValueTask_delete t3"
proof -
  obtain t1 where t1: "ValueTask_StartAsync (fst task_sample) = (Ret (), t1)"
    by (simp add: task_sample_def ValueTask_Create_def task_operation_defs)
  obtain t2 t3 where "ValueTask_move t1 = (t2, t3)" by fastforce
  with moved_task_unusable [OF t1 this] t1 show ?thesis by auto
qed

end
