(* ===== verification/Config.thy ===== *)
theory Config
  imports Thread_Pool
begin

text \<open>
  The configuration and the loggers: \<open>minet/src/common/Log.cpp\<close>, \<open>LoadServerConfig\<close> of \<open>core/IServer.cpp\<close>,
  \<open>components/LoggerFactory.cpp\<close> and the construction of a logger in \<open>components/Logger.cpp\<close>. The JSON library
  and spdlog are not part of the repository: the first is the record \<open>json_ops\<close>, of the second the model has
  the registry of names, which refuses a name that is taken.
\<close>

section \<open>JSON\<close>

text \<open>
  The functions of \<open>nlohmann::json\<close> the code calls: \<open>value\<close> for each type of the default (it throws when the
  entry is not an object or the member has another type), \<open>find\<close>, and the iteration with and without keys.
\<close>

record 'j json_ops =
  js_object :: 'j
  js_has :: "'j \<Rightarrow> string \<Rightarrow> bool"
  js_str :: "'j \<Rightarrow> string \<Rightarrow> string \<Rightarrow> string outcome"
  js_int :: "'j \<Rightarrow> string \<Rightarrow> 32 word \<Rightarrow> 32 word outcome"
  js_uint :: "'j \<Rightarrow> string \<Rightarrow> 32 word \<Rightarrow> 32 word outcome"
  js_obj :: "'j \<Rightarrow> string \<Rightarrow> 'j \<Rightarrow> 'j outcome"
  js_items :: "'j \<Rightarrow> (string outcome \<times> 'j) list"

section \<open>The server's configuration\<close>

record ServerConfig =
  sc_Name :: string
  sc_Port :: "16 word"
  sc_Threads :: "32 word"
  sc_Capacity :: size_t

definition LoadServerConfig :: "'j json_ops \<Rightarrow> 32 word \<Rightarrow> 'j \<Rightarrow> ServerConfig outcome" where
  \<comment> \<open>\<open>hw\<close> is \<open>std::thread::hardware_concurrency()\<close>\<close>
  "LoadServerConfig js hw config =
     outcome_bind (js_str js config ''name'' ''Basic'') (\<lambda>name.
     outcome_bind (js_int js config ''threads'' 0) (\<lambda>threads.
       let threads = (if threads = 0 then hw else threads) in
     outcome_bind (js_uint js config ''capacity'' 0) (\<lambda>capacity.
       let capacity = (ucast capacity :: size_t); capacity = (if capacity = 0 then 1024 else capacity) in
     outcome_bind (js_int js config ''port'' 5000) (\<lambda>port.
       if sint port \<le> 0 \<or> sint port > 65535
       then Raise (RuntimeError (''Invalid port number: '' @ int_string (sint port)))
       else Ret \<lparr>sc_Name = name, sc_Port = ucast port, sc_Threads = threads, sc_Capacity = capacity\<rparr>))))"

section \<open>The loggers' configuration\<close>

datatype LogLevel = LL_All | LL_Fine | LL_Debug | LL_Info | LL_Warning | LL_Error | LL_Critical | LL_Disabled | LL_Invalid

definition ParseLogLevel :: "string \<Rightarrow> LogLevel" where
  "ParseLogLevel s =
     (let level = map tolower s in
      if level = ''all'' then LL_All
      else if level = ''fine'' then LL_Fine
      else if level = ''debug'' then LL_Debug
      else if level = ''info'' then LL_Info
      else if level = ''warning'' then LL_Warning
      else if level = ''error'' then LL_Error
      else if level = ''critical'' then LL_Critical
      else if level = ''disabled'' then LL_Disabled
      else LL_Invalid)"

record LoggerSink =
  sink_Pattern :: string
  sink_File :: string

record LoggerSpecification =
  spec_Name :: string
  spec_Level :: LogLevel
  spec_Pattern :: string
  spec_Sinks :: "LoggerSink list"

record LoggerConfig =
  lc_DefaultLevel :: LogLevel
  lc_DefaultPattern :: string
  lc_DefaultSinks :: "LoggerSink list"
  lc_Specifications :: "string \<Rightarrow> LoggerSpecification option"

fun parse_sinks :: "'j json_ops \<Rightarrow> string \<Rightarrow> 'j list \<Rightarrow> LoggerSink list outcome" where
  "parse_sinks js pattern [] = Ret []"
| "parse_sinks js pattern (entry # es) =
     outcome_bind (js_str js entry ''pattern'' pattern) (\<lambda>p.
     outcome_bind (js_str js entry ''file'' []) (\<lambda>file.
     outcome_bind (parse_sinks js pattern es) (\<lambda>sinks.
       Ret (if file = [] then sinks else \<lparr>sink_Pattern = p, sink_File = file\<rparr> # sinks))))"

definition ParseLoggerSpecification ::
    "'j json_ops \<Rightarrow> 'j \<Rightarrow> LoggerSpecification option \<Rightarrow> LoggerSpecification outcome" where
  "ParseLoggerSpecification js config parent =
     outcome_bind
       (if \<not> js_has js config ''level''
        then Ret (case parent of None \<Rightarrow> LL_Debug | Some spec \<Rightarrow> spec_Level spec)
        else outcome_bind (js_str js config ''level'' ''Debug'') (\<lambda>s.
          if ParseLogLevel s = LL_Invalid then Raise (RuntimeError (''Invalid log level: '' @ s))
          else Ret (ParseLogLevel s))) (\<lambda>level.
     outcome_bind (js_str js config ''pattern'' (case parent of None \<Rightarrow> [] | Some spec \<Rightarrow> spec_Pattern spec)) (\<lambda>pattern.
     outcome_bind (js_obj js config ''sinks'' (js_object js)) (\<lambda>sinks.
     outcome_bind (parse_sinks js pattern (map snd (js_items js sinks))) (\<lambda>sinks.
       Ret \<lparr>spec_Name = [], spec_Level = level, spec_Pattern = pattern, spec_Sinks = sinks\<rparr>))))"

text \<open>\<open>e.what()\<close>, as far as the code reads it.\<close>

fun what :: "fault \<Rightarrow> string" where
  "what (RuntimeError s) = s"
| "what (OtherException s) = s"
| "what (FutureError s) = s"
| "what e = []"

text \<open>\<open>emplace\<close> keeps the first specification of a name.\<close>

fun parse_loggers ::
    "'j json_ops \<Rightarrow> LoggerSpecification \<Rightarrow> (string outcome \<times> 'j) list \<Rightarrow>
     (string \<Rightarrow> LoggerSpecification option) \<Rightarrow> (string \<Rightarrow> LoggerSpecification option) outcome" where
  "parse_loggers js parent [] specs = Ret specs"
| "parse_loggers js parent ((key, entry) # es) specs =
     outcome_bind (ParseLoggerSpecification js entry (Some parent)) (\<lambda>spec.
     outcome_bind key (\<lambda>name.
       parse_loggers js parent es
         (if specs name = None then specs(name \<mapsto> spec\<lparr>spec_Name := name\<rparr>) else specs)))"

definition LoadLoggerConfig :: "'j json_ops \<Rightarrow> 'j \<Rightarrow> LoggerConfig outcome" where
  "LoadLoggerConfig js config =
     outcome_bind (ParseLoggerSpecification js config None) (\<lambda>spec.
       case outcome_bind (js_obj js config ''loggers'' (js_object js))
           (\<lambda>loggers. parse_loggers js spec (js_items js loggers) Map.empty) of
         Raise e \<Rightarrow> if is_exception e then Raise (RuntimeError (''Invalid logger configuration: '' @ what e)) else Raise e
       | Ret specs \<Rightarrow>
           Ret \<lparr>lc_DefaultLevel = spec_Level spec, lc_DefaultPattern = spec_Pattern spec,
             lc_DefaultSinks = spec_Sinks spec, lc_Specifications = specs\<rparr>)"

section \<open>Loggers\<close>

datatype spd_level = Spd_trace | Spd_debug | Spd_info | Spd_warn | Spd_err | Spd_critical | Spd_off

fun LogLevelToSpdLogLevel :: "LogLevel \<Rightarrow> spd_level" where
  "LogLevelToSpdLogLevel LL_All = Spd_trace"
| "LogLevelToSpdLogLevel LL_Fine = Spd_trace"
| "LogLevelToSpdLogLevel LL_Debug = Spd_debug"
| "LogLevelToSpdLogLevel LL_Info = Spd_info"
| "LogLevelToSpdLogLevel LL_Warning = Spd_warn"
| "LogLevelToSpdLogLevel LL_Error = Spd_err"
| "LogLevelToSpdLogLevel LL_Critical = Spd_critical"
| "LogLevelToSpdLogLevel LL_Disabled = Spd_off"
| "LogLevelToSpdLogLevel LL_Invalid = Spd_off"

datatype spd_sink = Spd_stdout "string option" | Spd_stderr "string option" | Spd_file string "string option"

record Logger =
  lg_name :: string
  lg_sinks :: "spd_sink list"
  lg_level :: spd_level
  lg_flush_on :: spd_level

text \<open>The names spdlog knows and the loggers that exist; a reference to a logger is its number.\<close>

record log_system =
  ls_registry :: "string list"
  ls_loggers :: "Logger list"

definition make_sink :: "LoggerSink \<Rightarrow> spd_sink" where
  "make_sink sink =
     (let pattern = (if sink_Pattern sink \<noteq> [] then Some (sink_Pattern sink) else None) in
      if sink_File sink = ''stdout'' then Spd_stdout pattern
      else if sink_File sink = ''stderr'' then Spd_stderr pattern
      else Spd_file (sink_File sink) pattern)"

text \<open>\<open>can_open\<close> are the files a sink can be made for.\<close>

definition Logger_new ::
    "(string \<Rightarrow> bool) \<Rightarrow> LoggerSpecification \<Rightarrow> log_system \<Rightarrow> nat outcome \<times> log_system" where
  "Logger_new can_open config sys =
     (if \<not> list_all (\<lambda>sink. sink_File sink \<in> {''stdout'', ''stderr''} \<or> can_open (sink_File sink)) (spec_Sinks config)
        \<or> spec_Name config \<in> set (ls_registry sys)
      then (Raise (OtherException ''spdlog::spdlog_ex''), sys)
      else (Ret (length (ls_loggers sys)),
        \<lparr>ls_registry = spec_Name config # ls_registry sys,
         ls_loggers = ls_loggers sys @ [\<lparr>lg_name = spec_Name config, lg_sinks = map make_sink (spec_Sinks config),
           lg_level = LogLevelToSpdLogLevel (spec_Level config), lg_flush_on = LogLevelToSpdLogLevel (spec_Level config)\<rparr>]\<rparr>))"

record LoggerFactory =
  lf_config :: LoggerConfig
  lf_loggers :: "string \<Rightarrow> nat option"

definition LoggerFactory_new :: "LoggerConfig \<Rightarrow> LoggerFactory" where
  "LoggerFactory_new config = \<lparr>lf_config = config, lf_loggers = Map.empty\<rparr>"

definition logger_spec :: "LoggerConfig \<Rightarrow> string \<Rightarrow> LoggerSpecification" where
  "logger_spec config name =
     (case lc_Specifications config name of
        None \<Rightarrow> \<lparr>spec_Name = name, spec_Level = lc_DefaultLevel config, spec_Pattern = lc_DefaultPattern config,
          spec_Sinks = lc_DefaultSinks config\<rparr>
      | Some spec \<Rightarrow> spec)"

definition LoggerFactory_GetLogger ::
    "(string \<Rightarrow> bool) \<Rightarrow> string \<Rightarrow> LoggerFactory \<times> log_system \<Rightarrow> nat outcome \<times> LoggerFactory \<times> log_system" where
  "LoggerFactory_GetLogger can_open name s =
     (let (lf, sys) = s in
      case lf_loggers lf name of
        Some r \<Rightarrow> (Ret r, s)
      | None \<Rightarrow>
          (case Logger_new can_open (logger_spec (lf_config lf) name) sys of
             (Raise e, sys1) \<Rightarrow> (Raise e, (lf, sys1))
           | (Ret r, sys1) \<Rightarrow> (Ret r, (lf\<lparr>lf_loggers := (lf_loggers lf)(name \<mapsto> r)\<rparr>, sys1))))"

section \<open>The configuration fits the server\<close>

lemma outcome_bind_Ret: "outcome_bind m f = Ret y \<longleftrightarrow> (\<exists>x. m = Ret x \<and> f x = Ret y)"
  by (cases m) auto

lemma MakePowerOfTwo_small:
  assumes "x \<noteq> 0" and "unat x \<le> 2 ^ 32"
  shows "unat (MakePowerOfTwo x) \<le> 2 ^ 32" and "2 \<le> unat (MakePowerOfTwo x) \<longleftrightarrow> x \<noteq> 1"
proof -
  have "unat (MakePowerOfTwo x) \<le> 2 ^ 32 \<and> (2 \<le> unat (MakePowerOfTwo x) \<longleftrightarrow> x \<noteq> 1)"
  proof (cases "x = 1")
    case True
    then show ?thesis by (simp add: MakePowerOfTwo_def)
  next
    case False
    from MakePowerOfTwo_top [OF assms(1) this] obtain h where
      h: "2 ^ h < unat x" "MakePowerOfTwo x = mask (Suc h) + 1" by blast
    have "(2 :: nat) ^ h < 2 ^ 32" using h(1) assms(2) by (rule less_le_trans)
    then have lt: "h < 32" by (metis nat_power_less_imp_less zero_less_numeral)
    then have "unat (MakePowerOfTwo x) = 2 ^ Suc h" using h(2) unat_mask_Suc [of h] by simp
    moreover have "(2 :: nat) ^ Suc h \<le> 2 ^ 32" using lt by (intro power_increasing) simp_all
    ultimately show ?thesis using False by simp
  qed
  then show "unat (MakePowerOfTwo x) \<le> 2 ^ 32" "2 \<le> unat (MakePowerOfTwo x) \<longleftrightarrow> x \<noteq> 1" by simp_all
qed

text \<open>The rounding is a length the constructor of the queue takes.\<close>

lemma exp_AND_pred: "(2 :: size_t) ^ n AND (2 ^ n - 1) = 0"
  by (rule bit_eqI) (auto simp: bit_and_iff bit_exp_iff bit_mask_iff simp flip: mask_eq_exp_minus_1)

lemma MakePowerOfTwo_legal:
  assumes "x \<noteq> 0" and "unat x \<le> 2 ^ 32"
  shows "\<exists>q. Queue_new dflt (MakePowerOfTwo x) = Ret q \<and> q_capacity q = MakePowerOfTwo x"
proof -
  obtain k where k: "unat (MakePowerOfTwo x) = 2 ^ k"
    using make_power_of_two_correct [of x] assms(2) by (auto split: if_splits)
  with MakePowerOfTwo_small(1) [OF assms] have "(2 :: nat) ^ k < 2 ^ 64" by simp
  then have "k < 64" by (metis nat_power_less_imp_less zero_less_numeral)
  then have "unat (of_nat (2 ^ k) :: size_t) = 2 ^ k" by (simp only: unsigned_of_nat) (simp add: take_bit_nat_eq_self)
  then have "unat (2 ^ k :: size_t) = 2 ^ k" by simp
  with k have "MakePowerOfTwo x = 2 ^ k" by (simp add: word_unat_eq_iff)
  moreover have "0 < MakePowerOfTwo x" using k by (simp add: word_gt_0 unat_gt_0 flip: unat_eq_zero)
  ultimately show ?thesis by (simp add: Queue_new_def exp_AND_pred)
qed

lemma port_range:
  assumes "\<not> (sint (port :: 32 word) \<le> 0 \<or> sint port > 65535)"
  shows "1 \<le> unat port" and "unat port \<le> 65535" and "unat (ucast port :: 16 word) = unat port"
    and "ucast (ucast port :: 16 word) = port"
proof -
  have s: "0 < sint port" "sint port \<le> 65535" using assms by simp_all
  have u: "uint port = sint port"
    using s by (simp add: uint_sint take_bit_int_eq_self)
  then have n: "unat port = nat (sint port)" by (simp add: unat_eq_nat_uint)
  with s show "1 \<le> unat port" "unat port \<le> 65535" by linarith+
  then show p: "unat (ucast port :: 16 word) = unat port"
    by (simp add: unsigned_ucast_eq take_bit_nat_eq_self)
  have "unat (ucast (ucast port :: 16 word) :: 32 word) = unat port"
    using \<open>unat port \<le> 65535\<close> by (simp add: unsigned_ucast_eq unsigned_take_bit_eq take_bit_nat_eq_self)
  then show "ucast (ucast port :: 16 word) = port" by (rule word_unat_eq_iff [THEN iffD2])
qed

lemma cap_range: "unat (ucast (cap :: 32 word) :: 64 word) < 2 ^ 32" "ucast (cap :: 32 word) = (0 :: 64 word) \<longleftrightarrow> cap = 0"
  using unsigned_less [of cap, where 'a = nat] by (simp_all add: unsigned_ucast_eq take_bit_nat_eq_self word_unat_eq_iff)

section \<open>The factory\<close>

text \<open>The references of a factory are loggers that exist.\<close>

definition factory_inv :: "LoggerFactory \<times> log_system \<Rightarrow> bool" where
  "factory_inv s \<longleftrightarrow> (\<forall>name r. lf_loggers (fst s) name = Some r \<longrightarrow> r < length (ls_loggers (snd s)))"

lemma GetLogger_cases:
  assumes "LoggerFactory_GetLogger can_open name s = (oc, s1)"
  obtains (cached) r where "lf_loggers (fst s) name = Some r" "oc = Ret r" "s1 = s"
  | (refused) "lf_loggers (fst s) name = None" "oc = Raise (OtherException ''spdlog::spdlog_ex'')" "s1 = s"
  | (created) lg where "lf_loggers (fst s) name = None" "oc = Ret (length (ls_loggers (snd s)))"
      "fst s1 = (fst s)\<lparr>lf_loggers := (lf_loggers (fst s))(name \<mapsto> length (ls_loggers (snd s)))\<rparr>"
      "ls_loggers (snd s1) = ls_loggers (snd s) @ [lg]"
      "ls_registry (snd s1) = spec_Name (logger_spec (lf_config (fst s)) name) # ls_registry (snd s)"
      "lg = \<lparr>lg_name = spec_Name (logger_spec (lf_config (fst s)) name),
        lg_sinks = map make_sink (spec_Sinks (logger_spec (lf_config (fst s)) name)),
        lg_level = LogLevelToSpdLogLevel (spec_Level (logger_spec (lf_config (fst s)) name)),
        lg_flush_on = LogLevelToSpdLogLevel (spec_Level (logger_spec (lf_config (fst s)) name))\<rparr>"
  using assms
  by (cases s) (auto simp: LoggerFactory_GetLogger_def Logger_new_def Let_def split: option.splits if_splits)

fun get_loggers :: "(string \<Rightarrow> bool) \<Rightarrow> string list \<Rightarrow> LoggerFactory \<times> log_system \<Rightarrow> LoggerFactory \<times> log_system" where
  "get_loggers can_open [] s = s"
| "get_loggers can_open (n # ns) s = get_loggers can_open ns (snd (LoggerFactory_GetLogger can_open n s))"

lemma GetLogger_keeps:
  assumes "LoggerFactory_GetLogger can_open n s = (oc, s1)" and "factory_inv s"
  shows "factory_inv s1" and "lf_loggers (fst s) name = Some r \<Longrightarrow> lf_loggers (fst s1) name = Some r"
    and "r < length (ls_loggers (snd s)) \<Longrightarrow> ls_loggers (snd s1) ! r = ls_loggers (snd s) ! r"
    and "r < length (ls_loggers (snd s)) \<Longrightarrow> r < length (ls_loggers (snd s1))"
    and "lf_config (fst s1) = lf_config (fst s)"
  using assms(1)
  by (cases rule: GetLogger_cases; use assms(2) in \<open>auto simp: factory_inv_def nth_append less_Suc_eq\<close>)+

lemma get_loggers_keep:
  assumes "factory_inv s" and "lf_loggers (fst s) name = Some r"
  shows "factory_inv (get_loggers can_open ns s) \<and> lf_loggers (fst (get_loggers can_open ns s)) name = Some r \<and>
    ls_loggers (snd (get_loggers can_open ns s)) ! r = ls_loggers (snd s) ! r"
  using assms
proof (induction ns arbitrary: s)
  case (Cons n ns)
  obtain oc s1 where g: "LoggerFactory_GetLogger can_open n s = (oc, s1)"
    by (cases "LoggerFactory_GetLogger can_open n s")
  note k = GetLogger_keeps [OF g Cons.prems(1)]
  have "r < length (ls_loggers (snd s))" using Cons.prems by (auto simp: factory_inv_def)
  with Cons.IH [OF k(1) k(2) [OF Cons.prems(2)]] k(3) [of r] g show ?case by simp
qed simp

section \<open>Properties\<close>

text \<open>
  C28: a configuration that loads fits the server. On a machine that knows its number of processors the
  configuration has at least one thread, a port from 1 to 65535 that is the one of the file, and a capacity that is not 0
  and whose rounding is the least power of two that is not below it, at most \<open>2 ^ 32\<close>. The assertions of the constructors
  of the pool and of its queues hold for it: the pool of the server is made, with that many workers, whose queues have
  that length; it is well formed, for every capacity but 1, for which the queues are too short.
\<close>

theorem server_config_valid:
  assumes "LoadServerConfig js hw config = Ret cfg" and "hw \<noteq> 0"
    and "len = unat (MakePowerOfTwo (sc_Capacity cfg))"
  shows "1 \<le> unat (sc_Port cfg) \<and> sc_Threads cfg \<noteq> 0 \<and> sc_Capacity cfg \<noteq> 0 \<and>
    js_int js config ''port'' 5000 = Ret (ucast (sc_Port cfg)) \<and>
    len \<le> 2 ^ 32 \<and> (2 \<le> len \<longleftrightarrow> sc_Capacity cfg \<noteq> 1) \<and>
    (\<exists>k. len = 2 ^ k \<and> unat (sc_Capacity cfg) \<le> 2 ^ k \<and> (\<forall>j < k. 2 ^ j < unat (sc_Capacity cfg))) \<and>
    (\<exists>tp. ThreadPool_new dflt (unat (sc_Threads cfg)) (sc_Capacity cfg) = Ret tp \<and>
      tp_threads tp = unat (sc_Threads cfg) \<and> (\<forall>q \<in> set (tp_workers tp). unat (q_capacity q) = len) \<and>
      (sc_Capacity cfg \<noteq> 1 \<longrightarrow> pool_inv holds tp (replicate (unat (sc_Threads cfg)) [])))"
proof -
  obtain name threads cap port where c: "js_str js config ''name'' ''Basic'' = Ret name"
    "js_int js config ''threads'' 0 = Ret threads" "js_uint js config ''capacity'' 0 = Ret cap"
    "js_int js config ''port'' 5000 = Ret port" "\<not> (sint port \<le> 0 \<or> sint port > 65535)"
    and cfg: "cfg = \<lparr>sc_Name = name, sc_Port = ucast port, sc_Threads = (if threads = 0 then hw else threads),
      sc_Capacity = (if ucast cap = (0 :: size_t) then 1024 else ucast cap)\<rparr>"
    using assms(1) by (auto simp: LoadServerConfig_def Let_def outcome_bind_Ret split: if_splits)
  note port = port_range [OF c(5)]
  have cap: "sc_Capacity cfg \<noteq> 0" "unat (sc_Capacity cfg) \<le> 2 ^ 32"
    using cap_range [of cap] by (simp_all add: cfg)
  note small = MakePowerOfTwo_small [OF cap]
  have threads: "sc_Threads cfg \<noteq> 0" using assms(2) by (simp add: cfg)
  obtain q where q: "Queue_new dflt (MakePowerOfTwo (sc_Capacity cfg)) = Ret q" "q_capacity q = MakePowerOfTwo (sc_Capacity cfg)"
    using MakePowerOfTwo_legal [OF cap, of dflt] by blast
  define ts where "ts = unat (sc_Threads cfg)"
  have "ts \<noteq> 0" using threads by (simp add: ts_def unat_eq_zero)
  then have "\<exists>tp. ThreadPool_new dflt ts (sc_Capacity cfg) = Ret tp \<and> tp_threads tp = ts \<and> tp_workers tp = replicate ts q"
    by (simp add: ThreadPool_new_def Worker_new_def replicate_outcome_Ret q(1))
  then obtain tp where tp: "ThreadPool_new dflt (unat (sc_Threads cfg)) (sc_Capacity cfg) = Ret tp"
    "tp_threads tp = unat (sc_Threads cfg)" "tp_workers tp = replicate (unat (sc_Threads cfg)) q" unfolding ts_def by blast
  then have "\<forall>q \<in> set (tp_workers tp). unat (q_capacity q) = len" by (simp add: q(2) assms(3))
  note tp = tp(1,2) this
  have "pool_inv holds tp (replicate (unat (sc_Threads cfg)) [])" if "sc_Capacity cfg \<noteq> 1"
    by (rule ThreadPool_new_inv(1) [OF tp(1)]) (use small that in simp_all)
  moreover have "\<exists>k. len = 2 ^ k \<and> unat (sc_Capacity cfg) \<le> 2 ^ k \<and> (\<forall>j < k. 2 ^ j < unat (sc_Capacity cfg))"
    using make_power_of_two_correct [of "sc_Capacity cfg"] cap(2) by (simp add: assms(3))
  moreover have "1 \<le> unat (sc_Port cfg) \<and> js_int js config ''port'' 5000 = Ret (ucast (sc_Port cfg))"
    using port c(4) by (simp add: cfg)
  ultimately show ?thesis using cap(1) small threads tp unfolding assms(3) by blast
qed

text \<open>Two JSON values: an empty object and a file with a port and a capacity.\<close>

definition json_sample :: "(string \<Rightarrow> 32 word option) json_ops" where
  "json_sample = \<lparr>js_object = Map.empty, js_has = (\<lambda>j k. j k \<noteq> None), js_str = (\<lambda>j k d. Ret d),
     js_int = (\<lambda>j k d. Ret (case j k of None \<Rightarrow> d | Some n \<Rightarrow> n)),
     js_uint = (\<lambda>j k d. Ret (case j k of None \<Rightarrow> d | Some n \<Rightarrow> n)), js_obj = (\<lambda>j k d. Ret d),
     js_items = (\<lambda>j. [])\<rparr>"

lemma server_config_valid_witness:
  "\<exists>cfg. LoadServerConfig json_sample 4 [''port'' \<mapsto> 80, ''capacity'' \<mapsto> 3] = Ret cfg \<and>
    sc_Port cfg = 80 \<and> (\<exists>tp. ThreadPool_new (0 :: nat) 4 (sc_Capacity cfg) = Ret tp \<and> pool_inv holds tp [[], [], [], []])"
proof -
  let ?c = "[''port'' \<mapsto> 80, ''capacity'' \<mapsto> 3] :: string \<Rightarrow> 32 word option"
  obtain cfg where c: "LoadServerConfig json_sample 4 ?c = Ret cfg" "sc_Port cfg = 80" "sc_Capacity cfg = 3"
      "sc_Threads cfg = 4"
    by (simp add: LoadServerConfig_def json_sample_def)
  have four: "unat (4 :: 32 word) = 4" "(3 :: size_t) \<noteq> 1" "(4 :: 32 word) \<noteq> 0" by simp_all
  have lists: "replicate 4 [] = [[], [], [], [] :: nat list]" by (simp add: numeral_eq_Suc)
  obtain tp where "ThreadPool_new (0 :: nat) 4 (sc_Capacity cfg) = Ret tp" "pool_inv holds tp [[], [], [], []]"
    using server_config_valid [OF c(1) four(3) refl, of "0 :: nat"] unfolding c(3,4) four(1) lists using four(2) by blast
  with c(1,2) show ?thesis by blast
qed

text \<open>
  C29: a name has one logger. Once \<open>GetLogger\<close> has returned a logger for a name, every later call for that
  name, after any other calls, returns the same logger and changes nothing; a logger made by that call
  has the level and the sinks of the name's specification, or the defaults.
\<close>

theorem get_logger_stable:
  assumes "factory_inv s" and "LoggerFactory_GetLogger can_open name s = (Ret r, s1)"
  shows "LoggerFactory_GetLogger can_open name (get_loggers can_open ns s1) = (Ret r, get_loggers can_open ns s1) \<and>
    (lf_loggers (fst s) name = None \<longrightarrow>
      ls_loggers (snd (get_loggers can_open ns s1)) ! r =
        \<lparr>lg_name = spec_Name (logger_spec (lf_config (fst s)) name),
         lg_sinks = map make_sink (spec_Sinks (logger_spec (lf_config (fst s)) name)),
         lg_level = LogLevelToSpdLogLevel (spec_Level (logger_spec (lf_config (fst s)) name)),
         lg_flush_on = LogLevelToSpdLogLevel (spec_Level (logger_spec (lf_config (fst s)) name))\<rparr>)"
proof -
  have r: "lf_loggers (fst s1) name = Some r"
    using assms(2) by (cases rule: GetLogger_cases) auto
  note keep = get_loggers_keep [OF GetLogger_keeps(1) [OF assms(2,1)] r, of can_open ns]
  then have "LoggerFactory_GetLogger can_open name (get_loggers can_open ns s1) = (Ret r, get_loggers can_open ns s1)"
    by (cases "get_loggers can_open ns s1") (simp add: LoggerFactory_GetLogger_def)
  with assms(2) keep show ?thesis by (cases rule: GetLogger_cases) auto
qed

definition log_sample :: "LoggerFactory \<times> log_system" where
  "log_sample = (LoggerFactory_new \<lparr>lc_DefaultLevel = LL_Info, lc_DefaultPattern = [], lc_DefaultSinks = [],
     lc_Specifications = Map.empty\<rparr>, \<lparr>ls_registry = [], ls_loggers = []\<rparr>)"

lemma get_logger_stable_witness:
  "\<exists>s1. LoggerFactory_GetLogger (\<lambda>f. True) ''a'' log_sample = (Ret 0, s1) \<and>
    fst (LoggerFactory_GetLogger (\<lambda>f. True) ''a'' (get_loggers (\<lambda>f. True) [''b'', ''c''] s1)) = Ret 0"
proof -
  have i: "factory_inv log_sample" by (simp add: factory_inv_def log_sample_def LoggerFactory_new_def)
  obtain s1 where s1: "LoggerFactory_GetLogger (\<lambda>f. True) ''a'' log_sample = (Ret 0, s1)"
    by (simp add: LoggerFactory_GetLogger_def log_sample_def LoggerFactory_new_def Logger_new_def logger_spec_def)
  with get_logger_stable [OF i s1, of "[''b'', ''c'']"] show ?thesis by auto
qed

end
