(* ===== verification/Logging.thy ===== *)
theory Logging
  imports Config
begin

text \<open>
  The methods of \<open>minet/include/minet/components/Logger.h\<close>, which hand a message to spdlog, and the destructor of a
  logger. spdlog is not part of the repository: what the methods call of it is the record \<open>spd_ops\<close>, and the locale
  \<open>spdlog\<close> states what its documentation promises of these calls. The formatting of the arguments is a parameter.
\<close>

section \<open>The order of the levels\<close>

fun spd_rank :: "spd_level \<Rightarrow> nat" where
  "spd_rank Spd_trace = 0"
| "spd_rank Spd_debug = 1"
| "spd_rank Spd_info = 2"
| "spd_rank Spd_warn = 3"
| "spd_rank Spd_err = 4"
| "spd_rank Spd_critical = 5"
| "spd_rank Spd_off = 6"

instantiation spd_level :: linorder
begin

definition less_eq_spd_level :: "spd_level \<Rightarrow> spd_level \<Rightarrow> bool" where
  "less_eq_spd_level a b \<longleftrightarrow> spd_rank a \<le> spd_rank b"

definition less_spd_level :: "spd_level \<Rightarrow> spd_level \<Rightarrow> bool" where
  "less_spd_level a b \<longleftrightarrow> spd_rank a < spd_rank b"

instance
proof
  fix a b :: spd_level
  show "a \<le> b \<Longrightarrow> b \<le> a \<Longrightarrow> a = b"
    by (cases a; cases b) (simp_all add: less_eq_spd_level_def)
qed (auto simp: less_eq_spd_level_def less_spd_level_def)

end

section \<open>What the methods call\<close>

text \<open>\<open>spdlog::logger::log\<close> with a level and a formatted message, and \<open>spdlog::logger::flush\<close>.\<close>

record 'w spd_ops =
  spd_log :: "Logger \<Rightarrow> spd_level \<Rightarrow> string \<Rightarrow> 'w \<Rightarrow> 'w"
  spd_flush :: "Logger \<Rightarrow> 'w \<Rightarrow> 'w"

text \<open>A message as a sink receives it; a logger hands one that it logs to each of its sinks.\<close>

record log_entry =
  le_logger :: string
  le_level :: spd_level
  le_text :: string

definition entries_for :: "spd_sink \<Rightarrow> Logger \<Rightarrow> spd_level \<Rightarrow> string \<Rightarrow> log_entry list" where
  "entries_for k lg level msg =
     map (\<lambda>sink. \<lparr>le_logger = lg_name lg, le_level = level, le_text = msg\<rparr>) (filter (\<lambda>sink. sink = k) (lg_sinks lg))"

text \<open>
  \<open>written k\<close> is what the sinks on \<open>k\<close> have written out, in order, and \<open>pending n k\<close> what the sink of the logger \<open>n\<close> on \<open>k\<close>
  still holds. A message below the level of its logger is not logged; another one is appended, in each sink of the logger, to what the sink has written and holds;
  a message that is not below the level of \<open>flush_on\<close> leaves nothing in the sinks of its logger; \<open>flush\<close> writes what they hold.
\<close>

locale spdlog =
  fixes ops :: "'w spd_ops" and written :: "spd_sink \<Rightarrow> 'w \<Rightarrow> log_entry list"
    and pending :: "string \<Rightarrow> spd_sink \<Rightarrow> 'w \<Rightarrow> log_entry list"
  assumes log_skips: "level < lg_level lg \<Longrightarrow> written k (spd_log ops lg level msg w) = written k w \<and>
      pending n k (spd_log ops lg level msg w) = pending n k w"
    and log_appends: "lg_level lg \<le> level \<Longrightarrow> level \<noteq> Spd_off \<Longrightarrow>
      written k (spd_log ops lg level msg w) @ pending (lg_name lg) k (spd_log ops lg level msg w) =
        written k w @ pending (lg_name lg) k w @ entries_for k lg level msg"
    and flush_on: "lg_level lg \<le> level \<Longrightarrow> level \<noteq> Spd_off \<Longrightarrow> lg_flush_on lg \<le> level \<Longrightarrow>
      pending (lg_name lg) k (spd_log ops lg level msg w) = []"
    and flush_writes: "written k (spd_flush ops lg w) = written k w @ pending (lg_name lg) k w"

section \<open>The methods\<close>

text \<open>\<open>_impl\<close> is \<open>None\<close> in the dummy logger. Each method has an overload for a message and one for a format.\<close>

definition Logger_dummy :: "Logger option" where
  "Logger_dummy = None"

definition Logger_Trace :: "'w spd_ops \<Rightarrow> Logger option \<Rightarrow> string \<Rightarrow> 'w \<Rightarrow> 'w" where
  "Logger_Trace ops impl msg out = (case impl of None \<Rightarrow> out | Some lg \<Rightarrow> spd_log ops lg Spd_trace msg out)"

definition Logger_Trace_format ::
    "'w spd_ops \<Rightarrow> ('f \<Rightarrow> 'a \<Rightarrow> string) \<Rightarrow> Logger option \<Rightarrow> 'f \<Rightarrow> 'a \<Rightarrow> 'w \<Rightarrow> 'w" where
  "Logger_Trace_format ops format impl fmt args out =
     (case impl of None \<Rightarrow> out | Some lg \<Rightarrow> spd_log ops lg Spd_trace (format fmt args) out)"

definition Logger_Debug :: "'w spd_ops \<Rightarrow> Logger option \<Rightarrow> string \<Rightarrow> 'w \<Rightarrow> 'w" where
  "Logger_Debug ops impl msg out = (case impl of None \<Rightarrow> out | Some lg \<Rightarrow> spd_log ops lg Spd_debug msg out)"

definition Logger_Debug_format ::
    "'w spd_ops \<Rightarrow> ('f \<Rightarrow> 'a \<Rightarrow> string) \<Rightarrow> Logger option \<Rightarrow> 'f \<Rightarrow> 'a \<Rightarrow> 'w \<Rightarrow> 'w" where
  "Logger_Debug_format ops format impl fmt args out =
     (case impl of None \<Rightarrow> out | Some lg \<Rightarrow> spd_log ops lg Spd_debug (format fmt args) out)"

definition Logger_Info :: "'w spd_ops \<Rightarrow> Logger option \<Rightarrow> string \<Rightarrow> 'w \<Rightarrow> 'w" where
  "Logger_Info ops impl msg out = (case impl of None \<Rightarrow> out | Some lg \<Rightarrow> spd_log ops lg Spd_info msg out)"

definition Logger_Info_format ::
    "'w spd_ops \<Rightarrow> ('f \<Rightarrow> 'a \<Rightarrow> string) \<Rightarrow> Logger option \<Rightarrow> 'f \<Rightarrow> 'a \<Rightarrow> 'w \<Rightarrow> 'w" where
  "Logger_Info_format ops format impl fmt args out =
     (case impl of None \<Rightarrow> out | Some lg \<Rightarrow> spd_log ops lg Spd_info (format fmt args) out)"

definition Logger_Warn :: "'w spd_ops \<Rightarrow> Logger option \<Rightarrow> string \<Rightarrow> 'w \<Rightarrow> 'w" where
  "Logger_Warn ops impl msg out = (case impl of None \<Rightarrow> out | Some lg \<Rightarrow> spd_log ops lg Spd_warn msg out)"

definition Logger_Warn_format ::
    "'w spd_ops \<Rightarrow> ('f \<Rightarrow> 'a \<Rightarrow> string) \<Rightarrow> Logger option \<Rightarrow> 'f \<Rightarrow> 'a \<Rightarrow> 'w \<Rightarrow> 'w" where
  "Logger_Warn_format ops format impl fmt args out =
     (case impl of None \<Rightarrow> out | Some lg \<Rightarrow> spd_log ops lg Spd_warn (format fmt args) out)"

definition Logger_Error :: "'w spd_ops \<Rightarrow> Logger option \<Rightarrow> string \<Rightarrow> 'w \<Rightarrow> 'w" where
  "Logger_Error ops impl msg out = (case impl of None \<Rightarrow> out | Some lg \<Rightarrow> spd_log ops lg Spd_err msg out)"

definition Logger_Error_format ::
    "'w spd_ops \<Rightarrow> ('f \<Rightarrow> 'a \<Rightarrow> string) \<Rightarrow> Logger option \<Rightarrow> 'f \<Rightarrow> 'a \<Rightarrow> 'w \<Rightarrow> 'w" where
  "Logger_Error_format ops format impl fmt args out =
     (case impl of None \<Rightarrow> out | Some lg \<Rightarrow> spd_log ops lg Spd_err (format fmt args) out)"

definition Logger_Critical :: "'w spd_ops \<Rightarrow> Logger option \<Rightarrow> string \<Rightarrow> 'w \<Rightarrow> 'w" where
  "Logger_Critical ops impl msg out = (case impl of None \<Rightarrow> out | Some lg \<Rightarrow> spd_log ops lg Spd_critical msg out)"

definition Logger_Critical_format ::
    "'w spd_ops \<Rightarrow> ('f \<Rightarrow> 'a \<Rightarrow> string) \<Rightarrow> Logger option \<Rightarrow> 'f \<Rightarrow> 'a \<Rightarrow> 'w \<Rightarrow> 'w" where
  "Logger_Critical_format ops format impl fmt args out =
     (case impl of None \<Rightarrow> out | Some lg \<Rightarrow> spd_log ops lg Spd_critical (format fmt args) out)"

definition Logger_delete :: "'w spd_ops \<Rightarrow> Logger option \<Rightarrow> 'w \<Rightarrow> 'w" where
  "Logger_delete ops impl out = (case impl of None \<Rightarrow> out | Some lg \<Rightarrow> spd_flush ops lg out)"

section \<open>Calls of a program\<close>

datatype log_call =
    Log_Trace string | Log_Debug string | Log_Info string | Log_Warn string | Log_Error string | Log_Critical string

fun do_log :: "'w spd_ops \<Rightarrow> Logger option \<Rightarrow> log_call \<Rightarrow> 'w \<Rightarrow> 'w" where
  "do_log ops impl (Log_Trace msg) = Logger_Trace ops impl msg"
| "do_log ops impl (Log_Debug msg) = Logger_Debug ops impl msg"
| "do_log ops impl (Log_Info msg) = Logger_Info ops impl msg"
| "do_log ops impl (Log_Warn msg) = Logger_Warn ops impl msg"
| "do_log ops impl (Log_Error msg) = Logger_Error ops impl msg"
| "do_log ops impl (Log_Critical msg) = Logger_Critical ops impl msg"

fun call_entry :: "log_call \<Rightarrow> spd_level \<times> string" where
  "call_entry (Log_Trace msg) = (Spd_trace, msg)"
| "call_entry (Log_Debug msg) = (Spd_debug, msg)"
| "call_entry (Log_Info msg) = (Spd_info, msg)"
| "call_entry (Log_Warn msg) = (Spd_warn, msg)"
| "call_entry (Log_Error msg) = (Spd_err, msg)"
| "call_entry (Log_Critical msg) = (Spd_critical, msg)"

lemmas logger_methods = Logger_Trace_def Logger_Debug_def Logger_Info_def Logger_Warn_def Logger_Error_def
  Logger_Critical_def

lemma do_log_eq:
  "do_log ops impl c out = (case impl of None \<Rightarrow> out | Some lg \<Rightarrow> spd_log ops lg (fst (call_entry c)) (snd (call_entry c)) out)"
  by (cases c; cases impl) (simp_all add: logger_methods)

lemma call_level_not_off: "fst (call_entry c) \<noteq> Spd_off"
  by (cases c) simp_all

lemma format_agrees:
  "Logger_Trace_format ops format impl fmt args = Logger_Trace ops impl (format fmt args)"
  "Logger_Debug_format ops format impl fmt args = Logger_Debug ops impl (format fmt args)"
  "Logger_Info_format ops format impl fmt args = Logger_Info ops impl (format fmt args)"
  "Logger_Warn_format ops format impl fmt args = Logger_Warn ops impl (format fmt args)"
  "Logger_Error_format ops format impl fmt args = Logger_Error ops impl (format fmt args)"
  "Logger_Critical_format ops format impl fmt args = Logger_Critical ops impl (format fmt args)"
  by (auto simp: fun_eq_iff logger_methods Logger_Trace_format_def Logger_Debug_format_def Logger_Info_format_def
      Logger_Warn_format_def Logger_Error_format_def Logger_Critical_format_def split: option.splits)

text \<open>What a call sends to a sink.\<close>

definition call_entries :: "spd_sink \<Rightarrow> Logger \<Rightarrow> log_call \<Rightarrow> log_entry list" where
  "call_entries k lg c = (if lg_level lg \<le> fst (call_entry c) then entries_for k lg (fst (call_entry c)) (snd (call_entry c)) else [])"

context spdlog
begin

text \<open>A logger that flushes at its own level leaves nothing of its own behind.\<close>

lemma call_written:
  assumes "pending (lg_name lg) k w = []" and "lg_flush_on lg = lg_level lg"
  shows "written k (do_log ops (Some lg) c w) = written k w @ call_entries k lg c \<and>
    pending (lg_name lg) k (do_log ops (Some lg) c w) = []"
proof (cases "lg_level lg \<le> fst (call_entry c)")
  case True
  with flush_on [OF True call_level_not_off, of k] log_appends [OF True call_level_not_off, of k] assms show ?thesis
    by (simp add: do_log_eq call_entries_def)
next
  case False
  with log_skips [OF False [unfolded not_le]] assms(1) show ?thesis by (simp add: do_log_eq call_entries_def)
qed

lemma calls_written:
  assumes "pending (lg_name lg) k w = []" and "lg_flush_on lg = lg_level lg"
  shows "written k (fold (do_log ops (Some lg)) cs w) = written k w @ concat (map (call_entries k lg) cs) \<and>
    pending (lg_name lg) k (fold (do_log ops (Some lg)) cs w) = []"
  using assms(1)
proof (induction cs arbitrary: w)
  case (Cons c cs)
  from call_written [OF Cons.prems assms(2), of c] Cons.IH [of "do_log ops (Some lg) c w"] show ?case by simp
qed simp

lemma delete_written: "pending (lg_name lg) k w = [] \<Longrightarrow> written k (Logger_delete ops (Some lg) w) = written k w"
  by (simp add: Logger_delete_def flush_writes)

end

text \<open>A logging library that keeps the entries with their sinks in two lists.\<close>

record log_output =
  lo_pending :: "(spd_sink \<times> log_entry) list"
  lo_written :: "(spd_sink \<times> log_entry) list"

definition at_sink :: "spd_sink \<Rightarrow> (spd_sink \<times> log_entry) list \<Rightarrow> log_entry list" where
  "at_sink k es = map snd (filter (\<lambda>e. fst e = k) es)"

definition lists_flush :: "Logger \<Rightarrow> log_output \<Rightarrow> log_output" where
  "lists_flush lg out =
     \<lparr>lo_pending = filter (\<lambda>e. le_logger (snd e) \<noteq> lg_name lg) (lo_pending out),
      lo_written = lo_written out @ filter (\<lambda>e. le_logger (snd e) = lg_name lg) (lo_pending out)\<rparr>"

definition lists_log :: "Logger \<Rightarrow> spd_level \<Rightarrow> string \<Rightarrow> log_output \<Rightarrow> log_output" where
  "lists_log lg level msg out =
     (if level < lg_level lg then out
      else let out1 = out\<lparr>lo_pending := lo_pending out @
            map (\<lambda>sink. (sink, \<lparr>le_logger = lg_name lg, le_level = level, le_text = msg\<rparr>)) (lg_sinks lg)\<rparr>
        in if lg_flush_on lg \<le> level \<and> level \<noteq> Spd_off then lists_flush lg out1 else out1)"

definition lists_ops :: "log_output spd_ops" where
  "lists_ops = \<lparr>spd_log = lists_log, spd_flush = lists_flush\<rparr>"

definition lists_written :: "spd_sink \<Rightarrow> log_output \<Rightarrow> log_entry list" where
  "lists_written k out = at_sink k (lo_written out)"

definition lists_pending :: "string \<Rightarrow> spd_sink \<Rightarrow> log_output \<Rightarrow> log_entry list" where
  "lists_pending n k out = at_sink k (filter (\<lambda>e. le_logger (snd e) = n) (lo_pending out))"

lemma at_sink_append [simp]: "at_sink k (xs @ ys) = at_sink k xs @ at_sink k ys"
  by (simp add: at_sink_def)

lemma at_sink_entries:
  "at_sink k (map (\<lambda>sink. (sink, \<lparr>le_logger = lg_name lg, le_level = level, le_text = msg\<rparr>)) (lg_sinks lg)) =
    entries_for k lg level msg"
  by (simp add: at_sink_def entries_for_def filter_map comp_def)

interpretation lists: spdlog lists_ops lists_written lists_pending
proof
  fix level msg k and lg :: Logger and w :: log_output
  let ?es = "map (\<lambda>sink. (sink, \<lparr>le_logger = lg_name lg, le_level = level, le_text = msg\<rparr>)) (lg_sinks lg)"
  have own: "filter (\<lambda>e. le_logger (snd e) = lg_name lg) ?es = ?es" by (simp add: filter_id_conv)
  assume "lg_level lg \<le> level" and "level \<noteq> Spd_off"
  then show "lists_written k (spd_log lists_ops lg level msg w) @ lists_pending (lg_name lg) k (spd_log lists_ops lg level msg w) =
      lists_written k w @ lists_pending (lg_name lg) k w @ entries_for k lg level msg"
    by (auto simp: lists_ops_def lists_log_def lists_flush_def lists_pending_def lists_written_def Let_def leD own
        at_sink_entries) (simp_all add: at_sink_def)
qed (auto simp: lists_ops_def lists_log_def lists_flush_def lists_pending_def lists_written_def at_sink_def Let_def leD)

section \<open>Properties\<close>

text \<open>
  C40: what a logger writes. A program gets a logger the factory had to make, and calls its methods any number of
  times, over a logging library that keeps the documented contract of spdlog. Every call whose level is not below the
  level of the name's specification, or the default one, has written its message to the sinks of the
  specification when it returns, in the order of the calls, because the factory's loggers flush at their own level; every other call
  writes nothing; the destructor has nothing left to write. This is stated for what stands behind any one sink \<open>k\<close>, which gets
  the message once for each sink of the specification that leads to it, and so nothing if none does. The dummy logger drops every message.
\<close>

theorem logger_writes_at_once:
  assumes "spdlog ops written pending"
    and "LoggerFactory_GetLogger can_open name s = (Ret r, s1)" and "lf_loggers (fst s) name = None"
    and "spec = logger_spec (lf_config (fst s)) name" and "pending (spec_Name spec) k out = []"
    and "out1 = fold (do_log ops (Some (ls_loggers (snd s1) ! r))) cs out"
  shows "written k out1 = written k out @ concat (map (\<lambda>(level, msg).
        map (\<lambda>sink. \<lparr>le_logger = spec_Name spec, le_level = level, le_text = msg\<rparr>)
          (filter (\<lambda>sink. make_sink sink = k) (spec_Sinks spec)))
        (filter (\<lambda>(level, msg). LogLevelToSpdLogLevel (spec_Level spec) \<le> level) (map call_entry cs))) \<and>
    written k (Logger_delete ops (Some (ls_loggers (snd s1) ! r)) out1) = written k out1 \<and>
    fold (do_log ops Logger_dummy) cs out = out"
proof -
  let ?lg = "ls_loggers (snd s1) ! r"
  have lg: "?lg = \<lparr>lg_name = spec_Name spec, lg_sinks = map make_sink (spec_Sinks spec),
      lg_level = LogLevelToSpdLogLevel (spec_Level spec), lg_flush_on = LogLevelToSpdLogLevel (spec_Level spec)\<rparr>"
    using assms(2-4) by (cases rule: GetLogger_cases) auto
  have quiet: "pending (lg_name ?lg) k out = []" "lg_flush_on ?lg = lg_level ?lg" using assms(5) by (simp_all add: lg)
  note run = spdlog.calls_written [OF assms(1) quiet, of cs, folded assms(6)]
  have "concat (map (call_entries k ?lg) cs) = concat (map (\<lambda>(level, msg).
        map (\<lambda>sink. \<lparr>le_logger = spec_Name spec, le_level = level, le_text = msg\<rparr>)
          (filter (\<lambda>sink. make_sink sink = k) (spec_Sinks spec)))
        (filter (\<lambda>(level, msg). LogLevelToSpdLogLevel (spec_Level spec) \<le> level) (map call_entry cs)))"
    by (induction cs) (simp_all add: call_entries_def entries_for_def lg filter_map comp_def split: prod.splits)
  moreover have "fold (do_log ops Logger_dummy) cs out = out"
    by (induction cs) (simp_all add: do_log_eq Logger_dummy_def)
  ultimately show ?thesis using run spdlog.delete_written [OF assms(1)] by simp
qed

definition stderr_config :: LoggerConfig where
  "stderr_config = \<lparr>lc_DefaultLevel = LL_Info, lc_DefaultPattern = [],
     lc_DefaultSinks = [\<lparr>sink_Pattern = [], sink_File = ''stderr''\<rparr>], lc_Specifications = Map.empty\<rparr>"

lemma logger_writes_at_once_witness:
  "\<exists>s1. LoggerFactory_GetLogger (\<lambda>f. True) ''a'' (LoggerFactory_new stderr_config, \<lparr>ls_registry = [], ls_loggers = []\<rparr>) =
      (Ret 0, s1) \<and>
    map le_text (lists_written (Spd_stderr None) (fold (do_log lists_ops (Some (ls_loggers (snd s1) ! 0)))
      [Log_Info ''up'', Log_Debug ''no'', Log_Warn ''down''] \<lparr>lo_pending = [], lo_written = []\<rparr>)) = [''up'', ''down'']"
proof -
  let ?s = "(LoggerFactory_new stderr_config, \<lparr>ls_registry = [], ls_loggers = []\<rparr>)"
  obtain s1 where g: "LoggerFactory_GetLogger (\<lambda>f. True) ''a'' ?s = (Ret 0, s1)"
    by (simp add: LoggerFactory_GetLogger_def LoggerFactory_new_def Logger_new_def logger_spec_def stderr_config_def)
  have n: "lf_loggers (fst ?s) ''a'' = None" by (simp add: LoggerFactory_new_def)
  have a: "lists_pending (spec_Name (logger_spec (lf_config (fst ?s)) ''a'')) (Spd_stderr None) \<lparr>lo_pending = [], lo_written = []\<rparr> = []"
    by (simp add: lists_pending_def at_sink_def)
  have w: "lists_written (Spd_stderr None) \<lparr>lo_pending = [], lo_written = []\<rparr> = []" by (simp add: lists_written_def at_sink_def)
  from logger_writes_at_once [OF lists.spdlog_axioms g n refl a refl, of "[Log_Info ''up'', Log_Debug ''no'', Log_Warn ''down'']"] g w show ?thesis
    by (simp add: LoggerFactory_new_def logger_spec_def stderr_config_def less_eq_spd_level_def make_sink_def)
qed

text \<open>
  A logger that is named in the settings without sinks of its own has none, whatever the default sinks are, and so
  it writes nothing.
\<close>

lemma named_logger_silent:
  assumes "LoadLoggerConfig js config = Ret lc" and "js_obj js config ''loggers'' (js_object js) = Ret loggers"
    and "js_items js loggers = [(Ret name, entry)]"
    and "js_obj js entry ''sinks'' (js_object js) = Ret (js_object js)" and "js_items js (js_object js) = []"
  shows "spec_Sinks (logger_spec lc name) = []"
proof -
  obtain spec0 spec where "ParseLoggerSpecification js entry (Some spec0) = Ret spec"
    and lc: "lc_Specifications lc = [name \<mapsto> spec\<lparr>spec_Name := name\<rparr>]"
    using assms(1-3)
    by (cases "ParseLoggerSpecification js config None") (auto simp: LoadLoggerConfig_def split: outcome.split_asm if_split_asm
        elim!: outcome_bind.elims)
  then have "spec_Sinks spec = []"
    using assms(4,5) by (auto simp: ParseLoggerSpecification_def outcome_bind_Ret)
  then show ?thesis by (simp add: logger_spec_def lc)
qed

end
