(* ===== verification/Native.thy ===== *)
theory Native
  imports Prelude
begin

unbundle bit_operations_syntax

text \<open>
  \<open>minet/src/utils/Native.cpp\<close>: the table of signal handlers and the function that runs them. The system call
  \<open>sigaction\<close> is a parameter. A handler works on the state of the program outside the table.
\<close>

record 'w SignalHandlerRegistration =
  sh_Signal :: int
  sh_Once :: bool
  sh_Handler :: "('w, unit) action"

type_synonym 'w signal_table = "int \<Rightarrow> 'w SignalHandlerRegistration option"

datatype sa_handler = Sa_ours | Sa_default

record sig_act =
  sa_handler :: sa_handler
  sa_flags :: "32 word"

definition SA_SIGINFO :: "32 word" where "SA_SIGINFO = 4"
definition SA_RESETHAND :: "32 word" where "SA_RESETHAND = 0x80000000"

definition SetSignalHandler ::
    "('k \<Rightarrow> int \<Rightarrow> sig_act \<Rightarrow> int \<times> 'k) \<Rightarrow> int \<Rightarrow> ('w, unit) action \<Rightarrow> bool \<Rightarrow>
     'w signal_table \<times> 'k \<Rightarrow> int \<times> 'w signal_table \<times> 'k" where
  "SetSignalHandler sigaction sig handler once s =
     (let (table, k) = s;
          act = \<lparr>sa_handler = Sa_ours, sa_flags = (if once then SA_SIGINFO OR SA_RESETHAND else SA_SIGINFO)\<rparr>;
          (r, k1) = sigaction k sig act
      in if r < 0 then (r, (table, k1))
        else (0, (table(sig \<mapsto> \<lparr>sh_Signal = sig, sh_Once = once, sh_Handler = handler\<rparr>), k1)))"

definition RemoveSignalHandler ::
    "('k \<Rightarrow> int \<Rightarrow> sig_act \<Rightarrow> int \<times> 'k) \<Rightarrow> int \<Rightarrow> 'w signal_table \<times> 'k \<Rightarrow> int \<times> 'w signal_table \<times> 'k" where
  "RemoveSignalHandler sigaction sig s =
     (let (table, k) = s;
          (r, k1) = sigaction k sig \<lparr>sa_handler = Sa_default, sa_flags = SA_SIGINFO\<rparr>
      in (if r < 0 then r else 0, (table(sig := None), k1)))"

definition SignalHandler :: "int \<Rightarrow> ('w signal_table \<times> 'w, unit) action" where
  "SignalHandler sig s =
     (let (table, w) = s in
      case table sig of
        None \<Rightarrow> Some (Ret (), s)
      | Some it \<Rightarrow>
          (case sh_Handler it w of
             None \<Rightarrow> None
           | Some (Raise e, w1) \<Rightarrow> Some (Raise e, (table, w1))
           | Some (Ret u, w1) \<Rightarrow> Some (Ret (), (if sh_Once it then table(sig := None) else table, w1))))"

section \<open>Properties\<close>

text \<open>
  A handler runs for its signal. When \<open>SetSignalHandler\<close> succeeds, the next delivery of the signal runs
  the new handler, whatever was registered before, and no delivery of another signal runs it; a handler that
  is set for once runs once, any other one every time. When it fails the table is as before.
\<close>

theorem signal_handler_runs:
  assumes "SetSignalHandler sigaction sig h once (table, k) = (r, table', k')"
    and "h w = Some (Ret (), w1)" and "h w1 = Some (Ret (), w2)"
  shows "(r < 0 \<longrightarrow> table' = table) \<and>
    (r \<ge> 0 \<longrightarrow>
      (\<exists>table''. SignalHandler sig (table', w) = Some (Ret (), (table'', w1)) \<and>
        SignalHandler sig (table'', w1) = Some (Ret (), (table'', if once then w1 else w2)) \<and>
        (\<forall>sig'. sig' \<noteq> sig \<longrightarrow> table'' sig' = table sig')))"
  using assms by (cases once) (auto simp: SetSignalHandler_def SignalHandler_def Let_def split: prod.splits if_splits)

lemma signal_handler_runs_witness:
  "\<exists>table. SetSignalHandler (\<lambda>k sig act. (0, k)) 2 (\<lambda>w. Some (Ret (), Suc w)) True (Map.empty, ()) = (0, table, ()) \<and>
    (\<exists>t. SignalHandler 2 (table, 0) = Some (Ret (), (t, 1)) \<and> SignalHandler 2 (t, 1) = Some (Ret (), (t, 1)))"
proof -
  let ?h = "\<lambda>w. Some (Ret (), Suc w)"
  obtain table where t: "SetSignalHandler (\<lambda>k sig act. (0, k)) 2 ?h True (Map.empty, ()) = (0, table, ())"
    by (simp add: SetSignalHandler_def)
  from signal_handler_runs [OF t, of 0 1 2] t show ?thesis by auto
qed

end
