(* ===== verification/Web_Host.thy ===== *)
theory Web_Host
  imports Config Native Mayhem_Server
begin

unbundle bit_operations_syntax

text \<open>
  \<open>minet/src/core/WebHostBuilder.cpp\<close>, \<open>WebHost.cpp\<close> and the interface \<open>core/IServer.cpp\<close>: reading the settings,
  making the components, registering handlers and building the host; running it is in \<open>Host_Run\<close>. The service
  container \<open>mioc\<close> is not part of the repository; all the code asks of it is that a singleton is made once and
  every \<open>Resolve\<close> of it gives the same object, so it is a field of the builder for each service. The messages are
  left out, and the banner is in \<open>Banner\<close>.
\<close>

section \<open>State\<close>

text \<open>The three servers, as the container may hold them, and the operations all of them have.\<close>

datatype 'k IServer =
    IS_Basic "'k server"
  | IS_Threaded "('k \<times> (AcceptData Queue, AcceptData) ThreadPool) server"
  | IS_Mayhem "('k, 'k SocketStream HttpContext Queue) mayhem"

fun IServer_Stop :: "'k IServer \<Rightarrow> 'k IServer" where
  "IServer_Stop (IS_Basic s) = IS_Basic (Server_Stop s)"
| "IServer_Stop (IS_Threaded s) = IS_Threaded (ThreadedServer_Stop s)"
| "IServer_Stop (IS_Mayhem s) = IS_Mayhem (Mayhem_Stop s)"

text \<open>
  The services of the container, with the loggers that were set (\<open>None\<close> is the dummy logger of the
  constructors).
\<close>

record ('j, 'k) WebHostBuilder =
  wb_appSettingsPath :: string
  wb_config :: 'j
  wb_initialized :: bool
  wb_serverConfig :: "ServerConfig option"
  wb_loggerConfig :: "LoggerConfig option"
  wb_server :: "'k IServer option"
  wb_serverLogger :: "nat option"
  wb_dispatcher :: "'k SocketStream RequestDispatcher option"
  wb_dispatcherLogger :: "nat option"
  wb_loggerFactory :: "LoggerFactory option"

text \<open>
  What the process has apart from the builder: the loggers of spdlog, the table of signal handlers, and the
  dispositions of the system, which \<open>sigaction\<close> changes.
\<close>

record ('k, 'g) process =
  pr_logs :: log_system
  pr_signals :: "'k IServer signal_table"
  pr_actions :: 'g

record 'k WebHost =
  wh_logger :: "nat option"
  wh_server :: "'k IServer"
  wh_dispatcher :: "'k SocketStream RequestDispatcher"

text \<open>
  The surroundings: the JSON library, the number of processors, the files that can be opened for logging, the
  variable \<open>MINET_CORE_ENV\<close>, the parse of a settings file (\<open>None\<close> when it cannot be opened), the system a server
  starts on, the contents of uninitialised queue slots, and \<open>sigaction\<close>.
\<close>

record ('j, 'k, 'g) surroundings =
  su_json :: "'j json_ops"
  su_hardware :: "32 word"
  su_can_open :: "string \<Rightarrow> bool"
  su_getenv :: "string option"
  su_file :: "string \<Rightarrow> 'j outcome option"
  su_system :: 'k
  su_data :: AcceptData
  su_context :: "'k SocketStream HttpContext"
  su_sigaction :: "'g \<Rightarrow> int \<Rightarrow> sig_act \<Rightarrow> int \<times> 'g"

text \<open>A call may also end the process with \<open>exit\<close>.\<close>

datatype 'a run = Done 'a | Exit nat | Throws fault

type_synonym ('j, 'k, 'g) web = "('j, 'k) WebHostBuilder \<times> ('k, 'g) process"
type_synonym ('j, 'k, 'g, 'a) web_action = "('j, 'k, 'g) web \<Rightarrow> 'a run \<times> ('j, 'k, 'g) web"

definition andRun :: "('s \<Rightarrow> 'a run \<times> 's) \<Rightarrow> ('a \<Rightarrow> 's \<Rightarrow> 'b run \<times> 's) \<Rightarrow> 's \<Rightarrow> 'b run \<times> 's" where
  "andRun m f s =
     (case m s of
        (Done x, s1) \<Rightarrow> f x s1
      | (Exit n, s1) \<Rightarrow> (Exit n, s1)
      | (Throws e, s1) \<Rightarrow> (Throws e, s1))"

fun run_of :: "'a outcome \<Rightarrow> 'a run" where
  "run_of (Ret x) = Done x"
| "run_of (Raise e) = Throws e"

lemma andRun_Done:
  "andRun m f s = (Done y, s2) \<longleftrightarrow> (\<exists>x s1. m s = (Done x, s1) \<and> f x s1 = (Done y, s2))"
  by (auto simp: andRun_def split: prod.splits run.splits)

section \<open>The builder\<close>

definition WebHostBuilder_new :: "'j \<Rightarrow> ('j, 'k) WebHostBuilder" where
  \<comment> \<open>\<open>null\<close> is the value a JSON object starts as\<close>
  "WebHostBuilder_new null =
     \<lparr>wb_appSettingsPath = [], wb_config = null, wb_initialized = False, wb_serverConfig = None,
      wb_loggerConfig = None, wb_server = None, wb_serverLogger = None, wb_dispatcher = None,
      wb_dispatcherLogger = None, wb_loggerFactory = None\<rparr>"

definition WebHostBuilder_Create :: "'j \<Rightarrow> ('j, 'k) WebHostBuilder" where
  "WebHostBuilder_Create null = WebHostBuilder_new null"

definition Preamble :: "('j, 'k, 'g, unit) web_action" where
  "Preamble w = (if \<not> wb_initialized (fst w) then (Exit 2, w) else (Done (), w))"

text \<open>\<open>catch (const std::exception&)\<close> around the parse and around the two loaders, both with \<open>exit(2)\<close>.\<close>

definition read_settings :: "('j, 'k, 'g) surroundings \<Rightarrow> string \<Rightarrow> 'j outcome" where
  "read_settings env path =
     (if path = [] then Ret (js_object (su_json env))
      else case su_file env path of
          Some r \<Rightarrow> r
        | None \<Rightarrow> Ret (js_object (su_json env)))"

definition load_configs :: "('j, 'k, 'g) surroundings \<Rightarrow> 'j \<Rightarrow> (ServerConfig \<times> LoggerConfig) outcome" where
  "load_configs env config =
     (let js = su_json env in
      outcome_bind (outcome_bind (js_obj js config ''server'' (js_object js)) (LoadServerConfig js (su_hardware env))) (\<lambda>sc.
      outcome_bind (outcome_bind (js_obj js config ''logging'' (js_object js)) (LoadLoggerConfig js)) (\<lambda>lc.
        Ret (sc, lc))))"

definition LoadSettings :: "('j, 'k, 'g) surroundings \<Rightarrow> ('j, 'k, 'g, unit) web_action" where
  "LoadSettings env w =
     (case read_settings env (wb_appSettingsPath (fst w)) of
        Raise e \<Rightarrow> (if is_exception e then Exit 2 else Throws e, w)
      | Ret config \<Rightarrow>
          let b = (fst w)\<lparr>wb_config := config\<rparr> in
          (case load_configs env config of
             Raise e \<Rightarrow> (if is_exception e then Exit 2 else Throws e, (b, snd w))
           | Ret (sc, lc) \<Rightarrow> (Done (), (b\<lparr>wb_serverConfig := Some sc, wb_loggerConfig := Some lc\<rparr>, snd w))))"

text \<open>The server of a name; \<open>None\<close> when the name is unknown. The constructors of two of them make a pool.\<close>

definition make_server :: "('j, 'k, 'g) surroundings \<Rightarrow> ServerConfig \<Rightarrow> 'k IServer outcome option" where
  "make_server env cfg =
     (if sc_Name cfg = ''Basic'' then Some (Ret (IS_Basic (Server_new (su_system env))))
      else if sc_Name cfg = ''Threaded''
      then Some (outcome_bind (ThreadedServer_new (su_data env) (unat (sc_Threads cfg)) (sc_Capacity cfg) (su_system env))
        (\<lambda>s. Ret (IS_Threaded s)))
      else if sc_Name cfg = ''Mayhem''
      then Some (outcome_bind (MayhemServer_new (su_context env) (unat (sc_Threads cfg)) (sc_Capacity cfg) (su_system env))
        (\<lambda>s. Ret (IS_Mayhem s)))
      else None)"

definition Builder_GetLogger :: "('j, 'k, 'g) surroundings \<Rightarrow> string \<Rightarrow> ('j, 'k, 'g, nat) web_action" where
  "Builder_GetLogger env name =
     andRun Preamble (\<lambda>_ w.
       case wb_loggerFactory (fst w) of
         None \<Rightarrow> (Throws AssertFailed, w)
       | Some lf \<Rightarrow>
           (case LoggerFactory_GetLogger (su_can_open env) name (lf, pr_logs (snd w)) of
              (oc, lf1, logs) \<Rightarrow>
                (run_of oc, ((fst w)\<lparr>wb_loggerFactory := Some lf1\<rparr>, (snd w)\<lparr>pr_logs := logs\<rparr>))))"

definition on_builder :: "(('j, 'k) WebHostBuilder \<Rightarrow> ('j, 'k) WebHostBuilder) \<Rightarrow> ('j, 'k, 'g, unit) web_action" where
  "on_builder f w = (Done (), (f (fst w), snd w))"

text \<open>\<open>IServer::SetLogger\<close> and the one of the dispatcher.\<close>

definition IServer_SetLogger :: "nat \<Rightarrow> ('j, 'k) WebHostBuilder \<Rightarrow> ('j, 'k) WebHostBuilder" where
  "IServer_SetLogger logger b = b\<lparr>wb_serverLogger := Some logger\<rparr>"

definition IRequestDispatcher_SetLogger :: "nat \<Rightarrow> ('j, 'k) WebHostBuilder \<Rightarrow> ('j, 'k) WebHostBuilder" where
  "IRequestDispatcher_SetLogger logger b = b\<lparr>wb_dispatcherLogger := Some logger\<rparr>"

definition Builder_RegisterHandler ::
    "string \<Rightarrow> HttpMethod \<Rightarrow> 'k SocketStream handler option \<Rightarrow> ('j, 'k, 'g, unit) web_action" where
  "Builder_RegisterHandler path method handler =
     andRun Preamble (\<lambda>_ w.
       case wb_dispatcher (fst w) of
         None \<Rightarrow> (Throws (Undefined ''null reference''), w)
       | Some d \<Rightarrow>
           (case RegisterHandler path method handler d of
              Raise e \<Rightarrow> (Throws e, w)
            | Ret d1 \<Rightarrow> on_builder (\<lambda>b. b\<lparr>wb_dispatcher := Some d1\<rparr>) w))"

definition Builder_RegisterErrorHandler ::
    "int \<Rightarrow> 'k SocketStream handler option \<Rightarrow> ('j, 'k, 'g, unit) web_action" where
  "Builder_RegisterErrorHandler statusCode handler =
     andRun Preamble (\<lambda>_ w.
       case wb_dispatcher (fst w) of
         None \<Rightarrow> (Throws (Undefined ''null reference''), w)
       | Some d \<Rightarrow> on_builder (\<lambda>b. b\<lparr>wb_dispatcher := Some (RegisterErrorHandler statusCode handler d)\<rparr>) w)"

definition Builder_Get :: "string \<Rightarrow> 'k SocketStream handler option \<Rightarrow> ('j, 'k, 'g, unit) web_action" where
  "Builder_Get path handler = Builder_RegisterHandler path GET handler"

definition Builder_Post :: "string \<Rightarrow> 'k SocketStream handler option \<Rightarrow> ('j, 'k, 'g, unit) web_action" where
  "Builder_Post path handler = Builder_RegisterHandler path POST handler"

definition Builder_Put :: "string \<Rightarrow> 'k SocketStream handler option \<Rightarrow> ('j, 'k, 'g, unit) web_action" where
  "Builder_Put path handler = Builder_RegisterHandler path PUT handler"

definition Builder_Delete :: "string \<Rightarrow> 'k SocketStream handler option \<Rightarrow> ('j, 'k, 'g, unit) web_action" where
  "Builder_Delete path handler = Builder_RegisterHandler path DELETE handler"

definition Builder_Error :: "int \<Rightarrow> 'k SocketStream handler option \<Rightarrow> ('j, 'k, 'g, unit) web_action" where
  "Builder_Error statusCode handler = Builder_RegisterErrorHandler statusCode handler"

definition Builder_RegisterDefaultHandlers :: "('j, 'k, 'g, unit) web_action" where
  "Builder_RegisterDefaultHandlers =
     andRun (Builder_Error BAD_REQUEST (Some (RequestHandler BadRequestHandler))) (\<lambda>_.
     andRun (Builder_Error METHOD_NOT_ALLOWED (Some (RequestHandler MethodNotAllowedHandler))) (\<lambda>_.
     andRun (Builder_Error NOT_FOUND (Some (RequestHandler NotFoundHandler))) (\<lambda>_.
       Builder_Error INTERNAL_SERVER_ERROR (Some (RequestHandler InternalServerErrorHandler)))))"

text \<open>
  The configuration is there after \<open>_LoadSettings\<close>; the registrations make the server at its first \<open>Resolve\<close>,
  before the first logger, and the factory and the dispatcher at theirs, whose constructors cannot fail.
\<close>

definition InitializeComponents :: "('j, 'k, 'g) surroundings \<Rightarrow> ('j, 'k, 'g, unit) web_action" where
  "InitializeComponents env =
     andRun (LoadSettings env) (\<lambda>_ w.
       case (wb_serverConfig (fst w), wb_loggerConfig (fst w)) of
         (Some sc, Some lc) \<Rightarrow>
           (case make_server env sc of
              None \<Rightarrow> (Exit 3, w)
            | Some (Raise e) \<Rightarrow> (Throws e, w)
            | Some (Ret server) \<Rightarrow>
                andRun (on_builder (\<lambda>b. b\<lparr>wb_server := Some server,
                    wb_dispatcher := Some RequestDispatcher_new, wb_loggerFactory := Some (LoggerFactory_new lc)\<rparr>)) (\<lambda>_.
                andRun (Builder_GetLogger env ''Server'') (\<lambda>l1.
                andRun (on_builder (IServer_SetLogger l1)) (\<lambda>_.
                andRun (Builder_GetLogger env ''RequestDispatcher'') (\<lambda>l2.
                andRun (on_builder (IRequestDispatcher_SetLogger l2)) (\<lambda>_.
                  Builder_RegisterDefaultHandlers))))) w)
       | _ \<Rightarrow> (Throws (Undefined ''null reference''), w))"

definition settings_path :: "string option \<Rightarrow> string \<Rightarrow> string" where
  "settings_path getenv path =
     (if path = ''appsettings.json''
      then case getenv of None \<Rightarrow> path | Some env \<Rightarrow> ''appsettings.'' @ env @ ''.json''
      else path)"

definition UseAppSettings :: "('j, 'k, 'g) surroundings \<Rightarrow> string \<Rightarrow> ('j, 'k, 'g, unit) web_action" where
  "UseAppSettings env path w =
     (if wb_initialized (fst w) then (Exit 1, w)
      else InitializeComponents env
        ((fst w)\<lparr>wb_initialized := True, wb_appSettingsPath := settings_path (su_getenv env) path\<rparr>, snd w))"

section \<open>The host\<close>

definition SIGINT :: int where "SIGINT = 2"

definition WebHost_OnInterrupted :: "('k IServer, unit) action" where
  "WebHost_OnInterrupted server = Some (Ret (), IServer_Stop server)"

text \<open>
  The callback the constructor sets is \<open>Dispatch\<close> of the dispatcher; the result of \<open>SetSignalHandler\<close> is not
  looked at.
\<close>

definition WebHost_new ::
    "('j, 'k, 'g) surroundings \<Rightarrow> 'k IServer \<Rightarrow> 'k SocketStream RequestDispatcher \<Rightarrow> ('k, 'g) process \<Rightarrow>
     'k WebHost \<times> ('k, 'g) process" where
  "WebHost_new env server dispatcher p =
     (let (r, table, g) = SetSignalHandler (su_sigaction env) SIGINT WebHost_OnInterrupted True (pr_signals p, pr_actions p)
      in (\<lparr>wh_logger = None, wh_server = server, wh_dispatcher = dispatcher\<rparr>, p\<lparr>pr_signals := table, pr_actions := g\<rparr>))"

definition WebHost_callback ::
    "'k net_ops \<Rightarrow> (headers \<Rightarrow> headers) \<Rightarrow> 'k WebHost \<Rightarrow> ('k SocketStream HttpContext, unit) action" where
  "WebHost_callback net iter host = Dispatch (SocketStream_Write net) (SocketStream_Close net) iter (wh_dispatcher host)"

definition Build :: "('j, 'k, 'g) surroundings \<Rightarrow> ('j, 'k, 'g, 'k WebHost) web_action" where
  "Build env =
     andRun Preamble (\<lambda>_ w.
       case (wb_dispatcher (fst w), wb_server (fst w)) of
         (Some dispatcher, Some server) \<Rightarrow>
           andRun (Builder_GetLogger env ''Server'') (\<lambda>l1.
           andRun (on_builder (IServer_SetLogger l1)) (\<lambda>_.
           andRun (\<lambda>w. let r = WebHost_new env server dispatcher (snd w) in (Done (fst r), (fst w, snd r))) (\<lambda>host.
           andRun (Builder_GetLogger env ''WebHost'') (\<lambda>l2 w.
             (Done (host\<lparr>wh_logger := Some l2\<rparr>), w))))) w
       | _ \<Rightarrow> (Throws AssertFailed, w))"

section \<open>What a successful call has done\<close>

lemma Preamble_simps [simp]:
  "wb_initialized (fst w) \<Longrightarrow> Preamble w = (Done (), w)"
  "\<not> wb_initialized (fst w) \<Longrightarrow> Preamble w = (Exit 2, w)"
  by (simp_all add: Preamble_def)

lemma Preamble_Done: "Preamble w = (Done u, w1) \<longleftrightarrow> wb_initialized (fst w) \<and> w1 = w"
  by (auto simp: Preamble_def)

lemma on_builder_Done: "on_builder f w = (Done u, w1) \<longleftrightarrow> w1 = (f (fst w), snd w)"
  by (auto simp: on_builder_def)

lemmas web_Done = andRun_Done Preamble_Done on_builder_Done

lemma run_of_Done: "run_of oc = Done x \<longleftrightarrow> oc = Ret x"
  by (cases oc) simp_all

lemma GetLogger_Done:
  assumes "Builder_GetLogger env name w = (Done l, w1)"
  obtains lf lf1 logs where "wb_initialized (fst w)" "wb_loggerFactory (fst w) = Some lf"
    "LoggerFactory_GetLogger (su_can_open env) name (lf, pr_logs (snd w)) = (Ret l, lf1, logs)"
    "w1 = ((fst w)\<lparr>wb_loggerFactory := Some lf1\<rparr>, (snd w)\<lparr>pr_logs := logs\<rparr>)"
  using assms
  by (auto simp: Builder_GetLogger_def web_Done run_of_Done split: option.splits prod.splits)

lemma RegisterErrorHandler_runs:
  assumes "wb_initialized b" and "wb_dispatcher b = Some d"
  shows "Builder_Error st h (b, p) = (Done (), b\<lparr>wb_dispatcher := Some (RegisterErrorHandler st h d)\<rparr>, p)"
  using assms by (simp add: Builder_Error_def Builder_RegisterErrorHandler_def andRun_def on_builder_def)

lemma default_handlers_run:
  assumes "wb_initialized b" and "wb_dispatcher b = Some d"
  shows "Builder_RegisterDefaultHandlers (b, p) = (Done (), b\<lparr>wb_dispatcher := Some (RegisterDefaultHandlers d)\<rparr>, p)"
  using assms
  by (simp add: Builder_RegisterDefaultHandlers_def RegisterDefaultHandlers_def RegisterErrorHandler_runs andRun_def)

lemma LoadSettings_Done:
  assumes "LoadSettings env w = (Done u, w1)"
  obtains config sc lc where "read_settings env (wb_appSettingsPath (fst w)) = Ret config"
    "load_configs env config = Ret (sc, lc)"
    "w1 = ((fst w)\<lparr>wb_config := config, wb_serverConfig := Some sc, wb_loggerConfig := Some lc\<rparr>, snd w)"
  using assms by (auto simp: LoadSettings_def Let_def split: outcome.splits if_splits)

text \<open>What \<open>UseAppSettings\<close> leaves: the server of the configuration, and a dispatcher with the default pages.\<close>

lemma UseAppSettings_Done:
  assumes "UseAppSettings env path (b, p) = (Done u, b1, p1)"
  obtains config sc lc server where "\<not> wb_initialized b" "wb_initialized b1"
    "read_settings env (settings_path (su_getenv env) path) = Ret config" "load_configs env config = Ret (sc, lc)"
    "make_server env sc = Some (Ret server)" "wb_server b1 = Some server" "wb_serverConfig b1 = Some sc"
    "wb_dispatcher b1 = Some (RegisterDefaultHandlers RequestDispatcher_new)"
    "pr_signals p1 = pr_signals p" "pr_actions p1 = pr_actions p"
proof -
  let ?w0 = "(b\<lparr>wb_initialized := True, wb_appSettingsPath := settings_path (su_getenv env) path\<rparr>, p)"
  have fresh: "\<not> wb_initialized b" and init: "InitializeComponents env ?w0 = (Done u, b1, p1)"
    using assms by (auto simp: UseAppSettings_def split: if_splits)
  from init obtain w1 u1 where l: "LoadSettings env ?w0 = (Done u1, w1)"
    by (auto simp: InitializeComponents_def andRun_Done)
  from l obtain config sc lc where c: "read_settings env (settings_path (su_getenv env) path) = Ret config"
    "load_configs env config = Ret (sc, lc)"
    and w1: "w1 = ((fst ?w0)\<lparr>wb_config := config, wb_serverConfig := Some sc, wb_loggerConfig := Some lc\<rparr>, p)"
    by (rule LoadSettings_Done) simp
  obtain server where s: "make_server env sc = Some (Ret server)"
    using init l w1 by (auto simp: InitializeComponents_def andRun_Done split: option.splits outcome.splits)
  let ?b1 = "(fst w1)\<lparr>wb_server := Some server, wb_dispatcher := Some RequestDispatcher_new,
    wb_loggerFactory := Some (LoggerFactory_new lc)\<rparr>"
  obtain l1 w2 l2 w3 where g1: "Builder_GetLogger env ''Server'' (?b1, p) = (Done l1, w2)"
    and g2: "Builder_GetLogger env ''RequestDispatcher'' (IServer_SetLogger l1 (fst w2), snd w2) = (Done l2, w3)"
    and d: "Builder_RegisterDefaultHandlers (IRequestDispatcher_SetLogger l2 (fst w3), snd w3) = (Done u, b1, p1)"
    using init l w1 s by (auto simp: InitializeComponents_def web_Done)
  obtain lf1 logs1 where w2: "w2 = (?b1\<lparr>wb_loggerFactory := Some lf1\<rparr>, p\<lparr>pr_logs := logs1\<rparr>)"
    using g1 by (auto elim!: GetLogger_Done)
  obtain lf2 logs2 where w3: "w3 = ((IServer_SetLogger l1 (fst w2))\<lparr>wb_loggerFactory := Some lf2\<rparr>,
      (snd w2)\<lparr>pr_logs := logs2\<rparr>)"
    using g2 by (auto elim!: GetLogger_Done)
  have "b1 = (IRequestDispatcher_SetLogger l2 (fst w3))\<lparr>wb_dispatcher := Some (RegisterDefaultHandlers RequestDispatcher_new)\<rparr>"
    "p1 = snd w3"
    using d default_handlers_run [of "IRequestDispatcher_SetLogger l2 (fst w3)" RequestDispatcher_new "snd w3"]
    by (auto simp: w3 w2 w1 IServer_SetLogger_def IRequestDispatcher_SetLogger_def)
  with fresh c s show thesis
    by (intro that) (auto simp: w3 w2 w1 IServer_SetLogger_def IRequestDispatcher_SetLogger_def)
qed

lemma Build_Done:
  assumes "Build env (b, p) = (Done host, b1, p1)"
  obtains d server where "wb_dispatcher b = Some d" "wb_server b = Some server"
    "wh_server host = server" "wh_dispatcher host = d"
    "\<exists>r. SetSignalHandler (su_sigaction env) SIGINT WebHost_OnInterrupted True (pr_signals p, pr_actions p) =
      (r, pr_signals p1, pr_actions p1)"
proof -
  obtain d server where ds: "wb_dispatcher b = Some d" "wb_server b = Some server"
    using assms by (auto simp: Build_def web_Done split: option.splits)
  obtain l1 w1 l2 w2 host0 p0 where g1: "Builder_GetLogger env ''Server'' (b, p) = (Done l1, w1)"
    and h: "WebHost_new env server d (snd w1) = (host0, p0)"
    and g2: "Builder_GetLogger env ''WebHost'' (IServer_SetLogger l1 (fst w1), p0) = (Done l2, w2)"
    and fin: "host = host0\<lparr>wh_logger := Some l2\<rparr>" "w2 = (b1, p1)"
    using assms ds by (auto simp: Build_def web_Done Let_def intro: that prod.collapse [symmetric])
  obtain logs1 where p1: "snd w1 = p\<lparr>pr_logs := logs1\<rparr>" using g1 by (auto elim!: GetLogger_Done)
  obtain logs2 where p2: "p1 = p0\<lparr>pr_logs := logs2\<rparr>" using g2 fin by (auto elim!: GetLogger_Done)
  show thesis
    using ds fin(1) h p1 p2
    by (intro that) (auto simp: WebHost_new_def Let_def split: prod.splits)
qed

section \<open>Routes\<close>

text \<open>The registrations of a program, in order.\<close>

fun Builder_route :: "HttpMethod \<Rightarrow> string \<Rightarrow> 'k SocketStream handler option \<Rightarrow> ('j, 'k, 'g, unit) web_action" where
  "Builder_route GET = Builder_Get"
| "Builder_route POST = Builder_Post"
| "Builder_route PUT = Builder_Put"
| "Builder_route DELETE = Builder_Delete"
| "Builder_route m = (\<lambda>path handler. on_builder (\<lambda>b. b))"

fun register_routes :: "(HttpMethod \<times> string \<times> 'k SocketStream handler option) list \<Rightarrow> ('j, 'k, 'g, unit) web_action" where
  "register_routes [] = on_builder (\<lambda>b. b)"
| "register_routes ((m, path, h) # rs) = andRun (Builder_route m path h) (\<lambda>_. register_routes rs)"

definition routable :: "HttpMethod \<Rightarrow> bool" where
  "routable m \<longleftrightarrow> m \<in> {GET, POST, PUT, DELETE}"

lemma Builder_route_routable: "routable m \<Longrightarrow> Builder_route m path = Builder_RegisterHandler path m"
  by (auto simp: routable_def fun_eq_iff Builder_Get_def Builder_Post_def Builder_Put_def Builder_Delete_def)

lemma Builder_route_not: "\<not> routable m \<Longrightarrow> Builder_route m path h = on_builder (\<lambda>b. b)"
  by (cases m) (auto simp: routable_def)

fun add_routes ::
    "(HttpMethod \<times> string \<times> 's handler option) list \<Rightarrow> 's RequestDispatcher \<Rightarrow> 's RequestDispatcher outcome" where
  "add_routes [] d = Ret d"
| "add_routes ((m, path, h) # rs) d =
     outcome_bind (if routable m then RegisterHandler path m h d else Ret d) (add_routes rs)"

lemma RegisterHandler_defaults:
  "RegisterHandler path m h (RegisterDefaultHandlers d) =
    outcome_bind (RegisterHandler path m h d) (\<lambda>d. Ret (RegisterDefaultHandlers d))"
  by (cases "CleanPath path") (simp_all add: RegisterHandler_def RegisterDefaultHandlers_def RegisterErrorHandler_def
      split: option.splits)

lemma RegisterHandler_errors: "RegisterHandler path m h d = Ret d1 \<Longrightarrow> rd_errorHandlers d1 = rd_errorHandlers d"
  by (auto simp: RegisterHandler_def outcome_bind_Ret split: option.splits)

lemma register_routes_Done:
  assumes "register_routes rs (b, p) = (Done u, w1)" and "wb_initialized b"
    and "wb_dispatcher b = Some (RegisterDefaultHandlers d)"
  shows "\<exists>d1. add_routes rs d = Ret d1 \<and> w1 = (b\<lparr>wb_dispatcher := Some (RegisterDefaultHandlers d1)\<rparr>, p)"
  using assms
proof (induction rs arbitrary: b d)
  case Nil
  then show ?case by (cases b) (auto simp: on_builder_Done)
next
  case (Cons r rs)
  obtain m path h where r: "r = (m, path, h)" by (cases r)
  show ?case
  proof (cases "routable m")
    case True
    with Cons.prems(1) obtain w2 where w2: "Builder_RegisterHandler path m h (b, p) = (Done (), w2)"
      "register_routes rs w2 = (Done u, w1)" by (auto simp: r andRun_Done Builder_route_routable)
    from w2(1) Cons.prems(2,3) obtain d2 where d2: "RegisterHandler path m h d = Ret d2"
      "w2 = (b\<lparr>wb_dispatcher := Some (RegisterDefaultHandlers d2)\<rparr>, p)"
      by (cases "RegisterHandler path m h d")
        (auto simp: Builder_RegisterHandler_def web_Done RegisterHandler_defaults)
    from Cons.IH [of "b\<lparr>wb_dispatcher := Some (RegisterDefaultHandlers d2)\<rparr>" d2] w2(2) d2 Cons.prems(2) True
    show ?thesis by (auto simp: r)
  next
    case False
    with Cons.prems(1) have "register_routes rs (b, p) = (Done u, w1)"
      by (auto simp: r web_Done Builder_route_not)
    from Cons.IH [OF this Cons.prems(2,3)] False show ?thesis by (simp add: r)
  qed
qed

lemma add_routes_append: "add_routes (rs @ rs') d = outcome_bind (add_routes rs d) (add_routes rs')"
proof (induction rs arbitrary: d)
  case (Cons r rs)
  from Cons.IH have "add_routes (rs @ rs') = (\<lambda>d. outcome_bind (add_routes rs d) (add_routes rs'))" by (rule ext)
  then show ?case by (cases r) (simp add: outcome_bind_assoc)
qed simp

lemma add_routes_errors: "add_routes rs d = Ret d1 \<Longrightarrow> rd_errorHandlers d1 = rd_errorHandlers d"
proof (induction rs arbitrary: d)
  case (Cons r rs)
  then show ?case by (cases r) (auto simp: outcome_bind_Ret RegisterHandler_errors split: if_splits)
qed simp

lemma RegisterHandler_lookup:
  assumes "RegisterHandler p m h d = Ret d'" and "CleanPath p = Ret q"
  shows "\<not> registered d q m \<Longrightarrow> find_handler d' q m = (h, STATUS_OK)"
    and "registered d q' m' \<Longrightarrow> find_handler d' q' m' = find_handler d q' m'"
    and "registered d' q' m' \<longleftrightarrow> registered d q' m' \<or> (q' = q \<and> m' = m)"
  using assms
  by (auto simp: RegisterHandler_def find_handler_def registered_def split: option.splits if_splits)

lemma RegisterHandler_clean: "RegisterHandler p m h d = Ret d' \<Longrightarrow> \<exists>q. CleanPath p = Ret q"
  by (auto simp: RegisterHandler_def outcome_bind_Ret)

lemma RegisterHandler_registered:
  assumes "RegisterHandler p m h d = Ret d'"
  shows "registered d q' m' \<Longrightarrow> registered d' q' m' \<and> find_handler d' q' m' = find_handler d q' m'"
    and "\<not> registered d q' m' \<Longrightarrow> \<not> (m' = m \<and> CleanPath p = Ret q') \<Longrightarrow> \<not> registered d' q' m'"
proof -
  obtain q where q: "CleanPath p = Ret q" using RegisterHandler_clean [OF assms] ..
  note l = RegisterHandler_lookup [OF assms q]
  show "registered d q' m' \<Longrightarrow> registered d' q' m' \<and> find_handler d' q' m' = find_handler d q' m'"
    using l(2,3) [of q' m'] by simp
  show "\<not> registered d q' m' \<Longrightarrow> \<not> (m' = m \<and> CleanPath p = Ret q') \<Longrightarrow> \<not> registered d' q' m'"
    using l(3) [of q' m'] q by auto
qed

lemma add_routes_unregistered:
  assumes "add_routes rs d = Ret d1" and "\<not> registered d q m"
    and "\<forall>(m', p', h') \<in> set rs. m' = m \<longrightarrow> CleanPath p' \<noteq> Ret q"
  shows "\<not> registered d1 q m"
  using assms
proof (induction rs arbitrary: d)
  case (Cons r rs)
  obtain m' p' h' where r: "r = (m', p', h')" by (cases r)
  obtain d2 where d2: "(if routable m' then RegisterHandler p' m' h' d else Ret d) = Ret d2" "add_routes rs d2 = Ret d1"
    using Cons.prems(1) by (auto simp: r outcome_bind_Ret)
  have "\<not> registered d2 q m"
    using d2(1) Cons.prems(2,3) RegisterHandler_registered(2) [of p' m' h' d d2 q m] by (auto simp: r split: if_splits)
  with Cons.IH [OF d2(2)] Cons.prems(3) show ?case by simp
qed simp

lemma add_routes_registered:
  assumes "add_routes rs d = Ret d1" and "registered d q m"
  shows "find_handler d1 q m = find_handler d q m"
  using assms
proof (induction rs arbitrary: d)
  case (Cons r rs)
  obtain m' p' h' where r: "r = (m', p', h')" by (cases r)
  obtain d2 where d2: "(if routable m' then RegisterHandler p' m' h' d else Ret d) = Ret d2" "add_routes rs d2 = Ret d1"
    using Cons.prems(1) by (auto simp: r outcome_bind_Ret)
  have "registered d2 q m \<and> find_handler d2 q m = find_handler d q m"
    using d2(1) Cons.prems(2) RegisterHandler_registered(1) [of p' m' h' d d2 q m] by (auto split: if_splits)
  with Cons.IH [OF d2(2)] show ?case by simp
qed simp

lemma first_route_found:
  assumes "add_routes (rs1 @ (m, path, h) # rs2) RequestDispatcher_new = Ret d" and "routable m" and "CleanPath path = Ret q"
    and "\<forall>(m', p', h') \<in> set rs1. m' = m \<longrightarrow> CleanPath p' \<noteq> Ret q"
  shows "find_handler d q m = (h, STATUS_OK)" and "rd_errorHandlers d = Map.empty"
proof -
  obtain d1 d2 where d: "add_routes rs1 RequestDispatcher_new = Ret d1" "RegisterHandler path m h d1 = Ret d2"
    "add_routes rs2 d2 = Ret d"
    using assms(1,2) by (auto simp: add_routes_append outcome_bind_Ret)
  have "\<not> registered d1 q m"
    by (rule add_routes_unregistered [OF d(1) _ assms(4)]) (simp add: registered_def RequestDispatcher_new_def)
  with RegisterHandler_lookup(1) [OF d(2) assms(3)] RegisterHandler_lookup(3) [OF d(2) assms(3), of q m]
  have "find_handler d2 q m = (h, STATUS_OK)" "registered d2 q m" by simp_all
  with add_routes_registered [OF d(3)] show "find_handler d q m = (h, STATUS_OK)" by simp
  have "rd_errorHandlers d = rd_errorHandlers RequestDispatcher_new"
    using add_routes_errors [OF d(1)] RegisterHandler_errors [OF d(2)] add_routes_errors [OF d(3)] by simp
  then show "rd_errorHandlers d = Map.empty" by (simp add: RequestDispatcher_new_def)
qed

section \<open>Sequences of calls\<close>

text \<open>The calls of a program on its builder.\<close>

datatype 'k builder_call =
    Call_UseAppSettings string
  | Call_Route HttpMethod string "'k SocketStream handler option"
  | Call_Error int "'k SocketStream handler option"
  | Call_GetLogger string
  | Call_Build

fun run_call :: "('j, 'k, 'g) surroundings \<Rightarrow> 'k builder_call \<Rightarrow> ('j, 'k, 'g, unit) web_action" where
  "run_call env (Call_UseAppSettings path) = UseAppSettings env path"
| "run_call env (Call_Route m path h) = Builder_route m path h"
| "run_call env (Call_Error st h) = Builder_Error st h"
| "run_call env (Call_GetLogger name) = andRun (Builder_GetLogger env name) (\<lambda>_. on_builder (\<lambda>b. b))"
| "run_call env Call_Build = andRun (Build env) (\<lambda>_. on_builder (\<lambda>b. b))"

fun run_calls :: "('j, 'k, 'g) surroundings \<Rightarrow> 'k builder_call list \<Rightarrow> ('j, 'k, 'g, unit) web_action" where
  "run_calls env [] = on_builder (\<lambda>b. b)"
| "run_calls env (c # cs) = andRun (run_call env c) (\<lambda>_. run_calls env cs)"

fun routable_call :: "'k builder_call \<Rightarrow> bool" where
  "routable_call (Call_Route m path h) = routable m"
| "routable_call c = True"

lemma not_initialized_exits:
  assumes "\<not> wb_initialized (fst w)" and "routable_call c" and "\<And>path. c \<noteq> Call_UseAppSettings path"
  shows "run_call env c w = (Exit 2, w)"
  using assms
  by (cases c) (auto simp: Builder_route_routable Builder_RegisterHandler_def Builder_Error_def
      Builder_RegisterErrorHandler_def Builder_GetLogger_def Build_def andRun_def)

lemma Build_keeps:
  assumes "Build env w = (Done host, w1)"
  shows "wb_initialized (fst w1) \<and> wb_server (fst w1) = wb_server (fst w)"
proof -
  obtain d server where ds: "wb_dispatcher (fst w) = Some d" "wb_server (fst w) = Some server"
    using assms by (auto simp: Build_def web_Done split: option.splits)
  obtain l1 w1' l2 w2 p0 where g1: "Builder_GetLogger env ''Server'' w = (Done l1, w1')"
    and g2: "Builder_GetLogger env ''WebHost'' (IServer_SetLogger l1 (fst w1'), p0) = (Done l2, w2)"
    and fin: "w2 = w1"
    using assms ds by (auto simp: Build_def web_Done Let_def)
  from g1 have "wb_initialized (fst w)" "wb_server (fst w1') = wb_server (fst w)" by (auto elim!: GetLogger_Done)
  with g2 fin show ?thesis by (auto simp: IServer_SetLogger_def elim!: GetLogger_Done)
qed

lemma initialized_stays:
  assumes "run_call env c w = (Done u, w1)" and "wb_initialized (fst w)" and "routable_call c"
  shows "wb_initialized (fst w1) \<and> wb_server (fst w1) = wb_server (fst w) \<and> (\<forall>path. c \<noteq> Call_UseAppSettings path)"
proof (cases c)
  case (Call_UseAppSettings path)
  with assms show ?thesis by (simp add: UseAppSettings_def)
next
  case (Call_Route m path h)
  with assms show ?thesis
    by (auto simp: Builder_route_routable Builder_RegisterHandler_def web_Done split: option.splits outcome.splits)
next
  case (Call_Error st h)
  with assms show ?thesis
    by (auto simp: Builder_Error_def Builder_RegisterErrorHandler_def web_Done split: option.splits)
next
  case (Call_GetLogger name)
  with assms show ?thesis by (auto simp: web_Done elim!: GetLogger_Done)
next
  case Call_Build
  with assms Build_keeps show ?thesis by (fastforce simp: web_Done)
qed

lemma initialized_calls:
  assumes "run_calls env cs w = (Done u, w1)" and "wb_initialized (fst w)" and "\<forall>c \<in> set cs. routable_call c"
  shows "wb_server (fst w1) = wb_server (fst w) \<and> (\<forall>path. Call_UseAppSettings path \<notin> set cs)"
  using assms
proof (induction cs arbitrary: w)
  case (Cons c cs)
  then obtain u1 w2 where w2: "run_call env c w = (Done u1, w2)" "run_calls env cs w2 = (Done u, w1)"
    by (auto simp: andRun_Done)
  from initialized_stays [OF w2(1)] Cons.prems(2,3) Cons.IH [OF w2(2)] show ?case by auto
qed (simp add: on_builder_Done)

lemma calls_stay_initialized:
  assumes "run_calls env cs w = (Done u, w1)" and "wb_initialized (fst w)" and "\<forall>c \<in> set cs. routable_call c"
  shows "wb_initialized (fst w1)"
  using assms
proof (induction cs arbitrary: w)
  case (Cons c cs)
  then obtain u1 w2 where w2: "run_call env c w = (Done u1, w2)" "run_calls env cs w2 = (Done u, w1)"
    by (auto simp: andRun_Done)
  from initialized_stays [OF w2(1)] Cons.prems(2,3) Cons.IH [OF w2(2)] show ?case by auto
qed (simp add: on_builder_Done)

section \<open>The names of loggers\<close>

lemma parse_loggers_names:
  assumes "parse_loggers js parent es specs = Ret specs'" and "\<And>n s. specs n = Some s \<Longrightarrow> spec_Name s = n"
    and "specs' n = Some s"
  shows "spec_Name s = n"
  using assms
proof (induction js parent es specs arbitrary: specs' rule: parse_loggers.induct)
  case (2 js parent key entry es specs)
  from 2(2) obtain spec name where "ParseLoggerSpecification js entry (Some parent) = Ret spec" "key = Ret name"
    and rest: "parse_loggers js parent es
      (if specs name = None then specs(name \<mapsto> spec\<lparr>spec_Name := name\<rparr>) else specs) = Ret specs'"
    by (auto simp: outcome_bind_Ret)
  show ?case
  proof (rule 2(1) [OF rest _ 2(4)])
    fix k t
    assume "(if specs name = None then specs(name \<mapsto> spec\<lparr>spec_Name := name\<rparr>) else specs) k = Some t"
    with 2(3) [of k t] show "spec_Name t = k" by (auto split: if_splits)
  qed
qed simp

lemma logger_spec_name:
  assumes "LoadLoggerConfig js config = Ret lc"
  shows "spec_Name (logger_spec lc name) = name"
proof (cases "lc_Specifications lc name")
  case None
  then show ?thesis by (simp add: logger_spec_def)
next
  case (Some spec)
  obtain spec0 where spec0: "ParseLoggerSpecification js config None = Ret spec0"
    using assms by (auto simp: LoadLoggerConfig_def outcome_bind_Ret)
  have "\<exists>lj. parse_loggers js spec0 (js_items js lj) Map.empty = Ret (lc_Specifications lc)"
  proof (cases "outcome_bind (js_obj js config ''loggers'' (js_object js))
      (\<lambda>lj. parse_loggers js spec0 (js_items js lj) Map.empty)")
    case (Ret specs)
    with assms spec0 have "lc_Specifications lc = specs" by (auto simp: LoadLoggerConfig_def)
    with Ret show ?thesis by (auto simp: outcome_bind_Ret)
  next
    case (Raise e)
    with assms spec0 show ?thesis by (simp add: LoadLoggerConfig_def split: if_splits)
  qed
  then obtain lj where "parse_loggers js spec0 (js_items js lj) Map.empty = Ret (lc_Specifications lc)" ..
  from parse_loggers_names [OF this _ Some] show ?thesis by (simp add: logger_spec_def Some)
qed

lemma GetLogger_registry:
  assumes "LoggerFactory_GetLogger can_open name (lf, logs) = (oc, lf1, logs1)"
  shows "set (ls_registry logs) \<subseteq> set (ls_registry logs1)" and "lf_config lf1 = lf_config lf"
    and "oc = Ret r \<Longrightarrow> lf_loggers lf name = None \<Longrightarrow> spec_Name (logger_spec (lf_config lf) name) \<in> set (ls_registry logs1)"
  using assms by (cases rule: GetLogger_cases; auto)+

lemma Builder_GetLogger_registry:
  assumes "Builder_GetLogger env name w = (Done l, w1)"
  shows "set (ls_registry (pr_logs (snd w))) \<subseteq> set (ls_registry (pr_logs (snd w1)))"
  using assms by (rule GetLogger_Done) (simp add: GetLogger_registry(1))

lemma Build_registry:
  assumes "Build env w = (Done host, w1)"
  shows "set (ls_registry (pr_logs (snd w))) \<subseteq> set (ls_registry (pr_logs (snd w1)))"
proof -
  obtain d server where ds: "wb_dispatcher (fst w) = Some d" "wb_server (fst w) = Some server"
    using assms by (auto simp: Build_def web_Done split: option.splits)
  obtain l1 w2 l2 where g: "Builder_GetLogger env ''Server'' w = (Done l1, w2)"
    "Builder_GetLogger env ''WebHost'' (IServer_SetLogger l1 (fst w2), snd (WebHost_new env server d (snd w2))) = (Done l2, w1)"
    using assms ds by (auto simp: Build_def web_Done Let_def)
  have "pr_logs (snd (WebHost_new env server d (snd w2))) = pr_logs (snd w2)"
    by (simp add: WebHost_new_def split: prod.splits)
  with g [THEN Builder_GetLogger_registry] show ?thesis by simp
qed

lemma run_call_registry:
  assumes "run_call env c w = (Done u, w1)" and "wb_initialized (fst w)" and "routable_call c"
  shows "set (ls_registry (pr_logs (snd w))) \<subseteq> set (ls_registry (pr_logs (snd w1)))"
proof (cases c)
  case (Call_UseAppSettings path)
  with assms show ?thesis by (simp add: UseAppSettings_def)
next
  case (Call_Route m path h)
  with assms show ?thesis
    by (auto simp: Builder_route_routable Builder_RegisterHandler_def web_Done split: option.splits outcome.splits)
next
  case (Call_Error st h)
  with assms show ?thesis
    by (auto simp: Builder_Error_def Builder_RegisterErrorHandler_def web_Done split: option.splits)
next
  case (Call_GetLogger name)
  with assms Builder_GetLogger_registry show ?thesis by (fastforce simp: web_Done)
next
  case Call_Build
  with assms Build_registry show ?thesis by (fastforce simp: web_Done)
qed

lemma run_calls_registry:
  assumes "run_calls env cs w = (Done u, w1)" and "wb_initialized (fst w)" and "\<forall>c \<in> set cs. routable_call c"
  shows "set (ls_registry (pr_logs (snd w))) \<subseteq> set (ls_registry (pr_logs (snd w1)))"
  using assms
proof (induction cs arbitrary: w)
  case (Cons c cs)
  then obtain u1 w2 where w2: "run_call env c w = (Done u1, w2)" "run_calls env cs w2 = (Done u, w1)"
    by (auto simp: andRun_Done)
  with initialized_stays [OF w2(1)] run_call_registry [OF w2(1)] Cons.prems(2,3) Cons.IH [OF w2(2)]
  show ?case by auto
qed (simp add: on_builder_Done)

text \<open>The first logger \<open>UseAppSettings\<close> makes is the server's; it cannot be made twice.\<close>

lemma UseAppSettings_Server:
  assumes "UseAppSettings env path (b, p) = (r, b1, p1)" and "\<not> wb_initialized b"
    and "read_settings env (settings_path (su_getenv env) path) = Ret config"
    and c: "load_configs env config = Ret (sc, lc)" and "make_server env sc = Some (Ret server)"
  shows "r = Done u \<Longrightarrow> ''Server'' \<in> set (ls_registry (pr_logs p1))"
    and "''Server'' \<in> set (ls_registry (pr_logs p)) \<Longrightarrow> r = Throws (OtherException ''spdlog::spdlog_ex'')"
proof -
  let ?b = "b\<lparr>wb_initialized := True, wb_appSettingsPath := settings_path (su_getenv env) path, wb_config := config,
    wb_serverConfig := Some sc, wb_loggerConfig := Some lc, wb_server := Some server,
    wb_dispatcher := Some RequestDispatcher_new, wb_loggerFactory := Some (LoggerFactory_new lc)\<rparr>"
  have name: "spec_Name (logger_spec lc ''Server'') = ''Server''"
    using c by (auto simp: load_configs_def Let_def outcome_bind_Ret intro: logger_spec_name)
  have run: "andRun (Builder_GetLogger env ''Server'') (\<lambda>l1.
      andRun (on_builder (IServer_SetLogger l1)) (\<lambda>_.
      andRun (Builder_GetLogger env ''RequestDispatcher'') (\<lambda>l2.
      andRun (on_builder (IRequestDispatcher_SetLogger l2)) (\<lambda>_.
        Builder_RegisterDefaultHandlers)))) (?b, p) = (r, b1, p1)"
    using assms by (simp add: UseAppSettings_def InitializeComponents_def LoadSettings_def andRun_def on_builder_def Let_def)
  obtain oc lf1 logs1 where g: "LoggerFactory_GetLogger (su_can_open env) ''Server'' (LoggerFactory_new lc, pr_logs p) =
      (oc, lf1, logs1)" by (metis prod_cases3)
  have get: "Builder_GetLogger env ''Server'' (?b, p) =
      (run_of oc, ?b\<lparr>wb_loggerFactory := Some lf1\<rparr>, p\<lparr>pr_logs := logs1\<rparr>)"
    by (simp add: Builder_GetLogger_def andRun_def g)
  show "''Server'' \<in> set (ls_registry (pr_logs p1))" if r: "r = Done u"
  proof -
    from run r get obtain l1 l2 w3 u3 where l1: "oc = Ret l1"
      and w3: "Builder_GetLogger env ''RequestDispatcher'' (IServer_SetLogger l1 (?b\<lparr>wb_loggerFactory := Some lf1\<rparr>),
        p\<lparr>pr_logs := logs1\<rparr>) = (Done l2, w3)"
      and d: "Builder_RegisterDefaultHandlers (IRequestDispatcher_SetLogger l2 (fst w3), snd w3) = (Done u3, b1, p1)"
      by (auto simp: web_Done run_of_Done)
    have "''Server'' \<in> set (ls_registry logs1)"
      using GetLogger_registry(3) [OF g l1] name by (simp add: LoggerFactory_new_def)
    with Builder_GetLogger_registry [OF w3] have "''Server'' \<in> set (ls_registry (pr_logs (snd w3)))" by auto
    moreover have "wb_initialized (fst w3) \<and> wb_dispatcher (fst w3) = Some RequestDispatcher_new"
      using w3 by (auto simp: IServer_SetLogger_def elim!: GetLogger_Done)
    with d default_handlers_run [of "IRequestDispatcher_SetLogger l2 (fst w3)" RequestDispatcher_new "snd w3"]
    have "p1 = snd w3" by (simp add: IRequestDispatcher_SetLogger_def)
    ultimately show ?thesis by simp
  qed
  show "r = Throws (OtherException ''spdlog::spdlog_ex'')" if "''Server'' \<in> set (ls_registry (pr_logs p))"
  proof -
    have "oc = Raise (OtherException ''spdlog::spdlog_ex'')"
      using g that name
      by (auto simp: LoggerFactory_GetLogger_def LoggerFactory_new_def Logger_new_def Let_def split: if_splits)
    with run get show ?thesis by (simp add: andRun_def)
  qed
qed


section \<open>A program\<close>

text \<open>
  Surroundings in which no settings file exists, so that the defaults hold, and a program with two routes.
\<close>

definition sample_on :: "'k \<Rightarrow> (string \<Rightarrow> 32 word option, 'k, unit) surroundings" where
  "sample_on k = \<lparr>su_json = json_sample, su_hardware = 4, su_can_open = (\<lambda>f. True), su_getenv = None,
     su_file = (\<lambda>path. None), su_system = k, su_data = echo_client,
     su_context = \<lparr>Request = HttpRequest_zero, Response = HttpResponse_zero,
       BodyStream = SocketStream_new 0 k\<rparr>,
     su_sigaction = (\<lambda>g sig act. (0, g))\<rparr>"

abbreviation sample_env :: "(string \<Rightarrow> 32 word option, world, unit) surroundings" where
  "sample_env \<equiv> sample_on (kernel_new [], peer_new [])"

definition sample_process :: "('k, unit) process" where
  "sample_process = \<lparr>pr_logs = \<lparr>ls_registry = [], ls_loggers = []\<rparr>, pr_signals = Map.empty, pr_actions = ()\<rparr>"

definition sample_routes :: "(HttpMethod \<times> string \<times> 'k SocketStream handler option) list" where
  "sample_routes = [(GET, ''/echo'', None), (POST, ''echo/'', Some (text_endpoint echo))]"

lemma sample_server_config: "LoadServerConfig json_sample 4 Map.empty =
    Ret \<lparr>sc_Name = ''Basic'', sc_Port = 5000, sc_Threads = 4, sc_Capacity = 1024\<rparr>"
  by (simp add: LoadServerConfig_def json_sample_def)

lemma sample_logger_config: "LoadLoggerConfig json_sample Map.empty =
    Ret \<lparr>lc_DefaultLevel = LL_Debug, lc_DefaultPattern = [], lc_DefaultSinks = [], lc_Specifications = Map.empty\<rparr>"
  by (simp add: LoadLoggerConfig_def ParseLoggerSpecification_def json_sample_def)

lemma sample_settings:
  "read_settings (sample_on k) (settings_path (su_getenv (sample_on k)) []) = Ret Map.empty"
  "load_configs (sample_on k) Map.empty = Ret (\<lparr>sc_Name = ''Basic'', sc_Port = 5000, sc_Threads = 4, sc_Capacity = 1024\<rparr>,
     \<lparr>lc_DefaultLevel = LL_Debug, lc_DefaultPattern = [], lc_DefaultSinks = [], lc_Specifications = Map.empty\<rparr>)"
  "make_server (sample_on k) \<lparr>sc_Name = ''Basic'', sc_Port = 5000, sc_Threads = 4, sc_Capacity = 1024\<rparr> =
     Some (Ret (IS_Basic (Server_new k)))"
  using sample_server_config sample_logger_config
  by (simp_all add: read_settings_def settings_path_def load_configs_def make_server_def sample_on_def json_sample_def)

lemmas sample_logger = Builder_GetLogger_def LoggerFactory_GetLogger_def Logger_new_def logger_spec_def

lemma sample_can_open: "su_can_open (sample_on k) f" "su_sigaction (sample_on k) g sig act = (0, g)"
  by (simp_all add: sample_on_def)

lemma sample_use:
  fixes k :: 'k
  obtains b1 p1 lf where "UseAppSettings (sample_on k) [] (WebHostBuilder_Create Map.empty, sample_process) = (Done (), b1, p1)"
    "wb_initialized b1" "wb_server b1 = Some (IS_Basic (Server_new k))"
    "wb_dispatcher b1 = Some (RegisterDefaultHandlers RequestDispatcher_new)" "wb_loggerFactory b1 = Some lf"
    "lf_config lf = \<lparr>lc_DefaultLevel = LL_Debug, lc_DefaultPattern = [], lc_DefaultSinks = [], lc_Specifications = Map.empty\<rparr>"
    "lf_loggers lf ''Server'' = Some 0" "lf_loggers lf ''WebHost'' = None" "ls_registry (pr_logs p1) = [''RequestDispatcher'', ''Server'']"
    "pr_signals p1 = Map.empty" "pr_actions p1 = ()"
proof -
  have "\<exists>b1 p1 lf. UseAppSettings (sample_on k) [] (WebHostBuilder_Create Map.empty, sample_process) = (Done (), b1, p1) \<and>
    wb_initialized b1 \<and> wb_server b1 = Some (IS_Basic (Server_new k)) \<and>
    wb_dispatcher b1 = Some (RegisterDefaultHandlers RequestDispatcher_new) \<and> wb_loggerFactory b1 = Some lf \<and>
    lf_config lf = \<lparr>lc_DefaultLevel = LL_Debug, lc_DefaultPattern = [], lc_DefaultSinks = [], lc_Specifications = Map.empty\<rparr> \<and>
    lf_loggers lf ''Server'' = Some 0 \<and> lf_loggers lf ''WebHost'' = None \<and>
    ls_registry (pr_logs p1) = [''RequestDispatcher'', ''Server''] \<and> pr_signals p1 = Map.empty \<and> pr_actions p1 = ()"
    using sample_settings [of k]
    by (simp add: UseAppSettings_def InitializeComponents_def LoadSettings_def WebHostBuilder_Create_def WebHostBuilder_new_def
        andRun_def on_builder_def Let_def sample_process_def sample_logger sample_can_open LoggerFactory_new_def IServer_SetLogger_def
        IRequestDispatcher_SetLogger_def default_handlers_run)
  then show thesis using that by blast
qed

lemma sample_build:
  fixes k :: 'k
  obtains b1 p1 b2 host b3 p3 where
    "UseAppSettings (sample_on k) [] (WebHostBuilder_Create Map.empty, sample_process) = (Done (), b1, p1)"
    "register_routes sample_routes (b1, p1) = (Done (), b2, p1)" "Build (sample_on k) (b2, p1) = (Done host, b3, p3)"
    "wh_server host = IS_Basic (Server_new k)"
proof -
  from sample_use obtain b1 p1 lf where use:
    "UseAppSettings (sample_on k) [] (WebHostBuilder_Create Map.empty, sample_process) = (Done (), b1, p1)"
    and b1: "wb_initialized b1" "wb_server b1 = Some (IS_Basic (Server_new k))"
    "wb_dispatcher b1 = Some (RegisterDefaultHandlers RequestDispatcher_new)" "wb_loggerFactory b1 = Some lf"
    "lf_config lf = \<lparr>lc_DefaultLevel = LL_Debug, lc_DefaultPattern = [], lc_DefaultSinks = [], lc_Specifications = Map.empty\<rparr>"
    "lf_loggers lf ''Server'' = Some 0" "lf_loggers lf ''WebHost'' = None"
    "ls_registry (pr_logs p1) = [''RequestDispatcher'', ''Server'']" by metis
  have clean: "CleanPath ''/echo'' = Ret ''/echo''" "CleanPath ''echo/'' = Ret ''/echo''" by code_simp+
  have "\<exists>d. register_routes sample_routes (b1, p1) = (Done (), b1\<lparr>wb_dispatcher := Some d\<rparr>, p1)"
    by (simp add: sample_routes_def Builder_Get_def Builder_Post_def Builder_RegisterHandler_def andRun_def on_builder_def
        RegisterHandler_def RegisterDefaultHandlers_def RegisterErrorHandler_def RequestDispatcher_new_def clean b1)
      (rule exI, rule refl)
  then obtain d where routes: "register_routes sample_routes (b1, p1) = (Done (), b1\<lparr>wb_dispatcher := Some d\<rparr>, p1)" ..
  have "\<exists>host b3 p3. Build (sample_on k) (b1\<lparr>wb_dispatcher := Some d\<rparr>, p1) = (Done host, b3, p3) \<and>
      wh_server host = IS_Basic (Server_new k)"
    by (simp add: Build_def andRun_def on_builder_def Let_def sample_logger sample_can_open WebHost_new_def
        SetSignalHandler_def IServer_SetLogger_def b1)
  with use routes that show thesis by blast
qed

section \<open>Properties\<close>

text \<open>
  C1: from the program to the client. A program makes a builder, calls \<open>UseAppSettings\<close>, registers handlers and
  builds the host, and all of it returns. A client of the host sends the printed form of a request whose method
  and path have a plain text endpoint, the first that was registered for that method and clean path, whatever
  was registered before and after for others. Then the connection is handled and the client receives the
  response of the endpoint's function for that request, printed, all of it up to 1024 bytes.
\<close>

theorem built_host_answers:
  assumes "UseAppSettings env settings (WebHostBuilder_Create null, p) = (Done (), b1, p1)"
    and "register_routes (rs1 @ (Method q, path, Some (text_endpoint f)) # rs2) (b1, p1) = (Done (), b2, p2)"
    and "Build env (b2, p2) = (Done host, b3, p3)"
    and route: "routable (Method q)" "CleanPath path = Ret (Path q)"
      "\<forall>(m', p', h') \<in> set rs1. m' = Method q \<longrightarrow> CleanPath p' \<noteq> Ret (Path q)"
    and stream: "byte_source (SocketStream_Read net) pending sinv"
      "response_channel (SocketStream_Write net) sent winv (SocketStream_Close net)"
      "stream_frame (SocketStream_Read net) (\<lambda>s. winv s \<and> sent s = sent s0)"
    and s0: "s0 = SocketStream_new (SocketFd data) k" "sinv s0" "winv s0" "pending s0 = HttpRequest_ToString iter q"
    and q: "sync_printable q" "iteration iter"
    and q': "q' = q\<lparr>Host := (if Host q = [] then AddressToHost (sin_addr data) (sin_port data) else Host q),
      Headers := iter (Headers q)\<rparr>"
    and r: "r = set_length (TextResponse_PostHandle (f q' (fresh_response name)))"
  shows "\<exists>s. HandleConnection net name (WebHost_callback net iter host) data k = Some (Ret (), ss_kernel s) \<and>
    sent s = sent s0 @ surviving 0 (response_chunks iter r)"
proof -
  obtain b: "wb_initialized b1" "wb_dispatcher b1 = Some (RegisterDefaultHandlers RequestDispatcher_new)"
    using assms(1) by (rule UseAppSettings_Done)
  from register_routes_Done [OF assms(2) b] obtain d where
    d: "add_routes (rs1 @ (Method q, path, Some (text_endpoint f)) # rs2) RequestDispatcher_new = Ret d"
      "b2 = b1\<lparr>wb_dispatcher := Some (RegisterDefaultHandlers d)\<rparr>" by auto
  have "wh_dispatcher host = RegisterDefaultHandlers d"
    using assms(3) by (rule Build_Done) (simp add: d(2))
  with request_answered [OF stream s0 q first_route_found [OF d(1) route] q' r] show ?thesis
    by (simp add: WebHost_callback_def)
qed

lemma built_host_answers_witness:
  "\<exists>b1 p1 b2 host b3 p3 s. UseAppSettings sample_env [] (WebHostBuilder_Create Map.empty, sample_process) = (Done (), b1, p1) \<and>
    register_routes sample_routes (b1, p1) = (Done (), b2, p1) \<and> Build sample_env (b2, p1) = (Done host, b3, p3) \<and>
    HandleConnection world_net ''Basic'' (WebHost_callback world_net (\<lambda>hs. hs) host) echo_client
      (echo_world (HttpRequest_ToString (\<lambda>hs. hs) sample_sync)) = Some (Ret (), ss_kernel s) \<and>
    sock_sent (peer_side s) = surviving 0 (response_chunks (\<lambda>hs. hs)
      (set_length (TextResponse_PostHandle (echo sample_sync (fresh_response ''Basic'')))))"
proof -
  obtain b1 p1 b2 host b3 p3 where run:
    "UseAppSettings sample_env [] (WebHostBuilder_Create Map.empty, sample_process) = (Done (), b1, p1)"
    "register_routes sample_routes (b1, p1) = (Done (), b2, p1)" "Build sample_env (b2, p1) = (Done host, b3, p3)"
    by (rule sample_build)
  let ?m = "HttpRequest_ToString (\<lambda>hs. hs) sample_sync"
  let ?s = "SocketStream_new (SocketFd echo_client) (echo_world ?m)"
  have m: "?m \<noteq> []" by (simp add: HttpRequest_ToString_def)
  have s: "sock_inv (peer_side ?s)" "sock_pending (peer_side ?s) = ?m" "sock_sent (peer_side ?s) = []"
    unfolding echo_world_sock using m
    by (simp_all add: sock_defs SocketStream_new_def peer_new_def echo_client_def)
  have clean: "CleanPath ''echo/'' = Ret ''/echo''" by code_simp
  have q: "Method sample_sync = POST" "Path sample_sync = ''/echo''" "Host sample_sync \<noteq> []"
    by (simp_all add: sample_sync_def)
  have routes: "register_routes ([(GET, ''/echo'', None)] @ (Method sample_sync, ''echo/'', Some (text_endpoint echo)) # [])
      (b1, p1) = (Done (), b2, p1)"
    using run(2) by (simp add: sample_routes_def q)
  have h: "sample_sync\<lparr>Host := (if Host sample_sync = [] then hst else Host sample_sync),
      Headers := Headers sample_sync\<rparr> = sample_sync" for hst
    by (simp add: sample_sync_def)
  have fr: "stream_frame (SocketStream_Read world_net)
      (\<lambda>t. sock_inv (peer_side t) \<and> sock_sent (peer_side t) = sock_sent (peer_side ?s))"
    by (rule wframe.stream_frame_axioms)
  have "\<exists>s. HandleConnection world_net ''Basic'' (WebHost_callback world_net (\<lambda>hs. hs) host) echo_client (echo_world ?m) =
      Some (Ret (), ss_kernel s) \<and>
    sock_sent (peer_side s) = sock_sent (peer_side ?s) @ surviving 0 (response_chunks (\<lambda>hs. hs)
      (set_length (TextResponse_PostHandle (echo (sample_sync\<lparr>Host := (if Host sample_sync = []
        then AddressToHost (sin_addr echo_client) (sin_port echo_client) else Host sample_sync),
        Headers := Headers sample_sync\<rparr>) (fresh_response ''Basic'')))))"
    by (rule built_host_answers [OF run(1) routes run(3) _ _ _ wsock.byte_source_axioms wconn.response_channel_axioms fr refl
        s(1,1,2) sample_sync_printable iteration_id refl refl])
      (simp_all add: q routable_def clean)
  then obtain s' where s': "HandleConnection world_net ''Basic'' (WebHost_callback world_net (\<lambda>hs. hs) host) echo_client
      (echo_world ?m) = Some (Ret (), ss_kernel s')"
    "sock_sent (peer_side s') = surviving 0 (response_chunks (\<lambda>hs. hs)
      (set_length (TextResponse_PostHandle (echo sample_sync (fresh_response ''Basic'')))))"
    by (simp only: h s(3) append_Nil) blast
  with run show ?thesis by blast
qed

text \<open>
  C18: the protocol of the builder. When a sequence of calls returns, \<open>UseAppSettings\<close> was the first of them and
  the only one of its kind, the settings were read and accepted, and the server is the one of the settings,
  whatever the other calls were. A further call of \<open>UseAppSettings\<close> ends the process with status 1; a first
  call that is another one ends it with status 2.
\<close>

theorem builder_protocol:
  assumes "run_calls env cs (WebHostBuilder_Create null, p) = (Done (), b1, p1)" and "cs \<noteq> []"
    and "\<forall>c \<in> set cs. routable_call c"
  shows "(\<exists>path cs' config sc lc server. cs = Call_UseAppSettings path # cs' \<and>
      (\<forall>path'. Call_UseAppSettings path' \<notin> set cs') \<and>
      read_settings env (settings_path (su_getenv env) path) = Ret config \<and>
      load_configs env config = Ret (sc, lc) \<and> make_server env sc = Some (Ret server) \<and>
      wb_server b1 = Some server) \<and>
    run_call env (Call_UseAppSettings path2) (b1, p1) = (Exit 1, b1, p1) \<and>
    (routable_call c \<and> (\<forall>path. c \<noteq> Call_UseAppSettings path) \<longrightarrow>
      run_call env c (WebHostBuilder_Create null, p) = (Exit 2, WebHostBuilder_Create null, p))"
proof -
  let ?b = "WebHostBuilder_Create null"
  have new: "\<not> wb_initialized (fst (?b, p))" by (simp add: WebHostBuilder_Create_def WebHostBuilder_new_def)
  obtain c1 cs' where cs: "cs = c1 # cs'" using assms(2) by (cases cs) auto
  obtain w where w: "run_call env c1 (?b, p) = (Done (), w)" "run_calls env cs' w = (Done (), b1, p1)"
    using assms(1) by (auto simp: cs andRun_Done)
  obtain path where path: "c1 = Call_UseAppSettings path"
    using not_initialized_exits [OF new, of c1 env] w(1) assms(3) cs by (metis list.set_intros(1) prod.inject run.distinct(1))
  obtain b2 p2 where w2: "w = (b2, p2)" by (cases w)
  obtain config sc lc server where u: "wb_initialized b2"
    "read_settings env (settings_path (su_getenv env) path) = Ret config" "load_configs env config = Ret (sc, lc)"
    "make_server env sc = Some (Ret server)" "wb_server b2 = Some server"
    using w(1) unfolding path w2 run_call.simps by (rule UseAppSettings_Done)
  have rest: "wb_server b1 = wb_server b2 \<and> (\<forall>path'. Call_UseAppSettings path' \<notin> set cs')"
    using initialized_calls [OF w(2)] u(1) assms(3) by (simp add: w2 cs)
  have "wb_initialized b1"
    using calls_stay_initialized [OF w(2)] u(1) assms(3) by (simp add: w2 cs)
  then have "run_call env (Call_UseAppSettings path2) (b1, p1) = (Exit 1, b1, p1)" by (simp add: UseAppSettings_def)
  with not_initialized_exits [OF new, of c] rest u cs path show ?thesis by auto
qed

lemma builder_protocol_witness:
  "\<exists>b1 p1. run_calls sample_env [Call_UseAppSettings []] (WebHostBuilder_Create Map.empty, sample_process) = (Done (), b1, p1) \<and>
    run_call sample_env (Call_UseAppSettings []) (b1, p1) = (Exit 1, b1, p1)"
proof -
  obtain b1 p1 where u: "UseAppSettings sample_env [] (WebHostBuilder_Create Map.empty, sample_process) = (Done (), b1, p1)"
    by (rule sample_use)
  then have "run_calls sample_env [Call_UseAppSettings []] (WebHostBuilder_Create Map.empty, sample_process) = (Done (), b1, p1)"
    by (simp add: andRun_def on_builder_def)
  with builder_protocol [OF this] show ?thesis by auto
qed

text \<open>
  One builder for a process. After \<open>UseAppSettings\<close> of one builder has returned, and any other calls on it,
  no second builder of the process can be initialised: when its settings are good its \<open>UseAppSettings\<close> throws,
  because the name of the server's logger is taken.
\<close>

theorem second_builder_throws:
  assumes "run_calls env (Call_UseAppSettings path # cs) (WebHostBuilder_Create null, p) = (Done (), b1, p1)"
    and "\<forall>c \<in> set cs. routable_call c"
    and "read_settings env2 (settings_path (su_getenv env2) path2) = Ret config"
    and "load_configs env2 config = Ret (sc, lc)" and "make_server env2 sc = Some (Ret server)"
  shows "fst (UseAppSettings env2 path2 (WebHostBuilder_Create null2, p1)) = Throws (OtherException ''spdlog::spdlog_ex'')"
proof -
  have new: "\<not> wb_initialized (WebHostBuilder_Create n)" for n
    by (simp add: WebHostBuilder_Create_def WebHostBuilder_new_def)
  obtain b2 p2 where w: "UseAppSettings env path (WebHostBuilder_Create null, p) = (Done (), b2, p2)"
    "run_calls env cs (b2, p2) = (Done (), b1, p1)"
    using assms(1) by (auto simp: andRun_Done)
  from w(1) obtain config0 sc0 lc0 server0 where u: "wb_initialized b2"
    "read_settings env (settings_path (su_getenv env) path) = Ret config0" "load_configs env config0 = Ret (sc0, lc0)"
    "make_server env sc0 = Some (Ret server0)" by (rule UseAppSettings_Done)
  have "''Server'' \<in> set (ls_registry (pr_logs p2))"
    by (rule UseAppSettings_Server(1) [OF w(1) new u(2-4) refl])
  with run_calls_registry [OF w(2)] u(1) assms(2) have taken: "''Server'' \<in> set (ls_registry (pr_logs p1))" by auto
  obtain r b3 p3 where run: "UseAppSettings env2 path2 (WebHostBuilder_Create null2, p1) = (r, b3, p3)"
    by (metis prod_cases3)
  from UseAppSettings_Server(2) [OF run new assms(3-5) taken] run show ?thesis by simp
qed

lemma second_builder_throws_witness:
  "\<exists>b1 p1. UseAppSettings sample_env [] (WebHostBuilder_Create Map.empty, sample_process) = (Done (), b1, p1) \<and>
    fst (UseAppSettings sample_env [] (WebHostBuilder_Create Map.empty, p1)) = Throws (OtherException ''spdlog::spdlog_ex'')"
proof -
  obtain b1 p1 where u: "UseAppSettings sample_env [] (WebHostBuilder_Create Map.empty, sample_process) = (Done (), b1, p1)"
    by (rule sample_use)
  then have "run_calls sample_env [Call_UseAppSettings []] (WebHostBuilder_Create Map.empty, sample_process) = (Done (), b1, p1)"
    by (simp add: andRun_def on_builder_def)
  from second_builder_throws [OF this _ sample_settings] u show ?thesis by auto
qed

end
