(* ===== verification/Host_Run.thy ===== *)
theory Host_Run
  imports Web_Host
begin

unbundle bit_operations_syntax

text \<open>
  \<open>WebHost::Run\<close> over each of the three servers, with everything that may happen between two steps of its loop: the
  workers of the pool, and \<open>Stop\<close>, which the handler of the interrupt signal calls.
\<close>

section \<open>Running a host\<close>

text \<open>What the servers run on: the system calls, the callback, and what a moved task leaves behind.\<close>

record 'k host_system =
  hs_os :: "'k sock_ops"
  hs_net :: "'k net_ops"
  hs_ep :: "'k ep_ops"
  hs_callback :: "('k SocketStream HttpContext, unit) action"
  hs_moved :: "AcceptData \<Rightarrow> AcceptData"
  hs_moved_context :: "'k SocketStream HttpContext \<Rightarrow> 'k SocketStream HttpContext"

abbreviation "basic_env h \<equiv> BasicServer_env (hs_os h) (hs_net h) (hs_callback h)"
abbreviation "threaded_env h \<equiv> ThreadedServer_env (hs_os h) (Push (hs_moved h))"
abbreviation "mayhem_env_of h \<equiv> mayhem_sys_env (hs_os h) (hs_net h) (hs_ep h) (Push (hs_moved_context h))"

fun IServer_StartAsync :: "'k host_system \<Rightarrow> 16 word \<Rightarrow> 'k IServer \<Rightarrow> bool outcome \<times> 'k IServer" where
  "IServer_StartAsync h port (IS_Basic s) = map_prod id IS_Basic (Server_StartAsync (basic_env h) port True s)"
| "IServer_StartAsync h port (IS_Threaded s) =
     map_prod id IS_Threaded (ThreadedServer_StartAsync (hs_os h) (Push (hs_moved h)) port True s)"
| "IServer_StartAsync h port (IS_Mayhem s) = map_prod id IS_Mayhem (Mayhem_StartAsync (mayhem_env_of h) port True s)"

text \<open>A step of \<open>_Serve\<close>.\<close>

fun IServer_Serve :: "'k host_system \<Rightarrow> 'k IServer \<Rightarrow> 'k IServer option" where
  "IServer_Serve h (IS_Basic s) = map_option IS_Basic (serve_step (basic_env h) s)"
| "IServer_Serve h (IS_Threaded s) = map_option IS_Threaded (ThreadedServer_Serve (hs_os h) (Push (hs_moved h)) s)"
| "IServer_Serve h (IS_Mayhem s) = map_option IS_Mayhem (Mayhem_step (mayhem_env_of h) s)"

fun IServer_Serves :: "'k host_system \<Rightarrow> nat \<Rightarrow> 'k IServer \<Rightarrow> 'k IServer option" where
  "IServer_Serves h 0 s = Some s"
| "IServer_Serves h (Suc n) s = (case IServer_Serve h s of None \<Rightarrow> None | Some s' \<Rightarrow> IServer_Serves h n s')"

text \<open>Whatever a running server may do next, as long as the process lives.\<close>

inductive host_step :: "'k host_system \<Rightarrow> 'k IServer \<Rightarrow> 'k IServer \<Rightarrow> bool" for h where
  basic: "server_step (basic_env h) s s' \<Longrightarrow> host_step h (IS_Basic s) (IS_Basic s')"
| threaded: "threaded_step (threaded_env h) (Pop (hs_moved h)) (ThreadedServer_HandleConnection (hs_net h) (hs_callback h))
    (\<lambda>q. 0 < q_budget q) s (Some s') \<Longrightarrow> host_step h (IS_Threaded s) (IS_Threaded s')"
| mayhem: "mayhem_step (mayhem_env_of h) (Pop (hs_moved_context h)) (RunContext (hs_callback h))
    (\<lambda>q. 0 < q_budget q) s (Some s') \<Longrightarrow> host_step h (IS_Mayhem s) (IS_Mayhem s')"

text \<open>How \<open>_Serve\<close> has ended, which the task it runs in keeps; \<open>None\<close> while it runs.\<close>

fun serve_result :: "'k IServer \<Rightarrow> unit outcome option" where
  "serve_result (IS_Basic s) =
     (case sv_pc s of Serve_Exited \<Rightarrow> Some (Ret ()) | Serve_Threw e \<Rightarrow> Some (Raise e) | _ \<Rightarrow> None)"
| "serve_result (IS_Threaded s) =
     (case sv_pc s of Serve_Exited \<Rightarrow> Some (Ret ()) | Serve_Threw e \<Rightarrow> Some (Raise e) | _ \<Rightarrow> None)"
| "serve_result (IS_Mayhem s) =
     (case mv_pc s of Mayhem_Exited \<Rightarrow> Some (Ret ()) | Mayhem_Threw e \<Rightarrow> Some (Raise e) | _ \<Rightarrow> None)"

text \<open>
  \<open>Run\<close> waits for the task \<open>StartAsync\<close> returns, whose \<open>Await\<close> returns when \<open>_Serve\<close> has returned and throws what
  \<open>_Serve\<close> has thrown.
\<close>

inductive WebHost_Run :: "'k host_system \<Rightarrow> 16 word \<Rightarrow> 'k IServer \<Rightarrow> unit outcome \<Rightarrow> 'k IServer \<Rightarrow> bool" for h port s where
  start_throws: "IServer_StartAsync h port s = (Raise e, s1) \<Longrightarrow> WebHost_Run h port s (Raise e) s1"
| completed: "IServer_StartAsync h port s = (Ret False, s1) \<Longrightarrow> WebHost_Run h port s (Ret ()) s1"
| served: "IServer_StartAsync h port s = (Ret True, s1) \<Longrightarrow> (host_step h)\<^sup>*\<^sup>* s1 s2 \<Longrightarrow>
    serve_result s2 = Some oc \<Longrightarrow> WebHost_Run h port s oc s2"

inductive_cases WebHost_RunE: "WebHost_Run h port s oc s'"

section \<open>The account of the descriptors, for any server\<close>

fun system_of :: "'k IServer \<Rightarrow> 'k" where
  "system_of (IS_Basic s) = sv_world s"
| "system_of (IS_Threaded s) = the_system s"
| "system_of (IS_Mayhem s) = mv_system s"

text \<open>The descriptors a server opens for itself.\<close>

fun own_fds :: "'k IServer \<Rightarrow> int set" where
  "own_fds (IS_Basic s) = {sv_listenFd s}"
| "own_fds (IS_Threaded s) = {sv_listenFd s}"
| "own_fds (IS_Mayhem s) = {mv_listenFd s, mv_epollFd s}"

definition host_inv ::
    "('k \<Rightarrow> int set) \<Rightarrow> ('k \<Rightarrow> int \<Rightarrow> int \<Rightarrow> epoll_data option) \<Rightarrow> 'k IServer \<Rightarrow> 'k IServer \<Rightarrow> bool" where
  \<comment> \<open>the invariant of the server with the descriptors it has after the start \<open>s1\<close>\<close>
  "host_inv owned watched s1 s =
     (case (s1, s) of
        (IS_Basic b1, IS_Basic b) \<Rightarrow> server_system.listening owned (sv_listenFd b1) b \<and> sv_listenFd b1 \<noteq> 0
      | (IS_Threaded t1, IS_Threaded t) \<Rightarrow> threaded_inv holds owned (sv_listenFd t1) t \<and> sv_listenFd t1 \<noteq> 0
      | (IS_Mayhem m1, IS_Mayhem m) \<Rightarrow> mayhem_inv holds owned watched (mv_listenFd m1) (mv_epollFd m1) m
      | _ \<Rightarrow> False)"

context epoll_handlers
begin

lemma basic_system: "basic_system os owned net d"
proof (intro basic_system.intro net_os_axioms basic_system_axioms.intro)
  fix fd X
  have "keeps_stream (\<lambda>s. ss_fd s = fd \<and> owned (ss_kernel s) = X) f"
    if "\<And>Y. keeps_stream (\<lambda>s. ss_fd s = fd \<and> owned (ss_kernel s) = X \<and> watched (ss_kernel s) = Y) f" for f
  proof (rule keepsI)
    fix p oc p'
    assume "ss_fd (BodyStream p) = fd \<and> owned (ss_kernel (BodyStream p)) = X" and "f p = Some (oc, p')"
    with keepsD [OF that [of "watched (ss_kernel (BodyStream p))"], of p oc p']
    show "ss_fd (BodyStream p') = fd \<and> owned (ss_kernel (BodyStream p')) = X" by simp
  qed
  then show "handlers_keep (\<lambda>s. ss_fd s = fd \<and> owned (ss_kernel s) = X) d"
    using handlers [of fd X] by (simp add: handlers_keep_def) blast
qed

end

sublocale epoll_handlers \<subseteq> plain: basic_system os owned net d iter
  by (rule basic_system)

context epoll_handlers
begin

abbreviation host :: "(AcceptData \<Rightarrow> AcceptData) \<Rightarrow> ('k SocketStream HttpContext \<Rightarrow> 'k SocketStream HttpContext) \<Rightarrow>
    'k host_system" where
  "host ma mc \<equiv> \<lparr>hs_os = os, hs_net = net, hs_ep = ep, hs_callback = dispatch, hs_moved = ma, hs_moved_context = mc\<rparr>"

lemma host_started:
  assumes "make_server env sc = Some (Ret s)"
    and "2 \<le> unat (MakePowerOfTwo (sc_Capacity sc))" "unat (MakePowerOfTwo (sc_Capacity sc)) < 2 ^ 63"
    and "IServer_StartAsync (host ma mc) port s = (Ret True, s1)"
  shows "host_inv owned watched s1 s1"
proof (cases s)
  case (IS_Basic b)
  with assms(4) obtain b1 where "Server_StartAsync (BasicServer_env os net dispatch) port True b = (Ret True, b1)"
    "s1 = IS_Basic b1" by (auto simp: map_prod_def split: prod.splits)
  with plain.system.start_listening show ?thesis by (simp add: host_inv_def)
next
  case (IS_Threaded t)
  with assms(4) obtain t1 where t1: "Server_StartAsync (ThreadedServer_env os (Push ma)) port True t = (Ret True, t1)"
    "s1 = IS_Threaded t1" by (auto simp: map_prod_def split: prod.splits)
  have "ThreadedServer_new (su_data env) (unat (sc_Threads sc)) (sc_Capacity sc) (su_system env) = Ret t"
    using assms(1) IS_Threaded by (auto simp: make_server_def outcome_bind_Ret split: if_splits)
  note new = ThreadedServer_new_inv [OF this assms(2,3)]
  from plain.threaded.started_inv [OF t1(1) new(1,2)] t1(2) show ?thesis by (simp add: host_inv_def)
next
  case (IS_Mayhem m)
  with assms(4) obtain m1 where m1: "Mayhem_StartAsync (mayhem_sys_env os net ep (Push mc)) port True m = (Ret True, m1)"
    "s1 = IS_Mayhem m1" by (auto simp: map_prod_def split: prod.splits)
  have "MayhemServer_new (su_context env) (unat (sc_Threads sc)) (sc_Capacity sc) (su_system env) = Ret m"
    using assms(1) IS_Mayhem by (auto simp: make_server_def outcome_bind_Ret split: if_splits)
  note new = MayhemServer_new_pool [OF this assms(2,3)]
  from mayhem.started_inv [OF m1(1) new(1-3)] m1(2) show ?thesis by (simp add: host_inv_def)
qed

lemma host_step_inv:
  assumes "host_step (host ma mc) s s'" and "host_inv owned watched s1 s"
  shows "host_inv owned watched s1 s'"
  using assms(1)
proof (cases rule: host_step.cases)
  case (basic b b')
  with assms(2) plain.system.listening_step [of b b'] show ?thesis by (auto simp: host_inv_def split: IServer.splits)
next
  case (threaded t t')
  with assms(2) plain.threaded.inv_step [of ma t t'] show ?thesis by (auto simp: host_inv_def split: IServer.splits)
next
  case (mayhem m m')
  with assms(2) mayhem.step_inv [of mc m m'] show ?thesis by (auto simp: host_inv_def split: IServer.splits)
qed

lemma host_steps_inv:
  assumes "(host_step (host ma mc))\<^sup>*\<^sup>* s s'" and "host_inv owned watched s1 s"
  shows "host_inv owned watched s1 s'"
  using assms by (induction rule: rtranclp_induct) (auto intro: host_step_inv)

lemma host_returned:
  assumes "host_inv owned watched s1 s" and "serve_result s = Some (Ret ())"
  shows "own_fds s1 \<inter> owned (system_of s) = {}"
  using assms
  by (auto simp: host_inv_def plain.system.listening_def threaded_inv_def mayhem_inv_def
      split: IServer.splits serve_pc.splits mayhem_pc.splits)

end

section \<open>Stopping\<close>

fun IServer_running :: "'k IServer \<Rightarrow> bool" where
  "IServer_running (IS_Basic s) = sv_isRunning s"
| "IServer_running (IS_Threaded s) = sv_isRunning s"
| "IServer_running (IS_Mayhem s) = mv_isRunning s"

text \<open>The queues can take more tasks (the counters of \<open>Queue.h\<close> have not run through all tickets).\<close>

fun queues_ready :: "'k IServer \<Rightarrow> bool" where
  "queues_ready (IS_Basic s) = True"
| "queues_ready (IS_Threaded s) = (\<forall>q \<in> set (tp_workers (the_pool s)). 0 < q_budget q)"
| "queues_ready (IS_Mayhem s) = (\<forall>q \<in> set (tp_workers (mv_pool s)). 0 < q_budget q)"

text \<open>The loop runs; the one of a mayhem server is not waiting, and has no events left to handle.\<close>

fun near_test :: "'k IServer \<Rightarrow> bool" where
  "near_test (IS_Basic s) = (sv_pc s \<in> {Serve_Outer, Serve_Accept, Serve_Closing})"
| "near_test (IS_Threaded s) = (sv_pc s \<in> {Serve_Outer, Serve_Accept, Serve_Closing})"
| "near_test (IS_Mayhem s) = (mv_pc s \<in> {Mayhem_Loop, Mayhem_Events [], Mayhem_Closing})"

fun steps_to_return :: "'k IServer \<Rightarrow> nat" where
  "steps_to_return (IS_Basic s) = steps_to_exit (sv_pc s)"
| "steps_to_return (IS_Threaded s) = steps_to_exit (sv_pc s)"
| "steps_to_return (IS_Mayhem s) =
     (case mv_pc s of Mayhem_Events _ \<Rightarrow> 3 | Mayhem_Loop \<Rightarrow> 2 | Mayhem_Closing \<Rightarrow> 1 | _ \<Rightarrow> 0)"

lemma stopped_serve_pool:
  assumes "\<not> sv_isRunning s" and "serve_step (ThreadedServer_env os push) s = Some s'"
  shows "the_pool s' = the_pool s"
  using assms by (auto simp: serve_step_def ThreadedServer_env_def Server_CloseSocket_def on_system_def
      split: serve_pc.splits prod.splits if_splits)

lemma stopped_host_step:
  assumes "\<not> IServer_running s" and "near_test s" and "queues_ready s"
  shows "\<exists>s'. IServer_Serve h s = Some s' \<and> host_step h s s' \<and> \<not> IServer_running s' \<and> queues_ready s' \<and>
    steps_to_return s = Suc (steps_to_return s') \<and> (near_test s' \<or> serve_result s' = Some (Ret ()))"
proof (cases s)
  case (IS_Basic b)
  with assms stopped_progress [of b "basic_env h"] obtain b' where "serve_step (basic_env h) b = Some b'"
    "\<not> sv_isRunning b'" "steps_to_exit (sv_pc b) = Suc (steps_to_exit (sv_pc b'))"
    "sv_pc b' \<in> {Serve_Outer, Serve_Closing, Serve_Exited}" by auto
  with IS_Basic show ?thesis by (auto intro: host_step.basic server_step.serve)
next
  case (IS_Threaded t)
  with assms stopped_progress [of t "threaded_env h"] obtain t' where t': "serve_step (threaded_env h) t = Some t'"
    "\<not> sv_isRunning t'" "steps_to_exit (sv_pc t) = Suc (steps_to_exit (sv_pc t'))"
    "sv_pc t' \<in> {Serve_Outer, Serve_Closing, Serve_Exited}" by auto
  have "the_pool t' = the_pool t" using stopped_serve_pool [OF _ t'(1)] assms(1) IS_Threaded by simp
  with t' IS_Threaded assms(3) show ?thesis
    by (auto intro: host_step.threaded threaded_step.loop server_step.serve)
next
  case (IS_Mayhem m)
  with assms obtain m' where m': "Mayhem_step (mayhem_env_of h) m = Some m'" "\<not> mv_isRunning m'" "mv_pool m' = mv_pool m"
    "steps_to_return (IS_Mayhem m) = Suc (steps_to_return (IS_Mayhem m'))" "mv_pc m' \<in> {Mayhem_Loop, Mayhem_Closing, Mayhem_Exited}"
    by (auto simp: Mayhem_step_def Mayhem_CloseEpoll_def Mayhem_CloseSocket_def split: prod.splits if_splits)
  with IS_Mayhem assms(3) show ?thesis by (auto intro: host_step.mayhem mayhem_step.loop)
qed

lemma stopped_host_returns:
  assumes "\<not> IServer_running s" and "near_test s" and "queues_ready s"
  shows "\<exists>s'. IServer_Serves h (steps_to_return s) s = Some s' \<and> (host_step h)\<^sup>*\<^sup>* s s' \<and> serve_result s' = Some (Ret ())"
  using assms
proof (induction "steps_to_return s" arbitrary: s)
  case 0
  with stopped_host_step [of s h] show ?case by auto
next
  case (Suc n)
  from stopped_host_step [OF Suc.prems, of h] obtain s1 where s1: "IServer_Serve h s = Some s1" "host_step h s s1"
    "\<not> IServer_running s1" "queues_ready s1" "steps_to_return s = Suc (steps_to_return s1)"
    "near_test s1 \<or> serve_result s1 = Some (Ret ())" by blast
  show ?case
  proof (cases "near_test s1")
    case True
    from Suc.hyps(1) [OF _ s1(3) True s1(4)] Suc.hyps(2) s1(1,2,5) show ?thesis
      by (auto intro: converse_rtranclp_into_rtranclp)
  next
    case False
    with s1(6) have "steps_to_return s1 = 0"
      by (cases s1) (auto simp: steps_to_exit_def split: serve_pc.splits mayhem_pc.splits)
    with False s1 show ?thesis by auto
  qed
qed

text \<open>
  A mayhem server may be in its wait, with events at hand, or in its accept loop. What happens then is up to the system and to
  the clients: the wait returns, and the events it reports are handled first.
\<close>

fun events_at_hand :: "'k IServer \<Rightarrow> epoll_event list option" where
  "events_at_hand (IS_Mayhem s) = (case mv_pc s of Mayhem_Events (e # es) \<Rightarrow> Some es | Mayhem_Accept es \<Rightarrow> Some es | _ \<Rightarrow> None)"
| "events_at_hand s = None"

text \<open>Nothing is at hand: not in a basic or a threaded server, and in a mayhem server if its wait, should it be in it, reports nothing.\<close>

fun quiet :: "'k host_system \<Rightarrow> 'k IServer \<Rightarrow> bool" where
  "quiet h (IS_Mayhem s) \<longleftrightarrow> (case mv_pc s of
       Mayhem_Wait \<Rightarrow> fst (epoll_Wait (hs_ep h) (mv_epollFd s) MAX_EVENTS 5000 (mv_system s)) \<le> 0
     | _ \<Rightarrow> events_at_hand (IS_Mayhem s) = None)"
| "quiet h s \<longleftrightarrow> True"

text \<open>
  The loop, run alone, comes to an end after \<open>n\<close> steps: \<open>_Serve\<close> has returned or thrown; or the next step does not return (a
  builder parses for ever, or \<open>Push\<close> does); or a queue has used up its tickets.
\<close>

definition comes_to :: "'k host_system \<Rightarrow> nat \<Rightarrow> 'k IServer \<Rightarrow> 'k IServer \<Rightarrow> bool" where
  "comes_to h n s s' \<longleftrightarrow> IServer_Serves h n s = Some s' \<and> (host_step h)\<^sup>*\<^sup>* s s'"

definition serve_blocked :: "'k host_system \<Rightarrow> 'k IServer \<Rightarrow> bool" where
  "serve_blocked h s \<longleftrightarrow> IServer_Serve h s = None \<or> \<not> queues_ready s"

text \<open>Or it stays in the accept loop for ever, since \<open>AcceptSocket\<close> never says that there is no more connection.\<close>

definition accepts_for_ever :: "'k host_system \<Rightarrow> nat \<Rightarrow> 'k IServer \<Rightarrow> bool" where
  "accepts_for_ever h n s \<longleftrightarrow>
     (\<exists>es. \<forall>k \<ge> n. \<exists>m. IServer_Serves h k s = Some (IS_Mayhem m) \<and> mv_pc m = Mayhem_Accept es)"

definition winds_down :: "'k host_system \<Rightarrow> 'k IServer \<Rightarrow> bool" where
  "winds_down h s \<longleftrightarrow>
     (\<exists>n s'. comes_to h n s s' \<and> (serve_result s' \<noteq> None \<or> serve_blocked h s')) \<or> (\<exists>n. accepts_for_ever h n s)"

lemma comes_to_0: "comes_to h 0 s s' \<longleftrightarrow> s' = s"
  by (auto simp: comes_to_def)

lemma comes_to_Suc:
  assumes "IServer_Serve h s = Some s1" and "host_step h s s1" and "comes_to h n s1 s'"
  shows "comes_to h (Suc n) s s'"
  using assms by (auto simp: comes_to_def intro: converse_rtranclp_into_rtranclp)

lemma serves_add: "IServer_Serves h m s = Some s1 \<Longrightarrow> IServer_Serves h (m + n) s = IServer_Serves h n s1"
  by (induction m arbitrary: s) (auto split: option.splits)

lemma comes_to_snoc:
  assumes "comes_to h n s s1" and "IServer_Serve h s1 = Some s'" and "host_step h s1 s'"
  shows "comes_to h (Suc n) s s'"
  using assms serves_add [of h n s s1 "Suc 0"] by (auto simp: comes_to_def)

lemma winds_down_later:
  assumes "comes_to h m s s1" and "winds_down h s1"
  shows "winds_down h s"
proof -
  have later: "IServer_Serves h (m + n) s = IServer_Serves h n s1" for n
    using assms(1) by (simp add: comes_to_def serves_add)
  have "comes_to h (m + n) s s'" if "comes_to h n s1 s'" for n s'
    using that assms(1) later by (auto simp: comes_to_def)
  moreover have "accepts_for_ever h (m + n) s" if never: "accepts_for_ever h n s1" for n
  proof -
    obtain es where es: "\<forall>k \<ge> n. \<exists>t. IServer_Serves h k s1 = Some (IS_Mayhem t) \<and> mv_pc t = Mayhem_Accept es"
      using never by (auto simp: accepts_for_ever_def)
    have "\<exists>t. IServer_Serves h k s = Some (IS_Mayhem t) \<and> mv_pc t = Mayhem_Accept es" if "m + n \<le> k" for k
      using es [rule_format, of "k - m"] later [of "k - m"] that by simp
    then show ?thesis unfolding accepts_for_ever_def by blast
  qed
  ultimately show ?thesis using assms(2) unfolding winds_down_def by blast
qed

lemma winds_down_step:
  assumes "IServer_Serve h s = Some s1" and "queues_ready s \<Longrightarrow> winds_down h s1"
  shows "winds_down h s"
proof (cases "queues_ready s")
  case True
  with assms(1) have "host_step h s s1"
    by (cases s) (auto intro!: host_step.intros server_step.serve threaded_step.loop mayhem_step.loop)
  with assms(1) have "comes_to h (Suc 0) s s1" by (rule comes_to_Suc) (simp add: comes_to_0)
  from winds_down_later [OF this assms(2) [OF True]] show ?thesis .
next
  case False
  then have "comes_to h 0 s s \<and> serve_blocked h s" by (simp add: comes_to_0 serve_blocked_def)
  then show ?thesis unfolding winds_down_def by blast
qed

lemma winds_down_now: "serve_result s \<noteq> None \<or> serve_blocked h s \<Longrightarrow> winds_down h s"
  unfolding winds_down_def using comes_to_0 by blast

lemma Mayhem_parse_pc:
  assumes "Mayhem_parse env fd m = Some m'"
  shows "mv_isRunning m' = mv_isRunning m \<and> (mv_pc m' = mv_pc m \<or> (\<exists>e. mv_pc m' = Mayhem_Threw e))"
  using assms
  by (auto simp: Mayhem_parse_def Mayhem_submit_def Mayhem_UnmonitorFd_def Mayhem_Close_def set_handle_def Let_def
      split: if_splits option.splits outcome.splits prod.splits)

lemma Mayhem_accept_pc:
  assumes "mv_pc m = Mayhem_Accept es"
  shows "mv_isRunning (Mayhem_accept env es m) = mv_isRunning m \<and>
    (mv_pc (Mayhem_accept env es m) \<in> {Mayhem_Accept es, Mayhem_Events es} \<or>
     (\<exists>e. mv_pc (Mayhem_accept env es m) = Mayhem_Threw e))"
  using assms
  by (auto simp: Mayhem_accept_def Mayhem_MonitorFd_def Mayhem_Close_def set_handle_def Let_def split: prod.splits)

lemma stopped_near_test:
  assumes "\<not> IServer_running s" and "near_test s"
  shows "winds_down h s"
proof (cases "queues_ready s")
  case True
  from stopped_host_returns [OF assms True, of h] obtain s' where
    "comes_to h (steps_to_return s) s s' \<and> (serve_result s' \<noteq> None \<or> serve_blocked h s')" by (auto simp: comes_to_def)
  then show ?thesis unfolding winds_down_def by blast
qed (auto intro: winds_down_now simp: serve_blocked_def)

lemma stopped_accept:
  assumes "mv_pc m = Mayhem_Accept es" and "\<not> mv_isRunning m"
    and events: "\<And>m'. mv_pc m' = Mayhem_Events es \<Longrightarrow> \<not> mv_isRunning m' \<Longrightarrow> winds_down h (IS_Mayhem m')"
  shows "winds_down h (IS_Mayhem m)"
proof (rule ccontr)
  assume never: "\<not> winds_down h (IS_Mayhem m)"
  have "\<exists>t. comes_to h k (IS_Mayhem m) (IS_Mayhem t) \<and> mv_pc t = Mayhem_Accept es \<and> \<not> mv_isRunning t" for k
  proof (induction k)
    case 0
    with assms show ?case by (auto simp: comes_to_0)
  next
    case (Suc k)
    then obtain t where t: "comes_to h k (IS_Mayhem m) (IS_Mayhem t)" "mv_pc t = Mayhem_Accept es" "\<not> mv_isRunning t" by blast
    then have no: "\<not> winds_down h (IS_Mayhem t)" using never winds_down_later by blast
    let ?t = "Mayhem_accept (mayhem_env_of h) es t"
    have serve: "IServer_Serve h (IS_Mayhem t) = Some (IS_Mayhem ?t)" using t(2) by (simp add: Mayhem_step_def)
    have ready: "queues_ready (IS_Mayhem t)" and no': "\<not> winds_down h (IS_Mayhem ?t)"
      using no winds_down_now [of "IS_Mayhem t" h] winds_down_step [OF serve] by (auto simp: serve_blocked_def)
    note pc = Mayhem_accept_pc [OF t(2), of "mayhem_env_of h"]
    moreover have "mv_pc ?t \<noteq> Mayhem_Events es" using no' events [of ?t] t(3) pc by auto
    moreover have "mv_pc ?t \<noteq> Mayhem_Threw e" for e using no' winds_down_now [of "IS_Mayhem ?t" h] by auto
    ultimately have "mv_pc ?t = Mayhem_Accept es \<and> \<not> mv_isRunning ?t" using t(3) by auto
    moreover have "host_step h (IS_Mayhem t) (IS_Mayhem ?t)"
      using serve ready by (auto intro!: host_step.mayhem mayhem_step.loop)
    ultimately show ?case using comes_to_snoc [OF t(1) serve] by blast
  qed
  then have "accepts_for_ever h 0 (IS_Mayhem m)" unfolding accepts_for_ever_def comes_to_def by blast
  with never show False by (auto simp: winds_down_def)
qed

lemma stopped_events:
  fixes m :: "('k, 'k SocketStream HttpContext Queue) mayhem"
  assumes "mv_pc m = Mayhem_Events es" and "\<not> mv_isRunning m"
  shows "winds_down h (IS_Mayhem m)"
  using assms
proof (induction es arbitrary: m)
  case Nil
  then show ?case by (intro stopped_near_test) simp_all
next
  case (Cons e es)
  show ?case
  proof (cases "Mayhem_step (mayhem_env_of h) m")
    case None
    then show ?thesis by (intro winds_down_now) (simp add: serve_blocked_def)
  next
    case (Some m')
    then have pc: "\<not> mv_isRunning m' \<and> (mv_pc m' \<in> {Mayhem_Events es, Mayhem_Accept es} \<or> (\<exists>e. mv_pc m' = Mayhem_Threw e))"
      using Cons.prems by (auto simp: Mayhem_step_def split: if_splits dest!: Mayhem_parse_pc)
    then consider (events) "mv_pc m' = Mayhem_Events es" | (accept) "mv_pc m' = Mayhem_Accept es" | (threw) e where "mv_pc m' = Mayhem_Threw e"
      by blast
    then have "winds_down h (IS_Mayhem m')"
    proof cases
      case threw
      then show ?thesis by (intro winds_down_now) simp
    next
      case events
      show ?thesis by (rule Cons.IH [OF events]) (use pc in simp)
    next
      case accept
      from pc have "\<not> mv_isRunning m'" by blast
      from accept this Cons.IH show ?thesis by (rule stopped_accept)
    qed
    with Some show ?thesis by (intro winds_down_step [of h "IS_Mayhem m" "IS_Mayhem m'"]) simp_all
  qed
qed

lemma stopped_winds_down:
  assumes "\<not> IServer_running s" and "near_test s \<or> (\<exists>m. s = IS_Mayhem m \<and> mv_pc m \<noteq> Mayhem_Idle)"
  shows "winds_down h s"
proof (cases "near_test s \<or> serve_result s \<noteq> None")
  case True
  with assms(1) show ?thesis using stopped_near_test winds_down_now by blast
next
  case False
  with assms(2) obtain m where m: "s = IS_Mayhem m" "mv_pc m \<noteq> Mayhem_Idle" by blast
  with assms(1) have run: "\<not> mv_isRunning m" by simp
  consider (wait) "mv_pc m = Mayhem_Wait" | (events) es where "mv_pc m = Mayhem_Events es"
    | (accept) es where "mv_pc m = Mayhem_Accept es" using False m by (cases "mv_pc m") auto
  then show ?thesis
  proof cases
    case wait
    with run have "\<exists>m' es. Mayhem_step (mayhem_env_of h) m = Some m' \<and> mv_pc m' = Mayhem_Events es \<and> \<not> mv_isRunning m'"
      by (auto simp: Mayhem_step_def Mayhem_Stop_def Let_def split: prod.splits)
    then obtain m' es where m': "Mayhem_step (mayhem_env_of h) m = Some m'" "mv_pc m' = Mayhem_Events es" "\<not> mv_isRunning m'"
      by blast
    then show ?thesis using m by (intro winds_down_step [of h s "IS_Mayhem m'"] stopped_events) simp_all
  next
    case events
    with run m show ?thesis by (simp add: stopped_events)
  next
    case accept
    from stopped_accept [OF this run stopped_events] m show ?thesis by simp
  qed
qed

text \<open>With nothing at hand it has returned after at most four steps, the first of which may be the end of the wait.\<close>

lemma stopped_quiet:
  assumes "\<not> IServer_running s" and "near_test s \<or> (\<exists>m. s = IS_Mayhem m \<and> mv_pc m = Mayhem_Wait)"
    and "quiet h s" and "queues_ready s"
  shows "\<exists>n s'. n \<le> 4 \<and> comes_to h n s s' \<and> serve_result s' = Some (Ret ())"
proof (cases "near_test s")
  case True
  from stopped_host_returns [OF assms(1) True assms(4), of h] obtain s' where
    "comes_to h (steps_to_return s) s s'" "serve_result s' = Some (Ret ())" by (auto simp: comes_to_def)
  moreover have "steps_to_return s \<le> 4"
    by (cases s) (auto simp: steps_to_exit_def split: serve_pc.splits mayhem_pc.splits)
  ultimately show ?thesis by blast
next
  case False
  with assms(2) obtain m where m: "s = IS_Mayhem m" "mv_pc m = Mayhem_Wait" by blast
  with assms(1,3) have "\<exists>m'. Mayhem_step (mayhem_env_of h) m = Some m' \<and> mv_pc m' = Mayhem_Events [] \<and> \<not> mv_isRunning m' \<and>
      mv_pool m' = mv_pool m"
    by (auto simp: Mayhem_step_def Mayhem_Stop_def Let_def split: prod.splits)
  then obtain m' where m': "Mayhem_step (mayhem_env_of h) m = Some m'" "mv_pc m' = Mayhem_Events []" "\<not> mv_isRunning m'"
    "mv_pool m' = mv_pool m" by blast
  with stopped_host_returns [of "IS_Mayhem m'" h] assms(4) m(1) obtain s' where
    s': "comes_to h 3 (IS_Mayhem m') s'" "serve_result s' = Some (Ret ())" by (auto simp: comes_to_def)
  have "host_step h s (IS_Mayhem m')" using m(1) m'(1) assms(4) by (auto intro!: host_step.mayhem mayhem_step.loop)
  with comes_to_Suc [of h s "IS_Mayhem m'" 3 s'] m(1) m'(1) s' show ?thesis by (intro exI [of _ "Suc 3"] exI [of _ s']) simp
qed

lemma interruptible:
  assumes "epoll_handlers os owned net ep watched d" and "host_inv owned watched s1 s"
    and "serve_result s = None" and "queues_ready s"
  shows "\<not> IServer_running (IServer_Stop s)" and "queues_ready (IServer_Stop s)" and "host_step h s (IServer_Stop s)"
    and "near_test (IServer_Stop s) \<or> (\<exists>m. IServer_Stop s = IS_Mayhem m \<and> mv_pc m \<noteq> Mayhem_Idle)"
    and "quiet h s \<Longrightarrow> quiet h (IServer_Stop s) \<and>
      (near_test (IServer_Stop s) \<or> (\<exists>m. IServer_Stop s = IS_Mayhem m \<and> mv_pc m = Mayhem_Wait))"
proof -
  have system: "server_system (BasicServer_env os net (Dispatch (SocketStream_Write net) (SocketStream_Close net) iter d)) owned" for iter
    by (rule basic_system.basic_server_system [OF epoll_handlers.basic_system [OF assms(1)]])
  show "\<not> IServer_running (IServer_Stop s)" "queues_ready (IServer_Stop s)"
    using assms(4) by (cases s; simp add: Server_Stop_def Mayhem_Stop_def)+
  show live: "near_test (IServer_Stop s) \<or> (\<exists>m. IServer_Stop s = IS_Mayhem m \<and> mv_pc m \<noteq> Mayhem_Idle)"
    using assms(2,3) by (cases s) (auto simp: host_inv_def server_system.listening_def [OF system] threaded_inv_def mayhem_inv_def
        Server_Stop_def Mayhem_Stop_def split: IServer.splits serve_pc.splits)
  show "quiet h s \<Longrightarrow> quiet h (IServer_Stop s) \<and>
      (near_test (IServer_Stop s) \<or> (\<exists>m. IServer_Stop s = IS_Mayhem m \<and> mv_pc m = Mayhem_Wait))"
    using live assms(3) by (cases s) (auto simp: Mayhem_Stop_def Server_Stop_def split: mayhem_pc.splits list.splits)
  show "host_step h s (IServer_Stop s)"
    using assms(4) by (cases s) (auto intro!: host_step.intros server_step.stop mayhem_step.stop threaded_step.loop)
qed

section \<open>Properties\<close>

text \<open>
  C17: \<open>^C\<close> ends the host. A program has built a host over one of the three servers, on a system that lets handlers be
  installed, and runs it. At any point of the run at which the loop has not ended, the delivery of \<open>SIGINT\<close> runs the handler the
  constructor installed, which stops the host's server; the handler is gone after that, so a second \<open>SIGINT\<close> is not handled.
  What the loop then does, run alone. When nothing is at hand (always in a basic and a threaded server; in a mayhem server unless it has
  events to handle, is accepting, or its \<open>epoll_wait\<close> reports events, which one that is interrupted does not), it has
  returned after at most four steps, \<open>Run\<close> returns, and the listening socket and the epoll are closed. Otherwise the mayhem server handles first
  what is at hand: it comes to its end, and \<open>Run\<close> returns with the descriptors closed or throws what the loop throws; the only other ends
  are a step that does not return (\<open>serve_blocked\<close>), and an accept loop that never runs out of connections.
\<close>

theorem interrupt_ends_run:
  assumes "epoll_handlers os owned net ep watched (wh_dispatcher host)"
    and h: "h = \<lparr>hs_os = os, hs_net = net, hs_ep = ep, hs_callback = WebHost_callback net iter host,
      hs_moved = moved, hs_moved_context = moved_context\<rparr>"
    and "make_server env sc = Some (Ret (wh_server host))"
    and "2 \<le> unat (MakePowerOfTwo (sc_Capacity sc))" and "unat (MakePowerOfTwo (sc_Capacity sc)) < 2 ^ 63"
    and "Build env (b, p) = (Done host, b1, p1)" and "0 \<le> fst (su_sigaction env (pr_actions p) SIGINT
      \<lparr>sa_handler = Sa_ours, sa_flags = SA_SIGINFO OR SA_RESETHAND\<rparr>)"
    and "IServer_StartAsync h port (wh_server host) = (Ret True, s1)"
    and "(host_step h)\<^sup>*\<^sup>* s1 s2" and "serve_result s2 = None" and "queues_ready s2"
  shows "\<exists>table. SignalHandler SIGINT (pr_signals p1, s2) = Some (Ret (), table, IServer_Stop s2) \<and>
    SignalHandler SIGINT (table, w) = Some (Ret (), table, w) \<and>
    (quiet h s2 \<longrightarrow> (\<exists>n s3. n \<le> 4 \<and> IServer_Serves h n (IServer_Stop s2) = Some s3 \<and>
       WebHost_Run h port (wh_server host) (Ret ()) s3 \<and> own_fds s1 \<inter> owned (system_of s3) = {})) \<and>
    ((\<exists>n s3 oc. IServer_Serves h n (IServer_Stop s2) = Some s3 \<and> WebHost_Run h port (wh_server host) oc s3 \<and>
       (oc = Ret () \<longrightarrow> own_fds s1 \<inter> owned (system_of s3) = {})) \<or>
     (\<exists>n s3. IServer_Serves h n (IServer_Stop s2) = Some s3 \<and> serve_blocked h s3) \<or>
     (\<exists>n. accepts_for_ever h n (IServer_Stop s2)))"
proof -
  note sys = assms(1) and h' = h [unfolded WebHost_callback_def]
  obtain r where "SetSignalHandler (su_sigaction env) SIGINT WebHost_OnInterrupted True (pr_signals p, pr_actions p) =
      (r, pr_signals p1, pr_actions p1)"
    using assms(6) by (rule Build_Done) blast
  with assms(7) have "pr_signals p1 =
      (pr_signals p)(SIGINT \<mapsto> \<lparr>sh_Signal = SIGINT, sh_Once = True, sh_Handler = WebHost_OnInterrupted\<rparr>)"
    by (auto simp: SetSignalHandler_def Let_def split: prod.splits if_splits)
  then have t: "pr_signals p1 SIGINT =
      Some \<lparr>sh_Signal = SIGINT, sh_Once = True, sh_Handler = WebHost_OnInterrupted\<rparr>" by simp
  let ?t = "(pr_signals p1)(SIGINT := None)" and ?s = "IServer_Stop s2"
  have sig: "SignalHandler SIGINT (pr_signals p1, s2) = Some (Ret (), ?t, ?s)"
    "SignalHandler SIGINT (?t, w) = Some (Ret (), ?t, w)"
    by (simp_all add: SignalHandler_def t WebHost_OnInterrupted_def)
  have inv1: "host_inv owned watched s1 s1"
    by (rule epoll_handlers.host_started [OF sys assms(3-5) assms(8) [unfolded h']])
  note inv2 = epoll_handlers.host_steps_inv [OF sys assms(9) [unfolded h'] inv1]
  note stop = interruptible [OF sys inv2 assms(10,11)]
  have ended: "WebHost_Run h port (wh_server host) oc s3 \<and> (oc = Ret () \<longrightarrow> own_fds s1 \<inter> owned (system_of s3) = {})"
    if "comes_to h n ?s s3" "serve_result s3 = Some oc" for n s3 oc
  proof -
    have run: "(host_step h)\<^sup>*\<^sup>* s1 s3"
      using assms(9) stop(3) that(1) unfolding comes_to_def by (meson rtranclp.rtrancl_into_rtrancl rtranclp_trans)
    from WebHost_Run.served [OF assms(8) run that(2)] that(2)
      epoll_handlers.host_returned [OF sys epoll_handlers.host_steps_inv [OF sys run [unfolded h'] inv1]]
    show ?thesis by blast
  qed
  have "quiet h s2 \<longrightarrow> (\<exists>n s3. n \<le> 4 \<and> IServer_Serves h n ?s = Some s3 \<and>
      WebHost_Run h port (wh_server host) (Ret ()) s3 \<and> own_fds s1 \<inter> owned (system_of s3) = {})"
  proof
    assume "quiet h s2"
    from stop(5) [OF this] obtain n s3 where "n \<le> 4" "comes_to h n ?s s3" "serve_result s3 = Some (Ret ())"
      using stopped_quiet [OF stop(1) _ _ stop(2), of h] by blast
    with ended [OF this(2,3)] show "\<exists>n s3. n \<le> 4 \<and> IServer_Serves h n ?s = Some s3 \<and>
        WebHost_Run h port (wh_server host) (Ret ()) s3 \<and> own_fds s1 \<inter> owned (system_of s3) = {}"
      unfolding comes_to_def by blast
  qed
  moreover from stopped_winds_down [OF stop(1,4), of h] consider
    (result) n s3 oc where "comes_to h n ?s s3" "serve_result s3 = Some oc"
    | (blocked) n s3 where "comes_to h n ?s s3" "serve_blocked h s3"
    | (accepts) n where "accepts_for_ever h n ?s" unfolding winds_down_def by blast
  then have "(\<exists>n s3 oc. IServer_Serves h n ?s = Some s3 \<and> WebHost_Run h port (wh_server host) oc s3 \<and>
       (oc = Ret () \<longrightarrow> own_fds s1 \<inter> owned (system_of s3) = {})) \<or>
     (\<exists>n s3. IServer_Serves h n ?s = Some s3 \<and> serve_blocked h s3) \<or> (\<exists>n. accepts_for_ever h n ?s)"
  proof cases
    case result
    with ended [OF result] show ?thesis unfolding comes_to_def by blast
  next
    case blocked
    then show ?thesis unfolding comes_to_def by blast
  qed blast
  ultimately show ?thesis using sig by blast
qed

text \<open>A system on which the signal interrupts \<open>epoll_wait\<close>, which fails then (\<open>EINTR\<close>); all else is as before.\<close>

definition interrupted_ep :: "ep_world ep_ops" where
  "interrupted_ep = ew_ep\<lparr>ep_wait := (\<lambda>k e n t. (- 1, [], k))\<rparr>"

interpretation interrupted: epoll_os ew_os ew_owned ew_net interrupted_ep ew_watched
  by (intro epoll_os.intro ew.net_os_axioms epoll_os_axioms.intro)
    (use ew.create_new ew.ep_close_owned ew.ctl_owned ew.ctl_add ew.ctl_del ew.close_watched ew.accept_watched ew.recv_watched
       ew.send_watched in \<open>simp_all add: interrupted_ep_def\<close>)

lemma interrupted_start:
  "Mayhem_StartAsync (mayhem_sys_env ew_os ew_net interrupted_ep push) = Mayhem_StartAsync (mayhem_sys_env ew_os ew_net ew_ep push)"
proof -
  let ?i = "mayhem_sys_env ew_os ew_net interrupted_ep push" and ?e = "mayhem_sys_env ew_os ew_net ew_ep push"
  have eqs: "Mayhem_OpenSocket ?i = Mayhem_OpenSocket ?e" "Mayhem_OpenEpoll ?i = Mayhem_OpenEpoll ?e"
    "Mayhem_CloseSocket ?i = Mayhem_CloseSocket ?e" "Mayhem_CloseEpoll ?i = Mayhem_CloseEpoll ?e"
    "epoll_Monitor interrupted_ep = epoll_Monitor ew_ep"
    by (simp_all add: fun_eq_iff Mayhem_OpenSocket_def Mayhem_OpenEpoll_def Mayhem_CloseEpoll_def Mayhem_CloseSocket_def
        interrupted_ep_def epoll_Create_def epoll_Monitor_def epoll_Close_def)
  show ?thesis unfolding Mayhem_StartAsync_def eqs mayhem_sys_env_simps ..
qed

text \<open>A host over a mayhem server, which is interrupted in its wait.\<close>

definition mayhem_surroundings :: "ep_world \<Rightarrow> (string \<Rightarrow> 32 word option, ep_world, unit) surroundings" where
  "mayhem_surroundings k = (sample_on k)\<lparr>su_context := client_context\<rparr>"

lemma sample_mayhem_host:
  obtains b p host b1 p1 where "Build (mayhem_surroundings k) (b, p) = (Done host, b1, p1)"
    "wh_server host = IS_Mayhem m" "wh_dispatcher host = RegisterDefaultHandlers RequestDispatcher_new"
proof -
  obtain b :: "(string \<Rightarrow> 32 word option, ep_world) WebHostBuilder" and p :: "(ep_world, unit) process" and lf
    where b: "wb_initialized b" "wb_dispatcher b = Some (RegisterDefaultHandlers RequestDispatcher_new)"
    "wb_loggerFactory b = Some lf"
    "lf_config lf = \<lparr>lc_DefaultLevel = LL_Debug, lc_DefaultPattern = [], lc_DefaultSinks = [], lc_Specifications = Map.empty\<rparr>"
    "lf_loggers lf ''Server'' = Some 0" "lf_loggers lf ''WebHost'' = None"
    "ls_registry (pr_logs p) = [''RequestDispatcher'', ''Server'']"
    by (rule sample_use [of k]) blast
  have env: "su_can_open (mayhem_surroundings k) f" "su_sigaction (mayhem_surroundings k) g sig act = (0, g)" for f g sig act
    by (simp_all add: mayhem_surroundings_def sample_can_open)
  have "\<exists>host b3 p3. Build (mayhem_surroundings k) (b\<lparr>wb_server := Some (IS_Mayhem m)\<rparr>, p) = (Done host, b3, p3) \<and>
      wh_server host = IS_Mayhem m \<and> wh_dispatcher host = RegisterDefaultHandlers RequestDispatcher_new"
    by (simp add: Build_def andRun_def on_builder_def Let_def sample_logger env WebHost_new_def
        SetSignalHandler_def IServer_SetLogger_def b)
  with that show thesis by blast
qed

lemma interrupt_ends_run_witness:
  "\<exists>k (s0 :: (ep_world, ep_world SocketStream HttpContext Queue) mayhem) b p host b1 p1 h s1 s2 n s3.
    Build (mayhem_surroundings k) (b, p) = (Done host, b1, p1) \<and> wh_server host = IS_Mayhem s0 \<and>
    IServer_StartAsync h 80 (IS_Mayhem s0) = (Ret True, IS_Mayhem s1) \<and> own_fds (IS_Mayhem s1) = {3, 4} \<and>
    IServer_Serve h (IS_Mayhem s1) = Some (IS_Mayhem s2) \<and> mv_pc s2 = Mayhem_Wait \<and>
    n \<le> 4 \<and> IServer_Serves h n (IServer_Stop (IS_Mayhem s2)) = Some s3 \<and> WebHost_Run h 80 (IS_Mayhem s0) (Ret ()) s3 \<and>
    {3, 4} \<inter> ew_owned (system_of s3) = {}"
proof -
  let ?k = "mayhem_start (\<lambda>_. ''x'')"
  obtain s0 s1 s2 :: "(ep_world, ep_world SocketStream HttpContext Queue) mayhem" where
    s: "MayhemServer_new client_context 2 3 ?k = Ret s0" "MakePowerOfTwo 3 = 4"
    "Mayhem_StartAsync ew_env 80 True s0 = (Ret True, s1)" "mv_listenFd s1 = 3" "mv_epollFd s1 = 4"
    "\<forall>q \<in> set (tp_workers (mv_pool s2)). q_bound q = 4 \<and> 0 < q_budget q" "mv_pool s2 = mv_pool s0"
    by (rule sample_mayhem [where m = "\<lambda>_. ''x''"]) blast
  obtain b p host b1 p1 where b: "Build (mayhem_surroundings ?k) (b, p) = (Done host, b1, p1)"
    "wh_server host = IS_Mayhem s0" "wh_dispatcher host = RegisterDefaultHandlers RequestDispatcher_new"
    by (rule sample_mayhem_host [of ?k s0])
  let ?sc = "\<lparr>sc_Name = ''Mayhem'', sc_Port = 80, sc_Threads = 2, sc_Capacity = 3\<rparr>"
  define h where "h = \<lparr>hs_os = ew_os, hs_net = ew_net, hs_ep = interrupted_ep, hs_callback = WebHost_callback ew_net (\<lambda>hs. hs) host,
      hs_moved = id, hs_moved_context = id\<rparr>"
  have d: "epoll_handlers ew_os ew_owned ew_net interrupted_ep ew_watched (wh_dispatcher host)"
    unfolding b(3) by (intro epoll_handlers.intro interrupted.epoll_os_axioms epoll_handlers_axioms.intro default_handlers_keep)
      (simp add: handlers_keep_def RequestDispatcher_new_def)
  have make: "make_server (mayhem_surroundings ?k) ?sc = Some (Ret (wh_server host))"
    using s(1) by (simp add: make_server_def mayhem_surroundings_def sample_on_def b(2))
  have cap: "2 \<le> unat (MakePowerOfTwo (sc_Capacity ?sc))" "unat (MakePowerOfTwo (sc_Capacity ?sc)) < 2 ^ 63"
    using s(2) by simp_all
  have sig: "0 \<le> fst (su_sigaction (mayhem_surroundings ?k) (pr_actions p) SIGINT
      \<lparr>sa_handler = Sa_ours, sa_flags = SA_SIGINFO OR SA_RESETHAND\<rparr>)"
    by (simp add: mayhem_surroundings_def sample_can_open)
  have start: "IServer_StartAsync h 80 (wh_server host) = (Ret True, IS_Mayhem s1)" using s(3) by (simp add: b(2) h_def interrupted_start)
  have s1: "mv_pool s1 = mv_pool s0" "mv_pc s1 = Mayhem_Loop" "mv_isRunning s1"
    using s(3) by (auto simp: Mayhem_StartAsync_def Mayhem_OpenSocket_def Mayhem_OpenEpoll_def Let_def
        split: if_splits prod.splits outcome.splits)
  define w where "w = s1\<lparr>mv_pc := Mayhem_Wait\<rparr>"
  have serve: "IServer_Serve h (IS_Mayhem s1) = Some (IS_Mayhem w)" "mv_pc w = Mayhem_Wait"
    using s1(2,3) by (simp_all add: Mayhem_step_def w_def)
  then have run: "(host_step h)\<^sup>*\<^sup>* (IS_Mayhem s1) (IS_Mayhem w)"
    using s(6,7) s1(1) by (intro r_into_rtranclp host_step.mayhem mayhem_step.loop) auto
  have pc: "serve_result (IS_Mayhem w) = None" "queues_ready (IS_Mayhem w)" "quiet h (IS_Mayhem w)"
    using s(6,7) s1(1) by (auto simp: w_def h_def interrupted_ep_def epoll_Wait_def)
  from interrupt_ends_run [OF d h_def make cap b(1) sig start run pc(1,2), of undefined] pc(3)
  obtain n s3 where "n \<le> 4" "IServer_Serves h n (IServer_Stop (IS_Mayhem w)) = Some s3"
    "WebHost_Run h 80 (wh_server host) (Ret ()) s3" "own_fds (IS_Mayhem s1) \<inter> ew_owned (system_of s3) = {}" by blast
  with b(1,2) start serve show ?thesis by (intro exI [of _ ?k] exI [of _ s0] exI [of _ b] exI [of _ p] exI [of _ host] exI [of _ b1]
      exI [of _ p1] exI [of _ h] exI [of _ s1] exI [of _ w] exI [of _ n] exI [of _ s3]) (simp add: s(4,5))
qed

end
