(* ===== verification/Banner.thy ===== *)
theory Banner
  imports Web_Host
begin

text \<open>
  The banner of \<open>minet/src/core/WebHostBuilder.cpp\<close> with the version of \<open>minet/include/minet/version.h\<close>, which the
  constructor of a builder prints. The output stream is the text printed so far, and \<open>static bool printed\<close> a part of
  the state.
\<close>

section \<open>The version\<close>

definition MINET_VERSION_MAJOR :: nat where "MINET_VERSION_MAJOR = 1"
definition MINET_VERSION_MINOR :: nat where "MINET_VERSION_MINOR = 0"
definition MINET_VERSION_PATCH :: nat where "MINET_VERSION_PATCH = 3"

definition MINET_TO_VERSION :: "nat \<Rightarrow> nat \<Rightarrow> nat \<Rightarrow> nat" where
  "MINET_TO_VERSION major minor patch = major * 10000 + minor * 100 + patch"

definition MINET_VERSION :: nat where
  "MINET_VERSION = MINET_TO_VERSION MINET_VERSION_MAJOR MINET_VERSION_MINOR MINET_VERSION_PATCH"

definition MINET_VERSION_STRING :: string where
  "MINET_VERSION_STRING = nat_string MINET_VERSION_MAJOR @ ''.'' @ nat_string MINET_VERSION_MINOR @ ''.'' @
     nat_string MINET_VERSION_PATCH"

section \<open>The banner\<close>

abbreviation "BACKSLASH \<equiv> CHR 0x5C"
abbreviation "BACKTICK \<equiv> CHR 0x60"

text \<open>The raw strings \<open>HEADER\<close> and \<open>FOOTER\<close>; each starts with a line break.\<close>

definition HEADER_lines :: "string list" where
  "HEADER_lines =
    [''              _            __                         '',
     ''   ____ ___  (_)___  ___  / /_    _________  ________ '',
     ''  / __ '' @ [BACKTICK] @ ''__ '' @ [BACKSLASH] @ ''/ / __ '' @ [BACKSLASH] @ ''/ _ '' @ [BACKSLASH] @ ''/ __/   / ___/ __ '' @ [BACKSLASH] @ ''/ ___/ _ '' @ [BACKSLASH],
     '' / / / / / / / / / /  __/ /_    / /__/ /_/ / /  /  __/'',
     ''/_/ /_/ /_/_/_/ /_/'' @ [BACKSLASH] @ ''___/'' @ [BACKSLASH] @ ''__/    '' @ [BACKSLASH] @ ''___/'' @ [BACKSLASH] @ ''____/_/   '' @ [BACKSLASH] @ ''___/ '']"

definition FOOTER_lines :: "string list" where
  "FOOTER_lines =
    [''------------------------------------------------------'',
     ''   A C++ HTTP server library mimicking ASP.NET Core   '']"

definition raw_string :: "string list \<Rightarrow> string" where
  "raw_string lines = concat (map (\<lambda>l. LF # l) lines)"

definition WIDTH :: int where "WIDTH = 54"

definition version_line :: "string \<Rightarrow> string" where
  "version_line version =
     (let versionWidth = int (length version) + 1;
          paddingLeft = (WIDTH - versionWidth) div 2;
          paddingRight = WIDTH - versionWidth - paddingLeft
      in replicate (nat paddingLeft) (CHR '' '') @ ''v'' @ version @ replicate (nat paddingRight) (CHR '' ''))"

definition PrintBanner :: "bool \<times> string \<Rightarrow> bool \<times> string" where
  "PrintBanner s =
     (let (printed, out) = s in
      if printed then s
      else (True, out @ raw_string HEADER_lines @ [LF] @ version_line MINET_VERSION_STRING @
        raw_string FOOTER_lines @ [LF]))"

text \<open>The constructor of a builder.\<close>

definition WebHostBuilder_constructor ::
    "'j \<Rightarrow> bool \<times> string \<Rightarrow> ('j, 'k) WebHostBuilder \<times> (bool \<times> string)" where
  "WebHostBuilder_constructor null s = (WebHostBuilder_new null, PrintBanner s)"

section \<open>What is printed\<close>

lemma version_numbers: "MINET_VERSION = 10003" "MINET_VERSION_STRING = ''1.0.3''"
  by code_simp+

text \<open>The C++ division rounds towards zero, which is \<open>div\<close> as long as the version fits into the line.\<close>

lemma version_line_width:
  assumes "int (length version) < WIDTH"
  shows "int (length (version_line version)) = WIDTH"
  using assms by (simp add: version_line_def WIDTH_def Let_def) presburger

lemma banner_lines_width: "\<forall>l \<in> set (HEADER_lines @ FOOTER_lines). int (length l) = WIDTH"
  by code_simp

lemma PrintBanner_again: "PrintBanner (PrintBanner s) = PrintBanner s"
  by (cases s) (simp add: PrintBanner_def)

text \<open>
  However many builders a process makes, the banner is printed once; all its lines, the one with the version
  included, are \<open>WIDTH\<close> wide.
\<close>

theorem banner_printed_once:
  "\<exists>lines. (\<forall>l \<in> set lines. int (length l) = WIDTH) \<and>
    ((PrintBanner ^^ Suc n) (False, out)) = (True, out @ raw_string lines @ [LF])"
proof -
  let ?lines = "HEADER_lines @ version_line MINET_VERSION_STRING # FOOTER_lines"
  have "int (length (version_line MINET_VERSION_STRING)) = WIDTH"
    by (rule version_line_width) (simp add: version_numbers WIDTH_def)
  with banner_lines_width have "\<forall>l \<in> set ?lines. int (length l) = WIDTH" by auto
  moreover have "PrintBanner (False, out) = (True, out @ raw_string ?lines @ [LF])"
    by (simp add: PrintBanner_def raw_string_def)
  moreover have "(PrintBanner ^^ Suc n) (False, out) = PrintBanner (False, out)"
    by (induction n) (simp_all add: PrintBanner_again)
  ultimately show ?thesis by metis
qed

end
