(* ===== verification/Async_Grammar.thy ===== *)
theory Async_Grammar
  imports Parser_Async
begin

text \<open>
  The language of the asynchronous parser: a grammar of requests that does not mention states or tokens, and the
  proof that the parser accepts exactly its words, and builds the request the grammar says.
\<close>

section \<open>The grammar\<close>

definition start_line :: "HttpMethod \<Rightarrow> string \<Rightarrow> string" where
  "start_line m path = HttpMethodToString m @ SPACE @ path @ SPACE @ HTTP_VERSION @ NEW_LINE"

definition start_request :: "HttpRequest \<Rightarrow> HttpMethod \<Rightarrow> string \<Rightarrow> HttpRequest" where
  "start_request r0 m path = r0\<lparr>ContentLength := 0, Method := m, Path := path, Version := HTTP_1_1\<rparr>"

text \<open>A start line and complete header lines, with the request they make of \<open>r0\<close>.\<close>

definition async_head :: "HttpRequest \<Rightarrow> string \<Rightarrow> HttpRequest \<Rightarrow> bool" where
  "async_head r0 s r \<longleftrightarrow>
     (\<exists>m path hs. m \<noteq> METHOD_INVALID \<and> path_ok path \<and> (\<forall>h \<in> set hs. header_ok h) \<and>
       s = start_line m path @ header_lines hs \<and> store_fields hs (start_request r0 m path) = Ret r)"

text \<open>
  A whole request. The last line need not be empty: key characters before its end are read and dropped.
\<close>

definition async_request :: "HttpRequest \<Rightarrow> string \<Rightarrow> HttpRequest \<Rightarrow> bool" where
  "async_request r0 s r \<longleftrightarrow>
     (\<exists>hd r1 junk. async_head r0 hd r1 \<and> (\<forall>c \<in> set junk. IsHeaderKeyChar c) \<and>
       s = hd @ junk @ NEW_LINE @ Body r \<and> length (Body r) = size_t_of_int (ContentLength r1) \<and>
       r = r1\<lparr>Body := Body r\<rparr>)"

section \<open>Every word of the grammar is accepted\<close>

lemma store_fields_frame:
  assumes "store_fields hs r = Ret r1"
  shows "Body r1 = Body r \<and> (INT_MIN \<le> ContentLength r \<and> ContentLength r \<le> INT_MAX \<longrightarrow>
    INT_MIN \<le> ContentLength r1 \<and> ContentLength r1 \<le> INT_MAX)"
  using assms
proof (induction hs arbitrary: r)
  case (Cons h hs)
  obtain k v where h: "h = (k, v)" by (cases h)
  with Cons.prems obtain r2 where r2: "store_field k v r = Ret r2" "store_fields hs r2 = Ret r1"
    by (cases "store_field k v r") auto
  from store_field_frame [OF r2(1)] Cons.IH [OF r2(2)] show ?case by auto
qed simp

lemma async_head_frame:
  assumes "async_head r0 s r"
  shows "Body r = Body r0" and "INT_MIN \<le> ContentLength r" and "ContentLength r \<le> INT_MAX"
proof -
  obtain hs m path where "store_fields hs (start_request r0 m path) = Ret r"
    using assms by (auto simp: async_head_def)
  from store_fields_frame [OF this] show "Body r = Body r0" "INT_MIN \<le> ContentLength r" "ContentLength r \<le> INT_MAX"
    by (simp_all add: start_request_def INT_MIN_def INT_MAX_def)
qed

lemma feed_head:
  assumes "async_head r0 s r"
  shows "\<exists>k. feed_string (AsyncHttpRequestParser_new r0) (s @ ys) =
    feed_string \<lparr>ap_handler = S_HeaderKey, ap_token = [], ap_key = k, ap_request = r, ap_error = 0\<rparr> ys"
proof -
  obtain m path hs where h: "m \<noteq> METHOD_INVALID" "path_ok path" "\<forall>h \<in> set hs. header_ok h"
    "s = start_line m path @ header_lines hs" "store_fields hs (start_request r0 m path) = Ret r"
    using assms by (auto simp: async_head_def)
  let ?p = "\<lparr>ap_handler = S_HeaderKey, ap_token = [], ap_key = [], ap_request = start_request r0 m path, ap_error = 0\<rparr>"
  have "feed_string (AsyncHttpRequestParser_new r0) (s @ ys) = feed_string ?p (header_lines hs @ ys)"
    using h(1,2) by (simp add: h(4) start_line_def SPACE_def seg_method seg_path seg_version
        AsyncHttpRequestParser_new_def start_request_def)
  with seg_fields [of ?p hs r ys] h(3,5) show ?thesis by auto
qed

lemma feed_junk:
  assumes "\<forall>c \<in> set junk. IsHeaderKeyChar c" and "ap_handler p = S_HeaderKey" and "ap_token p = []"
  shows "feed_string p (junk @ ys) = feed_string (p\<lparr>ap_token := junk\<rparr>) ys"
  using assms key_not_CR
  by (subst feed_push [where h = S_HeaderKey]) (auto simp: Feed_def ParseHeaderKey_def)

lemma async_request_accepted:
  assumes "async_request r0 s r" and "Body r0 = []"
  shows "\<exists>p. feed_string (AsyncHttpRequestParser_new r0) s = (Ret 1, p, []) \<and> ap_request p = r"
proof -
  obtain hd r1 junk where s: "async_head r0 hd r1" "\<forall>c \<in> set junk. IsHeaderKeyChar c"
    "s = hd @ junk @ NEW_LINE @ Body r" "length (Body r) = size_t_of_int (ContentLength r1)" "r = r1\<lparr>Body := Body r\<rparr>"
    using assms(1) by (auto simp: async_request_def)
  note frame = async_head_frame [OF s(1)]
  from feed_head [OF s(1), of "junk @ NEW_LINE @ Body r"] obtain k where
    "feed_string (AsyncHttpRequestParser_new r0) s =
      feed_string \<lparr>ap_handler = S_HeaderKey, ap_token = [], ap_key = k, ap_request = r1, ap_error = 0\<rparr>
        (junk @ NEW_LINE @ Body r)"
    by (auto simp: s(3))
  then have run: "feed_string (AsyncHttpRequestParser_new r0) s =
      feed_string \<lparr>ap_handler = S_HeaderKey, ap_token = junk, ap_key = k, ap_request = r1, ap_error = 0\<rparr>
        (NEW_LINE @ Body r)"
    by (simp add: feed_junk [OF s(2)])
  show ?thesis
  proof (cases "ContentLength r1 = 0")
    case True
    then have b: "Body r = []" using s(4) by (simp add: size_t_of_int_def)
    then have "r = r1" using s(5) frame(1) assms(2) by (cases r1) simp
    with True b show ?thesis
      by (simp add: run NEW_LINE_def Feed_def ParseHeaderKey_def ParseEndLine_def macro_defs)
  next
    case False
    let ?p = "\<lparr>ap_handler = S_Body, ap_token = junk, ap_key = k, ap_request = r1, ap_error = 0\<rparr>"
    have b: "Body r \<noteq> []" using s(4) size_t_of_int_pos [OF frame(2,3) False] by auto
    have "feed_string (AsyncHttpRequestParser_new r0) s = feed_string ?p (Body r)"
      using False by (simp add: run NEW_LINE_def Feed_def ParseHeaderKey_def ParseEndLine_def macro_defs)
    also have "\<dots> = (Ret 1, ?p\<lparr>ap_handler := S_Done, ap_request := r1\<lparr>Body := Body r\<rparr>\<rparr>, [])"
      using seg_body [of ?p "Body r"] b s(4) frame(1) assms(2) by simp
    finally show ?thesis using s(5) by auto
  qed
qed

section \<open>Every accepted word is in the grammar\<close>

text \<open>What has been fed when the parser is in a state, and what it has made of it.\<close>

definition fed_line :: "HttpRequest \<Rightarrow> string \<Rightarrow> HttpRequest \<Rightarrow> bool" where
  "fed_line r0 s r \<longleftrightarrow>
     (\<exists>m path. m \<noteq> METHOD_INVALID \<and> path_ok path \<and> s = HttpMethodToString m @ SPACE @ path @ SPACE \<and>
       r = r0\<lparr>ContentLength := 0, Method := m, Path := path\<rparr>)"

fun fed_state :: "State \<Rightarrow> HttpRequest \<Rightarrow> string \<Rightarrow> string \<Rightarrow> string \<Rightarrow> HttpRequest \<Rightarrow> bool" where
  "fed_state S_Start r0 s t k r \<longleftrightarrow> s = [] \<and> t = [] \<and> r = r0\<lparr>ContentLength := 0\<rparr>"
| "fed_state S_Method r0 s t k r \<longleftrightarrow> s = t \<and> r = r0\<lparr>ContentLength := 0\<rparr>"
| "fed_state S_Space1 r0 s t k r \<longleftrightarrow> t = [] \<and>
     (\<exists>m. m \<noteq> METHOD_INVALID \<and> s = HttpMethodToString m @ SPACE \<and> r = r0\<lparr>ContentLength := 0, Method := m\<rparr>)"
| "fed_state S_Path r0 s t k r \<longleftrightarrow> path_ok t \<and>
     (\<exists>m. m \<noteq> METHOD_INVALID \<and> s = HttpMethodToString m @ SPACE @ t \<and> r = r0\<lparr>ContentLength := 0, Method := m\<rparr>)"
| "fed_state S_Space2 r0 s t k r \<longleftrightarrow> t = [] \<and> fed_line r0 s r"
| "fed_state S_Version r0 s t k r \<longleftrightarrow> t \<in> version_prefixes \<and> (\<exists>s1. s = s1 @ t \<and> fed_line r0 s1 r)"
| "fed_state S_NewLine r0 s t k r \<longleftrightarrow> t = [] \<and> async_head r0 (s @ [LF]) r"
| "fed_state S_HeaderKey r0 s t k r \<longleftrightarrow> (\<forall>c \<in> set t. IsHeaderKeyChar c) \<and> (\<exists>s1. s = s1 @ t \<and> async_head r0 s1 r)"
| "fed_state S_Colon r0 s t k r \<longleftrightarrow> t = [] \<and> (\<forall>c \<in> set k. IsHeaderKeyChar c) \<and>
     (\<exists>s1. s = s1 @ k @ '':'' \<and> async_head r0 s1 r)"
| "fed_state S_Space3 r0 s t k r \<longleftrightarrow> t = [] \<and> (\<forall>c \<in> set k. IsHeaderKeyChar c) \<and>
     (\<exists>s1. s = s1 @ k @ COLON \<and> async_head r0 s1 r)"
| "fed_state S_HeaderValue r0 s t k r \<longleftrightarrow> header_ok (k, t) \<and> (\<exists>s1. s = s1 @ k @ COLON @ t \<and> async_head r0 s1 r)"
| "fed_state S_HeaderNewLine r0 s t k r \<longleftrightarrow> t = [] \<and> async_head r0 (s @ [LF]) r"
| "fed_state S_EndLine r0 s t k r \<longleftrightarrow>
     (\<exists>s1 junk. s = s1 @ junk @ [CR] \<and> (\<forall>c \<in> set junk. IsHeaderKeyChar c) \<and> async_head r0 s1 r)"
| "fed_state S_Body r0 s t k r \<longleftrightarrow>
     (\<exists>s1 junk r1. s = s1 @ junk @ NEW_LINE @ Body r \<and> (\<forall>c \<in> set junk. IsHeaderKeyChar c) \<and>
       async_head r0 s1 r1 \<and> r = r1\<lparr>Body := Body r\<rparr>)"
| "fed_state S_Done r0 s t k r \<longleftrightarrow> async_request r0 s r"
| "fed_state S_Error r0 s t k r \<longleftrightarrow> True"

definition fed :: "HttpRequest \<Rightarrow> string \<Rightarrow> AsyncHttpRequestParser \<Rightarrow> bool" where
  "fed r0 s p \<longleftrightarrow> fed_state (ap_handler p) r0 s (ap_token p) (ap_key p) (ap_request p)"

lemma async_head_start:
  assumes "fed_line r0 s r"
  shows "async_head r0 (s @ HTTP_VERSION @ NEW_LINE) (r\<lparr>Version := HTTP_1_1\<rparr>)"
proof -
  obtain m path where "m \<noteq> METHOD_INVALID" "path_ok path" "s = HttpMethodToString m @ SPACE @ path @ SPACE"
    "r = r0\<lparr>ContentLength := 0, Method := m, Path := path\<rparr>"
    using assms by (auto simp: fed_line_def)
  then show ?thesis
    unfolding async_head_def
    by (intro exI [of _ m] exI [of _ path] exI [of _ "[]"]) (simp add: start_line_def start_request_def)
qed

lemma async_head_field:
  assumes "async_head r0 s r" and "header_ok (k, v)" and "store_field k v r = Ret r1"
  shows "async_head r0 (s @ header_line k v) r1"
proof -
  obtain m path hs where "m \<noteq> METHOD_INVALID" "path_ok path" "\<forall>h \<in> set hs. header_ok h"
    "s = start_line m path @ header_lines hs" "store_fields hs (start_request r0 m path) = Ret r"
    using assms(1) by (auto simp: async_head_def)
  with assms(2,3) show ?thesis
    unfolding async_head_def
    by (intro exI [of _ m] exI [of _ path] exI [of _ "hs @ [(k, v)]"])
      (simp add: store_fields_append header_lines_def)
qed

lemma fed_lineI:
  "m \<noteq> METHOD_INVALID \<Longrightarrow> path_ok path \<Longrightarrow>
    fed_line r0 (HttpMethodToString m @ SPACE @ path @ SPACE) (r0\<lparr>ContentLength := 0, Method := m, Path := path\<rparr>)"
  by (auto simp: fed_line_def)

lemma fed_new: "fed r0 [] (AsyncHttpRequestParser_new r0)"
  by (simp add: fed_def AsyncHttpRequestParser_new_def)

lemma fed_line_head:
  assumes "fed_state S_Version r0 s t k r" and "t = ''HTTP/1.1''"
  shows "async_head r0 (s @ [CR, LF]) (r\<lparr>Version := HTTP_1_1\<rparr>)"
  using assms async_head_start by (fastforce simp: HTTP_VERSION_def NEW_LINE_def)

text \<open>One character more.\<close>

lemma Feed_fed:
  assumes "fed r0 s p" and "Feed p c = (Ret v, p1)" and "ap_handler p \<noteq> S_Done" and "Body r0 = []"
  shows "fed r0 (s @ [c]) p1"
proof (cases "ap_handler p")
  case S_Method
  show ?thesis
  proof (cases "c = CHR '' '' \<and> HttpMethodFromString (ap_token p) \<noteq> METHOD_INVALID")
    case True
    let ?m = "HttpMethodFromString (ap_token p)"
    have "HttpMethodToString ?m = ap_token p" using True by (simp add: HttpMethodFromString_valid)
    moreover have "p1 = p\<lparr>ap_request := r0\<lparr>ContentLength := 0, Method := ?m\<rparr>, ap_token := [], ap_handler := S_Space1\<rparr>"
      "s = ap_token p"
      using assms S_Method True by (auto simp: fed_def Feed_def ParseMethod_def macro_defs Let_def)
    ultimately show ?thesis
      using True by (auto simp: fed_def SPACE_def intro: exI [of _ ?m])
  qed (use assms S_Method in \<open>auto simp: fed_def Feed_def ParseMethod_def macro_defs Let_def split: if_splits\<close>)
next
  case S_Space1
  with assms show ?thesis
    by (auto simp: fed_def Feed_def ParseSpace1_def macro_defs path_ok_slash split: if_splits)
next
  case S_Path
  with assms show ?thesis
    by (auto simp: fed_def Feed_def ParsePath_def macro_defs path_ok_push SPACE_def split: if_splits
        intro!: fed_lineI [unfolded SPACE_def, simplified])
next
  case S_Space2
  with assms show ?thesis
    by (auto simp: fed_def Feed_def ParseSpace2_def macro_defs version_prefixes_def split: if_splits)
next
  case S_Version
  with assms have t: "ap_token p \<in> version_prefixes" by (simp add: fed_def)
  show ?thesis
  proof (cases "ap_token p = ''HTTP/1.1'' \<and> c = CR")
    case True
    with assms S_Version fed_line_head [of r0 s "ap_token p" "ap_key p" "ap_request p"] show ?thesis
      by (auto simp: fed_def Feed_def ParseVersion_next [OF t] macro_defs)
  next
    case False
    with assms S_Version show ?thesis
      by (auto simp: fed_def Feed_def ParseVersion_next [OF t] macro_defs split: if_splits)
  qed
next
  case S_NewLine
  with assms show ?thesis
    by (auto simp: fed_def Feed_def ParseNewLine_def macro_defs split: if_splits)
next
  case S_HeaderKey
  with assms show ?thesis
    by (auto simp: fed_def Feed_def ParseHeaderKey_def macro_defs split: if_splits) blast
next
  case S_Colon
  with assms show ?thesis
    by (auto simp: fed_def Feed_def ParseColon_def macro_defs COLON_def split: if_splits)
next
  case S_Space3
  with assms show ?thesis
    by (auto simp: fed_def Feed_def ParseSpace3_def macro_defs header_ok_def split: if_splits)
next
  case S_HeaderValue
  show ?thesis
  proof (cases "c = CR")
    case True
    with assms S_HeaderValue obtain r where r: "store_field (ap_key p) (ap_token p) (ap_request p) = Ret r"
      "p1 = p\<lparr>ap_handler := S_HeaderNewLine, ap_token := [], ap_request := r\<rparr>"
      by (cases "store_field (ap_key p) (ap_token p) (ap_request p)")
        (auto simp: Feed_def ParseHeaderValue_stores macro_defs)
    obtain s1 where s1: "s = s1 @ ap_key p @ COLON @ ap_token p" "async_head r0 s1 (ap_request p)"
      "header_ok (ap_key p, ap_token p)"
      using assms(1) S_HeaderValue by (auto simp: fed_def)
    from async_head_field [OF s1(2,3) r(1)] show ?thesis
      by (simp add: fed_def r(2) s1(1) True header_line_def NEW_LINE_def)
  next
    case False
    with assms S_HeaderValue show ?thesis
      by (auto simp: fed_def Feed_def ParseHeaderValue_def macro_defs header_ok_def split: if_splits)
  qed
next
  case S_HeaderNewLine
  with assms show ?thesis
    by (auto simp: fed_def Feed_def ParseHeaderNewLine_def macro_defs split: if_splits)
next
  case S_EndLine
  then obtain s1 junk where s1: "s = s1 @ junk @ [CR]" "\<forall>c \<in> set junk. IsHeaderKeyChar c" "async_head r0 s1 (ap_request p)"
    using assms(1) by (auto simp: fed_def)
  note frame = async_head_frame [OF s1(3)]
  have body: "Body (ap_request p) = []" using frame(1) assms(4) by simp
  then have same: "ap_request p = (ap_request p)\<lparr>Body := []\<rparr>" by simp
  have "async_request r0 (s @ [LF]) (ap_request p)" if "ContentLength (ap_request p) = 0"
    unfolding async_request_def using s1 body same that
    by (intro exI [of _ s1] exI [of _ "ap_request p"] exI [of _ junk]) (simp add: NEW_LINE_def size_t_of_int_def)
  moreover have "fed_state S_Body r0 (s @ [LF]) t k (ap_request p)" for t k
    unfolding fed_state.simps using s1 body same
    by (intro exI [of _ s1] exI [of _ junk] exI [of _ "ap_request p"]) (simp add: NEW_LINE_def)
  moreover have "c = LF \<and> p1 = p\<lparr>ap_handler := S_Done\<rparr> \<and> ContentLength (ap_request p) = 0 \<or>
      c = LF \<and> p1 = p\<lparr>ap_handler := S_Body\<rparr> \<or> ap_handler p1 = S_Error"
    using assms(2) S_EndLine by (auto simp: Feed_def ParseEndLine_def macro_defs split: if_splits)
  ultimately show ?thesis by (auto simp: fed_def simp del: fed_state.simps(14))
next
  case S_Body
  then obtain s1 junk r1 where s1: "s = s1 @ junk @ NEW_LINE @ Body (ap_request p)"
    "\<forall>c \<in> set junk. IsHeaderKeyChar c" "async_head r0 s1 r1" "ap_request p = r1\<lparr>Body := Body (ap_request p)\<rparr>"
    using assms(1) by (auto simp: fed_def)
  have cl: "ContentLength (ap_request p) = ContentLength r1" by (subst s1(4)) simp
  let ?b = "Body (ap_request p) @ [c]"
  have upd: "(ap_request p)\<lparr>Body := ?b\<rparr> = r1\<lparr>Body := ?b\<rparr>" by (subst (1) s1(4)) simp
  show ?thesis
  proof (cases "ap_handler p1 = S_Error")
    case False
    then have p1: "p1 = p\<lparr>ap_handler := ap_handler p1, ap_request := r1\<lparr>Body := ?b\<rparr>\<rparr>"
      and h: "ap_handler p1 = S_Body \<or> ap_handler p1 = S_Done \<and> length ?b = size_t_of_int (ContentLength r1)"
      using assms(2) S_Body cl
      by (auto simp: Feed_def ParseBody_def macro_defs Let_def upd [symmetric] split: if_splits)
    have "async_request r0 (s @ [c]) (r1\<lparr>Body := ?b\<rparr>)" if "length ?b = size_t_of_int (ContentLength r1)"
      unfolding async_request_def using s1 that
      by (intro exI [of _ s1] exI [of _ r1] exI [of _ junk]) simp
    moreover have "fed_state S_Body r0 (s @ [c]) t k (r1\<lparr>Body := ?b\<rparr>)" for t k
      unfolding fed_state.simps using s1
      by (intro exI [of _ s1] exI [of _ junk] exI [of _ r1]) simp
    ultimately show ?thesis using h by (subst p1) (auto simp: fed_def simp del: fed_state.simps(14))
  qed (simp add: fed_def)
qed (use assms in \<open>auto simp: fed_def Feed_def handler_defs macro_defs split: if_splits\<close>)

lemma feed_string_fed:
  assumes "fed r0 s p" and "ap_inv p" and "ap_handler p \<noteq> S_Done" and "Body r0 = []"
    and "feed_string p xs = (Ret 1, p1, rest)"
  shows "\<exists>s1. xs = s1 @ rest \<and> fed r0 (s @ s1) p1 \<and> ap_handler p1 = S_Done"
  using assms
proof (induction xs arbitrary: s p)
  case (Cons c xs)
  obtain v p2 where f: "Feed p c = (Ret v, p2)"
    using Cons.prems(5) by (cases "Feed p c") (auto split: outcome.splits)
  note fed2 = Feed_fed [OF Cons.prems(1) f Cons.prems(3,4)]
  from Feed_result [OF Cons.prems(2) f] consider (go) "v = 0" "ap_handler p2 \<noteq> S_Done"
    | (accepted) "v = 1" "ap_handler p2 = S_Done" | (failed) "v \<noteq> 1" "\<not> v < 0" "ap_handler p2 = S_Error" "10 \<le> ap_error p2"
    by auto
  then show ?case
  proof cases
    case go
    with Cons.prems(5) f have "feed_string p2 xs = (Ret 1, p1, rest)" by simp
    from Cons.IH [OF fed2 Feed_inv [OF Cons.prems(2) f] go(2) Cons.prems(4) this] show ?thesis by auto
  next
    case accepted
    with Cons.prems(5) f fed2 show ?thesis by auto
  next
    case failed
    with Cons.prems(5) f feed_error_stays [OF failed(3,4), of xs] show ?thesis by simp
  qed
qed simp

section \<open>Properties\<close>

text \<open>
  C2: the language of the asynchronous parser. Fed any bytes, a new parser accepts after a prefix, with a request,
  exactly when that prefix is a word of the grammar that makes that request: a known method, a path of path
  characters, version 1.1, header lines with a value each, whose fields are stored in order, a last line, and a
  body of as many bytes as the last \<open>Content-Length\<close> says. There is no other way to be accepted, and
  no word of the grammar is refused.
\<close>

theorem async_language:
  assumes "Body r0 = []"
  shows "(\<exists>p. feed_string (AsyncHttpRequestParser_new r0) bytes = (Ret 1, p, rest) \<and> ap_request p = r) \<longleftrightarrow>
    (\<exists>s. bytes = s @ rest \<and> async_request r0 s r)"
proof
  assume "\<exists>p. feed_string (AsyncHttpRequestParser_new r0) bytes = (Ret 1, p, rest) \<and> ap_request p = r"
  then obtain p where p: "feed_string (AsyncHttpRequestParser_new r0) bytes = (Ret 1, p, rest)" "ap_request p = r"
    by blast
  have "ap_handler (AsyncHttpRequestParser_new r0) \<noteq> S_Done" by (simp add: AsyncHttpRequestParser_new_def)
  from feed_string_fed [OF fed_new ap_inv_new [OF assms] this assms p(1)] p(2)
  show "\<exists>s. bytes = s @ rest \<and> async_request r0 s r" by (auto simp: fed_def)
next
  assume "\<exists>s. bytes = s @ rest \<and> async_request r0 s r"
  then obtain s where s: "bytes = s @ rest" "async_request r0 s r" by blast
  from async_request_accepted [OF s(2) assms] feed_stopped [where ys = rest] s(1)
  show "\<exists>p. feed_string (AsyncHttpRequestParser_new r0) bytes = (Ret 1, p, rest) \<and> ap_request p = r" by fastforce
qed

text \<open>A request whose last line is not empty, with more bytes behind it.\<close>

lemma async_language_witness:
  "\<exists>p. feed_string (AsyncHttpRequestParser_new HttpRequest_zero)
      (start_line GET ''/a'' @ ''X-'' @ NEW_LINE @ ''GET'') = (Ret 1, p, ''GET'') \<and>
    ap_request p = start_request HttpRequest_zero GET ''/a''"
proof -
  let ?r = "start_request HttpRequest_zero GET ''/a''"
  have "async_head HttpRequest_zero (start_line GET ''/a'') ?r"
    unfolding async_head_def
    by (intro exI [of _ GET] exI [of _ "''/a''"] exI [of _ "[]"]) (simp, code_simp)
  then have "async_request HttpRequest_zero (start_line GET ''/a'' @ ''X-'' @ NEW_LINE) ?r"
    unfolding async_request_def
    by (intro exI [of _ "start_line GET ''/a''"] exI [of _ ?r] exI [of _ "''X-''"])
      (simp add: start_request_def HttpRequest_zero_def size_t_of_int_def IsHeaderKeyChar_def char_simps)
  with async_language [of HttpRequest_zero "start_line GET ''/a'' @ ''X-'' @ NEW_LINE @ ''GET''" "''GET''" ?r]
  show ?thesis by (auto simp: HttpRequest_zero_def)
qed

end
