(* ===== verification/Sync_Grammar.thy ===== *)
theory Sync_Grammar
  imports Sync_Runs
begin

text \<open>
  The language of the synchronous parser: a grammar of requests without tokens and states, the proof that
  \<open>ParseHttpRequest\<close> returns 0 for no other text, and that it returns 0, with the request the grammar makes, for
  its words.
\<close>

section \<open>The grammar\<close>

text \<open>
  A start line, header lines and an empty line. The members of \<open>r0\<close> that no line sets stay, \<open>ContentLength\<close>
  among them: \<open>_ParsePreamble\<close> is never called.
\<close>

definition sync_head :: "HttpRequest \<Rightarrow> string \<Rightarrow> HttpRequest \<Rightarrow> bool" where
  "sync_head r0 s r \<longleftrightarrow>
     (\<exists>m path j q hs. m \<in> {GET, POST} \<and> padded_start_ok m path j \<and> CleanPath path = Ret q \<and>
       (\<forall>h \<in> set hs. padded_ok h) \<and>
       s = padded_start m path j @ concat (map padded_line hs) @ NEW_LINE \<and>
       store_fields (map padded_field hs) (r0\<lparr>Method := m, Path := q, Version := HTTP_1_1\<rparr>) = Ret r)"

text \<open>A head, and a body that ends the text. A \<open>Content-Length\<close> below 1 means no body; what follows is not read.\<close>

definition sync_request :: "HttpRequest \<Rightarrow> string \<Rightarrow> HttpRequest \<Rightarrow> bool" where
  "sync_request r0 s r \<longleftrightarrow>
     (\<exists>pre rest r1. s = pre @ rest \<and> sync_head r0 pre r1 \<and> ContentLength r1 \<le> 4096 \<and>
       r = (if ContentLength r1 \<le> 0 then r1 else r1\<lparr>Body := rest\<rparr>))"

text \<open>A head and as much of the body as there is, when fewer bytes follow than announced.\<close>

definition sync_prefix :: "HttpRequest \<Rightarrow> string \<Rightarrow> HttpRequest \<Rightarrow> bool" where
  "sync_prefix r0 s r \<longleftrightarrow>
     (\<exists>pre rest r1 b. s = pre @ rest \<and> sync_head r0 pre r1 \<and> ContentLength r1 \<le> 4096 \<and>
       r = (if ContentLength r1 \<le> 0 then r1 else r1\<lparr>Body := b\<rparr>) \<and>
       (nat (ContentLength r1) \<le> length rest \<longrightarrow> b = take (nat (ContentLength r1)) rest))"

text \<open>The bytes behind a head are as many as it announces.\<close>

definition complete :: "HttpRequest \<Rightarrow> string \<Rightarrow> bool" where
  "complete r0 s \<longleftrightarrow>
     (\<forall>pre rest r1. s = pre @ rest \<longrightarrow> sync_head r0 pre r1 \<longrightarrow> 0 < ContentLength r1 \<longrightarrow>
       int (length rest) = ContentLength r1)"

section \<open>Only words of the grammar are accepted\<close>

lemma padded_line_ne [simp]: "padded_line h \<noteq> []"
  by (auto simp: padded_line_def NEW_LINE_def split: prod.splits)

lemma runs_conj: "runs m s P \<Longrightarrow> runs m s Q \<Longrightarrow> runs m s (\<lambda>oc s'. P oc s' \<and> Q oc s')"
  by (auto simp: runs_def)

context char_reader
begin

lemma expect_text:
  assumes "rinv (rp_reader p)" and "\<And>p'. Q (Ret P_Error) p'"
    and "\<And>p'. rinv (rp_reader p') \<Longrightarrow> rp_request p' = rp_request p \<Longrightarrow>
      lexed token_chars t (rp_value p') (left p) (left p') \<Longrightarrow> (t \<noteq> T_String \<longrightarrow> rp_next p' = CHR 0x00) \<Longrightarrow> runs rest p' Q"
  shows "runs (expect (rp_NextToken rd) t rest) p Q"
  by (rule runs_expect [OF NextToken_text [OF assms(1)]]) (use assms(2,3) in \<open>auto simp: token_text_def\<close>)

lemma cond_text:
  "(\<not> b p \<Longrightarrow> runs m p Q) \<Longrightarrow> Q (Ret P_Error) p \<Longrightarrow> runs (\<lambda>p. if b p then ret P_Error p else m p) p Q"
  by (simp add: runs_def ret_def)

text \<open>The result is \<open>st\<close> only when the text starts with a word of \<open>G\<close>, which makes the request.\<close>

definition accepts ::
    "string \<Rightarrow> (string \<Rightarrow> HttpRequest \<Rightarrow> bool) \<Rightarrow> ParseStatus \<Rightarrow> ParseStatus outcome \<Rightarrow> 'r RequestParser \<Rightarrow> bool" where
  "accepts us G st oc p' \<longleftrightarrow> (oc = Ret st \<longrightarrow> rinv (rp_reader p') \<and> rp_next p' = CHR 0x00 \<and>
     (\<exists>s. us = s @ left p' \<and> G s (rp_request p')))"

lemma accepts_error [simp]: "st \<noteq> P_Error \<Longrightarrow> accepts us G st (Ret P_Error) p" "accepts us G st (Raise e) p"
  by (simp_all add: accepts_def)

lemma accepts_behind:
  assumes "accepts us G st oc p" and "us0 = t @ us" and "\<And>s r. G s r \<Longrightarrow> G' (t @ s) r"
  shows "accepts us0 G' st oc p"
  using assms by (fastforce simp: accepts_def)

lemma version_text:
  assumes "rinv (rp_reader p)"
  shows "runs version_part p (accepts (left p) (\<lambda>s r. \<exists>k. string_text token_chars (HTTP_VERSION, k) \<and>
    s = SPACE @ HTTP_VERSION @ k @ NEW_LINE \<and> r = (rp_request p)\<lparr>Version := HTTP_1_1\<rparr>) P_Ok)"
proof (rule expect_text [OF assms], goal_cases)
  case p1: (2 p1)
  show ?case
  proof (rule expect_text [OF p1(1)], goal_cases)
    case p2: (2 p2)
    show ?case
    proof (rule cond_text, rule runs_set_request, goal_cases)
      case (1 r)
      then have v: "rp_value p2 = HTTP_VERSION" by (simp add: HTTP_VERSION_def)
      then obtain k where k: "left p1 = HTTP_VERSION @ k @ left p2" "string_text token_chars (HTTP_VERSION, k)"
        using p2(3) by (auto simp: string_lexed_def HTTP_VERSION_def)
      show ?case
      proof (rule expect_text, goal_cases)
        case (3 p3)
        with k p1 p2 1 show ?case by (auto simp: accepts_def SPACE_def NEW_LINE_def runs_def ret_def)
      qed (use p2 in auto)
    qed auto
  qed auto
qed auto

lemma path_text:
  assumes "rinv (rp_reader p)"
  shows "runs path_part p (accepts (left p) (\<lambda>s r. \<exists>path j k q. string_text token_chars (path, j) \<and>
    string_text token_chars (HTTP_VERSION, k) \<and> CleanPath path = Ret q \<and>
    s = SPACE @ path @ j @ SPACE @ HTTP_VERSION @ k @ NEW_LINE \<and> r = (rp_request p)\<lparr>Path := q, Version := HTTP_1_1\<rparr>) P_Ok)"
proof (rule expect_text [OF assms], goal_cases)
  case p1: (2 p1)
  show ?case
  proof (rule expect_text [OF p1(1)], goal_cases)
    case p2: (2 p2)
    show ?case
    proof (rule runs_set_request, goal_cases)
      case (1 r)
      then obtain q where q: "CleanPath (rp_value p2) = Ret q" "r = (rp_request p2)\<lparr>Path := q\<rparr>"
        by (cases "CleanPath (rp_value p2)") auto
      then have "rp_value p2 \<noteq> []" by (auto simp: CleanPath_def)
      then obtain j where j: "left p1 = rp_value p2 @ j @ left p2" "string_text token_chars (rp_value p2, j)"
        using p2(3) by (auto simp: string_lexed_def)
      have "rinv (rp_reader (p2\<lparr>rp_request := r\<rparr>))" using p2 by simp
      from version_text [OF this] show ?case
      proof (rule runs_weaken, elim accepts_behind [where t = "SPACE @ rp_value p2 @ j"], goal_cases)
        case (2 oc p3 s r')
        then obtain k where "string_text token_chars (HTTP_VERSION, k)" "s = SPACE @ HTTP_VERSION @ k @ NEW_LINE"
          "r' = r\<lparr>Version := HTTP_1_1\<rparr>" by auto
        with q j p1(2) p2(2) show ?case
          by (intro exI [of _ "rp_value p2"] exI [of _ j] exI [of _ k] exI [of _ q]) simp
      qed (use p1 j in \<open>simp add: SPACE_def\<close>)
    qed auto
  qed auto
qed auto

lemma ParseStartLine_text:
  assumes "rinv (rp_reader p)"
  shows "runs (rp_ParseStartLine rd) p (accepts (left p) (\<lambda>s r. \<exists>m path j q. m \<in> {GET, POST} \<and>
    padded_start_ok m path j \<and> CleanPath path = Ret q \<and> s = padded_start m path j \<and>
    r = (rp_request p)\<lparr>Method := m, Path := q, Version := HTTP_1_1\<rparr>) P_Ok)"
  unfolding rp_ParseStartLine_def
proof (rule expect_text [OF assms], goal_cases)
  case p1: (2 p1)
  show ?case
  proof (rule cond_text, rule runs_set_request, goal_cases)
    case (1 r)
    define m where "m = (if rp_value p1 = ''GET'' then GET else POST)"
    from 1 have m: "m \<in> {GET, POST}" "rp_value p1 = HttpMethodToString m" "r = (rp_request p1)\<lparr>Method := m\<rparr>"
      by (auto simp: m_def)
    then obtain i where i: "left p = HttpMethodToString m @ i @ left p1" "string_text token_chars (HttpMethodToString m, i)"
      using p1(3) by (auto simp: string_lexed_def)
    have "rinv (rp_reader (p1\<lparr>rp_request := r\<rparr>))" using p1 by simp
    from path_text [OF this] show ?case
    proof (rule runs_weaken, elim accepts_behind [where t = "HttpMethodToString m @ i"], goal_cases)
      case (2 oc p2 s r')
      then obtain path j k q where "string_text token_chars (path, j)" "string_text token_chars (HTTP_VERSION, k)"
        "CleanPath path = Ret q" "s = SPACE @ path @ j @ SPACE @ HTTP_VERSION @ k @ NEW_LINE"
        "r' = r\<lparr>Path := q, Version := HTTP_1_1\<rparr>" by auto
      with m i p1(2) show ?case
        by (intro exI [of _ m] exI [of _ path] exI [of _ "(i, j, k)"] exI [of _ q])
          (simp add: padded_start_def padded_start_ok_def)
    qed (use i in simp)
  qed auto
qed auto

text \<open>A header line behind its colon, and with its key; or the empty line.\<close>

lemma field_text:
  assumes "rinv (rp_reader p)"
  shows "runs (expect (rp_NextToken rd) T_Space
      (expect (rp_NextString rd) T_String
      (set_request (store_field k)
      (expect (rp_NextToken rd) T_NewLine (ret P_Ok))))) p
    (\<lambda>oc p'. oc \<noteq> Ret P_NotMatch \<and> accepts (left p) (\<lambda>s r. \<exists>n v i. string_text line_chars (v, i) \<and>
      (v \<noteq> [] \<longrightarrow> hd v \<noteq> CHR '' '') \<and> CHR '':'' # s = COLON @ replicate n (CHR '' '') @ v @ i @ NEW_LINE \<and>
      store_field k v (rp_request p) = Ret r) P_Ok oc p')"
proof (rule expect_text [OF assms], goal_cases)
  case p1: (2 p1)
  show ?case
  proof (rule runs_expect [OF NextString_text [OF p1(1)]], goal_cases)
    case (1 p2)
    then obtain n us where p2: "left p1 = replicate n (CHR '' '') @ us" "us \<noteq> [] \<longrightarrow> hd us \<noteq> CHR '' ''"
      "string_lexed line_chars (rp_value p2) us (left p2)" "rinv (rp_reader p2)" "rp_request p2 = rp_request p1"
      by (auto simp: token_text_def)
    show ?case
    proof (rule runs_set_request, goal_cases)
      case (1 r)
      show ?case
      proof (rule expect_text, goal_cases)
        case p3: (3 p3)
        then have "left p2 = CR # LF # left p3" by simp
        then obtain i where i: "us = rp_value p2 @ i @ left p2" "string_text line_chars (rp_value p2, i)"
          using p2(3) by (auto simp: string_lexed_def CR_def LF_def)
        have "left p = (CHR '' '' # replicate n (CHR '' '') @ rp_value p2 @ i @ NEW_LINE) @ left p3"
          using p1(3) p2(1) i(1) p3(3) by (simp add: entities_def)
        moreover have "rp_value p2 \<noteq> [] \<longrightarrow> hd (rp_value p2) \<noteq> CHR '' ''" using i(1) p2(2) by auto
        ultimately show ?case using 1 p1(2) p2(5) p3 i(2)
          by (auto simp: accepts_def runs_def ret_def COLON_def)
      qed (use p2 in auto)
    qed auto
  qed (auto simp: token_text_def)
qed auto

lemma ParseHeader_text:
  assumes "rinv (rp_reader p)"
  shows "runs (rp_ParseHeader rd) p (\<lambda>oc p'.
    accepts (left p) (\<lambda>s r. \<exists>h. padded_ok h \<and> s = padded_line h \<and>
      store_field (fst (padded_field h)) (snd (padded_field h)) (rp_request p) = Ret r) P_Ok oc p' \<and>
    accepts (left p) (\<lambda>s r. s = NEW_LINE \<and> r = rp_request p) P_NotMatch oc p')"
    (is "runs _ _ ?Q")
  unfolding rp_ParseHeader_def
proof (rule runs_andThen [OF NextToken_text [OF assms]], goal_cases)
  case (1 x p1)
  note p1 = this [unfolded token_text_def, simplified]
  show ?case
  proof (cases "rp_type p1 = T_String")
    case False
    then show ?thesis using p1 by (cases "rp_type p1") (auto simp: runs_def ret_def accepts_def NEW_LINE_def)
  next
    case True
    have "runs (expect (rp_NextToken rd) T_Colon
        (expect (rp_NextToken rd) T_Space
        (expect (rp_NextString rd) T_String
        (set_request (store_field (rp_value p1))
        (expect (rp_NextToken rd) T_NewLine (ret P_Ok)))))) p1 ?Q"
    proof (rule expect_text, goal_cases)
      case p2: (3 p2)
      then have "left p1 = CHR '':'' # left p2" by simp
      then obtain j where j: "left p = rp_value p1 @ j @ CHR '':'' # left p2" "string_text token_chars (rp_value p1, j)"
        using p1 True by (auto simp: string_lexed_def LF_def)
      from field_text [OF p2(1), of "rp_value p1"] show ?case
      proof (rule runs_weaken, elim conjE, intro conjI, elim accepts_behind [where t = "rp_value p1 @ j @ '':''"], goal_cases)
        case 1
        show ?case using j(1) by simp
      next
        case (2 oc p3 s r)
        then obtain n v i where "string_text line_chars (v, i)" "v \<noteq> [] \<longrightarrow> hd v \<noteq> CHR '' ''"
          "CHR '':'' # s = COLON @ replicate n (CHR '' '') @ v @ i @ NEW_LINE"
          "store_field (rp_value p1) v (rp_request p2) = Ret r"
          by blast
        with j(2) p1 p2(2) show ?case
          by (intro exI [of _ "((rp_value p1, j), n, v, i)"]) (simp add: padded_ok_def padded_line_def padded_field_def)
      qed (simp add: accepts_def)
    qed (use p1 in auto)
    then show ?thesis using True by (simp add: runs_def)
  qed
qed (auto simp: token_text_def)

text \<open>All header lines.\<close>

lemma header_loop_text:
  assumes "rinv (rp_reader p)"
  shows "runs (andThen (rp_ParseHeader rd) (header_loop rd)) p (accepts (left p) (\<lambda>s r.
    \<exists>hs. (\<forall>h \<in> set hs. padded_ok h) \<and> s = concat (map padded_line hs) @ NEW_LINE \<and>
      store_fields (map padded_field hs) (rp_request p) = Ret r) P_NotMatch)"
  using assms
proof (induction "length (left p)" arbitrary: p rule: less_induct)
  case less
  from ParseHeader_text [OF less.prems] show ?case
  proof (rule runs_andThen, goal_cases)
    case (1 st p1)
    show ?case
    proof (cases "st = P_Ok")
      case True
      with 1 obtain h where p1: "rinv (rp_reader p1)" "left p = padded_line h @ left p1" "padded_ok h"
        "store_field (fst (padded_field h)) (snd (padded_field h)) (rp_request p) = Ret (rp_request p1)"
        by (auto simp: accepts_def)
      have "length (left p1) < length (left p)" using p1(2) padded_line_ne by simp
      then have "runs (header_loop rd st) p1 (accepts (left p1) (\<lambda>s r.
          \<exists>hs. (\<forall>h \<in> set hs. padded_ok h) \<and> s = concat (map padded_line hs) @ NEW_LINE \<and>
            store_fields (map padded_field hs) (rp_request p1) = Ret r) P_NotMatch)"
        using less.hyps p1(1) unfolding True header_loop_Ok by blast
      then show ?thesis
      proof (rule runs_weaken, elim accepts_behind [where t = "padded_line h"], goal_cases)
        case (2 oc p2 s r)
        then obtain hs where "\<forall>h \<in> set hs. padded_ok h" "s = concat (map padded_line hs) @ NEW_LINE"
          "store_fields (map padded_field hs) (rp_request p1) = Ret r" by blast
        with p1 show ?case by (intro exI [of _ "h # hs"]) (cases "padded_field h"; simp)
      qed (use p1(2) in simp)
    next
      case False
      with 1 show ?thesis
        by (auto simp: runs_def header_loop_done accepts_def intro!: exI [of _ "[]"])
    qed
  qed simp
qed

end

text \<open>The whole parse.\<close>

lemma sync_prefixI:
  assumes "sync_head r0 pre r1" and "ContentLength r1 \<le> 4096" and "0 < ContentLength r1"
    and "nat (ContentLength r1) \<le> length rest \<longrightarrow> b = take (nat (ContentLength r1)) rest"
  shows "sync_prefix r0 (pre @ rest) (r1\<lparr>Body := b\<rparr>)"
  using assms unfolding sync_prefix_def by (intro exI [of _ pre] exI [of _ rest] exI [of _ r1] exI [of _ b]) simp

lemma sync_prefix_none:
  assumes "sync_head r0 pre r" and "ContentLength r \<le> 0"
  shows "sync_prefix r0 (pre @ rest) r"
  using assms unfolding sync_prefix_def by (intro exI [of _ pre] exI [of _ rest] exI [of _ r] exI [of _ "[]"]) simp

lemma sync_headI:
  assumes "m \<in> {GET, POST}" and "padded_start_ok m path j" and "CleanPath path = Ret q" and "\<forall>h \<in> set hs. padded_ok h"
    and "store_fields (map padded_field hs) (r0\<lparr>Method := m, Path := q, Version := HTTP_1_1\<rparr>) = Ret r"
  shows "sync_head r0 (padded_start m path j @ concat (map padded_line hs) @ NEW_LINE) r"
  using assms unfolding sync_head_def by blast

context block_reader
begin

lemma ParseBody_text:
  assumes "rinv (rp_reader p)" and "0 < ContentLength (rp_request p)"
  shows "runs (rp_ParseBody rblk) p (\<lambda>oc p'. oc = Ret P_Ok \<longrightarrow> (\<exists>b. rp_request p' = (rp_request p)\<lparr>Body := b\<rparr> \<and>
    (nat (ContentLength (rp_request p)) \<le> length (unread (rp_reader p)) \<longrightarrow>
      b = take (nat (ContentLength (rp_request p))) (unread (rp_reader p)))))"
proof -
  let ?len = "nat (ContentLength (rp_request p))" and ?us = "unread (rp_reader p)"
  obtain res r' where blk: "rblk (rp_reader p) ?len = (res, r')" by (cases "rblk (rp_reader p) ?len")
  show ?thesis
  proof (cases res)
    case (Ret x)
    then obtain sz bs where x: "res = Ret (sz, bs)" by (cases x) auto
    have "bs = take ?len ?us" if "?len \<le> length ?us"
      using rblk_enough [OF assms(1) _ that] assms(2) blk x by auto
    with blk x show ?thesis
      by (auto simp: runs_def rp_ParseBody_def Let_def)
  qed (use blk in \<open>simp add: runs_def rp_ParseBody_def Let_def\<close>)
qed

lemma Parse_text:
  assumes "rinv r"
  shows "runs (rp_Parse rd rblk) (RequestParser_new r r0) (\<lambda>oc p. oc = Ret 0 \<longrightarrow> sync_prefix r0 (unread r) (rp_request p))"
    (is "runs _ _ ?Q")
proof -
  let ?p = "RequestParser_new r r0"
  have p: "rinv (rp_reader ?p)" "left ?p = unread r" "rp_request ?p = r0"
    using assms by (simp_all add: RequestParser_new_def parser_unread_def)
  show ?thesis
    unfolding rp_Parse_def
  proof (rule runs_andThen [OF ParseStartLine_text [OF p(1)]], goal_cases)
    case (1 st p1)
    show ?case
    proof (cases "st = P_Ok")
      case True
      from 1 [unfolded True accepts_def p(2,3)] obtain m path j q where p1: "rinv (rp_reader p1)" "m \<in> {GET, POST}"
        "padded_start_ok m path j" "CleanPath path = Ret q" "unread r = padded_start m path j @ left p1"
        "rp_request p1 = r0\<lparr>Method := m, Path := q, Version := HTTP_1_1\<rparr>"
        by blast
      have "runs (andThen (rp_ParseHeader rd) (header_loop rd)) p1 (\<lambda>oc p'. oc \<noteq> Ret P_Ok)"
        using runs_weaken [OF header_loop_ends [OF p1(1), of P_Ok]] by (simp add: header_loop_Ok)
      note loop = runs_conj [OF header_loop_text [OF p1(1)] this]
      show ?thesis
      proof (simp only: True simp_thms if_False, rule runs_andThen [OF loop], goal_cases)
        case (1 st p2)
        show ?case
        proof (cases "st = P_NotMatch")
          case True
          with 1 obtain hs where p2: "rinv (rp_reader p2)" "rp_next p2 = CHR 0x00" "\<forall>h \<in> set hs. padded_ok h"
            "left p1 = (concat (map padded_line hs) @ NEW_LINE) @ left p2"
            "store_fields (map padded_field hs) (rp_request p1) = Ret (rp_request p2)"
            by (auto simp: accepts_def)
          have head: "\<exists>pre. unread r = pre @ unread (rp_reader p2) \<and> sync_head r0 pre (rp_request p2)"
            using sync_headI [OF p1(2-4) p2(3) p2(5) [unfolded p1(6)]] p1(5) p2(2,4) by (auto simp: parser_unread_def)
          show ?thesis
          proof (cases "0 < ContentLength (rp_request p2) \<and> ContentLength (rp_request p2) \<le> 4096")
            case True
            then have pos: "0 < ContentLength (rp_request p2)" by simp
            have "runs (andThen (rp_ParseBody rblk) (\<lambda>st. if st \<noteq> P_Ok then ret 5 else ret 0)) p2 ?Q"
            proof (rule runs_andThen [OF ParseBody_text [OF p2(1) pos]], goal_cases)
              case (1 st p3)
              with head True show ?case by (cases "st = P_Ok") (auto intro: sync_prefixI)
            qed simp
            with True \<open>st = P_NotMatch\<close> show ?thesis by simp
          next
            case False
            with head \<open>st = P_NotMatch\<close> show ?thesis
              by (auto simp: runs_def ret_def not_less intro: sync_prefixI [where b = "[]"] sync_prefix_none)
          qed
        next
          case False
          with 1 have "st = P_Error" by (cases st) auto
          then show ?thesis by simp
        qed
      qed (simp)
    qed (simp)
  qed simp
qed

text \<open>Every word of the grammar is accepted.\<close>

lemma head_run:
  assumes "rinv r" and "unread r = pre @ rest" and "sync_head r0 pre r1"
    and "\<And>p. line_read P_NotMatch r1 rest (Ret P_NotMatch) p \<Longrightarrow> runs (f P_NotMatch) p Q"
  shows "runs (andThen (rp_ParseStartLine rd) (\<lambda>st.
      if st \<noteq> P_Ok then ret x else andThen (andThen (rp_ParseHeader rd) (header_loop rd)) f)) (RequestParser_new r r0) Q"
proof -
  let ?p = "RequestParser_new r r0"
  obtain m path j q hs where h: "m \<in> {GET, POST}" "padded_start_ok m path j" "CleanPath path = Ret q"
    "\<forall>h \<in> set hs. padded_ok h" "pre = padded_start m path j @ concat (map padded_line hs) @ NEW_LINE"
    "store_fields (map padded_field hs) (r0\<lparr>Method := m, Path := q, Version := HTTP_1_1\<rparr>) = Ret r1"
    using assms(3) unfolding sync_head_def by blast
  have p: "rinv (rp_reader ?p)" "left ?p = padded_start m path j @ concat (map padded_line hs) @ NEW_LINE @ rest"
    "rp_request ?p = r0"
    using assms(1,2) h(5) by (simp_all add: RequestParser_new_def parser_unread_def)
  show ?thesis
  proof (rule runs_andThen [OF ParseStartLine_padded [OF p(1) h(1) p(2) h(2,3)]], goal_cases)
    case (1 st p1)
    then have p1: "st = P_Ok" "rinv (rp_reader p1)" "left p1 = concat (map padded_line hs) @ NEW_LINE @ rest"
      "store_fields (map padded_field hs) (rp_request p1) = Ret r1"
      using h(6) p(3) by (auto simp: line_read_def)
    show ?case
    proof (simp only: p1(1) simp_thms if_False, rule runs_andThen [OF header_loop_padded [OF p1(2,3) h(4) p1(4)]], goal_cases)
      case (1 st p2)
      with assms(4) [of p2] show ?case by (simp add: line_read_def)
    qed (auto simp: line_read_def)
  qed (auto simp: line_read_def)
qed

text \<open>The grammar is unambiguous: a text has one head at most.\<close>

lemma head_unique:
  assumes "rinv r" and "unread r = pre @ rest" and "sync_head r0 pre r1"
    and "unread r = pre' @ rest'" and "sync_head r0 pre' r1'"
  shows "rest' = rest" and "r1' = r1"
proof -
  let ?m = "andThen (rp_ParseStartLine rd) (\<lambda>st. if st \<noteq> P_Ok then ret P_Error
    else andThen (andThen (rp_ParseHeader rd) (header_loop rd)) ret)"
  have "runs ?m (RequestParser_new r r0) (line_read P_NotMatch r1 rest)"
    by (rule head_run [OF assms(1-3)]) simp
  moreover have "runs ?m (RequestParser_new r r0) (line_read P_NotMatch r1' rest')"
    by (rule head_run [OF assms(1,4,5)]) simp
  ultimately show "rest' = rest" "r1' = r1" by (auto simp: runs_def line_read_def)
qed

lemma Parse_head:
  assumes "rinv r" and "unread r = pre @ rest" and "sync_head r0 pre r1"
    and "\<And>p. rinv (rp_reader p) \<Longrightarrow> unread (rp_reader p) = rest \<Longrightarrow> rp_request p = r1 \<Longrightarrow> runs (\<lambda>p.
           if ContentLength (rp_request p) > 0
           then if ContentLength (rp_request p) > 4096 then ret 4 p
             else andThen (rp_ParseBody rblk) (\<lambda>st. if st \<noteq> P_Ok then ret 5 else ret 0) p
           else ret 0 p) p Q"
  shows "runs (rp_Parse rd rblk) (RequestParser_new r r0) Q"
  unfolding rp_Parse_def
proof (rule head_run [OF assms(1-3)], goal_cases)
  case (1 p)
  then have "rinv (rp_reader p)" "unread (rp_reader p) = rest" "rp_request p = r1"
    by (auto simp: line_read_def parser_unread_def)
  from assms(4) [OF this] show ?case by (simp only: ParseStatus.distinct if_False)
qed

lemma Parse_no_body:
  assumes "rinv r" and "unread r = pre @ rest" and "sync_head r0 pre r1" and "ContentLength r1 \<le> 0"
  shows "runs (rp_Parse rd rblk) (RequestParser_new r r0) (\<lambda>oc p. oc = Ret 0 \<and> rp_request p = r1)"
  by (rule Parse_head [OF assms(1-3)]) (use assms(4) in simp)

lemma Parse_too_long:
  assumes "rinv r" and "unread r = pre @ rest" and "sync_head r0 pre r1" and "4096 < ContentLength r1"
  shows "runs (rp_Parse rd rblk) (RequestParser_new r r0) (\<lambda>oc p. oc = Ret 4 \<and> rp_request p = r1)"
  by (rule Parse_head [OF assms(1-3)]) (use assms(4) in simp)

lemma Parse_body:
  assumes "rinv r" and "unread r = pre @ rest" and "sync_head r0 pre r1"
    and "0 < ContentLength r1" and "ContentLength r1 \<le> 4096" and "int (length rest) = ContentLength r1"
  shows "runs (rp_Parse rd rblk) (RequestParser_new r r0) (\<lambda>oc p. oc = Ret 0 \<and> rp_request p = r1\<lparr>Body := rest\<rparr>)"
proof (rule Parse_head [OF assms(1-3)])
  fix p :: "'r RequestParser"
  assume p: "rinv (rp_reader p)" "unread (rp_reader p) = rest" "rp_request p = r1"
  have "rest \<noteq> []" using assms(4,6) by auto
  from ParseBody_rest [OF p(1,2) this] p(3) assms(4-6) show "runs (\<lambda>p.
      if ContentLength (rp_request p) > 0
      then if ContentLength (rp_request p) > 4096 then ret 4 p
        else andThen (rp_ParseBody rblk) (\<lambda>st. if st \<noteq> P_Ok then ret 5 else ret 0) p
      else ret 0 p) p (\<lambda>oc p. oc = Ret 0 \<and> rp_request p = r1\<lparr>Body := rest\<rparr>)"
    by (auto intro: runs_andThen)
qed

end

context byte_source
begin

lemma parse_http_run:
  assumes "sinv s"
  shows "ParseHttpRequest sread s r0 = Some (oc, s', r) \<Longrightarrow>
    runs (rp_Parse (reader_Read sread) (reader_ReadBlock sread)) (RequestParser_new (BufferedStreamReader_new s) r0)
      (\<lambda>oc p. Q oc (rp_request p)) \<Longrightarrow> Q oc r"
  by (auto simp: ParseHttpRequest_def runs_def split: option.splits)

lemma parse_http_accepted:
  assumes "sinv s" and "ParseHttpRequest sread s r0 = Some (Ret 0, s', r)"
  shows "sync_prefix r0 (pending s) r"
  using parse_http_run [OF assms, of "\<lambda>oc r. oc = Ret 0 \<longrightarrow> sync_prefix r0 (pending s) r"]
    blocks.Parse_text [of "BufferedStreamReader_new s" r0] assms(1) by simp

lemma parse_http_word:
  assumes "sinv s" and "sync_request r0 (pending s) r" and "complete r0 (pending s)"
  shows "\<exists>s'. ParseHttpRequest sread s r0 = Some (Ret 0, s', r)"
proof -
  obtain pre rest r1 where h: "pending s = pre @ rest" "sync_head r0 pre r1" "ContentLength r1 \<le> 4096"
    "r = (if ContentLength r1 \<le> 0 then r1 else r1\<lparr>Body := rest\<rparr>)"
    using assms(2) by (auto simp: sync_request_def)
  note run = ParseHttpRequest_runs [of sread s r0 "\<lambda>oc r'. oc = Ret 0 \<and> r' = r"]
  have new: "reader_inv pending sinv (BufferedStreamReader_new s)"
    "reader_unread pending (BufferedStreamReader_new s) = pre @ rest"
    using assms(1) h(1) by simp_all
  show ?thesis
  proof (cases "ContentLength r1 \<le> 0")
    case True
    with run blocks.Parse_no_body [OF new h(2) True] h(4) show ?thesis by auto
  next
    case False
    then have "int (length rest) = ContentLength r1" using assms(3) h(1,2) by (auto simp: complete_def)
    with False run blocks.Parse_body [OF new h(2) _ h(3)] h(4) show ?thesis by auto
  qed
qed

end

lemma completeI:
  assumes "sync_head r0 pre r1" and "0 < ContentLength r1 \<Longrightarrow> int (length rest) = ContentLength r1"
  shows "complete r0 (pre @ rest)"
  unfolding complete_def
proof (intro allI impI)
  fix pre' rest' r1'
  assume "pre @ rest = pre' @ rest'" and "sync_head r0 pre' r1'" and "0 < ContentLength r1'"
  moreover from this have "rest' = rest" "r1' = r1"
    using bis.blocks.head_unique [of "BufferedStreamReader_new (BufferInputStream_new (pre @ rest))" pre rest r0 r1 pre' rest' r1']
      assms(1) by simp_all
  ultimately show "int (length rest') = ContentLength r1'" using assms(2) by simp
qed

lemma complete_prefix:
  assumes "sync_prefix r0 s r" and "complete r0 s"
  shows "sync_request r0 s r"
proof -
  obtain pre rest r1 b where h: "s = pre @ rest" "sync_head r0 pre r1" "ContentLength r1 \<le> 4096"
    "r = (if ContentLength r1 \<le> 0 then r1 else r1\<lparr>Body := b\<rparr>)"
    "nat (ContentLength r1) \<le> length rest \<longrightarrow> b = take (nat (ContentLength r1)) rest"
    using assms(1) unfolding sync_prefix_def by blast
  have "0 < ContentLength r1 \<longrightarrow> int (length rest) = ContentLength r1" using assms(2) h(1,2) by (simp add: complete_def)
  with h show ?thesis
    unfolding sync_request_def by (intro exI [of _ pre] exI [of _ rest] exI [of _ r1]) auto
qed

section \<open>Properties\<close>

text \<open>
  C3: the language of the synchronous parser, over a stream on which exactly as many bytes follow the head as its last \<open>Content-Length\<close>
  announces (\<open>complete\<close>; it says nothing when that is 0 or there is no head): \<open>ParseHttpRequest\<close> returns 0 exactly for the words of the grammar, with the request of the
  word. So a request of the grammar is never refused. Over every other stream 0 is returned only when the stream starts with a head
  of the grammar whose last \<open>Content-Length\<close> is at most 4096, and then with the request of that head; its body is what
  follows if all of it is there. When it is not, 0 may come with a body the peer has never sent, because the block read
  replays the bytes of its buffer (\<open>block_read_past_end_replays\<close>). A NUL or \<open>0xFF\<close> behind the method, the path, the
  version, a key or a value is dropped, and with a NUL the key or the value may be empty.
\<close>

theorem sync_language:
  assumes "byte_source sread pending sinv" and "sinv s"
  shows "((\<exists>s'. ParseHttpRequest sread s r0 = Some (Ret 0, s', r)) \<longrightarrow> sync_prefix r0 (pending s) r) \<and>
    (complete r0 (pending s) \<longrightarrow>
      (\<exists>s'. ParseHttpRequest sread s r0 = Some (Ret 0, s', r)) = sync_request r0 (pending s) r)"
  using byte_source.parse_http_accepted [OF assms] byte_source.parse_http_word [OF assms] complete_prefix by blast

text \<open>A request that is smuggled past a filter for \<open>Host\<close>: a NUL stands between the key and its colon.\<close>

definition nul_request :: string where
  "nul_request = ''GET /a HTTP/1.1'' @ NEW_LINE @ ''Host'' @ [CHR 0x00] @ '': b'' @ NEW_LINE @ NEW_LINE"

lemma sync_language_witness:
  "\<exists>s'. ParseHttpRequest BufferInputStream_Read (BufferInputStream_new nul_request) HttpRequest_zero =
    Some (Ret 0, s', HttpRequest_zero\<lparr>Method := GET, Path := ''/a'', Version := HTTP_1_1, Host := ''b''\<rparr>)"
proof -
  let ?r = "HttpRequest_zero\<lparr>Method := GET, Path := ''/a'', Version := HTTP_1_1, Host := ''b''\<rparr>"
  let ?hs = "[((''Host'', [CHR 0x00]), 0, ''b'', [])]"
  have "sync_head HttpRequest_zero (padded_start GET ''/a'' ([], [], []) @ concat (map padded_line ?hs) @ NEW_LINE) ?r"
    by (rule sync_headI [where q = "''/a''"]) (simp, code_simp+)
  moreover have "padded_start GET ''/a'' ([], [], []) @ concat (map padded_line ?hs) @ NEW_LINE = nul_request" by code_simp
  ultimately have head: "sync_head HttpRequest_zero nul_request ?r" by simp
  from head have "complete HttpRequest_zero nul_request"
    using completeI [OF head, of "[]"] by (simp add: HttpRequest_zero_def)
  moreover from head have "sync_request HttpRequest_zero nul_request ?r"
    unfolding sync_request_def
    by (intro exI [of _ nul_request] exI [of _ "[]"] exI [of _ ?r]) (simp add: HttpRequest_zero_def)
  ultimately show ?thesis
    using sync_language [OF bis.byte_source_axioms, of "BufferInputStream_new nul_request" HttpRequest_zero ?r] by simp
qed

end
