(* ===== verification/Pool_Progress.thy ===== *)
theory Pool_Progress
  imports Thread_Pool
begin

text \<open>
  What the workers of the pool get done. A schedule is a list of worker numbers, the order in which the workers
  make their steps; a round is a schedule in which every worker makes one step at least. While the pool runs and
  nothing is submitted, a bounded number of rounds does all accepted tasks. The destructor returns once
  each worker has made three steps while it is waited for; what is queued by then is never done.
\<close>

section \<open>Schedules\<close>

fun run_workers :: "('q \<Rightarrow> ('a option \<times> 'q) option) \<Rightarrow> nat list \<Rightarrow> ('q, 'a) ThreadPool \<Rightarrow> ('q, 'a) ThreadPool option" where
  "run_workers pop [] tp = Some tp"
| "run_workers pop (i # is) tp =
     (case Worker_Routine pop i tp of None \<Rightarrow> None | Some tp' \<Rightarrow> run_workers pop is tp')"

lemma run_workers_append:
  "run_workers pop (is @ js) tp = (case run_workers pop is tp of None \<Rightarrow> None | Some tp' \<Rightarrow> run_workers pop js tp')"
  by (induction "is" arbitrary: tp) (auto split: option.splits)

definition round_of :: "nat \<Rightarrow> nat list \<Rightarrow> bool" where
  "round_of n is \<longleftrightarrow> set is = {..<n}"

text \<open>
  The destructor: for each worker \<open>Stop\<close>, which clears \<open>_running\<close> and joins the thread. The other workers go on
  during the join; it returns when the worker has left its loop (\<open>None\<close>: not in this schedule).
\<close>

fun stop_and_join ::
    "('q \<Rightarrow> ('a option \<times> 'q) option) \<Rightarrow> (nat \<times> nat list) list \<Rightarrow> ('q, 'a) ThreadPool \<Rightarrow> ('q, 'a) ThreadPool option" where
  "stop_and_join pop [] tp = Some tp"
| "stop_and_join pop ((i, is) # joins) tp =
     (case run_workers pop is (Worker_Stop i tp) of
        None \<Rightarrow> None
      | Some tp' \<Rightarrow> if tp_pcs tp' ! i = W_Exited then stop_and_join pop joins tp' else None)"

section \<open>Rounds of a running pool\<close>

text \<open>No worker has been told to stop, and none has left its loop.\<close>

definition all_running :: "('q, 'a) ThreadPool \<Rightarrow> bool" where
  "all_running tp \<longleftrightarrow> (\<forall>i < tp_threads tp. tp_running tp ! i \<and> tp_pcs tp ! i \<noteq> W_Exited)"

text \<open>The steps that are left: two for a task in a queue, one for a task in a worker.\<close>

definition to_do :: "('q, 'a) ThreadPool \<Rightarrow> 'a list list \<Rightarrow> nat" where
  "to_do tp xss = 2 * size (queued xss) + size (in_work (tp_pcs tp))"

lemma size_queued_update:
  "i < length xss \<Longrightarrow> size (queued (xss[i := ys])) + length (xss ! i) = size (queued xss) + length ys"
  using arg_cong [OF queued_update, of i xss size ys] by simp

lemma size_in_work_update:
  "i < length pcs \<Longrightarrow> size (in_work (pcs[i := pc])) + size (task_of (pcs ! i)) = size (in_work pcs) + size (task_of pc)"
  using arg_cong [OF in_work_update, of i pcs size pc] by simp

lemma sum_list_none: "\<forall>x \<in> set xs. f x = {#} \<Longrightarrow> sum_list (map f xs) = ({#} :: 'a multiset)"
  by (induction xs) auto

lemma task_of_simps [simp]:
  "task_of W_Loop = {#}" "task_of W_Steal = {#}" "task_of W_Exited = {#}" "task_of (W_Task t) = {#t#}"
  by (simp_all add: task_of_def)

text \<open>A step of worker \<open>i\<close> that finds nothing to do.\<close>

definition idle_step :: "('q, 'a) ThreadPool \<Rightarrow> 'a list list \<Rightarrow> nat \<Rightarrow> 'a wpc \<Rightarrow> bool" where
  "idle_step tp xss i pc \<longleftrightarrow>
     tp_pcs tp ! i = W_Loop \<and> xss ! i = [] \<and> pc = W_Steal \<or> tp_pcs tp ! i = W_Steal \<and> pc = W_Loop"

context bounded_fifo
begin

lemma take_from_result:
  assumes inv: "pool_inv contents tp xss" and "i < tp_threads tp" and j: "j < tp_threads tp"
    and idle: "task_of (tp_pcs tp ! i) = {#}" "task_of otherwise = {#}"
  shows "\<exists>tp' xss' pc. take_from pop i j otherwise tp = Some tp' \<and> pool_inv contents tp' xss' \<and>
    tp_threads tp' = tp_threads tp \<and> tp_running tp' = tp_running tp \<and> tp_accepted tp' = tp_accepted tp \<and>
    tp_done tp' = tp_done tp \<and> tp_pcs tp' = (tp_pcs tp)[i := pc] \<and>
    (if xss ! j = [] then xss' = xss \<and> pc = otherwise else (\<exists>t. pc = W_Task t) \<and> to_do tp' xss' < to_do tp xss)"
proof -
  have len: "length xss = tp_threads tp" "length (tp_pcs tp) = tp_threads tp" "length (tp_workers tp) = tp_threads tp"
    and c: "contents (tp_workers tp ! j) (xss ! j)"
    using inv j by (auto simp: pool_inv_def list_all2_conv_all_nth)
  from take_from_inv [OF assms(1-3) idle] obtain tp' where t: "take_from pop i j otherwise tp = Some tp'"
    and r: "case xss ! j of [] \<Rightarrow> tp_pcs tp' ! i = otherwise \<and> pool_inv contents tp' xss
      | t # ts \<Rightarrow> tp_pcs tp' ! i = W_Task t \<and> pool_inv contents tp' (xss[j := ts])" by blast
  from t obtain pc where pc: "tp_threads tp' = tp_threads tp" "tp_running tp' = tp_running tp"
    "tp_accepted tp' = tp_accepted tp" "tp_done tp' = tp_done tp" "tp_pcs tp' = (tp_pcs tp)[i := pc]"
    by (auto simp: take_from_def split: option.splits prod.splits)
  show ?thesis
  proof (cases "xss ! j")
    case Nil
    with t r pc len assms(2) show ?thesis by auto
  next
    case (Cons x xs)
    with r pc len assms(2) have x: "pc = W_Task x" "pool_inv contents tp' (xss[j := xs])" by auto
    have "to_do tp' (xss[j := xs]) < to_do tp xss"
      using size_queued_update [of j xss xs] size_in_work_update [of i "tp_pcs tp" pc] idle Cons len assms(2,3) x pc
      by (simp add: to_do_def)
    with t pc x Cons show ?thesis by auto
  qed
qed

text \<open>A step of a running worker gets something done, or finds nothing to do.\<close>

lemma Routine_progress:
  assumes inv: "pool_inv contents tp xss" and i: "i < tp_threads tp" and run: "all_running tp"
  shows "\<exists>tp' xss' pc. Worker_Routine pop i tp = Some tp' \<and> pool_inv contents tp' xss' \<and> all_running tp' \<and>
    tp_threads tp' = tp_threads tp \<and> tp_accepted tp' = tp_accepted tp \<and> tp_pcs tp' = (tp_pcs tp)[i := pc] \<and>
    (to_do tp' xss' < to_do tp xss \<or> xss' = xss \<and> to_do tp' xss' = to_do tp xss \<and> idle_step tp xss i pc)"
proof -
  have len: "length (tp_pcs tp) = tp_threads tp" using inv by (simp add: pool_inv_def)
  have r: "tp_running tp ! i" "tp_pcs tp ! i \<noteq> W_Exited" using run i by (auto simp: all_running_def)
  have keep: "all_running tp'" if "tp_running tp' = tp_running tp" "tp_threads tp' = tp_threads tp"
    "tp_pcs tp' = (tp_pcs tp)[i := pc]" "pc \<noteq> W_Exited" for tp' :: "('q, 'a) ThreadPool" and pc
    using run that i len by (auto simp: all_running_def nth_list_update)
  have same: "to_do tp' xss = to_do tp xss" if "tp_pcs tp' = (tp_pcs tp)[i := pc]"
    "task_of (tp_pcs tp ! i) = {#}" "task_of pc = {#}" for tp' :: "('q, 'a) ThreadPool" and pc
    using size_in_work_update [of i "tp_pcs tp" pc] that i len by (simp add: to_do_def)
  show ?thesis
  proof (cases "tp_pcs tp ! i")
    case W_Loop
    with r have w: "Worker_Routine pop i tp = take_from pop i i W_Steal tp" by (simp add: Worker_Routine_def)
    from take_from_result [OF inv i i, of W_Steal] W_Loop obtain tp' xss' pc where
      t: "take_from pop i i W_Steal tp = Some tp'" "pool_inv contents tp' xss'"
      "tp_threads tp' = tp_threads tp" "tp_running tp' = tp_running tp" "tp_accepted tp' = tp_accepted tp"
      "tp_pcs tp' = (tp_pcs tp)[i := pc]"
      "if xss ! i = [] then xss' = xss \<and> pc = W_Steal else (\<exists>t. pc = W_Task t) \<and> to_do tp' xss' < to_do tp xss" by auto
    then have "pc \<noteq> W_Exited" by (auto split: if_splits)
    with keep t w same [of tp' pc] W_Loop show ?thesis
      by (intro exI [of _ tp'] exI [of _ xss'] exI [of _ pc]) (auto simp: idle_step_def split: if_splits)
  next
    case W_Steal
    have d: "donor tp i < tp_threads tp" using i by (simp add: donor_def)
    from W_Steal have w: "Worker_Routine pop i tp = take_from pop i (donor tp i) W_Loop tp" by (simp add: Worker_Routine_def)
    from take_from_result [OF inv i d, of W_Loop] W_Steal obtain tp' xss' pc where
      t: "take_from pop i (donor tp i) W_Loop tp = Some tp'" "pool_inv contents tp' xss'"
      "tp_threads tp' = tp_threads tp" "tp_running tp' = tp_running tp" "tp_accepted tp' = tp_accepted tp"
      "tp_pcs tp' = (tp_pcs tp)[i := pc]"
      "if xss ! donor tp i = [] then xss' = xss \<and> pc = W_Loop
       else (\<exists>t. pc = W_Task t) \<and> to_do tp' xss' < to_do tp xss" by auto
    then have "pc \<noteq> W_Exited" by (auto split: if_splits)
    with keep t w same [of tp' pc] W_Steal show ?thesis
      by (intro exI [of _ tp'] exI [of _ xss'] exI [of _ pc]) (auto simp: idle_step_def split: if_splits)
  next
    case (W_Task t)
    let ?tp = "tp\<lparr>tp_pcs := (tp_pcs tp)[i := W_Loop], tp_done := tp_done tp @ [t]\<rparr>"
    have w: "Worker_Routine pop i tp = Some ?tp" using W_Task by (simp add: Worker_Routine_def)
    have "pool_inv contents ?tp xss"
      using in_work_update [of i "tp_pcs tp" W_Loop] inv W_Task i by (simp add: pool_inv_def)
    moreover have "to_do ?tp xss < to_do tp xss"
      using size_in_work_update [of i "tp_pcs tp" W_Loop] W_Task i len by (simp add: to_do_def)
    moreover have "all_running ?tp" by (rule keep [of _ W_Loop]) simp_all
    ultimately show ?thesis using w by (intro exI [of _ ?tp] exI [of _ xss] exI [of _ W_Loop]) simp
  qed (use r in simp)
qed

text \<open>
  A schedule gets something done, or all its steps were idle: then no worker of it was in a task, and the queue of
  one that started in the loop was empty, or of one that does not end there.
\<close>

lemma schedule_progress:
  assumes "pool_inv contents tp xss" and "set is \<subseteq> {..<tp_threads tp}" and "all_running tp"
  shows "\<exists>tp' xss'. run_workers pop is tp = Some tp' \<and> pool_inv contents tp' xss' \<and> all_running tp' \<and>
    tp_threads tp' = tp_threads tp \<and> tp_accepted tp' = tp_accepted tp \<and>
    (to_do tp' xss' < to_do tp xss \<or> xss' = xss \<and> to_do tp' xss' = to_do tp xss \<and>
      (\<forall>i. i \<notin> set is \<longrightarrow> tp_pcs tp' ! i = tp_pcs tp ! i) \<and>
      (\<forall>i \<in> set is. task_of (tp_pcs tp ! i) = {#} \<and> (tp_pcs tp ! i = W_Loop \<longrightarrow> xss ! i = []) \<and>
        (tp_pcs tp' ! i = W_Loop \<or> xss ! i = [])))"
  using assms
proof (induction "is" arbitrary: tp xss)
  case (Cons j "is")
  have j: "j < tp_threads tp" using Cons.prems(2) by simp
  have len: "length (tp_pcs tp) = tp_threads tp" using Cons.prems(1) by (simp add: pool_inv_def)
  obtain tp1 xss1 pc where s1: "Worker_Routine pop j tp = Some tp1" "pool_inv contents tp1 xss1" "all_running tp1"
    "tp_threads tp1 = tp_threads tp" "tp_accepted tp1 = tp_accepted tp" "tp_pcs tp1 = (tp_pcs tp)[j := pc]"
    and c1: "to_do tp1 xss1 < to_do tp xss \<or> xss1 = xss \<and> to_do tp1 xss1 = to_do tp xss \<and> idle_step tp xss j pc"
    using Routine_progress [OF Cons.prems(1) j Cons.prems(3)] by blast
  have "set is \<subseteq> {..<tp_threads tp1}" using Cons.prems(2) s1(4) by simp
  from Cons.IH [OF s1(2) this s1(3)] obtain tp' xss' where s2: "run_workers pop is tp1 = Some tp'"
    "pool_inv contents tp' xss'" "all_running tp'" "tp_threads tp' = tp_threads tp1" "tp_accepted tp' = tp_accepted tp1"
    and c2: "to_do tp' xss' < to_do tp1 xss1 \<or> xss' = xss1 \<and> to_do tp' xss' = to_do tp1 xss1 \<and>
      (\<forall>i. i \<notin> set is \<longrightarrow> tp_pcs tp' ! i = tp_pcs tp1 ! i) \<and>
      (\<forall>i \<in> set is. task_of (tp_pcs tp1 ! i) = {#} \<and> (tp_pcs tp1 ! i = W_Loop \<longrightarrow> xss1 ! i = []) \<and>
        (tp_pcs tp' ! i = W_Loop \<or> xss1 ! i = []))" by blast
  have "to_do tp' xss' < to_do tp xss \<or> xss' = xss \<and> to_do tp' xss' = to_do tp xss \<and>
      (\<forall>i. i \<notin> set (j # is) \<longrightarrow> tp_pcs tp' ! i = tp_pcs tp ! i) \<and>
      (\<forall>i \<in> set (j # is). task_of (tp_pcs tp ! i) = {#} \<and> (tp_pcs tp ! i = W_Loop \<longrightarrow> xss ! i = []) \<and>
        (tp_pcs tp' ! i = W_Loop \<or> xss ! i = []))" (is "_ \<or> ?idle")
  proof (cases "to_do tp' xss' < to_do tp xss")
    case False
    with c1 c2 have i1: "xss1 = xss" "to_do tp1 xss1 = to_do tp xss" "idle_step tp xss j pc"
      and i2: "xss' = xss1" "to_do tp' xss' = to_do tp1 xss1" "\<forall>i. i \<notin> set is \<longrightarrow> tp_pcs tp' ! i = tp_pcs tp1 ! i"
      "\<forall>i \<in> set is. task_of (tp_pcs tp1 ! i) = {#} \<and> (tp_pcs tp1 ! i = W_Loop \<longrightarrow> xss1 ! i = []) \<and>
        (tp_pcs tp' ! i = W_Loop \<or> xss1 ! i = [])" by auto
    have pcs1: "tp_pcs tp1 ! i = (if i = j then pc else tp_pcs tp ! i)" for i using s1(6) j len by simp
    have at_j: "task_of (tp_pcs tp ! j) = {#}" "tp_pcs tp ! j = W_Loop \<longrightarrow> xss ! j = []" "pc = W_Loop \<or> xss ! j = []"
      using i1(3) by (auto simp: idle_step_def)
    have "task_of (tp_pcs tp ! i) = {#} \<and> (tp_pcs tp ! i = W_Loop \<longrightarrow> xss ! i = []) \<and>
        (tp_pcs tp' ! i = W_Loop \<or> xss ! i = [])" if "i \<in> set (j # is)" for i
    proof (cases "i = j")
      case True
      with at_j i1(1) i2(3) [rule_format, of j] i2(4) pcs1 [of j] show ?thesis by (cases "j \<in> set is") auto
    next
      case False
      with that i2(4) i1(1) pcs1 [of i] show ?thesis by auto
    qed
    moreover have "\<forall>i. i \<notin> set (j # is) \<longrightarrow> tp_pcs tp' ! i = tp_pcs tp ! i" using i2(3) pcs1 by auto
    ultimately show ?thesis using i1 i2 by auto
  qed simp
  with s1 s2 show ?case by auto
qed auto

text \<open>Two rounds get something done when there is something to do.\<close>

lemma two_rounds:
  assumes inv: "pool_inv contents tp xss" and run: "all_running tp" and "round_of (tp_threads tp) is"
    and "round_of (tp_threads tp) js"
  shows "\<exists>tp' xss'. run_workers pop (is @ js) tp = Some tp' \<and> pool_inv contents tp' xss' \<and> all_running tp' \<and>
    tp_threads tp' = tp_threads tp \<and> tp_accepted tp' = tp_accepted tp \<and>
    (to_do tp' xss' < to_do tp xss \<or> to_do tp xss = 0 \<and> to_do tp' xss' = 0)"
proof -
  have sub: "set is = {..<tp_threads tp}" "set js = {..<tp_threads tp}" using assms(3,4) by (simp_all add: round_of_def)
  obtain tp1 xss1 where s1: "run_workers pop is tp = Some tp1" "pool_inv contents tp1 xss1" "all_running tp1"
    "tp_threads tp1 = tp_threads tp" "tp_accepted tp1 = tp_accepted tp"
    and c1: "to_do tp1 xss1 < to_do tp xss \<or> xss1 = xss \<and> to_do tp1 xss1 = to_do tp xss \<and>
      (\<forall>i \<in> set is. task_of (tp_pcs tp ! i) = {#} \<and> (tp_pcs tp ! i = W_Loop \<longrightarrow> xss ! i = []) \<and>
        (tp_pcs tp1 ! i = W_Loop \<or> xss ! i = []))"
    using schedule_progress [OF inv _ run, of "is"] sub(1) by blast
  obtain tp2 xss2 where s2: "run_workers pop js tp1 = Some tp2" "pool_inv contents tp2 xss2" "all_running tp2"
    "tp_threads tp2 = tp_threads tp1" "tp_accepted tp2 = tp_accepted tp1"
    and c2: "to_do tp2 xss2 < to_do tp1 xss1 \<or> xss2 = xss1 \<and> to_do tp2 xss2 = to_do tp1 xss1 \<and>
      (\<forall>i \<in> set js. task_of (tp_pcs tp1 ! i) = {#} \<and> (tp_pcs tp1 ! i = W_Loop \<longrightarrow> xss1 ! i = []) \<and>
        (tp_pcs tp2 ! i = W_Loop \<or> xss1 ! i = []))"
    using schedule_progress [OF s1(2) _ s1(3), of js] sub(2) s1(4) by (metis order_refl)
  have "to_do tp2 xss2 < to_do tp xss \<or> to_do tp xss = 0 \<and> to_do tp2 xss2 = 0"
  proof (cases "to_do tp2 xss2 < to_do tp xss")
    case False
    have i1: "\<not> to_do tp1 xss1 < to_do tp xss" using False c2 by (elim disjE conjE) linarith+
    have i2: "\<not> to_do tp2 xss2 < to_do tp1 xss1" using False i1 c1 by (elim disjE conjE) linarith+
    note e1 = c1 [unfolded sub, simplified i1 simp_thms] and e2 = c2 [unfolded sub, simplified i2 simp_thms]
    have e: "to_do tp2 xss2 = to_do tp xss" using e1 e2 by (elim conjE) simp
    have idle: "task_of (tp_pcs tp ! i) = {#}" "xss ! i = []" if "i < tp_threads tp" for i
      using e1 e2 that by (elim conjE; metis lessThan_iff)+
    have "length xss = tp_threads tp" "length (tp_pcs tp) = tp_threads tp"
      using inv by (auto simp: pool_inv_def list_all2_lengthD)
    with idle have "\<forall>xs \<in> set xss. xs = []" "\<forall>pc \<in> set (tp_pcs tp). task_of pc = {#}"
      by (auto simp: in_set_conv_nth)
    then have "queued xss = {#}" "in_work (tp_pcs tp) = {#}" by (simp_all add: queued_def in_work_def sum_list_none)
    then have "to_do tp xss = 0" by (simp add: to_do_def)
    then show ?thesis using e by simp
  qed simp
  with s1 s2 show ?thesis by (auto simp: run_workers_append)
qed

lemma rounds_finish:
  assumes "pool_inv contents tp xss" and "all_running tp" and "\<forall>is \<in> set rounds. round_of (tp_threads tp) is"
    and "2 * to_do tp xss \<le> length rounds"
  shows "\<exists>tp' xss'. run_workers pop (concat rounds) tp = Some tp' \<and> pool_inv contents tp' xss' \<and> all_running tp' \<and>
    tp_threads tp' = tp_threads tp \<and> tp_accepted tp' = tp_accepted tp \<and> to_do tp' xss' = 0"
  using assms
proof (induction "length rounds" arbitrary: rounds tp xss rule: less_induct)
  case less
  show ?case
  proof (cases rounds)
    case Nil
    with less.prems show ?thesis by auto
  next
    case (Cons r1 rs)
    show ?thesis
    proof (cases rs)
      case Nil
      have zero: "to_do tp xss = 0" using less.prems(4) Cons Nil by simp
      have "set r1 \<subseteq> {..<tp_threads tp}" using less.prems(3) Cons by (simp add: round_of_def)
      from schedule_progress [OF less.prems(1) this less.prems(2)] zero Cons Nil show ?thesis by fastforce
    next
      case (Cons r2 rs')
      have r: "round_of (tp_threads tp) r1" "round_of (tp_threads tp) r2" "length rounds = Suc (Suc (length rs'))"
        "concat rounds = (r1 @ r2) @ concat rs'" using less.prems(3) \<open>rounds = r1 # rs\<close> Cons by simp_all
      obtain tp1 xss1 where s1: "run_workers pop (r1 @ r2) tp = Some tp1" "pool_inv contents tp1 xss1" "all_running tp1"
        "tp_threads tp1 = tp_threads tp" "tp_accepted tp1 = tp_accepted tp"
        and d: "to_do tp1 xss1 < to_do tp xss \<or> to_do tp xss = 0 \<and> to_do tp1 xss1 = 0"
        using two_rounds [OF less.prems(1,2) r(1,2)] by blast
      have "length rs' < length rounds" "2 * to_do tp1 xss1 \<le> length rs'" "\<forall>is \<in> set rs'. round_of (tp_threads tp1) is"
        using r(3) d less.prems(3,4) s1(4) \<open>rounds = r1 # rs\<close> Cons by auto
      from less.hyps [OF this(1) s1(2,3) this(3,2)] s1(4,5)
        show ?thesis by (simp only: r(4) run_workers_append [of pop "r1 @ r2"] s1(1) option.case)
    qed
  qed
qed

lemma to_do_bound:
  assumes "pool_inv contents tp xss"
  shows "to_do tp xss \<le> 2 * (length (tp_accepted tp) - length (tp_done tp))"
    and "to_do tp xss = 0 \<Longrightarrow> mset (tp_done tp) = mset (tp_accepted tp)"
proof -
  have m: "mset (tp_accepted tp) = mset (tp_done tp) + in_work (tp_pcs tp) + queued xss"
    using assms by (simp add: pool_inv_def)
  from arg_cong [OF this, of size] show "to_do tp xss \<le> 2 * (length (tp_accepted tp) - length (tp_done tp))"
    by (simp add: to_do_def)
  show "mset (tp_done tp) = mset (tp_accepted tp)" if "to_do tp xss = 0" using m that by (simp add: to_do_def)
qed

lemma tasks_get_done:
  assumes "pool_inv contents tp xss" and "all_running tp" and "\<forall>is \<in> set rounds. round_of (tp_threads tp) is"
    and "4 * (length (tp_accepted tp) - length (tp_done tp)) \<le> length rounds"
  shows "\<exists>tp'. run_workers pop (concat rounds) tp = Some tp' \<and> tp_accepted tp' = tp_accepted tp \<and>
    mset (tp_done tp') = mset (tp_accepted tp)"
proof -
  have "2 * to_do tp xss \<le> length rounds" using to_do_bound(1) [OF assms(1)] assms(4) by linarith
  from rounds_finish [OF assms(1-3) this] to_do_bound(2) show ?thesis by metis
qed

end

section \<open>Stopping\<close>

text \<open>How many steps a worker that has been told to stop is away from the end of its routine.\<close>

definition to_exit :: "'a wpc \<Rightarrow> nat" where
  "to_exit pc = (case pc of W_Exited \<Rightarrow> 0 | W_Loop \<Rightarrow> 1 | W_Task t \<Rightarrow> 2 | W_Steal \<Rightarrow> 3)"

context bounded_fifo
begin

lemma Routine_exit:
  assumes "pool_inv contents tp xss" and "i < tp_threads tp"
  shows "\<exists>tp' xss'. Worker_Routine pop i tp = Some tp' \<and> pool_inv contents tp' xss' \<and> tp_threads tp' = tp_threads tp \<and>
    tp_running tp' = tp_running tp \<and> tp_accepted tp' = tp_accepted tp \<and> (\<forall>k. k \<noteq> i \<longrightarrow> tp_pcs tp' ! k = tp_pcs tp ! k) \<and>
    (\<not> tp_running tp ! i \<longrightarrow> to_exit (tp_pcs tp' ! i) \<le> to_exit (tp_pcs tp ! i) - 1)"
proof -
  obtain tp' xss' where r: "Worker_Routine pop i tp = Some tp'" "pool_inv contents tp' xss'"
    using Routine_inv [OF assms] by blast
  have "i < length (tp_pcs tp)" using assms by (simp add: pool_inv_def)
  with r show ?thesis
    by (auto simp: Worker_Routine_def take_from_def to_exit_def split: wpc.splits option.splits prod.splits if_splits)
qed

lemma schedule_exit:
  assumes "pool_inv contents tp xss" and "set is \<subseteq> {..<tp_threads tp}"
  shows "\<exists>tp' xss'. run_workers pop is tp = Some tp' \<and> pool_inv contents tp' xss' \<and> tp_threads tp' = tp_threads tp \<and>
    tp_running tp' = tp_running tp \<and> tp_accepted tp' = tp_accepted tp \<and>
    (\<forall>i. \<not> tp_running tp ! i \<longrightarrow> to_exit (tp_pcs tp' ! i) \<le> to_exit (tp_pcs tp ! i) - count_list is i)"
  using assms
proof (induction "is" arbitrary: tp xss)
  case (Cons j "is")
  have j: "j < tp_threads tp" using Cons.prems(2) by simp
  obtain tp1 xss1 where s1: "Worker_Routine pop j tp = Some tp1" "pool_inv contents tp1 xss1" "tp_threads tp1 = tp_threads tp"
    "tp_running tp1 = tp_running tp" "tp_accepted tp1 = tp_accepted tp" "\<forall>k. k \<noteq> j \<longrightarrow> tp_pcs tp1 ! k = tp_pcs tp ! k"
    "\<not> tp_running tp ! j \<longrightarrow> to_exit (tp_pcs tp1 ! j) \<le> to_exit (tp_pcs tp ! j) - 1"
    using Routine_exit [OF Cons.prems(1) j] by blast
  have "set is \<subseteq> {..<tp_threads tp1}" using Cons.prems(2) s1(3) by simp
  from Cons.IH [OF s1(2) this] obtain tp' xss' where s2: "run_workers pop is tp1 = Some tp'" "pool_inv contents tp' xss'"
    "tp_threads tp' = tp_threads tp1" "tp_running tp' = tp_running tp1" "tp_accepted tp' = tp_accepted tp1"
    "\<forall>i. \<not> tp_running tp1 ! i \<longrightarrow> to_exit (tp_pcs tp' ! i) \<le> to_exit (tp_pcs tp1 ! i) - count_list is i" by blast
  have "to_exit (tp_pcs tp' ! i) \<le> to_exit (tp_pcs tp ! i) - count_list (j # is) i" if "\<not> tp_running tp ! i" for i
  proof (cases "i = j")
    case True
    with that s1(4,7) s2(6) have "to_exit (tp_pcs tp' ! i) \<le> to_exit (tp_pcs tp1 ! i) - count_list is i"
      "to_exit (tp_pcs tp1 ! i) \<le> to_exit (tp_pcs tp ! i) - 1" by auto
    with True show ?thesis by simp
  next
    case False
    then have "tp_pcs tp1 ! i = tp_pcs tp ! i" using s1(6) by simp
    moreover have "to_exit (tp_pcs tp' ! i) \<le> to_exit (tp_pcs tp1 ! i) - count_list is i"
      using s2(6) that s1(4) by simp
    ultimately show ?thesis using False by simp
  qed
  with s1 s2 show ?case by auto
qed auto

lemma to_exit_simps [simp]: "to_exit pc = 0 \<longleftrightarrow> pc = W_Exited" "to_exit pc \<le> 3"
  by (simp_all add: to_exit_def split: wpc.splits)

lemma stop_and_join_returns:
  assumes "pool_inv contents tp xss"
    and "\<forall>(i, is) \<in> set joins. i < tp_threads tp \<and> set is \<subseteq> {..<tp_threads tp} \<and> 3 \<le> count_list is i"
  shows "\<exists>tp' xss'. stop_and_join pop joins tp = Some tp' \<and> pool_inv contents tp' xss' \<and> tp_threads tp' = tp_threads tp \<and>
    tp_accepted tp' = tp_accepted tp \<and> (\<forall>i. tp_pcs tp ! i = W_Exited \<and> \<not> tp_running tp ! i \<longrightarrow> tp_pcs tp' ! i = W_Exited) \<and>
    (\<forall>i \<in> fst ` set joins. tp_pcs tp' ! i = W_Exited)"
  using assms
proof (induction joins arbitrary: tp xss)
  case (Cons h joins)
  obtain i "is" where h: "h = (i, is)" by (cases h)
  with Cons.prems(2) have i: "i < tp_threads tp" "set is \<subseteq> {..<tp_threads tp}" "3 \<le> count_list is i" by auto
  let ?tp0 = "Worker_Stop i tp"
  have inv0: "pool_inv contents ?tp0 xss" and th: "tp_threads ?tp0 = tp_threads tp" "tp_pcs ?tp0 = tp_pcs tp"
    "tp_accepted ?tp0 = tp_accepted tp" and stopped: "\<not> tp_running ?tp0 ! i" "\<And>k. \<not> tp_running tp ! k \<Longrightarrow> \<not> tp_running ?tp0 ! k"
    using Cons.prems(1) i(1) by (auto simp: pool_inv_def Worker_Stop_def nth_list_update)
  obtain tp1 xss1 where s1: "run_workers pop is ?tp0 = Some tp1" "pool_inv contents tp1 xss1" "tp_threads tp1 = tp_threads tp"
    "tp_running tp1 = tp_running ?tp0" "tp_accepted tp1 = tp_accepted tp"
    "\<forall>k. \<not> tp_running ?tp0 ! k \<longrightarrow> to_exit (tp_pcs tp1 ! k) \<le> to_exit (tp_pcs tp ! k) - count_list is k"
    using schedule_exit [OF inv0, of "is"] i(2) th by auto
  have "to_exit (tp_pcs tp1 ! i) = 0" 
    using s1(6) [rule_format, OF stopped(1)] i(3) to_exit_simps(2) [of "tp_pcs tp ! i"] by linarith
  then have ex: "tp_pcs tp1 ! i = W_Exited" by simp
  obtain tp' xss' where s2: "stop_and_join pop joins tp1 = Some tp'" "pool_inv contents tp' xss'" "tp_threads tp' = tp_threads tp1"
    "tp_accepted tp' = tp_accepted tp1"
    "\<forall>k. tp_pcs tp1 ! k = W_Exited \<and> \<not> tp_running tp1 ! k \<longrightarrow> tp_pcs tp' ! k = W_Exited"
    "\<forall>k \<in> fst ` set joins. tp_pcs tp' ! k = W_Exited"
    using Cons.IH [OF s1(2)] Cons.prems(2) s1(3) by auto
  have "tp_pcs tp' ! k = W_Exited" if "tp_pcs tp ! k = W_Exited" "\<not> tp_running tp ! k" for k
  proof -
    have "to_exit (tp_pcs tp1 ! k) \<le> to_exit (tp_pcs tp ! k) - count_list is k" using s1(6) stopped(2) that(2) by blast
    then have "tp_pcs tp1 ! k = W_Exited" using that(1) by (metis to_exit_simps(1) diff_0_eq_0 le_zero_eq)
    with s2(5) s1(4) stopped(2) that(2) show ?thesis by simp
  qed
  moreover have "tp_pcs tp' ! i = W_Exited" using s2(5) ex s1(4) stopped(1) by simp
  ultimately show ?case using h s1 s2 ex by auto
qed auto

text \<open>A worker leaves its loop only when it has been told to stop.\<close>

lemma exited_stopped:
  assumes "pool_step push pop (\<lambda>q. 0 < budget q) tp tp'" and "pool_inv contents tp xss"
    and "\<forall>i < tp_threads tp. tp_pcs tp ! i = W_Exited \<longrightarrow> \<not> tp_running tp ! i"
  shows "tp_threads tp' = tp_threads tp \<and> (\<forall>i < tp_threads tp. tp_pcs tp' ! i = W_Exited \<longrightarrow> \<not> tp_running tp' ! i)"
  using assms(1)
proof (cases rule: pool_step.cases)
  case (submit task b)
  with assms(3) show ?thesis
    by (auto simp: ThreadPool_Submit_def Let_def split: option.splits prod.splits)
next
  case (work i)
  have "length (tp_pcs tp) = tp_threads tp" using assms(2) by (simp add: pool_inv_def)
  with work assms(3) show ?thesis
    by (auto simp: Worker_Routine_def take_from_def nth_list_update
        split: wpc.splits option.splits prod.splits if_splits)
next
  case (stop i)
  with assms(2,3) show ?thesis by (auto simp: Worker_Stop_def pool_inv_def nth_list_update)
qed

lemma exited_stopped_run:
  assumes "(pool_step push pop (\<lambda>q. 0 < budget q))\<^sup>*\<^sup>* tp tp'" and "pool_inv contents tp xss"
    and "\<forall>i < tp_threads tp. tp_pcs tp ! i = W_Exited \<longrightarrow> \<not> tp_running tp ! i"
  shows "tp_threads tp' = tp_threads tp \<and> (\<forall>i < tp_threads tp. tp_pcs tp' ! i = W_Exited \<longrightarrow> \<not> tp_running tp' ! i)"
  using assms(1)
proof (induction rule: rtranclp_induct)
  case (step tp1 tp2)
  obtain xss1 where "pool_inv contents tp1 xss1" using pool_steps_inv [OF step(1) assms(2)] by blast
  from exited_stopped [OF step(2) this] step.IH show ?case by simp
qed (use assms(3) in simp)

end

lemma ThreadPool_new_threads:
  assumes "ThreadPool_new dflt threads capacity = Ret tp"
  shows "tp_threads tp = threads" and "\<forall>i < threads. tp_pcs tp ! i = W_Loop"
    and "tp_running tp = replicate threads True" and "tp_accepted tp = []" and "tp_done tp = []"
proof -
  obtain ws where "tp = \<lparr>tp_threads = threads, tp_workers = ws, tp_running = replicate threads True,
      tp_pcs = replicate threads W_Loop, tp_next = 0, tp_accepted = [], tp_done = []\<rparr>"
    using assms by (cases "replicate_outcome threads (Worker_new dflt capacity)")
      (auto simp: ThreadPool_new_def split: if_splits)
  then show "tp_threads tp = threads" "\<forall>i < threads. tp_pcs tp ! i = W_Loop" "tp_running tp = replicate threads True"
    "tp_accepted tp = []" "tp_done tp = []" by simp_all
qed

text \<open>A pool of two workers that has accepted one task.\<close>

lemma sample_submitted:
  obtains tp0 tp :: "(nat Queue, nat) ThreadPool"
  where "ThreadPool_new 0 2 3 = Ret tp0" "ThreadPool_Submit (Push id) 9 tp0 = Some (True, tp)"
    "(pool_step (Push id) (Pop id) (\<lambda>q. 0 < q_budget q))\<^sup>*\<^sup>* tp0 tp" "MakePowerOfTwo 3 = 4"
    "tp_running tp = replicate 2 True" "tp_accepted tp = [9]" "tp_done tp = []"
proof -
  obtain tp0 :: "(nat Queue, nat) ThreadPool" where tp0: "ThreadPool_new 0 2 3 = Ret tp0" "tp_next tp0 = 0"
    "tp_threads tp0 = 2" "pool_inv holds tp0 [[], []]"
    "\<forall>q \<in> set (tp_workers tp0). q_bound q = 4 \<and> 0 < q_budget q" "length (tp_workers tp0) = 2" "MakePowerOfTwo 3 = 4"
    by (rule sample_pool)
  then have w: "q_bound (tp_workers tp0 ! 0) = 4" and b: "\<forall>q \<in> set (tp_workers tp0). 0 < q_budget q" by simp_all
  from mpmc.Submit_result [OF tp0(4) b refl, of id 9] tp0 w obtain tp where
    sub: "ThreadPool_Submit (Push id) 9 tp0 = Some (True, tp)" by auto
  have step: "(pool_step (Push id) (Pop id) (\<lambda>q. 0 < q_budget q))\<^sup>*\<^sup>* tp0 tp"
    by (rule r_into_rtranclp) (use sub b in \<open>auto intro: pool_step.submit\<close>)
  from sub ThreadPool_new_threads(3-5) [OF tp0(1)]
  have st: "tp_running tp = replicate 2 True" "tp_accepted tp = [9]" "tp_done tp = []"
    by (auto simp: ThreadPool_Submit_def Let_def split: option.splits prod.splits)
  from that tp0(1,7) sub step st show thesis by blast
qed

section \<open>Properties\<close>

text \<open>
  C14: accepted tasks get done. In every state a pool can reach with all its workers running, whatever was submitted
  before, every schedule of four rounds for each task that is not done yet does them all: no task stays in a queue
  or in a worker, in whatever order the workers run and whichever worker takes which task.
\<close>

theorem pool_tasks_get_done:
  assumes "ThreadPool_new dflt threads capacity = Ret tp0"
    and "2 \<le> unat (MakePowerOfTwo capacity)" and "unat (MakePowerOfTwo capacity) < 2 ^ 63"
    and "(pool_step (Push moved) (Pop moved) (\<lambda>q. 0 < q_budget q))\<^sup>*\<^sup>* tp0 tp"
    and "\<forall>i < threads. tp_running tp ! i" and "\<forall>is \<in> set rounds. round_of threads is"
    and "4 * (length (tp_accepted tp) - length (tp_done tp)) \<le> length rounds"
  shows "\<exists>tp'. run_workers (Pop moved) (concat rounds) tp = Some tp' \<and> tp_accepted tp' = tp_accepted tp \<and>
    mset (tp_done tp') = mset (tp_accepted tp)"
proof -
  note new = ThreadPool_new_threads [OF assms(1)] and inv0 = ThreadPool_new_inv(1) [OF assms(1-3)]
  obtain xss where inv: "pool_inv holds tp xss" using mpmc.pool_steps_inv [OF assms(4) inv0] by blast
  have run: "tp_threads tp = threads" "all_running tp"
    using mpmc.exited_stopped_run [OF assms(4) inv0] new assms(5) by (auto simp: all_running_def)
  from mpmc.tasks_get_done [OF inv run(2) _ assms(7)] assms(6) run(1) show ?thesis by simp
qed

text \<open>One task, two workers; the second worker steals it.\<close>

lemma pool_tasks_get_done_witness:
  "\<exists>(tp0 :: (nat Queue, nat) ThreadPool) tp tp'. ThreadPool_new 0 2 3 = Ret tp0 \<and>
    ThreadPool_Submit (Push id) 9 tp0 = Some (True, tp) \<and>
    run_workers (Pop id) (concat (replicate 4 [1, 0])) tp = Some tp' \<and> tp_done tp' = [9]"
proof -
  obtain tp0 tp :: "(nat Queue, nat) ThreadPool" where h: "ThreadPool_new 0 2 3 = Ret tp0"
    "ThreadPool_Submit (Push id) 9 tp0 = Some (True, tp)"
    "(pool_step (Push id) (Pop id) (\<lambda>q. 0 < q_budget q))\<^sup>*\<^sup>* tp0 tp" "MakePowerOfTwo 3 = 4"
    "tp_running tp = replicate 2 True" "tp_accepted tp = [9]" "tp_done tp = []"
    by (rule sample_submitted)
  have rounds: "\<forall>is \<in> set (replicate 4 [1, 0 :: nat]). round_of 2 is" by (auto simp: round_of_def)
  obtain tp' where "run_workers (Pop id) (concat (replicate 4 [1, 0])) tp = Some tp'" "mset (tp_done tp') = mset [9]"
    using pool_tasks_get_done [OF h(1) _ _ h(3) _ rounds] h(4-7) by auto
  then show ?thesis using h(1,2) by (auto simp: mset_single_iff)
qed

text \<open>
  C15: the destructor returns, and does not wait for the queues. In every state a pool can reach, if each worker makes
  three steps while it is joined (the others make any), every join returns and all workers have left their
  loops; the accepted tasks that were not done are those in the queues, which nothing runs any more.
\<close>

theorem pool_destructor_returns:
  assumes "ThreadPool_new dflt threads capacity = Ret tp0"
    and "2 \<le> unat (MakePowerOfTwo capacity)" and "unat (MakePowerOfTwo capacity) < 2 ^ 63"
    and "(pool_step (Push moved) (Pop moved) (\<lambda>q. 0 < q_budget q))\<^sup>*\<^sup>* tp0 tp"
    and "map fst joins = [0..<threads]"
    and "\<forall>(i, is) \<in> set joins. set is \<subseteq> {..<threads} \<and> 3 \<le> count_list is i"
  shows "\<exists>tp' xss. stop_and_join (Pop moved) joins tp = Some tp' \<and> (\<forall>i < threads. tp_pcs tp' ! i = W_Exited) \<and>
    list_all2 holds (tp_workers tp') xss \<and> tp_accepted tp' = tp_accepted tp \<and>
    mset (tp_accepted tp) = mset (tp_done tp') + queued xss"
proof -
  note inv0 = ThreadPool_new_inv(1) [OF assms(1-3)]
  obtain xss where inv: "pool_inv holds tp xss" using mpmc.pool_steps_inv [OF assms(4) inv0] by blast
  have th: "tp_threads tp = threads"
    using mpmc.exited_stopped_run [OF assms(4) inv0] ThreadPool_new_threads [OF assms(1)] by simp
  have fst: "fst ` set joins = {..<threads}" using arg_cong [OF assms(5), of set] by auto
  then have "\<forall>(i, is) \<in> set joins. i < tp_threads tp \<and> set is \<subseteq> {..<tp_threads tp} \<and> 3 \<le> count_list is i"
    using assms(6) th by force
  from mpmc.stop_and_join_returns [OF inv this, of moved, unfolded fst] obtain tp' xss' where
    r: "stop_and_join (Pop moved) joins tp = Some tp'" "pool_inv holds tp' xss'" "tp_threads tp' = tp_threads tp"
    "tp_accepted tp' = tp_accepted tp" "\<forall>i \<in> {..<threads}. tp_pcs tp' ! i = W_Exited" by blast
  have "length (tp_pcs tp') = threads" using r(2,3) th by (simp add: pool_inv_def)
  with r(5) have "\<forall>pc \<in> set (tp_pcs tp'). task_of pc = {#}" by (auto simp: in_set_conv_nth)
  then have "in_work (tp_pcs tp') = {#}" by (simp add: in_work_def sum_list_none)
  with r show ?thesis by (auto simp: pool_inv_def)
qed

text \<open>A pool that is destroyed at once: the task it accepted is not done.\<close>

lemma pool_destructor_returns_witness:
  "\<exists>(tp0 :: (nat Queue, nat) ThreadPool) tp tp' xss. ThreadPool_new 0 2 3 = Ret tp0 \<and>
    ThreadPool_Submit (Push id) 9 tp0 = Some (True, tp) \<and>
    stop_and_join (Pop id) [(0, [0, 0, 0]), (1, [1, 1, 1])] tp = Some tp' \<and>
    {#9#} = mset (tp_done tp') + queued xss"
proof -
  obtain tp0 tp :: "(nat Queue, nat) ThreadPool" where h: "ThreadPool_new 0 2 3 = Ret tp0"
    "ThreadPool_Submit (Push id) 9 tp0 = Some (True, tp)"
    "(pool_step (Push id) (Pop id) (\<lambda>q. 0 < q_budget q))\<^sup>*\<^sup>* tp0 tp" "MakePowerOfTwo 3 = 4" "tp_accepted tp = [9]"
    by (rule sample_submitted)
  have joins: "map fst [(0 :: nat, [0 :: nat, 0, 0]), (1, [1, 1, 1])] = [0..<2]" by (simp add: upt_rec)
  from pool_destructor_returns [OF h(1) _ _ h(3) joins] h show ?thesis by fastforce
qed

end
