(* ===== verification/Pool_Service.thy ===== *)
theory Pool_Service
  imports Threaded_Server Pool_Progress
begin

text \<open>
  The workers of a pool together with the system their tasks work on, for the servers that submit connections
  to a pool: a schedule of the workers that does all pending tasks has the effects of all of them, and tasks on lines of
  their own do not disturb each other.
\<close>

section \<open>Schedules with effects\<close>

text \<open>
  A step of worker \<open>i\<close>, where \<open>run\<close> is the effect of a task on the system; \<open>None\<close> is a task that does not return, or
  the end of the process by its exception.
\<close>

definition work_step ::
    "('q \<Rightarrow> ('a option \<times> 'q) option) \<Rightarrow> ('a \<Rightarrow> ('k, unit) action) \<Rightarrow> nat \<Rightarrow>
     'k \<times> ('q, 'a) ThreadPool \<Rightarrow> ('k \<times> ('q, 'a) ThreadPool) option" where
  "work_step pop run i w =
     (case (case tp_pcs (snd w) ! i of W_Task t \<Rightarrow> run t (fst w) | _ \<Rightarrow> Some (Ret (), fst w)) of
        Some (Ret _, k) \<Rightarrow> map_option (Pair k) (Worker_Routine pop i (snd w))
      | _ \<Rightarrow> None)"

fun work_steps ::
    "('q \<Rightarrow> ('a option \<times> 'q) option) \<Rightarrow> ('a \<Rightarrow> ('k, unit) action) \<Rightarrow> nat list \<Rightarrow>
     'k \<times> ('q, 'a) ThreadPool \<Rightarrow> ('k \<times> ('q, 'a) ThreadPool) option" where
  "work_steps pop run [] w = Some w"
| "work_steps pop run (i # is) w =
     (case work_step pop run i w of None \<Rightarrow> None | Some w' \<Rightarrow> work_steps pop run is w')"

lemma work_step_cases:
  assumes "work_step pop run i (k, tp) = Some (k', tp')"
  obtains (task) t where "tp_pcs tp ! i = W_Task t" "run t k = Some (Ret (), k')" "Worker_Routine pop i tp = Some tp'"
    | (idle) "task_of (tp_pcs tp ! i) = {#}" "k' = k" "Worker_Routine pop i tp = Some tp'"
  using assms by (cases "tp_pcs tp ! i") (auto simp: work_step_def task_of_def split: option.splits prod.splits outcome.splits)

lemma Routine_threads: "Worker_Routine pop i tp = Some tp' \<Longrightarrow> tp_threads tp' = tp_threads tp"
  by (auto simp: Worker_Routine_def take_from_def split: wpc.splits option.splits prod.splits if_splits)

text \<open>
  Each of the tasks \<open>M\<close> returns and closes its descriptor, in whatever order they are done.
\<close>

inductive answerable ::
    "('a \<Rightarrow> ('k, unit) action) \<Rightarrow> ('a \<Rightarrow> int) \<Rightarrow> ('k \<Rightarrow> int set) \<Rightarrow> 'k \<Rightarrow> 'a multiset \<Rightarrow> bool" for run fd owned where
  answerable: "(\<forall>t \<in># M. \<exists>k'. run t k = Some (Ret (), k') \<and> fd t \<notin> owned k' \<and>
      answerable run fd owned k' (M - {#t#})) \<Longrightarrow> answerable run fd owned k M"

inductive_cases answerableE: "answerable run fd owned k M"

lemma answerable_none: "answerable run fd owned k {#}"
  by (rule answerable.intros) simp

lemma answerable_one:
  assumes "run t k = Some (Ret (), k')" and "fd t \<notin> owned k'"
  shows "answerable run fd owned k {#t#}"
  using assms answerable_none [of run fd owned k'] by (intro answerable.intros) auto

text \<open>All tasks \<open>M\<close> have been done on the system, once each and one after the other, in some order.\<close>

inductive all_done ::
    "('a \<Rightarrow> ('k, unit) action) \<Rightarrow> 'k \<Rightarrow> 'a multiset \<Rightarrow> 'k \<Rightarrow> bool" for run where
  nothing: "all_done run k {#} k"
| task_done: "t \<in># M \<Longrightarrow> run t k = Some (Ret (), k1) \<Longrightarrow> all_done run k1 (M - {#t#}) k' \<Longrightarrow> all_done run k M k'"

inductive_cases all_done_none: "all_done run k {#} k'"
inductive_cases all_done_oneE: "all_done run k {#t#} k'"

lemma all_done_one: "all_done run k {#t#} k' \<longleftrightarrow> run t k = Some (Ret (), k')"
proof
  assume "all_done run k {#t#} k'"
  then show "run t k = Some (Ret (), k')" by (auto elim!: all_done_oneE elim: all_done_none)
next
  assume r: "run t k = Some (Ret (), k')"
  show "all_done run k {#t#} k'" by (rule all_done.task_done [of t _ run, OF _ r]) (simp_all add: all_done.nothing)
qed

lemma all_done_step:
  assumes "work_step pop run i (k, tp) = Some (k1, tp1)" and "pool_inv contents tp xss" and "i < tp_threads tp"
    and "all_done run k1 (pending_tasks tp1) k'"
  shows "all_done run k (pending_tasks tp) k'"
  using assms(1)
proof (cases rule: work_step_cases)
  case (task t)
  with pending_Routine [OF task(3)] assms(4) have "all_done run k1 (pending_tasks tp - {#t#}) k'" by simp
  then show ?thesis by (rule all_done.task_done [of t _ run, OF pending_task [OF assms(2,3) task(1)] task(2)])
next
  case idle
  with pending_Routine [OF idle(3)] assms(4) show ?thesis by simp
qed

abbreviation task_fds :: "('a \<Rightarrow> int) \<Rightarrow> ('q, 'a) ThreadPool \<Rightarrow> int set" where
  "task_fds fd tp \<equiv> fd ` set_mset (pending_tasks tp)"

locale pool_service = fifo: bounded_fifo push pop contents bound budget
  for push :: "'q \<Rightarrow> 'a \<Rightarrow> (bool \<times> 'q) option" and pop contents bound budget +
  fixes run :: "'a \<Rightarrow> ('k, unit) action" and fd :: "'a \<Rightarrow> int" and owned :: "'k \<Rightarrow> int set"
  assumes run_owned: "run t k = Some (oc, k') \<Longrightarrow> 0 < fd t \<Longrightarrow> owned k - {fd t} \<subseteq> owned k' \<and> owned k' \<subseteq> owned k"
begin

text \<open>What does not change: the descriptors that are not those of pending tasks.\<close>

lemma work_step_answered:
  assumes p: "pool_inv contents tp xss" and i: "i < tp_threads tp" and pos: "\<forall>x \<in> task_fds fd tp. 0 < x"
    and r: "Worker_Routine pop i tp = Some tp'" and ans: "answerable run fd owned k (pending_tasks tp)"
  shows "\<exists>k'. work_step pop run i (k, tp) = Some (k', tp') \<and> answerable run fd owned k' (pending_tasks tp') \<and>
    task_fds fd tp' \<subseteq> task_fds fd tp \<and> owned k' - task_fds fd tp' = owned k - task_fds fd tp"
proof (cases "\<exists>t. tp_pcs tp ! i = W_Task t")
  case True
  then obtain t where pc: "tp_pcs tp ! i = W_Task t" by blast
  have t: "t \<in># pending_tasks tp" by (rule pending_task [OF p i pc])
  with ans obtain k' where k': "run t k = Some (Ret (), k')" "fd t \<notin> owned k'"
    "answerable run fd owned k' (pending_tasks tp - {#t#})" by (auto elim: answerableE)
  from run_owned [OF k'(1)] t pos k'(2) have own: "owned k' = owned k - {fd t}" by auto
  have pend: "pending_tasks tp' = pending_tasks tp - {#t#}" using pending_Routine [OF r] pc by simp
  then have "task_fds fd tp = insert (fd t) (task_fds fd tp')"
    using t by (metis image_insert insert_DiffM set_mset_add_mset_insert)
  with k' own pend r pc show ?thesis by (auto simp: work_step_def)
next
  case False
  then have "task_of (tp_pcs tp ! i) = {#}" by (cases "tp_pcs tp ! i") auto
  then have "pending_tasks tp' = pending_tasks tp" using pending_Routine [OF r] by simp
  with False r ans show ?thesis by (auto simp: work_step_def split: wpc.splits)
qed

lemma work_steps_answered:
  assumes "pool_inv contents tp xss" and "\<forall>x \<in> task_fds fd tp. 0 < x" and "set is \<subseteq> {..<tp_threads tp}"
    and "run_workers pop is tp = Some tp'" and "answerable run fd owned k (pending_tasks tp)"
  shows "\<exists>k'. work_steps pop run is (k, tp) = Some (k', tp') \<and>
    owned k' - task_fds fd tp' = owned k - task_fds fd tp"
  using assms
proof (induction "is" arbitrary: k tp xss)
  case (Cons i "is")
  obtain tp1 where tp1: "Worker_Routine pop i tp = Some tp1" "run_workers pop is tp1 = Some tp'"
    using Cons.prems(4) by (auto split: option.splits)
  have i: "i < tp_threads tp" using Cons.prems(3) by simp
  obtain k1 where k1: "work_step pop run i (k, tp) = Some (k1, tp1)"
    "answerable run fd owned k1 (pending_tasks tp1)" "task_fds fd tp1 \<subseteq> task_fds fd tp"
    "owned k1 - task_fds fd tp1 = owned k - task_fds fd tp"
    using work_step_answered [OF Cons.prems(1) i Cons.prems(2) tp1(1) Cons.prems(5)] by blast
  obtain xss1 where p1: "pool_inv contents tp1 xss1" using fifo.Routine_inv [OF Cons.prems(1) i] tp1(1) by auto
  have "\<forall>x \<in> task_fds fd tp1. 0 < x" using Cons.prems(2) k1(3) by blast
  from Cons.IH [OF p1 this _ tp1(2) k1(2)] Cons.prems(3) k1 Routine_threads [OF tp1(1)] show ?case by auto
qed simp

lemma work_steps_all_done:
  assumes "pool_inv contents tp xss" and "set is \<subseteq> {..<tp_threads tp}"
    and "work_steps pop run is (k, tp) = Some (k', tp')" and "pending_tasks tp' = {#}"
  shows "all_done run k (pending_tasks tp) k'"
  using assms
proof (induction "is" arbitrary: k tp xss)
  case (Cons i "is")
  obtain k1 tp1 where w: "work_step pop run i (k, tp) = Some (k1, tp1)" "work_steps pop run is (k1, tp1) = Some (k', tp')"
    using Cons.prems(3) by (auto split: option.splits)
  have i: "i < tp_threads tp" using Cons.prems(2) by simp
  have r: "Worker_Routine pop i tp = Some tp1" using w(1) by (cases rule: work_step_cases) auto
  obtain xss1 where p1: "pool_inv contents tp1 xss1" using fifo.Routine_inv [OF Cons.prems(1) i] r by auto
  have "all_done run k1 (pending_tasks tp1) k'"
    using Cons.IH [OF p1 _ w(2) Cons.prems(4)] Cons.prems(2) Routine_threads [OF r] by simp
  then show ?case by (rule all_done_step [OF w(1) Cons.prems(1) i])
qed (simp add: all_done.nothing)

text \<open>Four rounds for each pending task do all of them, and close exactly their descriptors.\<close>

lemma pending_answered:
  assumes "pool_inv contents tp xss" and "\<forall>x \<in> task_fds fd tp. 0 < x" and "all_running tp"
    and "\<forall>is \<in> set rounds. round_of (tp_threads tp) is" and "4 * size (pending_tasks tp) \<le> length rounds"
    and "answerable run fd owned k (pending_tasks tp)"
  shows "\<exists>k' tp'. work_steps pop run (concat rounds) (k, tp) = Some (k', tp') \<and> pending_tasks tp' = {#} \<and>
    all_done run k (pending_tasks tp) k' \<and> owned k' = owned k - task_fds fd tp"
proof -
  have "mset (tp_done tp) \<subseteq># mset (tp_accepted tp)" using assms(1) by (simp add: pool_inv_def)
  then have "size (pending_tasks tp) = length (tp_accepted tp) - length (tp_done tp)"
    by (simp add: pending_tasks_def size_Diff_submset)
  with fifo.tasks_get_done [OF assms(1,3,4)] assms(5) obtain tp' where tp':
    "run_workers pop (concat rounds) tp = Some tp'" "mset (tp_done tp') = mset (tp_accepted tp')" by auto
  then have none: "pending_tasks tp' = {#}" by (simp add: pending_tasks_def)
  have "set (concat rounds) \<subseteq> {..<tp_threads tp}" using assms(4) by (auto simp: round_of_def)
  from work_steps_answered [OF assms(1,2) this tp'(1) assms(6)] work_steps_all_done [OF assms(1) this] none
  show ?thesis by fastforce
qed

end

section \<open>Tasks on lines of their own\<close>

text \<open>
  Each task serves the connection of its descriptor, on a line of its own: it answers on that line, leaves the other
  lines as they are and closes its descriptor. \<open>asks k t\<close> is what the task finds on its line.
\<close>

definition separate :: "('a \<Rightarrow> int) \<Rightarrow> 'a multiset \<Rightarrow> bool" where
  "separate fd M \<longleftrightarrow> (\<forall>x. count (image_mset fd M) x \<le> 1)"

lemma separate_add:
  assumes "separate fd (add_mset t M)"
  shows "separate fd M" and "c \<in># M \<Longrightarrow> fd c \<noteq> fd t"
proof -
  have le: "count (image_mset fd (add_mset t M)) x \<le> 1" for x using assms by (simp add: separate_def)
  show "separate fd M" unfolding separate_def
  proof
    fix x
    show "count (image_mset fd M) x \<le> 1" using le [of x] by (simp split: if_splits)
  qed
  have "count (image_mset fd M) (fd t) = 0" using le [of "fd t"] by simp
  then have "fd t \<notin># image_mset fd M" by (simp only: not_in_iff)
  then show "c \<in># M \<Longrightarrow> fd c \<noteq> fd t" by (metis image_eqI set_image_mset)
qed

locale own_lines =
  fixes run :: "'a \<Rightarrow> ('k, unit) action" and fd :: "'a \<Rightarrow> int" and owned :: "'k \<Rightarrow> int set"
    and line :: "int \<Rightarrow> 'k \<Rightarrow> 'c" and received :: "'c \<Rightarrow> string" and asks :: "'k \<Rightarrow> 'a \<Rightarrow> bool" and reply :: "'a \<Rightarrow> string"
  assumes served: "asks k t \<Longrightarrow> \<exists>k'. run t k = Some (Ret (), k') \<and>
      received (line (fd t) k') = received (line (fd t) k) @ reply t \<and>
      (\<forall>g. g \<noteq> fd t \<longrightarrow> line g k' = line g k) \<and> fd t \<notin> owned k'"
    and asks_line: "asks k t \<Longrightarrow> line (fd t) k' = line (fd t) k \<Longrightarrow> asks k' t"
begin

text \<open>So the tasks can be done in any order.\<close>

lemma lines_answerable:
  assumes "separate fd M" and "\<forall>t \<in># M. asks k t"
  shows "answerable run fd owned k M"
  using assms
proof (induction "size M" arbitrary: M k)
  case 0
  then show ?case by (simp add: answerable_none)
next
  case (Suc n)
  show ?case
  proof (rule answerable.intros, intro ballI)
    fix t
    assume "t \<in># M"
    then obtain M' where M: "M = add_mset t M'" by (auto dest: multi_member_split)
    note sep = separate_add [OF Suc.prems(1) [unfolded M]]
    obtain k' where k': "run t k = Some (Ret (), k')" "\<And>g. g \<noteq> fd t \<Longrightarrow> line g k' = line g k" "fd t \<notin> owned k'"
      using served Suc.prems(2) \<open>t \<in># M\<close> by blast
    have "\<forall>c \<in># M'. asks k' c" using Suc.prems(2) k'(2) sep(2) M by (auto intro: asks_line)
    with Suc.hyps(1) [of M' k'] sep(1) Suc.hyps(2) M k'
    show "\<exists>k'. run t k = Some (Ret (), k') \<and> fd t \<notin> owned k' \<and> answerable run fd owned k' (M - {#t#})" by auto
  qed
qed

text \<open>And when all are done, each line has its own reply, and the other lines are as they were.\<close>

lemma lines_answered:
  assumes "all_done run k M k'" and "separate fd M" and "\<forall>t \<in># M. asks k t"
  shows "(\<forall>t \<in># M. received (line (fd t) k') = received (line (fd t) k) @ reply t) \<and>
    (\<forall>g. g \<notin> fd ` set_mset M \<longrightarrow> line g k' = line g k)"
  using assms
proof (induction rule: all_done.induct)
  case (task_done t M k k1 k')
  obtain M' where M: "M = add_mset t M'" using task_done.hyps(1) by (auto dest: multi_member_split)
  note sep = separate_add [OF task_done.prems(1) [unfolded M]]
  have k1: "received (line (fd t) k1) = received (line (fd t) k) @ reply t" "\<And>g. g \<noteq> fd t \<Longrightarrow> line g k1 = line g k"
    using served [of k t] task_done.prems(2) task_done.hyps(1,2) by auto
  have "\<forall>c \<in># M'. asks k1 c" using task_done.prems(2) k1(2) sep(2) M by (auto intro: asks_line)
  with task_done.IH sep(1) M have rest:
    "\<forall>t \<in># M'. received (line (fd t) k') = received (line (fd t) k1) @ reply t"
    "\<forall>g. g \<notin> fd ` set_mset M' \<longrightarrow> line g k' = line g k1" by simp_all
  have "fd t \<notin> fd ` set_mset M'" using sep(2) by force
  with rest(2) have "line (fd t) k' = line (fd t) k1" by blast
  with rest k1 sep(2) show ?case unfolding M by auto
qed simp

end

end
