(* ===== verification/Threaded_Progress.thy ===== *)
theory Threaded_Progress
  imports Pool_Service
begin

text \<open>
  The threaded server and the progress of its pool: the connections that wait in the queues of a running
  server are handled, all of them, whatever the order in which the workers run.
\<close>

section \<open>Schedules of the server's workers\<close>

definition serve_workers ::
    "('q \<Rightarrow> (AcceptData option \<times> 'q) option) \<Rightarrow> (AcceptData \<Rightarrow> ('k, unit) action) \<Rightarrow> nat list \<Rightarrow>
     ('k \<times> ('q, AcceptData) ThreadPool) server \<Rightarrow> ('k \<times> ('q, AcceptData) ThreadPool) server option" where
  "serve_workers pop handle is s = map_option (\<lambda>w. s\<lparr>sv_world := w\<rparr>) (work_steps pop handle is (sv_world s))"

lemma threaded_run_trans:
  assumes "threaded_run env pop handle room s2 s3" and "threaded_run env pop handle room s1 s2"
  shows "threaded_run env pop handle room s1 s3"
  using assms by (induction rule: threaded_run.induct) (auto intro: threaded_run.more_run)

lemma work_steps_run:
  assumes "work_steps pop handle is (sv_world s) = Some w" and "set is \<subseteq> {..<tp_threads (the_pool s)}"
  shows "threaded_run env pop handle room s (s\<lparr>sv_world := w\<rparr>)"
  using assms
proof (induction "is" arbitrary: s)
  case Nil
  then show ?case by (cases s) (auto intro: threaded_run.begin_run)
next
  case (Cons i "is")
  obtain w1 where w1: "work_step pop handle i (sv_world s) = Some w1" "work_steps pop handle is w1 = Some w"
    using Cons.prems(1) by (auto split: option.splits)
  obtain k tp k1 tp1 where kt: "sv_world s = (k, tp)" "w1 = (k1, tp1)" by (metis prod.exhaust)
  let ?s1 = "s\<lparr>sv_world := w1\<rparr>"
  have i: "i < tp_threads (the_pool s)" using Cons.prems(2) by simp
  have "threaded_step env pop handle room s (Some ?s1) \<and> tp_threads tp1 = tp_threads tp"
    using w1(1) [unfolded kt]
  proof (cases rule: work_step_cases)
    case (task t)
    with threaded_step.handled [of i s t handle k1 pop tp1] i kt Routine_threads [OF task(3)] show ?thesis by simp
  next
    case idle
    with threaded_step.work [of i s pop tp1] i kt Routine_threads [OF idle(3)] show ?thesis by simp
  qed
  then have step: "threaded_step env pop handle room s (Some ?s1)" and th: "tp_threads tp1 = tp_threads tp" by simp_all
  have "threaded_run env pop handle room ?s1 (?s1\<lparr>sv_world := w\<rparr>)"
    by (rule Cons.IH) (use w1(2) Cons.prems(2) kt th in simp_all)
  then show ?case
    using threaded_run_trans [OF _ threaded_run.more_run [OF threaded_run.begin_run step]] by fastforce
qed

sublocale threaded_system \<subseteq> service: pool_service push pop contents bound budget handle SocketFd owned
  by unfold_locales (rule handle_owned)

context threaded_system
begin

text \<open>The workers of the server leave their loops only when they have been told to stop.\<close>

lemma pool_of_step:
  assumes "threaded_step env pop handle (\<lambda>q. 0 < budget q) s (Some s')"
  shows "the_pool s' = the_pool s \<or> pool_step push pop (\<lambda>q. 0 < budget q) (the_pool s) (the_pool s')"
  using assms
proof (cases rule: threaded_step.cases)
  case loop
  from loop(1) show ?thesis
  proof (cases rule: server_step.cases)
    case serve
    then show ?thesis
      using loop(2) by (auto simp: serve_step_def ThreadedServer_env_def SubmitConnection_def on_system_def
          Server_CloseSocket_def split: serve_pc.splits prod.splits option.splits if_splits outcome.splits
          intro: pool_step.submit)
  qed (simp add: Server_Stop_def)
qed (auto intro: pool_step.intros)

lemma exited_stopped_threaded:
  assumes "threaded_run env pop handle (\<lambda>q. 0 < budget q) s s'" and "inv lfd s" and "lfd \<noteq> 0"
    and "\<forall>i < tp_threads (the_pool s). tp_pcs (the_pool s) ! i = W_Exited \<longrightarrow> \<not> tp_running (the_pool s) ! i"
  shows "tp_threads (the_pool s') = tp_threads (the_pool s) \<and>
    (\<forall>i < tp_threads (the_pool s). tp_pcs (the_pool s') ! i = W_Exited \<longrightarrow> \<not> tp_running (the_pool s') ! i)"
  using assms(1,2,4)
proof (induction rule: threaded_run.induct)
  case (more_run s s1 s2)
  obtain xss where "pool_inv contents (the_pool s1) xss"
    using inv_run [OF more_run(1) more_run.prems(1) assms(3)] by (auto simp: threaded_inv_def)
  with pool_of_step [OF more_run(2)] fifo.exited_stopped [of "the_pool s1" "the_pool s2"] more_run.IH more_run.prems
  show ?case by auto
qed simp

lemma waiting_served:
  assumes "inv lfd s" and "all_running (the_pool s)"
    and "\<forall>is \<in> set rounds. round_of (tp_threads (the_pool s)) is"
    and "4 * size (pending_tasks (the_pool s)) \<le> length rounds"
    and "answerable handle SocketFd owned (the_system s) (pending_tasks (the_pool s))"
  shows "\<exists>s'. serve_workers pop handle (concat rounds) s = Some s' \<and>
    threaded_run env pop handle (\<lambda>q. 0 < budget q) s s' \<and> pending_tasks (the_pool s') = {#} \<and>
    all_done handle (the_system s) (pending_tasks (the_pool s)) (the_system s') \<and>
    owned (the_system s') = owned (the_system s) - set_mset (pending_fds (the_pool s))"
proof -
  obtain xss where p: "pool_inv contents (the_pool s) xss" using assms(1) by (auto simp: threaded_inv_def)
  have "\<forall>x \<in> task_fds SocketFd (the_pool s). 0 < x" using assms(1) by (auto simp: threaded_inv_def pending_fds_def)
  from service.pending_answered [OF p this assms(2-5)] obtain k tp where
    w: "work_steps pop handle (concat rounds) (sv_world s) = Some (k, tp)" "pending_tasks tp = {#}"
      "all_done handle (the_system s) (pending_tasks (the_pool s)) k"
      "owned k = owned (the_system s) - task_fds SocketFd (the_pool s)" by auto
  have "set (concat rounds) \<subseteq> {..<tp_threads (the_pool s)}" using assms(3) by (auto simp: round_of_def)
  from work_steps_run [OF w(1) this] w show ?thesis by (auto simp: serve_workers_def pending_fds_def)
qed

end

text \<open>Starting leaves the pool as the constructor made it.\<close>

lemma started_same_pool:
  assumes "ThreadedServer_new dflt threads capacity k = Ret s0"
    and "Server_StartAsync (ThreadedServer_env os push) port cb s0 = (Ret True, s1)"
  shows "ThreadPool_new dflt threads capacity = Ret (the_pool s1)"
proof -
  obtain tp where tp: "ThreadPool_new dflt threads capacity = Ret tp" "s0 = Server_new (k, tp)"
    using assms(1) by (cases "ThreadPool_new dflt threads capacity" rule: outcome.exhaust)
      (auto simp: ThreadedServer_new_def)
  have "the_pool s1 = tp"
    using assms(2) tp(2) by (auto simp: Server_StartAsync_def Server_OpenSocket_def ThreadedServer_env_def on_system_def
        Server_new_def split: if_splits prod.splits outcome.splits)
  with tp(1) show ?thesis by simp
qed

lemmas started_pool = ThreadPool_new_threads [OF started_same_pool]

section \<open>A waiting client\<close>

definition waiting_client :: AcceptData where
  "waiting_client = \<lparr>SocketFd = 4, sin_addr = 0x0100007F, sin_port = 0\<rparr>"

definition waiting_world :: world where
  "waiting_world = (\<lparr>k_open = [4, 3], k_script = []\<rparr>, peer_new [HttpRequest_ToString (\<lambda>hs. hs) sample_sync])"

abbreviation echo_handle :: "AcceptData \<Rightarrow> (world, unit) action" where
  "echo_handle \<equiv> ThreadedServer_HandleConnection world_net (Dispatch (SocketStream_Write world_net)
     (SocketStream_Close world_net) (\<lambda>hs. hs) (RegisterDefaultHandlers echo_dispatcher))"

lemma default_echo_keeps: "handlers_keep I (RegisterDefaultHandlers echo_dispatcher)"
  by (rule default_handlers_keep [OF echo_dispatcher_keeps])

lemma waiting_answerable: "answerable echo_handle SocketFd world_owned waiting_world {#waiting_client#}"
proof -
  let ?s = "SocketStream_new (SocketFd waiting_client) waiting_world"
  have side: "peer_side ?s = SocketStream_new 4 (peer_new [HttpRequest_ToString (\<lambda>hs. hs) sample_sync])"
    by (simp add: peer_side_def SocketStream_new_def waiting_world_def waiting_client_def)
  have ne: "HttpRequest_ToString (\<lambda>hs. hs) sample_sync \<noteq> []" by (simp add: HttpRequest_ToString_def)
  have st: "sock_inv (peer_side ?s)" "sock_pending (peer_side ?s) = HttpRequest_ToString (\<lambda>hs. hs) sample_sync"
    unfolding side using ne by (simp_all add: sock_defs SocketStream_new_def peer_new_def)
  have find: "find_handler echo_dispatcher (Path sample_sync) (Method sample_sync) = (Some (text_endpoint echo), STATUS_OK)"
    by (simp add: find_handler_def echo_dispatcher_def RequestDispatcher_new_def sample_sync_def)
  have err: "rd_errorHandlers echo_dispatcher = Map.empty" by (simp add: echo_dispatcher_def RequestDispatcher_new_def)
  obtain k where run: "echo_handle waiting_client waiting_world = Some (Ret (), k)"
    using request_answered [OF wsock.byte_source_axioms wconn.response_channel_axioms wframe.stream_frame_axioms refl
        st(1) st(1) st(2) sample_sync_printable iteration_id find err refl refl, of "''Threaded''"]
    unfolding ThreadedServer_HandleConnection_def by blast
  have "4 \<notin> world_owned k"
    using connection_closed_iff_answered [OF world.net_os_axioms _ default_echo_keeps run [unfolded ThreadedServer_HandleConnection_def]]
      printed_context [OF wsock.byte_source_axioms st sample_sync_printable iteration_id]
    by (simp add: waiting_client_def)
  then have "SocketFd waiting_client \<notin> world_owned k" by (simp add: waiting_client_def)
  show ?thesis by (rule answerable_one) fact+
qed

text \<open>A server accepts a connection, and its next worker has room.\<close>

lemma accept_run:
  assumes p: "pool_inv holds (the_pool s) xss" and b: "\<forall>q \<in> set (tp_workers (the_pool s)). 0 < q_budget q"
    and pc: "sv_pc s = Serve_Accept" "sv_isRunning s"
    and acc: "AcceptSocket os (sv_listenFd s) (the_system s) = (True, data, k)"
    and i: "i = unat (tp_next (the_pool s)) mod tp_threads (the_pool s)"
      "length (xss ! i) < q_bound (tp_workers (the_pool s) ! i)"
  obtains tp where
    "threaded_run (ThreadedServer_env os (Push moved)) (Pop moved) handle (\<lambda>q. 0 < q_budget q) s (s\<lparr>sv_world := (k, tp)\<rparr>)"
    "pool_inv holds tp (xss[i := xss ! i @ [data]])" "pending_tasks tp = add_mset data (pending_tasks (the_pool s))"
    "tp_running tp = tp_running (the_pool s)" "tp_threads tp = tp_threads (the_pool s)" "tp_next tp = tp_next (the_pool s) + 1"
    "\<And>j. q_bound (tp_workers tp ! j) = q_bound (tp_workers (the_pool s) ! j) \<and>
      q_budget (tp_workers (the_pool s) ! j) - 1 \<le> q_budget (tp_workers tp ! j)"
proof -
  obtain tp where tp: "ThreadPool_Submit (Push moved) data (the_pool s) = Some (True, tp)"
    "pool_inv holds tp (xss[i := xss ! i @ [data]])" "tp_next tp = tp_next (the_pool s) + 1"
    "tp_threads tp = tp_threads (the_pool s)" "tp_running tp = tp_running (the_pool s)"
    "\<And>j. q_bound (tp_workers tp ! j) = q_bound (tp_workers (the_pool s) ! j) \<and>
      q_budget (tp_workers (the_pool s) ! j) - 1 \<le> q_budget (tp_workers tp ! j)"
    by (rule mpmc.Submit_room [OF p b i, of moved data]) blast
  have "serve_step (ThreadedServer_env os (Push moved)) s = Some (s\<lparr>sv_world := (k, tp)\<rparr>)"
    using pc acc tp(1) by (simp add: serve_step_def ThreadedServer_env_def SubmitConnection_def)
  then have "threaded_step (ThreadedServer_env os (Push moved)) (Pop moved) handle (\<lambda>q. 0 < q_budget q) s
      (Some (s\<lparr>sv_world := (k, tp)\<rparr>))"
    using b by (intro threaded_step.loop server_step.serve)
  from threaded_run.more_run [OF threaded_run.begin_run this] pending_Submit [OF tp(1) p] tp(2-6)
  show thesis by (intro that) simp_all
qed

lemma enter_run:
  assumes "\<forall>q \<in> set (tp_workers (the_pool s)). 0 < q_budget q" and "sv_pc s = Serve_Outer" "sv_isRunning s"
  shows "threaded_run (ThreadedServer_env os (Push moved)) (Pop moved) handle (\<lambda>q. 0 < q_budget q) s
    (s\<lparr>sv_pc := Serve_Accept\<rparr>)"
proof -
  have "serve_step (ThreadedServer_env os (Push moved)) s = Some (s\<lparr>sv_pc := Serve_Accept\<rparr>)"
    using assms(2,3) by (simp add: serve_step_def)
  then show ?thesis
    using assms(1) by (intro threaded_run.more_run [OF threaded_run.begin_run] threaded_step.loop server_step.serve)
qed

text \<open>A server of two workers that has accepted it.\<close>

lemma sample_waiting:
  obtains s0 s1 s2 :: "(world \<times> (AcceptData Queue, AcceptData) ThreadPool) server"
  where "ThreadedServer_new no_data 2 3 (kernel_new [], peer_new [HttpRequest_ToString (\<lambda>hs. hs) sample_sync]) = Ret s0"
    "MakePowerOfTwo 3 = 4" "ThreadedServer_StartAsync world_os (Push id) 80 True s0 = (Ret True, s1)"
    "threaded_run (ThreadedServer_env world_os (Push id)) (Pop id) echo_handle (\<lambda>q. 0 < q_budget q) s1 s2"
    "tp_running (the_pool s2) = replicate 2 True" "the_system s2 = waiting_world"
    "pending_tasks (the_pool s2) = {#waiting_client#}"
proof -
  let ?p = "peer_new [HttpRequest_ToString (\<lambda>hs. hs) sample_sync]"
  obtain s0 s1 :: "(world \<times> (AcceptData Queue, AcceptData) ThreadPool) server" where
    s: "ThreadedServer_new no_data 2 3 (kernel_new [], ?p) = Ret s0" "MakePowerOfTwo 3 = 4"
      "ThreadedServer_StartAsync world_os (Push id) 80 True s0 = (Ret True, s1)" "sv_listenFd s1 = 3"
      "sv_pc s1 = Serve_Outer" "sv_isRunning s1" "the_system s1 = (\<lparr>k_open = [3], k_script = []\<rparr>, ?p)"
      "pool_inv holds (the_pool s1) [[], []]" "tp_next (the_pool s1) = 0" "tp_threads (the_pool s1) = 2"
      "length (tp_workers (the_pool s1)) = 2" "\<forall>q \<in> set (tp_workers (the_pool s1)). q_bound q = 4 \<and> 0 < q_budget q"
    by (rule sample_threaded)
  note st1 = started_pool [OF s(1) s(3) [unfolded ThreadedServer_StartAsync_def]]
  have b: "\<forall>q \<in> set (tp_workers (the_pool s1)). 0 < q_budget q" using s(12) by auto
  have "tp_workers (the_pool s1) ! 0 \<in> set (tp_workers (the_pool s1))" using s(11) by simp
  with s(12) have room: "length ([[], []] ! 0) < q_bound (tp_workers (the_pool s1) ! 0)" by simp
  have acc: "AcceptSocket world_os 3 (\<lparr>k_open = [3], k_script = []\<rparr>, ?p) = (True, waiting_client, waiting_world)"
    by (simp add: AcceptSocket_def world_os_def on_kernel_def kernel_ops_def k_new_fd_def k_answer_def
        waiting_client_def waiting_world_def)
  let ?sa = "s1\<lparr>sv_pc := Serve_Accept\<rparr>"
  obtain tp where tp: "threaded_run (ThreadedServer_env world_os (Push id)) (Pop id) echo_handle (\<lambda>q. 0 < q_budget q) ?sa
      (?sa\<lparr>sv_world := (waiting_world, tp)\<rparr>)"
    "pending_tasks tp = add_mset waiting_client (pending_tasks (the_pool s1))" "tp_running tp = tp_running (the_pool s1)"
    by (rule accept_run [of ?sa "[[], []]" world_os waiting_client waiting_world 0 id echo_handle])
      (use s b acc room in simp_all)
  have "threaded_run (ThreadedServer_env world_os (Push id)) (Pop id) echo_handle (\<lambda>q. 0 < q_budget q) s1
      (?sa\<lparr>sv_world := (waiting_world, tp)\<rparr>)"
    by (rule threaded_run_trans [OF tp(1) enter_run [OF b s(5,6)]])
  moreover have "pending_tasks (the_pool s1) = {#}" using st1(4,5) by (simp add: pending_tasks_def)
  ultimately show thesis using that [OF s(1-3)] tp(2,3) st1(3) by simp
qed

section \<open>Properties\<close>

text \<open>
  Waiting connections are served. A threaded server is made, started and run, its loop, its workers and the callers
  of \<open>Stop\<close> in any order, to a state in which no worker has been stopped. If the handling of the connections that
  wait there returns and closes them, in whatever order they are handled, then every schedule of four rounds for
  each of them is a run of the server that handles them all, once each: nothing waits any more, and exactly their
  descriptors have been closed.
\<close>

theorem threaded_serves_waiting:
  assumes "basic_system os owned net d"
    and handle: "handle = ThreadedServer_HandleConnection net (Dispatch (SocketStream_Write net) (SocketStream_Close net) iter d)"
    and "ThreadedServer_new dflt threads capacity k = Ret s0"
    and "2 \<le> unat (MakePowerOfTwo capacity)" and "unat (MakePowerOfTwo capacity) < 2 ^ 63"
    and "ThreadedServer_StartAsync os (Push moved) port cb s0 = (Ret True, s1)"
    and "threaded_run (ThreadedServer_env os (Push moved)) (Pop moved) handle (\<lambda>q. 0 < q_budget q) s1 s2"
    and "\<forall>i < threads. tp_running (the_pool s2) ! i" and "\<forall>is \<in> set rounds. round_of threads is"
    and "4 * size (pending_tasks (the_pool s2)) \<le> length rounds"
    and "answerable handle SocketFd owned (the_system s2) (pending_tasks (the_pool s2))"
  shows "\<exists>s3. serve_workers (Pop moved) handle (concat rounds) s2 = Some s3 \<and>
    threaded_run (ThreadedServer_env os (Push moved)) (Pop moved) handle (\<lambda>q. 0 < q_budget q) s2 s3 \<and>
    pending_tasks (the_pool s3) = {#} \<and>
    all_done handle (the_system s2) (pending_tasks (the_pool s2)) (the_system s3) \<and>
    owned (the_system s3) = owned (the_system s2) - set_mset (pending_fds (the_pool s2))"
proof -
  note inv = started_run_inv [OF assms(1,3-6) assms(7) [unfolded handle]]
  from started_pool [OF assms(3) assms(6) [unfolded ThreadedServer_StartAsync_def]]
  have pool1: "tp_threads (the_pool s1) = threads" "\<forall>i < threads. tp_pcs (the_pool s1) ! i = W_Loop" by simp_all
  have "tp_threads (the_pool s2) = threads" "all_running (the_pool s2)"
    using threaded_system.exited_stopped_threaded [OF inv(1) assms(7) [unfolded handle] inv(2,3)] pool1 assms(8)
    by (auto simp: all_running_def)
  with threaded_system.waiting_served [OF inv(1,4) _ _ assms(10) assms(11) [unfolded handle]] assms(9) show ?thesis
    by (simp add: handle)
qed

text \<open>A client of the echo server waits in a queue, and is served.\<close>

lemma threaded_serves_waiting_witness:
  "\<exists>s2 s3. the_system s2 = waiting_world \<and> pending_tasks (the_pool s2) = {#waiting_client#} \<and>
    serve_workers (Pop id) echo_handle (concat (replicate 4 [1, 0])) s2 = Some s3 \<and>
    pending_tasks (the_pool s3) = {#} \<and> world_owned (the_system s3) = {3}"
proof -
  obtain s0 s1 s2 :: "(world \<times> (AcceptData Queue, AcceptData) ThreadPool) server" where
    s: "ThreadedServer_new no_data 2 3 (kernel_new [], peer_new [HttpRequest_ToString (\<lambda>hs. hs) sample_sync]) = Ret s0"
    "MakePowerOfTwo 3 = 4" "ThreadedServer_StartAsync world_os (Push id) 80 True s0 = (Ret True, s1)"
    "threaded_run (ThreadedServer_env world_os (Push id)) (Pop id) echo_handle (\<lambda>q. 0 < q_budget q) s1 s2"
    "tp_running (the_pool s2) = replicate 2 True" "the_system s2 = waiting_world"
    "pending_tasks (the_pool s2) = {#waiting_client#}"
    by (rule sample_waiting)
  have sys: "basic_system world_os world_owned world_net (RegisterDefaultHandlers echo_dispatcher)"
    by (intro basic_system.intro world.net_os_axioms basic_system_axioms.intro) (rule default_echo_keeps)
  have rounds: "\<forall>is \<in> set (replicate 4 [1, 0 :: nat]). round_of 2 is" by (auto simp: round_of_def)
  have "answerable echo_handle SocketFd world_owned (the_system s2) (pending_tasks (the_pool s2))"
    using waiting_answerable s(6,7) by simp
  from threaded_serves_waiting [OF sys refl s(1) _ _ s(3,4) _ rounds _ this] s(2,5-7)
  obtain s3 where "serve_workers (Pop id) echo_handle (concat (replicate 4 [1, 0])) s2 = Some s3"
    "pending_tasks (the_pool s3) = {#}"
    "world_owned (the_system s3) = world_owned (the_system s2) - set_mset (pending_fds (the_pool s2))" by auto
  moreover have "world_owned waiting_world = {4, 3}" by (simp add: waiting_world_def world_owned_def k_owned_def)
  ultimately show ?thesis using s(6,7) by (auto simp: pending_fds_def waiting_client_def)
qed

end
