(* ===== verification/Clients.thy ===== *)
theory Clients
  imports Threaded_Progress Client_Lines
begin

text \<open>
  Several clients at a threaded server: the workers may handle the waiting connections in any order, and each client
  receives the answer to its own request, on its own connection, and nothing else.
\<close>

section \<open>Connections on lines of their own\<close>

abbreviation connection_handler ::
    "'k net_ops \<Rightarrow> (headers \<Rightarrow> headers) \<Rightarrow> 'k SocketStream RequestDispatcher \<Rightarrow> AcceptData \<Rightarrow> ('k, unit) action" where
  "connection_handler net iter d \<equiv> ThreadedServer_HandleConnection net
     (Dispatch (SocketStream_Write net) (SocketStream_Close net) iter (RegisterDefaultHandlers d))"

lemma connections_own_lines:
  assumes "client_lines net line waiting received up" and "net_os os owned net" and "iteration iter"
    and "\<And>I. handlers_keep I d" and "rd_errorHandlers d = Map.empty"
  shows "own_lines (connection_handler net iter d) SocketFd owned line received (asks line waiting up iter d q f)
    (\<lambda>c. answer iter ''Threaded'' c (f c) (q c))"
proof
  fix k c
  assume "asks line waiting up iter d q f k c"
  from client_lines.client_answered [OF assms(1,2) this assms(3-5), of "''Threaded''"]
  show "\<exists>k'. connection_handler net iter d c k = Some (Ret (), k') \<and>
      received (line (SocketFd c) k') = received (line (SocketFd c) k) @ answer iter ''Threaded'' c (f c) (q c) \<and>
      (\<forall>g. g \<noteq> SocketFd c \<longrightarrow> line g k' = line g k) \<and> SocketFd c \<notin> owned k'" by auto
qed (rule asks_line)

text \<open>Two clients of the echo server, with different requests.\<close>

definition other_request :: HttpRequest where
  "other_request = sample_sync\<lparr>Host := ''other'', Body := ''world''\<rparr>"

definition two_peers :: "int \<Rightarrow> peer" where
  "two_peers = (\<lambda>fd. peer_new [])(4 := peer_new [HttpRequest_ToString (\<lambda>hs. hs) sample_sync],
     5 := peer_new [HttpRequest_ToString (\<lambda>hs. hs) other_request])"

definition two_world :: "int list \<Rightarrow> lines_world" where
  "two_world fds = (\<lparr>k_open = fds, k_script = []\<rparr>, two_peers)"

definition other_client :: AcceptData where
  "other_client = \<lparr>SocketFd = 5, sin_addr = 0x0100007F, sin_port = 0\<rparr>"

definition two_requests :: "AcceptData \<Rightarrow> HttpRequest" where
  "two_requests c = (if SocketFd c = 4 then sample_sync else other_request)"

abbreviation lines_handle :: "AcceptData \<Rightarrow> (lines_world, unit) action" where
  "lines_handle \<equiv> connection_handler lines_net (\<lambda>hs. hs) echo_dispatcher"

lemma echo_no_errors: "rd_errorHandlers echo_dispatcher = Map.empty"
  by (simp add: echo_dispatcher_def RequestDispatcher_new_def)

interpretation town: own_lines lines_handle SocketFd world_owned peer_line outbound
    "asks peer_line peer_waiting peer_up (\<lambda>hs. hs) echo_dispatcher two_requests (\<lambda>c. echo)"
    "\<lambda>c. answer (\<lambda>hs. hs) ''Threaded'' c echo (two_requests c)"
  by (rule connections_own_lines [OF lines.client_lines_axioms lnet.net_os_axioms iteration_id echo_dispatcher_keeps
        echo_no_errors])

lemma two_clients_ask:
  "\<forall>c \<in># {#other_client, waiting_client#}.
    asks peer_line peer_waiting peer_up (\<lambda>hs. hs) echo_dispatcher two_requests (\<lambda>c. echo) (two_world fds) c"
proof -
  have ok: "sync_printable other_request" "Path other_request = ''/echo''" "Method other_request = POST"
    "Path sample_sync = ''/echo''" "Method sample_sync = POST"
    by code_simp+
  have ne: "HttpRequest_ToString iter q \<noteq> []" for iter q by (simp add: HttpRequest_ToString_def)
  have "find_handler echo_dispatcher ''/echo'' POST = (Some (text_endpoint echo), STATUS_OK)"
    by (simp add: find_handler_def echo_dispatcher_def RequestDispatcher_new_def)
  with ok sample_sync_printable ne [THEN not_sym] show ?thesis
    by (auto simp: asks_def peer_line_def peer_up_def two_world_def two_peers_def two_requests_def other_client_def
        waiting_client_def peer_new_def)
qed

lemma sample_two_waiting:
  obtains s0 s1 s2 :: "(lines_world \<times> (AcceptData Queue, AcceptData) ThreadPool) server"
  where "ThreadedServer_new no_data 2 3 (kernel_new [], two_peers) = Ret s0"
    "MakePowerOfTwo 3 = 4" "ThreadedServer_StartAsync world_os (Push id) 80 True s0 = (Ret True, s1)"
    "threaded_run (ThreadedServer_env world_os (Push id)) (Pop id) lines_handle (\<lambda>q. 0 < q_budget q) s1 s2"
    "tp_running (the_pool s2) = replicate 2 True" "the_system s2 = two_world [5, 4, 3]"
    "pending_tasks (the_pool s2) = {#other_client, waiting_client#}"
proof -
  obtain s0 s1 :: "(lines_world \<times> (AcceptData Queue, AcceptData) ThreadPool) server" where
    s: "ThreadedServer_new no_data 2 3 (kernel_new [], two_peers) = Ret s0" "MakePowerOfTwo 3 = 4"
      "ThreadedServer_StartAsync world_os (Push id) 80 True s0 = (Ret True, s1)" "sv_listenFd s1 = 3"
      "sv_pc s1 = Serve_Outer" "sv_isRunning s1" "the_system s1 = (\<lparr>k_open = [3], k_script = []\<rparr>, two_peers)"
      "pool_inv holds (the_pool s1) [[], []]" "tp_next (the_pool s1) = 0" "tp_threads (the_pool s1) = 2"
      "length (tp_workers (the_pool s1)) = 2" "\<forall>q \<in> set (tp_workers (the_pool s1)). q_bound q = 4 \<and> 0 < q_budget q"
    by (rule sample_threaded)
  note start = s(3) [unfolded ThreadedServer_StartAsync_def]
  note st1 = started_pool [OF s(1) start]
  let ?run = "threaded_run (ThreadedServer_env world_os (Push id)) (Pop id) lines_handle (\<lambda>q. 0 < q_budget q)"
  have b: "\<forall>q \<in> set (tp_workers (the_pool s1)). 0 < q_budget q" using s(12) by simp
  have w: "tp_workers (the_pool s1) ! j \<in> set (tp_workers (the_pool s1))" if "j < 2" for j using s(11) that by simp
  have budget: "\<forall>q \<in> set (tp_workers (the_pool s1)). q_budget q = 2 ^ 64 - 1 - 2 * unat (MakePowerOfTwo 3)"
    by (rule ThreadPool_new_inv(4) [OF started_same_pool [OF s(1) start]]) (simp_all add: s(2))
  have room: "q_bound (tp_workers (the_pool s1) ! j) = 4 \<and> 2 \<le> q_budget (tp_workers (the_pool s1) ! j)" if "j < 2" for j
    using s(12) budget w [OF that] by (simp add: s(2))
  have acc: "AcceptSocket world_os 3 (\<lparr>k_open = [3], k_script = []\<rparr>, two_peers) = (True, waiting_client, two_world [4, 3])"
    "AcceptSocket world_os 3 (two_world [4, 3]) = (True, other_client, two_world [5, 4, 3])"
    by (simp_all add: AcceptSocket_def world_os_def on_kernel_def kernel_ops_def k_new_fd_def k_answer_def
        waiting_client_def other_client_def two_world_def)
  let ?sa = "s1\<lparr>sv_pc := Serve_Accept\<rparr>"
  obtain tp where tp: "?run ?sa (?sa\<lparr>sv_world := (two_world [4, 3], tp)\<rparr>)"
    "pool_inv holds tp [[waiting_client], []]"
    "pending_tasks tp = add_mset waiting_client (pending_tasks (the_pool s1))" "tp_running tp = tp_running (the_pool s1)"
    "tp_threads tp = 2" "tp_next tp = 1"
    "\<And>j. q_bound (tp_workers tp ! j) = q_bound (tp_workers (the_pool s1) ! j) \<and>
      q_budget (tp_workers (the_pool s1) ! j) - 1 \<le> q_budget (tp_workers tp ! j)"
    by (rule accept_run [of ?sa "[[], []]" world_os waiting_client "two_world [4, 3]" 0 id lines_handle])
      (use s b acc room [of 0] in simp_all)
  have "length (tp_workers tp) = 2" using tp(2,5) by (auto simp: pool_inv_def)
  moreover have "0 < q_budget (tp_workers tp ! j)" if "j < 2" for j using tp(7) [of j] room [OF that] by linarith
  ultimately have b2: "\<forall>q \<in> set (tp_workers tp). 0 < q_budget q" by (auto simp: in_set_conv_nth)
  let ?sb = "?sa\<lparr>sv_world := (two_world [4, 3], tp)\<rparr>"
  obtain tp' where tp': "?run ?sb (?sb\<lparr>sv_world := (two_world [5, 4, 3], tp')\<rparr>)"
    "pending_tasks tp' = add_mset other_client (pending_tasks tp)" "tp_running tp' = tp_running tp"
    by (rule accept_run [of ?sb "[[waiting_client], []]" world_os other_client "two_world [5, 4, 3]" 1 id lines_handle])
      (use s(4,6) tp(2,5,6) tp(7) [of 1] room [of 1] b2 acc(2) in simp_all)
  have "?run s1 (?sb\<lparr>sv_world := (two_world [5, 4, 3], tp')\<rparr>)"
    by (rule threaded_run_trans [OF tp'(1) threaded_run_trans [OF tp(1) enter_run [OF b s(5,6)]]])
  moreover have "pending_tasks (the_pool s1) = {#}" using st1(4,5) by (simp add: pending_tasks_def)
  ultimately show thesis using that [OF s(1-3)] tp(3,4) tp'(2,3) st1(3) by simp
qed

section \<open>Properties\<close>

text \<open>
  C4: every client is answered on its own line. A threaded server is made, started and run, its loop, its workers and
  the callers of \<open>Stop\<close> in any order, to a state in which no worker has been stopped. Each connection that waits there has
  sent the printed form of a request of its own, whose path and method have a plain text endpoint. Then every schedule of
  four rounds for each of them is a run of the server that serves them all, whatever the order in which the workers
  take them: each client has received, on its own connection, the response its endpoint computes from its own request, up to
  1024 bytes; the lines of all other connections are as they were; and exactly the waiting connections have been closed.
\<close>

theorem threaded_answers_each_client:
  assumes os: "net_os os owned net" and lines: "client_lines net line waiting received up"
    and handle: "handle = ThreadedServer_HandleConnection net
      (Dispatch (SocketStream_Write net) (SocketStream_Close net) iter (RegisterDefaultHandlers d))"
    and d: "\<And>I. handlers_keep I d" "rd_errorHandlers d = Map.empty" and iter: "iteration iter"
    and new: "ThreadedServer_new dflt threads capacity k = Ret s0"
    and c: "2 \<le> unat (MakePowerOfTwo capacity)" "unat (MakePowerOfTwo capacity) < 2 ^ 63"
    and start: "ThreadedServer_StartAsync os (Push moved) port cb s0 = (Ret True, s1)"
    and run: "threaded_run (ThreadedServer_env os (Push moved)) (Pop moved) handle (\<lambda>q. 0 < q_budget q) s1 s2"
    and "\<forall>i < threads. tp_running (the_pool s2) ! i" and "\<forall>is \<in> set rounds. round_of threads is"
    and "4 * size (pending_tasks (the_pool s2)) \<le> length rounds"
    and clients: "\<forall>c \<in># pending_tasks (the_pool s2). asks line waiting up iter d q f (the_system s2) c"
  shows "\<exists>s3. serve_workers (Pop moved) handle (concat rounds) s2 = Some s3 \<and>
    threaded_run (ThreadedServer_env os (Push moved)) (Pop moved) handle (\<lambda>q. 0 < q_budget q) s2 s3 \<and>
    pending_tasks (the_pool s3) = {#} \<and>
    (\<forall>c \<in># pending_tasks (the_pool s2). received (line (SocketFd c) (the_system s3)) =
      received (line (SocketFd c) (the_system s2)) @ answer iter ''Threaded'' c (f c) (q c)) \<and>
    (\<forall>fd. fd \<notin># pending_fds (the_pool s2) \<longrightarrow> line fd (the_system s3) = line fd (the_system s2)) \<and>
    owned (the_system s3) = owned (the_system s2) - set_mset (pending_fds (the_pool s2))"
proof -
  have sys: "basic_system os owned net (RegisterDefaultHandlers d)"
    by (intro basic_system.intro os basic_system_axioms.intro default_handlers_keep d(1))
  have sep: "separate SocketFd (pending_tasks (the_pool s2))"
    using started_run_inv(4) [OF sys new c start run [unfolded handle]]
    by (simp add: separate_def threaded_inv_def pending_fds_def)
  note own = connections_own_lines [OF lines os iter d, of q f, folded handle]
  from threaded_serves_waiting [OF sys handle new c start run assms(12-14) own_lines.lines_answerable [OF own sep clients]]
  obtain s3 where s3:
    "serve_workers (Pop moved) handle (concat rounds) s2 = Some s3"
    "threaded_run (ThreadedServer_env os (Push moved)) (Pop moved) handle (\<lambda>q. 0 < q_budget q) s2 s3"
    "pending_tasks (the_pool s3) = {#}" "all_done handle (the_system s2) (pending_tasks (the_pool s2)) (the_system s3)"
    "owned (the_system s3) = owned (the_system s2) - set_mset (pending_fds (the_pool s2))" by blast
  from own_lines.lines_answered [OF own s3(4) sep clients]
  show ?thesis using s3 by (intro exI [of _ s3]) (simp add: pending_fds_def)
qed

text \<open>Two clients wait at the echo server, and each receives the echo of its own request.\<close>

lemma threaded_answers_each_client_witness:
  "\<exists>s2 s3. pending_tasks (the_pool s2) = {#other_client, waiting_client#} \<and>
    serve_workers (Pop id) lines_handle (concat (replicate 8 [1, 0])) s2 = Some s3 \<and>
    outbound (peer_line 4 (the_system s3)) = answer (\<lambda>hs. hs) ''Threaded'' waiting_client echo sample_sync \<and>
    outbound (peer_line 5 (the_system s3)) = answer (\<lambda>hs. hs) ''Threaded'' other_client echo other_request \<and>
    world_owned (the_system s3) = {3}"
proof -
  obtain s0 s1 s2 :: "(lines_world \<times> (AcceptData Queue, AcceptData) ThreadPool) server" where
    s: "ThreadedServer_new no_data 2 3 (kernel_new [], two_peers) = Ret s0"
    "MakePowerOfTwo 3 = 4" "ThreadedServer_StartAsync world_os (Push id) 80 True s0 = (Ret True, s1)"
    "threaded_run (ThreadedServer_env world_os (Push id)) (Pop id) lines_handle (\<lambda>q. 0 < q_budget q) s1 s2"
    "tp_running (the_pool s2) = replicate 2 True" "the_system s2 = two_world [5, 4, 3]"
    "pending_tasks (the_pool s2) = {#other_client, waiting_client#}"
    by (rule sample_two_waiting)
  have c: "2 \<le> unat (MakePowerOfTwo 3)" "unat (MakePowerOfTwo 3) < 2 ^ 63" unfolding s(2) by simp_all
  have on: "\<forall>i < 2. tp_running (the_pool s2) ! i" by (simp add: s(5))
  have rounds: "\<forall>is \<in> set (replicate 8 [1, 0 :: nat]). round_of 2 is" by (auto simp: round_of_def)
  have len: "4 * size (pending_tasks (the_pool s2)) \<le> length (replicate 8 [1, 0 :: nat])" by (simp add: s(7))
  have ask: "\<forall>c \<in># pending_tasks (the_pool s2). asks peer_line peer_waiting peer_up (\<lambda>hs. hs) echo_dispatcher two_requests
      (\<lambda>c. echo) (the_system s2) c" unfolding s(6,7) by (rule two_clients_ask)
  from threaded_answers_each_client [OF lnet.net_os_axioms lines.client_lines_axioms refl echo_dispatcher_keeps
      echo_no_errors iteration_id s(1) c s(3,4) on rounds len ask]
  obtain s3 where s3: "serve_workers (Pop id) lines_handle (concat (replicate 8 [1, 0])) s2 = Some s3"
    "\<forall>c \<in># pending_tasks (the_pool s2). outbound (peer_line (SocketFd c) (the_system s3)) =
      outbound (peer_line (SocketFd c) (the_system s2)) @ answer (\<lambda>hs. hs) ''Threaded'' c echo (two_requests c)"
    "world_owned (the_system s3) = world_owned (the_system s2) - set_mset (pending_fds (the_pool s2))" by blast
  have "outbound (peer_line 4 (the_system s3)) = answer (\<lambda>hs. hs) ''Threaded'' waiting_client echo sample_sync"
    "outbound (peer_line 5 (the_system s3)) = answer (\<lambda>hs. hs) ''Threaded'' other_client echo other_request"
    using s3(2) unfolding s(6,7)
    by (simp_all add: waiting_client_def other_client_def two_requests_def peer_line_def two_world_def two_peers_def peer_new_def)
  moreover have "world_owned (the_system s3) = {3}"
    using s3(3) by (auto simp: s(6,7) pending_fds_def world_owned_def k_owned_def two_world_def waiting_client_def other_client_def)
  ultimately show ?thesis using s(7) s3(1) by blast
qed

end
