(* ===== verification/Mayhem_Progress.thy ===== *)
theory Mayhem_Progress
  imports Mayhem_Server Pool_Service
begin

text \<open>
  The mayhem server and the progress of its pool, and the whole way of a request through it: from the event of
  the epoll through the builder, the queue of a worker and the dispatcher to the response and the closed
  connection.
\<close>

section \<open>Schedules of the server's workers\<close>

definition run_contexts ::
    "('q \<Rightarrow> ('k SocketStream HttpContext option \<times> 'q) option) \<Rightarrow> ('k SocketStream HttpContext \<Rightarrow> ('k, unit) action) \<Rightarrow>
     nat list \<Rightarrow> ('k, 'q) mayhem \<Rightarrow> ('k, 'q) mayhem option" where
  "run_contexts pop run is s =
     map_option (\<lambda>(k, tp). s\<lparr>mv_system := k, mv_pool := tp\<rparr>) (work_steps pop run is (mv_system s, mv_pool s))"

lemma mayhem_run_trans:
  assumes "mayhem_run env pop run room s2 s3" and "mayhem_run env pop run room s1 s2"
  shows "mayhem_run env pop run room s1 s3"
  using assms by (induction rule: mayhem_run.induct) (auto intro: mayhem_run.more_run)

lemma work_steps_mayhem:
  assumes "work_steps pop run is (mv_system s, mv_pool s) = Some (k, tp)" and "set is \<subseteq> {..<tp_threads (mv_pool s)}"
  shows "mayhem_run env pop run room s (s\<lparr>mv_system := k, mv_pool := tp\<rparr>)"
  using assms
proof (induction "is" arbitrary: s)
  case Nil
  then show ?case by (cases s) (auto intro: mayhem_run.begin_run)
next
  case (Cons i "is")
  obtain k1 tp1 where w1: "work_step pop run i (mv_system s, mv_pool s) = Some (k1, tp1)"
    "work_steps pop run is (k1, tp1) = Some (k, tp)"
    using Cons.prems(1) by (auto split: option.splits)
  let ?s1 = "s\<lparr>mv_system := k1, mv_pool := tp1\<rparr>"
  have i: "i < tp_threads (mv_pool s)" using Cons.prems(2) by simp
  have "mayhem_step env pop run room s (Some ?s1) \<and> tp_threads tp1 = tp_threads (mv_pool s)"
    using w1(1)
  proof (cases rule: work_step_cases)
    case (task t)
    with mayhem_step.handled [of i s t run k1 pop tp1] i Routine_threads [OF task(3)] show ?thesis by simp
  next
    case idle
    with mayhem_step.work [of i s pop tp1] i Routine_threads [OF idle(3)] show ?thesis by simp
  qed
  then have step: "mayhem_step env pop run room s (Some ?s1)" and th: "tp_threads tp1 = tp_threads (mv_pool s)" by simp_all
  have "mayhem_run env pop run room ?s1 (?s1\<lparr>mv_system := k, mv_pool := tp\<rparr>)"
    by (rule Cons.IH) (use w1(2) Cons.prems(2) th in simp_all)
  then show ?case
    using mayhem_run_trans [OF _ mayhem_run.more_run [OF mayhem_run.begin_run step]] by fastforce
qed

sublocale mayhem_system \<subseteq> service: pool_service push pop contents bound budget run "\<lambda>ctx. ss_fd (BodyStream ctx)" owned
  by unfold_locales (use run_keeps in blast)

text \<open>The pool of the server makes steps of a pool.\<close>

lemma Mayhem_step_pool:
  assumes "Mayhem_step env s = Some s'"
  shows "mv_pool s' = mv_pool s \<or> (\<exists>ctx b. ThreadPool_Submit (me_push env) ctx (mv_pool s) = Some (b, mv_pool s'))"
proof -
  have keep [simp]: "mv_pool (set_handle fd h t) = mv_pool t" "mv_pool (Mayhem_Close env fd t) = mv_pool t"
    "mv_pool (Mayhem_CloseSocket env t) = mv_pool t" "mv_pool (Mayhem_CloseEpoll env t) = mv_pool t" for fd h t
    by (simp_all add: set_handle_def Mayhem_Close_def Mayhem_CloseSocket_def Mayhem_CloseEpoll_def split: prod.splits)
  have watch: "Mayhem_UnmonitorFd env fd t = (u, t') \<Longrightarrow> mv_pool t' = mv_pool t"
    "Mayhem_MonitorFd env fd t = (u, t') \<Longrightarrow> mv_pool t' = mv_pool t" for fd t u t'
    by (auto simp: Mayhem_MonitorFd_def Mayhem_UnmonitorFd_def split: prod.splits)
  have submit: "mv_pool t' = mv_pool t \<or> (\<exists>ctx b. ThreadPool_Submit (me_push env) ctx (mv_pool t) = Some (b, mv_pool t'))"
    if "Mayhem_submit env fd b t = Some t'" for fd b t t'
    using that by (auto simp: Mayhem_submit_def Let_def split: prod.splits option.splits if_splits dest!: watch)
  have parse: "mv_pool t' = mv_pool t \<or> (\<exists>ctx b. ThreadPool_Submit (me_push env) ctx (mv_pool t) = Some (b, mv_pool t'))"
    if "Mayhem_parse env fd t = Some t'" for fd t t'
    using that by (auto simp: Mayhem_parse_def Let_def split: option.splits prod.splits outcome.splits if_splits dest!: submit)
  have accept: "mv_pool (Mayhem_accept env es s) = mv_pool s" for es
    by (auto simp: Mayhem_accept_def Let_def split: prod.splits dest!: watch)
  show ?thesis
    using assms by (auto simp: Mayhem_step_def accept Let_def Mayhem_Stop_def split: mayhem_pc.splits list.splits prod.splits
        if_splits dest!: parse)
qed

context mayhem_system
begin

lemma exited_stopped_mayhem:
  assumes "mayhem_run env pop run (\<lambda>q. 0 < budget q) s s'" and "inv lfd efd s"
    and "\<forall>i < tp_threads (mv_pool s). tp_pcs (mv_pool s) ! i = W_Exited \<longrightarrow> \<not> tp_running (mv_pool s) ! i"
  shows "tp_threads (mv_pool s') = tp_threads (mv_pool s) \<and>
    (\<forall>i < tp_threads (mv_pool s). tp_pcs (mv_pool s') ! i = W_Exited \<longrightarrow> \<not> tp_running (mv_pool s') ! i)"
  using assms
proof (induction rule: mayhem_run.induct)
  case (more_run s s1 s2)
  obtain xss where p: "pool_inv contents (mv_pool s1) xss"
    using run_inv [OF more_run(1) more_run.prems(1)] by (auto simp: mayhem_inv_def)
  from more_run(2) have "mv_pool s2 = mv_pool s1 \<or> pool_step push pop (\<lambda>q. 0 < budget q) (mv_pool s1) (mv_pool s2)"
  proof (cases rule: mayhem_step.cases)
    case loop
    with Mayhem_step_pool [OF loop(1)] show ?thesis by (auto intro: pool_step.submit)
  qed (auto simp: Mayhem_Stop_def intro: pool_step.intros)
  with p fifo.exited_stopped [of "mv_pool s1" "mv_pool s2"] more_run.IH more_run.prems show ?case by auto
qed simp

text \<open>The contexts that wait in the pool of a server are all dispatched.\<close>

lemma contexts_answered:
  assumes "inv lfd efd s" and "all_running (mv_pool s)"
    and "\<forall>is \<in> set rounds. round_of (tp_threads (mv_pool s)) is"
    and "4 * size (pending_tasks (mv_pool s)) \<le> length rounds"
    and "answerable run (\<lambda>ctx. ss_fd (BodyStream ctx)) owned (mv_system s) (pending_tasks (mv_pool s))"
  shows "\<exists>s'. run_contexts pop run (concat rounds) s = Some s' \<and>
    mayhem_run env pop run (\<lambda>q. 0 < budget q) s s' \<and> pending_tasks (mv_pool s') = {#} \<and>
    all_done run (mv_system s) (pending_tasks (mv_pool s)) (mv_system s') \<and>
    owned (mv_system s') = owned (mv_system s) - set_mset (context_fds (mv_pool s))"
proof -
  obtain xss where p: "pool_inv contents (mv_pool s) xss" using assms(1) by (auto simp: mayhem_inv_def)
  have "\<forall>x \<in> task_fds (\<lambda>ctx. ss_fd (BodyStream ctx)) (mv_pool s). 0 < x"
    using assms(1) by (auto simp: mayhem_inv_def conn_inv_def context_fds_def split: if_splits)
  from service.pending_answered [OF p this assms(2-5)] obtain k tp where
    w: "work_steps pop run (concat rounds) (mv_system s, mv_pool s) = Some (k, tp)" "pending_tasks tp = {#}"
      "all_done run (mv_system s) (pending_tasks (mv_pool s)) k"
      "owned k = owned (mv_system s) - task_fds (\<lambda>ctx. ss_fd (BodyStream ctx)) (mv_pool s)" by auto
  have "set (concat rounds) \<subseteq> {..<tp_threads (mv_pool s)}" using assms(3) by (auto simp: round_of_def)
  from work_steps_mayhem [OF w(1) this] w show ?thesis by (auto simp: run_contexts_def context_fds_def)
qed

end

section \<open>The lines of the connections\<close>

text \<open>A change of the interest list leaves the lines of the connections alone.\<close>

locale epoll_lines = client_lines net line waiting received up
  for net :: "'k net_ops" and line :: "int \<Rightarrow> 'k \<Rightarrow> 'c" and waiting received up +
  fixes ep :: "'k ep_ops"
  assumes ctl_line: "line g (snd (ep_ctl ep k e op fd ev)) = line g k"

text \<open>
  A submitted context asks: its line is up, and the cleaned path and the method of its request have a plain text endpoint
  \<open>f ctx\<close>. The reply is the printed response of that endpoint, up to 1024 bytes.
\<close>

definition context_asks ::
    "(int \<Rightarrow> 'k \<Rightarrow> 'c) \<Rightarrow> ('c \<Rightarrow> bool) \<Rightarrow> 'k SocketStream RequestDispatcher \<Rightarrow>
     ('k SocketStream HttpContext \<Rightarrow> TextRequest \<Rightarrow> TextResponse \<Rightarrow> TextResponse) \<Rightarrow> 'k \<Rightarrow> 'k SocketStream HttpContext \<Rightarrow> bool" where
  "context_asks line up d f k ctx \<longleftrightarrow>
     0 < ss_fd (BodyStream ctx) \<and> up (line (ss_fd (BodyStream ctx)) k) \<and>
     (\<exists>path. CleanPath (Path (Request ctx)) = Ret path \<and>
       find_handler d path (Method (Request ctx)) = (Some (text_endpoint (f ctx)), STATUS_OK))"

definition context_reply ::
    "(headers \<Rightarrow> headers) \<Rightarrow> (TextRequest \<Rightarrow> TextResponse \<Rightarrow> TextResponse) \<Rightarrow> 's HttpContext \<Rightarrow> string" where
  "context_reply iter f ctx =
     surviving 0 (response_chunks iter (set_length (TextResponse_PostHandle (f (Request ctx) (Response ctx)))))"

lemma context_asks_line:
  "context_asks line up d f k ctx \<Longrightarrow> line (ss_fd (BodyStream ctx)) k' = line (ss_fd (BodyStream ctx)) k \<Longrightarrow>
    context_asks line up d f k' ctx"
  by (simp add: context_asks_def)

context epoll_lines
begin

lemma parse_line:
  assumes "builder_Parse net b = Some (oc, b1)" and "up (line (builder_fd b) (builder_system b))"
  shows "up (line (builder_fd b) (builder_system b1))"
    and "received (line (builder_fd b) (builder_system b1)) = received (line (builder_fd b) (builder_system b))"
    and "g \<noteq> builder_fd b \<Longrightarrow> line g (builder_system b1) = line g (builder_system b)"
proof -
  let ?r = "received (line (builder_fd b) (builder_system b))"
  show "up (line (builder_fd b) (builder_system b1))" "received (line (builder_fd b) (builder_system b1)) = ?r"
    using builder_Parse_frame [OF assms(1), of "\<lambda>k. up (line (builder_fd b) k) \<and> received (line (builder_fd b) k) = ?r"]
      assms(2) by (simp_all add: recv_line)
  show "g \<noteq> builder_fd b \<Longrightarrow> line g (builder_system b1) = line g (builder_system b)"
    using builder_Parse_frame [OF assms(1), of "\<lambda>k. line g k = line g (builder_system b)"] by (simp add: recv_other)
qed

lemma context_served:
  assumes os: "net_os os owned net" and ask: "context_asks line up d f k ctx"
    and d: "\<And>I. handlers_keep I d" "rd_errorHandlers d = Map.empty"
  shows "\<exists>k'. mayhem_task net iter (RegisterDefaultHandlers d) ctx k = Some (Ret (), k') \<and>
    received (line (ss_fd (BodyStream ctx)) k') = received (line (ss_fd (BodyStream ctx)) k) @ context_reply iter (f ctx) ctx \<and>
    (\<forall>g. g \<noteq> ss_fd (BodyStream ctx) \<longrightarrow> line g k' = line g k) \<and> ss_fd (BodyStream ctx) \<notin> owned k'"
proof -
  let ?fd = "ss_fd (BodyStream ctx)" and ?ctx = "ctx\<lparr>BodyStream := (BodyStream ctx)\<lparr>ss_kernel := k\<rparr>\<rparr>"
  obtain path where path: "CleanPath (Path (Request ?ctx)) = Ret path"
      "find_handler d path (Method (Request ?ctx)) = (Some (text_endpoint (f ctx)), STATUS_OK)"
    and up: "0 < ?fd" "up (line ?fd k)"
    using ask by (auto simp: context_asks_def)
  from response_channel.Dispatch_replies [OF channel [of ?fd] path d(2) text_endpoint_effect, of iter] up obtain ctx2 where
    "Dispatch (SocketStream_Write net) (SocketStream_Close net) iter (RegisterDefaultHandlers d) ?ctx = Some (Ret (), ctx2)"
    "received (line ?fd (ss_kernel (BodyStream ctx2))) = received (line ?fd k) @ context_reply iter (f ctx) ctx"
    by (auto simp: reply_chunks_def context_reply_def)
  then obtain k' where run: "mayhem_task net iter (RegisterDefaultHandlers d) ctx k = Some (Ret (), k')"
    "received (line ?fd k') = received (line ?fd k) @ context_reply iter (f ctx) ctx"
    by (auto simp: RunContext_def)
  have keep: "handlers_keep I (RegisterDefaultHandlers d)" for I by (rule default_handlers_keep [OF d(1)])
  have "line g k' = line g k" if "g \<noteq> ?fd" for g
    using RunContext_frame [OF run(1), of "\<lambda>k'. line g k' = line g k"] that up(1) keep by (auto simp: send_other close_other)
  moreover have "?fd \<notin> owned k'"
    using RunContext_frame [OF run(1), of "\<lambda>k'. owned k' = owned k"] up(1) keep
    by (auto simp: net_os.send_owned [OF os] net_os.net_close_owned [OF os])
  ultimately show ?thesis using run by blast
qed

lemma contexts_own_lines:
  assumes "net_os os owned net" and "\<And>I. handlers_keep I d" and "rd_errorHandlers d = Map.empty"
  shows "own_lines (mayhem_task net iter (RegisterDefaultHandlers d)) (\<lambda>ctx. ss_fd (BodyStream ctx)) owned line received
    (context_asks line up d f) (\<lambda>ctx. context_reply iter (f ctx) ctx)"
  by (unfold_locales) (rule context_served [OF assms(1) _ assms(2,3)], assumption, rule context_asks_line)

end

lemma started_mayhem_pool:
  assumes "MayhemServer_new dflt threads capacity k = Ret s0"
    and "Mayhem_StartAsync env port cb s0 = (Ret True, s1)"
  shows "tp_threads (mv_pool s1) = threads" and "\<forall>i < threads. tp_pcs (mv_pool s1) ! i = W_Loop"
proof -
  obtain tp where tp: "ThreadPool_new dflt threads capacity = Ret tp" "mv_pool s0 = tp"
    using assms(1) by (cases "ThreadPool_new dflt threads capacity" rule: outcome.exhaust)
      (auto simp: MayhemServer_new_def)
  have "mv_pool s1 = tp"
    using assms(2) tp(2) by (auto simp: Mayhem_StartAsync_def Mayhem_OpenSocket_def Mayhem_OpenEpoll_def Let_def
        split: if_splits prod.splits outcome.splits)
  then show "tp_threads (mv_pool s1) = threads" "\<forall>i < threads. tp_pcs (mv_pool s1) ! i = W_Loop"
    using ThreadPool_new_threads [OF tp(1)] by simp_all
qed

lemma MayhemServer_new_running:
  assumes "MayhemServer_new dflt threads capacity k = Ret s"
  shows "tp_running (mv_pool s) = replicate threads True"
  using assms ThreadPool_new_threads(3) by (cases "ThreadPool_new dflt threads capacity" rule: outcome.exhaust)
    (auto simp: MayhemServer_new_def)

lemma Submit_running: "ThreadPool_Submit push task tp = Some (b, tp') \<Longrightarrow> tp_running tp' = tp_running tp"
  by (auto simp: ThreadPool_Submit_def Let_def split: option.splits prod.splits)

lemma mayhem_running:
  assumes "epoll_handlers os owned net ep watched d"
    and "MayhemServer_new dflt threads capacity k = Ret s0"
    and "2 \<le> unat (MakePowerOfTwo capacity)" and "unat (MakePowerOfTwo capacity) < 2 ^ 63"
    and "Mayhem_StartAsync (mayhem_sys_env os net ep (Push moved)) port cb s0 = (Ret True, s1)"
    and "mayhem_run (mayhem_sys_env os net ep (Push moved)) (Pop moved) (mayhem_task net iter d)
      (\<lambda>q. 0 < q_budget q) s1 s2"
    and "\<forall>i < threads. tp_running (mv_pool s2) ! i"
  shows "tp_threads (mv_pool s2) = threads" and "all_running (mv_pool s2)"
proof -
  note sys = epoll_handlers.mayhem_system [OF assms(1), of moved iter]
  note new = MayhemServer_new_pool [OF assms(2-4)] and pool1 = started_mayhem_pool [OF assms(2,5)]
  have "\<forall>i < tp_threads (mv_pool s1). tp_pcs (mv_pool s1) ! i = W_Exited \<longrightarrow> \<not> tp_running (mv_pool s1) ! i"
    using pool1 by auto
  from mayhem_system.exited_stopped_mayhem [OF sys assms(6) mayhem_system.started_inv [OF sys assms(5) new(1-3)] this]
  show "tp_threads (mv_pool s2) = threads" "all_running (mv_pool s2)"
    using pool1 assms(7) by (auto simp: all_running_def)
qed

section \<open>Properties\<close>

text \<open>
  C5: requests to a mayhem server are answered. A mayhem server is made, started and run, its loop, its workers
  and the callers of \<open>Stop\<close> in any order, to a point where no worker has been stopped and the loop is about to handle an
  event of a connection from which nothing has been read. Its client has sent the printed form of a request whose
  cleaned path and method have a plain text endpoint, and the worker whose turn it is has room; any number of submitted
  contexts, each of them with an endpoint, may be waiting already. Then, in every schedule of four rounds of the workers for
  each of them after the loop's step, every client has received, on its own connection, the response its endpoint
  computes from its own request, printed, up to 1024 bytes; all other lines are as they were, and exactly these connections
  have been closed.
\<close>

theorem mayhem_request_answered:
  assumes os: "epoll_os os owned net ep watched" and lines: "epoll_lines net line waiting received up ep"
    and keep: "\<And>I. handlers_keep I d" and err: "rd_errorHandlers d = Map.empty" and iter: "iteration iter"
    and env: "env = mayhem_sys_env os net ep (Push moved)" and task: "task = mayhem_task net iter (RegisterDefaultHandlers d)"
    and start: "MayhemServer_new dflt threads capacity k = Ret s0"
      "2 \<le> unat (MakePowerOfTwo capacity)" "unat (MakePowerOfTwo capacity) < 2 ^ 63"
      "Mayhem_StartAsync env port cb s0 = (Ret True, s1)"
    and run: "mayhem_run env (Pop moved) task (\<lambda>q. 0 < q_budget q) s1 s2"
    and workers: "\<forall>i < threads. tp_running (mv_pool s2) ! i" "\<forall>q \<in> set (tp_workers (mv_pool s2)). 0 < q_budget q"
    and room: "pool_inv holds (mv_pool s2) xss" "i = unat (tp_next (mv_pool s2)) mod tp_threads (mv_pool s2)"
      "length (xss ! i) < q_bound (tp_workers (mv_pool s2) ! i)"
    and ev: "mv_pc s2 = Mayhem_Events (e # es)" "data_fd (ev_data e) = SocketFd data" "SocketFd data \<noteq> mv_listenFd s2"
      "ev_events e AND EPOLLIN \<noteq> 0"
    and h: "mv_handles s2 ! nat (SocketFd data) = Some (AsyncHttpContextBuilder_new data k0)"
    and client: "0 < SocketFd data" "up (line (SocketFd data) (mv_system s2))"
      "waiting (line (SocketFd data) (mv_system s2)) = HttpRequest_ToString iter q @ later"
    and q: "async_printable q" "Host q \<noteq> []" "\<forall>c \<in> set (HttpRequest_ToString iter q). is_ascii c"
    and d: "CleanPath (Path q) = Ret path" "find_handler d path (Method q) = (Some (text_endpoint f), STATUS_OK)"
    and others: "\<forall>ctx \<in># pending_tasks (mv_pool s2). context_asks line up d g (mv_system s2) ctx"
    and r: "r = set_length (TextResponse_PostHandle (f (q\<lparr>Headers := iter (Headers q)\<rparr>) (fresh_response ''Mayhem'')))"
    and rounds: "\<forall>is \<in> set rounds. round_of threads is" "4 * Suc (size (pending_tasks (mv_pool s2))) \<le> length rounds"
  shows "\<exists>s3 s4. Mayhem_step env s2 = Some s3 \<and> run_contexts (Pop moved) task (concat rounds) s3 = Some s4 \<and>
    mayhem_run env (Pop moved) task (\<lambda>q. 0 < q_budget q) s1 s4 \<and> pending_tasks (mv_pool s4) = {#} \<and>
    received (line (SocketFd data) (mv_system s4)) =
      received (line (SocketFd data) (mv_system s2)) @ surviving 0 (response_chunks iter r) \<and>
    (\<forall>ctx \<in># pending_tasks (mv_pool s2). received (line (ss_fd (BodyStream ctx)) (mv_system s4)) =
      received (line (ss_fd (BodyStream ctx)) (mv_system s2)) @ context_reply iter (g ctx) ctx) \<and>
    (\<forall>fd. fd \<noteq> SocketFd data \<longrightarrow> fd \<notin># context_fds (mv_pool s2) \<longrightarrow> line fd (mv_system s4) = line fd (mv_system s2)) \<and>
    owned (mv_system s4) = owned (mv_system s2) - insert (SocketFd data) (set_mset (context_fds (mv_pool s2)))"
proof -
  let ?fd = "SocketFd data" and ?cfd = "\<lambda>ctx. ss_fd (BodyStream ctx)"
  have sys: "epoll_handlers os owned net ep watched (RegisterDefaultHandlers d)"
    by (intro epoll_handlers.intro os epoll_handlers_axioms.intro default_handlers_keep keep)
  note run' = run [unfolded env task] and start' = start(4) [unfolded env]
  have inv: "mayhem_inv holds owned watched (mv_listenFd s1) (mv_epollFd s1) s2"
    by (rule mayhem_reachable [OF sys start(1-3) start' run'])
  from mayhem_event_fd [OF sys start(1-3) start' run' ev(1) ev(2) [symmetric] ev(3)]
  have fd: "in_handles ?fd s2" "?fd \<noteq> mv_epollFd s2" by simp_all
  have fresh: "0 < ?fd \<and> ss_fd (SocketStream_new ?fd (mv_system s2)) = ?fd \<and>
      up (line ?fd (ss_kernel (SocketStream_new ?fd (mv_system s2))))"
    "waiting (line ?fd (ss_kernel (SocketStream_new ?fd (mv_system s2)))) = HttpRequest_ToString iter q @ later"
    using client by (simp_all add: SocketStream_new_def)
  obtain b1 s3 ctx where sub:
    "builder_Parse net (AsyncHttpContextBuilder_new data (mv_system s2)) = Some (Ret 1, b1)"
    "mv_system s3 = snd (epoll_Unmonitor ep (mv_epollFd s2) ?fd (builder_system b1))"
    "ThreadPool_Submit (Push moved) ctx (mv_pool s2) = Some (True, mv_pool s3)" "Mayhem_step env s2 = Some s3"
    "Request ctx = q\<lparr>Headers := iter (Headers q)\<rparr>" "Response ctx = fresh_response ''Mayhem''"
    "?cfd ctx = ?fd" "owned (mv_system s3) = owned (mv_system s2)"
    using request_submitted [OF os client_lines.source [OF epoll_lines.axioms(1) [OF lines]] ev fd(1) h fd(2) fresh q(1) iter
        q(2,3) room(1) workers(2) room(2), of True moved] room(3) by (auto simp: env)
  have run3: "mayhem_run env (Pop moved) task (\<lambda>q. 0 < q_budget q) s1 s3"
    by (rule mayhem_run.more_run [OF run mayhem_step.loop [OF sub(4) workers(2)]])
  have inv3: "mayhem_inv holds owned watched (mv_listenFd s1) (mv_epollFd s1) s3"
    by (rule mayhem_reachable [OF sys start(1-3) start' run3 [unfolded env task]])
  have pend3: "pending_tasks (mv_pool s3) = add_mset ctx (pending_tasks (mv_pool s2))"
    using pending_Submit [OF sub(3) room(1)] by simp
  have "\<forall>i < threads. tp_running (mv_pool s3) ! i" using workers(1) Submit_running [OF sub(3)] by simp
  note running3 = mayhem_running [OF sys start(1-3) start' run3 [unfolded env task] this]
  have sep: "separate ?cfd (pending_tasks (mv_pool s3))"
    using inv3 by (auto simp: separate_def mayhem_inv_def conn_inv_def context_fds_def split: if_splits)
  note apart = separate_add(2) [OF sep [unfolded pend3]]
  have new: "builder_fd (AsyncHttpContextBuilder_new data (mv_system s2)) = ?fd"
    "builder_system (AsyncHttpContextBuilder_new data (mv_system s2)) = mv_system s2"
    by (simp_all add: builder_fd_def builder_system_def AsyncHttpContextBuilder_new_def BufferedStreamReader_new_def
        SocketStream_new_def)
  have line3: "line g (mv_system s3) = line g (builder_system b1)" for g
    by (simp add: sub(2) epoll_Unmonitor_def epoll_lines.ctl_line [OF lines])
  note parsed = epoll_lines.parse_line [OF lines sub(1), unfolded new, OF client(2), folded line3]
  define f' where "f' c = (if ?cfd c = ?fd then f else g c)" for c
  have "context_asks line up d f' (mv_system s3) ctx"
    using client(1) parsed(1) d by (auto simp: context_asks_def f'_def sub(5,7))
  moreover have "context_asks line up d f' (mv_system s3) c" if "c \<in># pending_tasks (mv_pool s2)" for c
    using others that apart [OF that] parsed(3) [of "?cfd c"] by (auto simp: context_asks_def f'_def sub(7))
  ultimately have asks: "\<forall>c \<in># pending_tasks (mv_pool s3). context_asks line up d f' (mv_system s3) c"
    by (auto simp: pend3)
  note own = epoll_lines.contexts_own_lines [OF lines _ keep err, of os owned iter f', folded task]
  have nos: "net_os os owned net" using os by (simp add: epoll_os_def)
  note msys = epoll_handlers.mayhem_system [OF sys, of moved iter, folded task]
  have len: "4 * size (pending_tasks (mv_pool s3)) \<le> length rounds" using rounds(2) by (simp add: pend3)
  have rounds3: "\<forall>is \<in> set rounds. round_of (tp_threads (mv_pool s3)) is" using rounds(1) running3(1) by simp
  from mayhem_system.contexts_answered [OF msys inv3 running3(2) rounds3 len own_lines.lines_answerable [OF own [OF nos] sep asks]]
  obtain s4 where s4: "run_contexts (Pop moved) task (concat rounds) s3 = Some s4"
      "mayhem_run env (Pop moved) task (\<lambda>q. 0 < q_budget q) s3 s4" "pending_tasks (mv_pool s4) = {#}"
      "all_done task (mv_system s3) (pending_tasks (mv_pool s3)) (mv_system s4)"
      "owned (mv_system s4) = owned (mv_system s3) - set_mset (context_fds (mv_pool s3))"
    unfolding env by blast
  from own_lines.lines_answered [OF own [OF nos] s4(4) sep asks]
  have done4: "received (line ?fd (mv_system s4)) = received (line ?fd (mv_system s3)) @ context_reply iter f ctx"
    "\<And>c. c \<in># pending_tasks (mv_pool s2) \<Longrightarrow> received (line (?cfd c) (mv_system s4)) =
      received (line (?cfd c) (mv_system s3)) @ context_reply iter (g c) c"
    "\<And>x. x \<noteq> ?fd \<Longrightarrow> x \<notin># context_fds (mv_pool s2) \<Longrightarrow> line x (mv_system s4) = line x (mv_system s3)"
    using apart by (auto simp: pend3 f'_def sub(7) context_fds_def)
  have "context_reply iter f ctx = surviving 0 (response_chunks iter r)" by (simp add: context_reply_def r sub(5,6))
  moreover have "owned (mv_system s4) = owned (mv_system s2) - insert ?fd (set_mset (context_fds (mv_pool s2)))"
    using s4(5) by (simp add: sub(7,8) pend3 context_fds_def)
  ultimately show ?thesis
    using sub(4) s4(1,3) mayhem_run_trans [OF s4(2) run3] done4 parsed(2,3) apart
    by (intro exI [of _ s3] exI [of _ s4]) (simp add: sub(7))
qed

interpretation ewl: epoll_lines ew_net ew_line peer_waiting outbound peer_up ew_ep
  by (intro epoll_lines.intro ewlines.client_lines_axioms epoll_lines_axioms.intro) simp

lemma ew_dispatcher_keeps: "handlers_keep I ew_dispatcher"
  using text_endpoint_keeps [of I echo]
  by (auto simp: handlers_keep_def ew_dispatcher_def RequestDispatcher_new_def split: if_splits)

lemma ew_no_errors: "rd_errorHandlers ew_dispatcher = Map.empty"
  by (simp add: ew_dispatcher_def RequestDispatcher_new_def)

interpretation ewo: own_lines "mayhem_task ew_net (\<lambda>hs. hs) (RegisterDefaultHandlers ew_dispatcher)"
    "\<lambda>ctx. ss_fd (BodyStream ctx)" ew_owned ew_line outbound "context_asks ew_line peer_up ew_dispatcher (\<lambda>ctx. echo)"
    "\<lambda>ctx. context_reply (\<lambda>hs. hs) echo ctx"
  by (rule ewl.contexts_own_lines [OF ew.net_os_axioms ew_dispatcher_keeps ew_no_errors])

text \<open>
  Two clients at the echo server: the loop has already submitted the request of the one on descriptor 6, and is about to
  handle the event of the other, on 5.
\<close>

definition other_post :: HttpRequest where
  "other_post = sample_post\<lparr>Body := ''world''\<rparr>"

definition two_posts :: "int \<Rightarrow> string" where
  "two_posts fd = HttpRequest_ToString (\<lambda>hs. hs) (if fd = 6 then sample_post else other_post)"

abbreviation echo_task :: "ep_world SocketStream HttpContext \<Rightarrow> (ep_world, unit) action" where
  "echo_task \<equiv> mayhem_task ew_net (\<lambda>hs. hs) (RegisterDefaultHandlers ew_dispatcher)"

lemma two_posts_texts:
  "two_posts 6 = HttpRequest_ToString (\<lambda>hs. hs) sample_post" "two_posts 5 = HttpRequest_ToString (\<lambda>hs. hs) other_post"
  by (simp_all add: two_posts_def)

lemma two_posts_ascii:
  "two_posts 6 \<noteq> []" "two_posts 5 \<noteq> []" "\<forall>c \<in> set (two_posts 6). is_ascii c" "\<forall>c \<in> set (two_posts 5). is_ascii c"
  by code_simp+

lemma other_post_printable: "async_printable other_post"
  by code_simp

lemma echo_route:
  "CleanPath ''/echo'' = Ret ''/echo''"
  "find_handler ew_dispatcher ''/echo'' POST = (Some (text_endpoint echo), STATUS_OK)"
proof -
  show "CleanPath ''/echo'' = Ret ''/echo''" by code_simp
  show "find_handler ew_dispatcher ''/echo'' POST = (Some (text_endpoint echo), STATUS_OK)"
    by (simp add: find_handler_def ew_dispatcher_def RequestDispatcher_new_def)
qed

lemma sample_mayhem_waiting:
  obtains s0 s1 s2 :: "(ep_world, ep_world SocketStream HttpContext Queue) mayhem" and ctx
  where "MayhemServer_new client_context 2 3 (mayhem_start two_posts) = Ret s0" "MakePowerOfTwo 3 = 4"
    "Mayhem_StartAsync ew_env 80 True s0 = (Ret True, s1)"
    "mayhem_run ew_env (Pop id) echo_task (\<lambda>q. 0 < q_budget q) s1 s2"
    "mv_pc s2 = Mayhem_Events [ew_event 5, ew_event 3]" "mv_listenFd s2 = 3"
    "mv_handles s2 ! nat 5 = Some (other_builder two_posts)"
    "ew_line 5 (mv_system s2) = ew_line 5 (mayhem_ready two_posts)" "outbound (ew_line 6 (mv_system s2)) = []"
    "pool_inv holds (mv_pool s2) [[ctx], []]" "tp_next (mv_pool s2) = 1" "tp_threads (mv_pool s2) = 2"
    "tp_running (mv_pool s2) = replicate 2 True" "\<forall>q \<in> set (tp_workers (mv_pool s2)). 0 < q_budget q"
    "q_bound (tp_workers (mv_pool s2) ! 1) = 4" "pending_tasks (mv_pool s2) = {#ctx#}"
    "ss_fd (BodyStream ctx) = 6" "Request ctx = sample_post" "Response ctx = fresh_response ''Mayhem''"
    "peer_up (ew_line 6 (mv_system s2))" "ew_owned (mv_system s2) = {3, 4, 5, 6}"
proof -
  obtain s0 s1 s :: "(ep_world, ep_world SocketStream HttpContext Queue) mayhem" where
    new: "MayhemServer_new client_context 2 3 (mayhem_start two_posts) = Ret s0" "MakePowerOfTwo 3 = 4"
      "Mayhem_StartAsync ew_env 80 True s0 = (Ret True, s1)"
    and run: "mayhem_run ew_env (Pop id) echo_task (\<lambda>q. 0 < q_budget q) s1 s"
    and s: "mv_pc s = Mayhem_Events mayhem_events" "mv_listenFd s = 3" "mv_epollFd s = 4" "in_handles 6 s"
      "mv_system s = mayhem_ready two_posts" "mv_handles s ! nat 6 = Some (client_builder two_posts)"
      "mv_handles s ! nat 5 = Some (other_builder two_posts)"
    and tp: "pool_inv holds (mv_pool s) [[], []]" "tp_next (mv_pool s) = 0" "tp_threads (mv_pool s) = 2"
      "\<forall>q \<in> set (tp_workers (mv_pool s)). q_bound q = 4 \<and> 0 < q_budget q" "length (tp_workers (mv_pool s)) = 2"
      "mv_pool s = mv_pool s0"
    by (rule sample_mayhem) blast
  note c = conjunct1 [OF capacity_three [OF new(2)]] conjunct2 [OF capacity_three [OF new(2)]]
  obtain p where p: "ThreadPool_new client_context 2 3 = Ret p" "mv_pool s0 = p"
    using new(1) by (cases "ThreadPool_new client_context 2 3" rule: outcome.exhaust) (auto simp: MayhemServer_new_def)
  have budget: "\<forall>q \<in> set (tp_workers (mv_pool s)). q_budget q = 2 ^ 64 - 1 - 2 * unat (MakePowerOfTwo 3)"
    using ThreadPool_new_inv(4) [OF p(1) c] by (simp add: p(2) tp(6))
  have w: "tp_workers (mv_pool s) ! j \<in> set (tp_workers (mv_pool s))" if "j < 2" for j using tp(5) that by simp
  have room: "q_bound (tp_workers (mv_pool s) ! j) = 4 \<and> 2 \<le> q_budget (tp_workers (mv_pool s) ! j)" if "j < 2" for j
    using tp(4) budget w [OF that] by (simp add: new(2))
  have b: "\<forall>q \<in> set (tp_workers (mv_pool s)). 0 < q_budget q" using tp(4) by blast
  have i: "0 = unat (tp_next (mv_pool s)) mod tp_threads (mv_pool s)" by (simp add: tp(2))
  have r0: "length ([[], []] ! 0) < q_bound (tp_workers (mv_pool s) ! 0)"
    "True = (length ([[], []] ! 0) < q_bound (tp_workers (mv_pool s) ! 0))" using room [of 0] by simp_all
  have fd: "SocketFd mayhem_client = 6" by (simp add: mayhem_client_def)
  have ev: "data_fd (ev_data (ew_event 6)) = SocketFd mayhem_client" "SocketFd mayhem_client \<noteq> mv_listenFd s"
    "ev_events (ew_event 6) AND EPOLLIN \<noteq> 0" "SocketFd mayhem_client \<noteq> mv_epollFd s"
    by (simp_all add: fd s EPOLLIN_def)
  have h: "in_handles (SocketFd mayhem_client) s" "mv_handles s ! nat (SocketFd mayhem_client) = Some (client_builder two_posts)"
    using s(4,6) by (simp_all add: fd)
  have up6: "peer_up (ew_line 6 (mv_system s))" "outbound (ew_line 6 (mv_system s)) = []"
    unfolding s(5) using two_posts_ascii(1) by (simp_all add: mayhem_world_line)
  have str: "client_up (SocketStream_new (SocketFd mayhem_client) (mv_system s))"
    "client_waiting (SocketStream_new (SocketFd mayhem_client) (mv_system s)) = HttpRequest_ToString (\<lambda>hs. hs) sample_post @ []"
    unfolding s(5) fd two_posts_texts(1) [symmetric] using two_posts_ascii(1) by (simp_all add: mayhem_world_stream)
  have q: "Host sample_post \<noteq> []" "sample_post\<lparr>Headers := Headers sample_post\<rparr> = sample_post"
    by (simp_all add: sample_post_def)
  obtain b1 s2 ctx where sub: "builder_Parse ew_net (AsyncHttpContextBuilder_new mayhem_client (mv_system s)) = Some (Ret 1, b1)"
    "mv_system s2 = snd (epoll_Unmonitor ew_ep (mv_epollFd s) (SocketFd mayhem_client) (builder_system b1))"
    "ThreadPool_Submit (Push id) ctx (mv_pool s) = Some (True, mv_pool s2)" "Mayhem_step ew_env s = Some s2"
    "Request ctx = sample_post" "Response ctx = fresh_response ''Mayhem''" "ss_fd (BodyStream ctx) = 6"
    "ew_owned (mv_system s2) = ew_owned (mv_system s)" "mv_pc s2 = Mayhem_Events [ew_event 5, ew_event 3]" "mv_listenFd s2 = 3"
    "mv_handles s2 ! nat 5 = mv_handles s ! nat 5"
    using request_submitted [OF ew.epoll_os_axioms client_source s(1) ev(1-3) h ev(4) str sample_post_printable iteration_id
        q(1) two_posts_ascii(3) [unfolded two_posts_texts(1)] tp(1) b i r0(2), of id] unfolding q(2) fd s(2) by auto
  obtain tp' where "ThreadPool_Submit (Push id) ctx (mv_pool s) = Some (True, tp')"
    "pool_inv holds tp' ([[], []][0 := [[], []] ! 0 @ [ctx]])" "tp_next tp' = tp_next (mv_pool s) + 1"
    "tp_threads tp' = tp_threads (mv_pool s)" "tp_running tp' = tp_running (mv_pool s)"
    "\<And>j. q_bound (tp_workers tp' ! j) = q_bound (tp_workers (mv_pool s) ! j) \<and>
      q_budget (tp_workers (mv_pool s) ! j) - 1 \<le> q_budget (tp_workers tp' ! j)"
    by (rule mpmc.Submit_room [OF tp(1) b i r0(1)]) blast
  with sub(3) have p2: "pool_inv holds (mv_pool s2) [[ctx], []]" "tp_next (mv_pool s2) = 1" "tp_threads (mv_pool s2) = 2"
    "tp_running (mv_pool s2) = tp_running (mv_pool s)"
    "\<And>j. q_bound (tp_workers (mv_pool s2) ! j) = q_bound (tp_workers (mv_pool s) ! j) \<and>
      q_budget (tp_workers (mv_pool s) ! j) - 1 \<le> q_budget (tp_workers (mv_pool s2) ! j)"
    using tp(2,3) by simp_all
  have "length (tp_workers (mv_pool s2)) = 2" using p2(1,3) by (auto simp: pool_inv_def)
  moreover have "0 < q_budget (tp_workers (mv_pool s2) ! j)" if "j < 2" for j using p2(5) [of j] room [OF that] by linarith
  ultimately have b2: "\<forall>q \<in> set (tp_workers (mv_pool s2)). 0 < q_budget q" by (auto simp: in_set_conv_nth)
  have run2: "mayhem_run ew_env (Pop id) echo_task (\<lambda>q. 0 < q_budget q) s1 s2"
    by (rule mayhem_run.more_run [OF run mayhem_step.loop [OF sub(4) b]])
  have bd: "builder_fd (AsyncHttpContextBuilder_new mayhem_client (mv_system s)) = 6"
    "builder_system (AsyncHttpContextBuilder_new mayhem_client (mv_system s)) = mv_system s"
    by (simp_all add: builder_fd_def builder_system_def AsyncHttpContextBuilder_new_def BufferedStreamReader_new_def
        SocketStream_new_def fd)
  have line2: "ew_line g (mv_system s2) = ew_line g (builder_system b1)" for g
    by (simp add: sub(2) epoll_Unmonitor_def ewl.ctl_line)
  note parsed = ewl.parse_line [OF sub(1), unfolded bd, OF up6(1), folded line2]
  have pend: "pending_tasks (mv_pool s2) = {#ctx#}"
    using pending_Submit [OF sub(3) tp(1)] MayhemServer_new_pool(2) [OF new(1) c] tp(6) by simp
  have on: "tp_running (mv_pool s2) = replicate 2 True" using p2(4) MayhemServer_new_running [OF new(1)] tp(6) by simp
  have own: "ew_owned (mv_system s2) = {3, 4, 5, 6}" by (auto simp: sub(8) s(5) ew_owned_world)
  show thesis
    by (rule that [OF new run2 sub(9,10) _ _ _ p2(1-3) on b2 _ pend sub(7,5,6) parsed(1) own])
      (use parsed(2) parsed(3) [of 5] up6(2) sub(11) s(5,7) p2(5) [of 1] room [of 1] in simp_all)
qed

text \<open>
  The request of the first client waits in the pool when the loop handles the event of the second; each receives the
  echo of its own request.
\<close>

lemma mayhem_request_answered_witness:
  "\<exists>(s2 :: (ep_world, ep_world SocketStream HttpContext Queue) mayhem) s3 s4 ctx.
    pending_tasks (mv_pool s2) = {#ctx#} \<and> ss_fd (BodyStream ctx) = 6 \<and> Request ctx = sample_post \<and>
    Mayhem_step ew_env s2 = Some s3 \<and> run_contexts (Pop id) echo_task (concat (replicate 8 [1, 0])) s3 = Some s4 \<and>
    outbound (ew_line 5 (mv_system s4)) = surviving 0 (response_chunks (\<lambda>hs. hs)
      (set_length (TextResponse_PostHandle (echo other_post (fresh_response ''Mayhem''))))) \<and>
    outbound (ew_line 6 (mv_system s4)) = surviving 0 (response_chunks (\<lambda>hs. hs)
      (set_length (TextResponse_PostHandle (echo sample_post (fresh_response ''Mayhem''))))) \<and>
    ew_owned (mv_system s4) = {3, 4}"
proof -
  obtain s0 s1 s2 :: "(ep_world, ep_world SocketStream HttpContext Queue) mayhem" and ctx where
    s: "MayhemServer_new client_context 2 3 (mayhem_start two_posts) = Ret s0" "MakePowerOfTwo 3 = 4"
      "Mayhem_StartAsync ew_env 80 True s0 = (Ret True, s1)"
      "mayhem_run ew_env (Pop id) echo_task (\<lambda>q. 0 < q_budget q) s1 s2"
    and at: "mv_pc s2 = Mayhem_Events [ew_event 5, ew_event 3]" "mv_listenFd s2 = 3"
      "mv_handles s2 ! nat 5 = Some (other_builder two_posts)"
      "ew_line 5 (mv_system s2) = ew_line 5 (mayhem_ready two_posts)" "outbound (ew_line 6 (mv_system s2)) = []"
    and tp: "pool_inv holds (mv_pool s2) [[ctx], []]" "tp_next (mv_pool s2) = 1" "tp_threads (mv_pool s2) = 2"
      "tp_running (mv_pool s2) = replicate 2 True" "\<forall>q \<in> set (tp_workers (mv_pool s2)). 0 < q_budget q"
      "q_bound (tp_workers (mv_pool s2) ! 1) = 4" "pending_tasks (mv_pool s2) = {#ctx#}"
    and ctx: "ss_fd (BodyStream ctx) = 6" "Request ctx = sample_post" "Response ctx = fresh_response ''Mayhem''"
      "peer_up (ew_line 6 (mv_system s2))" "ew_owned (mv_system s2) = {3, 4, 5, 6}"
    by (rule sample_mayhem_waiting)
  note c = conjunct1 [OF capacity_three [OF s(2)]] conjunct2 [OF capacity_three [OF s(2)]]
  have fd: "SocketFd mayhem_other = 5" by (simp add: mayhem_other_def)
  have pool: "\<forall>i < 2. tp_running (mv_pool s2) ! i" by (simp add: tp(4))
  have i: "1 = unat (tp_next (mv_pool s2)) mod tp_threads (mv_pool s2)" by (simp add: tp(2,3))
  have room: "length ([[ctx], []] ! 1) < q_bound (tp_workers (mv_pool s2) ! 1)" by (simp add: tp(6) [simplified])
  have ev: "data_fd (ev_data (ew_event 5)) = SocketFd mayhem_other" "SocketFd mayhem_other \<noteq> mv_listenFd s2"
    "ev_events (ew_event 5) AND EPOLLIN \<noteq> 0"
    by (simp_all add: fd at(2) EPOLLIN_def)
  have h: "mv_handles s2 ! nat (SocketFd mayhem_other) = Some (other_builder two_posts)" using at(3) by (simp add: fd)
  have client: "0 < SocketFd mayhem_other" "peer_up (ew_line (SocketFd mayhem_other) (mv_system s2))"
    "peer_waiting (ew_line (SocketFd mayhem_other) (mv_system s2)) = HttpRequest_ToString (\<lambda>hs. hs) other_post @ []"
    unfolding fd at(4) two_posts_texts(2) [symmetric] using two_posts_ascii(2) by (simp_all add: mayhem_world_line)
  have q: "Host other_post \<noteq> []" "other_post\<lparr>Headers := Headers other_post\<rparr> = other_post"
    by (simp_all add: other_post_def sample_post_def)
  have path: "CleanPath (Path other_post) = Ret ''/echo''"
    "find_handler ew_dispatcher ''/echo'' (Method other_post) = (Some (text_endpoint echo), STATUS_OK)"
    using echo_route by (simp_all add: other_post_def sample_post_def)
  have others: "\<forall>c \<in># pending_tasks (mv_pool s2). context_asks ew_line peer_up ew_dispatcher (\<lambda>c. echo) (mv_system s2) c"
    using ctx(4) echo_route by (simp add: tp(7) context_asks_def ctx(1,2) sample_post_def)
  have rounds: "\<forall>is \<in> set (replicate 8 [1, 0 :: nat]). round_of 2 is"
    "4 * Suc (size (pending_tasks (mv_pool s2))) \<le> length (replicate 8 [1, 0 :: nat])"
    by (auto simp: round_of_def tp(7))
  from mayhem_request_answered [OF ew.epoll_os_axioms ewl.epoll_lines_axioms ew_dispatcher_keeps ew_no_errors iteration_id
      refl refl s(1) c s(3,4) pool tp(5,1) i room at(1) ev h client other_post_printable q(1)
      two_posts_ascii(4) [unfolded two_posts_texts(2)] path others refl rounds]
  obtain s3 s4 where r: "Mayhem_step ew_env s2 = Some s3"
    "run_contexts (Pop id) echo_task (concat (replicate 8 [1, 0])) s3 = Some s4"
    "outbound (ew_line (SocketFd mayhem_other) (mv_system s4)) = outbound (ew_line (SocketFd mayhem_other) (mv_system s2)) @
      surviving 0 (response_chunks (\<lambda>hs. hs) (set_length (TextResponse_PostHandle (echo other_post (fresh_response ''Mayhem'')))))"
    "\<forall>c \<in># pending_tasks (mv_pool s2). outbound (ew_line (ss_fd (BodyStream c)) (mv_system s4)) =
      outbound (ew_line (ss_fd (BodyStream c)) (mv_system s2)) @ context_reply (\<lambda>hs. hs) echo c"
    "ew_owned (mv_system s4) = ew_owned (mv_system s2) - insert (SocketFd mayhem_other) (set_mset (context_fds (mv_pool s2)))"
    unfolding q(2) by blast
  have "outbound (ew_line 5 (mv_system s2)) = []" by (simp add: at(4) mayhem_world_line)
  with r(3) have "outbound (ew_line 5 (mv_system s4)) = surviving 0 (response_chunks (\<lambda>hs. hs)
      (set_length (TextResponse_PostHandle (echo other_post (fresh_response ''Mayhem'')))))" unfolding fd by simp
  moreover have "outbound (ew_line 6 (mv_system s4)) = surviving 0 (response_chunks (\<lambda>hs. hs)
      (set_length (TextResponse_PostHandle (echo sample_post (fresh_response ''Mayhem'')))))"
    using r(4) by (simp add: tp(7) ctx(1-3) at(5) context_reply_def)
  moreover have "ew_owned (mv_system s4) = {3, 4}"
    using r(5) unfolding fd ctx(5) by (simp add: context_fds_def tp(7) ctx(1) insert_Diff_if)
  ultimately show ?thesis
    by (intro exI [of _ s2] exI [of _ s3] exI [of _ s4] exI [of _ ctx] conjI tp(7) ctx(1,2) r(1,2))
qed

end
