(* ===== verification/Spec2Isabelle.thy ===== *)
theory Spec2Isabelle
  imports Prelude Http IO_Reader IO_Writer Network Http_Context Thread_Pool Dispatcher Mayhem_Server Task Config
    Logging Native Host_Run Banner Async_Grammar Sync_Grammar Clients Mayhem_Progress
begin

text \<open>
  A model of minet-core, a library in C++ for HTTP servers, and proofs about it.

  \<^bold>\<open>The program.\<close> A program that uses the library makes a \<open>WebHostBuilder\<close>, reads its settings, registers
  handlers and builds a \<open>WebHost\<close>, whose \<open>Run\<close> starts a server and waits for it. There are three servers: the
  basic one handles a connection in its loop, the threaded one submits it to a thread pool, and the mayhem one
  watches its connections with an epoll, parses their requests piece by piece and submits the finished ones.
  A connection becomes a context (a request, a response and a stream) through one of two parsers, the context goes
  to the request dispatcher, which finds a handler, runs it, writes the response and closes the connection.

  \<^bold>\<open>The theories\<close>, with the files under \<open>src/minet\<close> they model (\<open>include\<close> for \<open>include/minet\<close>, the rest under \<open>src\<close>):

  \<^item> \<open>Prelude\<close>: machine integers, \<open>std::stoi\<close> and \<open>tolower\<close>, faults and outcomes, actions (code that may throw
    and may not return), and the lemmas all components share.
  \<^item> \<open>Http\<close>: \<open>include/common/Http.h\<close>, \<open>common/Http.cpp\<close>. \<open>Http_Message\<close>: the request and the response of
    \<open>include/core/HttpContext.h\<close> with their printers.
  \<^item> \<open>IO_Stream\<close>, \<open>IO_Reader\<close>, \<open>IO_Writer\<close>: \<open>io/Stream\<close>, \<open>io/StreamReader\<close>, \<open>io/StreamWriter\<close>. \<open>Stream_Frame\<close>: what
    every reader of a stream leaves alone.
  \<^item> \<open>Parser_Async\<close>: \<open>utils/AsyncParser.cpp\<close>, one function for each state, and \<open>Async_Grammar\<close>: the language it
    accepts. \<open>Parser_Sync\<close>: \<open>utils/Parser.cpp\<close>, with what each of its tokens reads; \<open>Sync_Runs\<close>: its runs over a text and
    over a stream; \<open>Sync_Grammar\<close>: the language it accepts.
  \<^item> \<open>Network\<close>: \<open>utils/Network.cpp\<close>. \<open>Epoll\<close>: \<open>utils/Epoll.cpp\<close>. \<open>Native\<close>: \<open>utils/Native.cpp\<close>.
  \<^item> \<open>Http_Context\<close>: \<open>core/HttpContext.cpp\<close>, the contexts and the asynchronous builder of one.
  \<^item> \<open>Queue\<close>: \<open>threading/Queue.h\<close>. \<open>Thread_Pool\<close>: \<open>threading/Worker.h\<close>, \<open>threading/ThreadPool.cpp\<close>.
    \<open>Pool_Progress\<close>: that accepted tasks get done and that the destructor returns; \<open>Pool_Service\<close>: the same with the
    effects of the tasks on the system. \<open>Task\<close>: \<open>threading/Task.h\<close>.
  \<^item> \<open>Dispatcher\<close>: \<open>core/IRequestDispatcher.cpp\<close>, \<open>components/RequestDispatcher.cpp\<close>, the wrappers of handlers in
    \<open>include/components\<close>, and \<open>impl/DefaultHandlers.cpp\<close>.
  \<^item> \<open>Connection\<close>: what a server does with one connection; \<open>Client_Lines\<close>: that the other connections do not notice. \<open>Server\<close>: \<open>components/BasicServer.cpp\<close>.
    \<open>Threaded_Server\<close>: \<open>components/ThreadedServer.cpp\<close>, \<open>Threaded_Progress\<close>: that it serves the connections that
    wait, and \<open>Clients\<close>: that each of several clients receives its own answer.
    \<open>Mayhem_Server\<close>: \<open>components/MayhemServer.cpp\<close>, and \<open>Mayhem_Progress\<close>: the whole way of its requests through it.
  \<^item> \<open>Config\<close>: \<open>common/Log.cpp\<close>, \<open>LoadServerConfig\<close> of \<open>core/IServer.cpp\<close>, \<open>components/LoggerFactory.cpp\<close> and the
    construction in \<open>components/Logger.cpp\<close>. \<open>Logging\<close>: \<open>include/components/Logger.h\<close>. \<open>Web_Host\<close>: \<open>core/WebHostBuilder.cpp\<close>, \<open>core/WebHost.cpp\<close>;
    \<open>Host_Run\<close>: \<open>Run\<close> over each of the servers, and its interruption; \<open>Banner\<close>: the banner, and \<open>include/version.h\<close>.

  \<^bold>\<open>How state corresponds.\<close> A class is a record with the source's members, a method a function on it that
  returns the result and the new record. The system outside is a type of its own: sockets, epoll and signals are
  records of functions (\<open>sock_ops\<close>, \<open>net_ops\<close>, \<open>ep_ops\<close>) that the definitions take as arguments. A reference to a
  stream, a queue or a service is the value itself, passed on from call to call. Code on several threads is a step
  relation: for the queue a step is one atomic access, for the pool one operation of a queue, for a server one turn of
  its loop or one step of a worker. Exceptions, failed assertions and undefined behaviour are values of \<open>fault\<close>.

  \<^bold>\<open>Interfaces.\<close> A client of a component is proved under a locale, which is interpreted on the definitions that
  provide it: \<open>byte_source\<close> and \<open>byte_sink\<close> (a stream delivers and takes bytes in order), \<open>char_reader\<close> and
  \<open>block_reader\<close> (the reader, for the parser), \<open>stream_frame\<close> and \<open>sink_frame\<close> (what reading and writing keep),
  \<open>response_channel\<close> (for the dispatcher), \<open>bounded_fifo\<close> (the queue, for the pool), \<open>socket_os\<close>, \<open>net_os\<close> and
  \<open>epoll_os\<close> (the descriptors of the system), \<open>server_system\<close>, \<open>basic_system\<close>, \<open>threaded_system\<close>, \<open>mayhem_system\<close>,
  \<open>epoll_handlers\<close> (a mayhem server), \<open>client_lines\<close> and \<open>epoll_lines\<close> (a line of its own for every connection),
  \<open>spdlog\<close> (the logging library, for the loggers),
  \<open>pool_service\<close> (a pool whose tasks close their descriptors) and \<open>own_lines\<close> (tasks that serve a line each). A scripted
  kernel with a peer behind every descriptor satisfies the laws of the system.

  \<^bold>\<open>What is shown.\<close>
  \<^item> End to end: a request to a host a program has built is answered by what the endpoint of its route computes from
    that very request (\<open>Web_Host\<close>); a request that arrives at a mayhem server goes through its builder, a queue, a worker and
    the dispatcher, and is answered with those that wait already, each on its own connection; the interrupt signal stops a run of any of the servers,
    in four steps of the loop when nothing is at hand; the builder's protocol and its exits; over a library that keeps the contract of spdlog
    a logger has written a message when the call returns.
  \<^item> Parsing: the language of each parser is a grammar. The asynchronous one accepts exactly behind a word of its grammar, the synchronous one exactly
    the words of its own where the announced body is all there, each with the request the grammar makes of it. Both parsers read back what the printers print, agree where their
    grammars meet, and the synchronous one returns on every stream. Streams: the reader and the writer deliver the bytes, and exactly where
    they do not.
  \<^item> Threads: the queue is first in, first out in every interleaving and free of races, and refines a list when
    run alone; the pool loses and repeats no task, and does all it has accepted while it runs, in whatever order its
    workers step; its destructor returns, and leaves the queued tasks undone; the clients that wait at a threaded
    server are all served, and each receives its own answer on its own connection; a task refines a machine of four
    phases that runs its routine once.
  \<^item> Dispatch: the dispatcher writes one response for every request whose function returns or throws a standard exception. Descriptors: when connections and
    listening sockets are closed, that waiting connections are open and not shared, and that every event of the epoll finds
    its builder.
  \<^item> Errors: configurations, malformed requests, full queues, and the faults in the code that the proofs
    brought up, each with a theorem or lemma that shows it.

  \<^bold>\<open>Bounds and loops.\<close> Counters of the queue are 64-bit words that wrap. The loops of the readers and parsers over a
  stream are \<open>partial_function (option)\<close>, and \<open>None\<close> is a run that does not return; that the synchronous parser returns is
  proved for every stream that keeps the contract, and the theorems about results state that there is one. The loops of
  an operation of the queue, run alone, are \<open>queue_run\<close>, which returns after one turn on every queue that keeps its
  invariant. There is no fuel; \<open>serve_steps\<close> counts turns of a server's loop, and three are enough to leave it when it is
  stopped with nothing at hand, four from a wait. Progress
  of threads is stated over schedules: four rounds, in each of which every worker steps, are enough for a task, and three steps
  of a worker for its join.

  \<^bold>\<open>Not modelled.\<close> The memory orders of the queue (its steps are sequentially consistent). The log messages of the
  components. The logging library, the JSON library and the service container, which
  are not part of the repository: the first two are parameters (of spdlog the registry of names is written out where the factory relies on it), of the third each service is a field of the builder.
  \<open>Stop\<close> does not bound what a mayhem server does with the events it has at hand: the loop tests \<open>_isRunning\<close> only between two
  waits, and the handling of an event may accept connections or
  read for ever.
  Signals are delivered between two steps. A registration after \<open>Build\<close>, which would change the dispatcher of the built
  host as well, is not followed. The demo, the tests and the build files are left out.
\<close>

end
